(* ===== verification/Raft_Types.thy ===== *)
theory Raft_Types
  imports Prelude
begin

text \<open>
  The data of the raft component: \<open>src/raft/raft_entry.hpp\<close> (entry positions and their comparison
  operators, log states, message headers, entries), \<open>src/raft/raft_rpc.hpp\<close> (the messages) and
  \<open>src/raft/raft_state.hpp\<close> (peers and the volatile state of a node). \<open>uint64_t\<close> is \<open>u64\<close>,
  \<open>std::string\<close> is \<open>string\<close>, \<open>data_t\<close> is \<open>string\<close> as the application instantiates it.
\<close>

record ip_port_t =
  ip :: string
  port :: int
  client_port :: int

record EntryInfo =
  ei_index :: u64
  ei_term :: u64

record LogState =
  ls_commit :: EntryInfo
  ls_uncommit :: EntryInfo

record MessageHeader =
  peer_id :: string
  destination_id :: string
  message_id :: u64
  hdr_term :: u64
  log_state :: LogState

text \<open>The comparison operators as they are written. \<open>operator<\<close> compares \<open>lhs.term\<close> with itself,
  so the term never takes part; \<open>operator==\<close> asks for \<open>lhs.term < lhs.term\<close>.\<close>

definition entry_less :: "EntryInfo \<Rightarrow> EntryInfo \<Rightarrow> bool" where
  "entry_less lhs rhs =
     (if ei_term lhs = ei_term lhs then ei_index lhs < ei_index rhs
      else ei_term lhs < ei_term rhs)"

definition entry_eq :: "EntryInfo \<Rightarrow> EntryInfo \<Rightarrow> bool" where
  "entry_eq lhs rhs \<longleftrightarrow> ei_term lhs < ei_term lhs \<and> ei_index lhs = ei_index rhs"

definition entry_neq :: "EntryInfo \<Rightarrow> EntryInfo \<Rightarrow> bool" where
  "entry_neq lhs rhs \<longleftrightarrow> \<not> entry_eq lhs rhs"

definition entry_le :: "EntryInfo \<Rightarrow> EntryInfo \<Rightarrow> bool" where
  "entry_le lhs rhs \<longleftrightarrow> \<not> entry_less rhs lhs"

definition entry_greater :: "EntryInfo \<Rightarrow> EntryInfo \<Rightarrow> bool" where
  "entry_greater lhs rhs \<longleftrightarrow> entry_less rhs lhs"

definition entry_ge :: "EntryInfo \<Rightarrow> EntryInfo \<Rightarrow> bool" where
  "entry_ge lhs rhs \<longleftrightarrow> \<not> entry_less lhs rhs"

record Entry =
  info :: EntryInfo
  data :: string

subsection \<open>Messages\<close>

record AppendEntriesRequest =
  aer_header :: MessageHeader
  previous_entry :: EntryInfo
  entries :: "Entry list"

record AppendEntriesResponse =
  aes_header :: MessageHeader
  success :: bool

record VoteRequest =
  vr_header :: MessageHeader

record VoteResponse =
  vs_header :: MessageHeader
  vote_granted :: bool

record ClientRequest =
  cr_client_id :: string
  cr_message_id :: string
  cr_data :: string

record ClientResponse =
  cs_message_id :: string
  cs_entry_info :: EntryInfo

record NotLeaderResponse =
  nl_leader_id :: string
  nl_leader_info :: ip_port_t

record CurrentEntryResponse =
  ce_entry_info :: EntryInfo

record PeerConfig =
  pc_name :: string
  pc_address :: string
  pc_peer_port :: int
  pc_client_port :: int
  pc_is_new :: bool

record ConfigChangeRequest =
  cc_header :: MessageHeader
  cc_previous_entry :: u64
  cc_peer_configs :: "PeerConfig list"
  cc_request_watermark :: u64

subsection \<open>Peers and the volatile state\<close>

record peer_info_t =
  ip_port :: ip_port_t
  pid :: string
  next_entry :: EntryInfo
  match_entry :: EntryInfo
  last_message_id :: u64
  voted_for_me :: bool
  waiting_for_response :: bool

definition new_peer :: "string \<Rightarrow> string \<Rightarrow> int \<Rightarrow> int \<Rightarrow> peer_info_t" where
  "new_peer i a p cp =
     \<lparr>ip_port = \<lparr>ip = a, port = p, client_port = cp\<rparr>, pid = i,
      next_entry = \<lparr>ei_index = 1, ei_term = 1\<rparr>, match_entry = \<lparr>ei_index = 0, ei_term = 0\<rparr>,
      last_message_id = 0, voted_for_me = False, waiting_for_response = False\<rparr>"

definition peer_reset :: "peer_info_t \<Rightarrow> peer_info_t" where
  "peer_reset p = p\<lparr>voted_for_me := False, last_message_id := last_message_id p + 1,
                    waiting_for_response := False\<rparr>"

datatype Role = Candidate | Follower | Leader

record State =
  role :: Role
  sid :: string
  leader_id :: string
  known_peers :: "peer_info_t list"
  cluster_new :: "peer_info_t list"
  cluster_old :: "peer_info_t list"
  minimum_timeout_reached :: bool

definition new_state :: "string \<Rightarrow> peer_info_t list \<Rightarrow> State" where
  "new_state i ps =
     \<lparr>role = Follower, sid = i, leader_id = i, known_peers = ps, cluster_new = [],
      cluster_old = [], minimum_timeout_reached = True\<rparr>"

definition find_peer :: "State \<Rightarrow> string \<Rightarrow> peer_info_t option" where
  "find_peer s i = find (\<lambda>p. pid p = i) (known_peers s)"

text \<open>A write through the pointer \<open>find_peer\<close> returns.\<close>

definition update_peer :: "string \<Rightarrow> (peer_info_t \<Rightarrow> peer_info_t) \<Rightarrow> State \<Rightarrow> State" where
  "update_peer i f s = s\<lparr>known_peers := update_first (\<lambda>p. pid p = i) f (known_peers s)\<rparr>"

fun role_to_string :: "Role \<Rightarrow> string" where
  "role_to_string Candidate = ''candidate''"
| "role_to_string Leader = ''leader''"
| "role_to_string Follower = ''follower''"

subsection \<open>Facts\<close>

lemma entry_eq_False [simp]: "entry_eq a b = False"
  by (simp add: entry_eq_def)

lemma entry_less_index: "entry_less a b \<longleftrightarrow> ei_index a < ei_index b"
  by (simp add: entry_less_def)

lemma find_peer_set: "find_peer s i = Some p \<Longrightarrow> p \<in> set (known_peers s) \<and> pid p = i"
  unfolding find_peer_def using find_Some_set by fastforce

lemma update_peer_simps [simp, frame_simps]:
  "role (update_peer i f s) = role s"
  "sid (update_peer i f s) = sid s"
  "leader_id (update_peer i f s) = leader_id s"
  "minimum_timeout_reached (update_peer i f s) = minimum_timeout_reached s"
  by (simp_all add: update_peer_def)

lemma update_peer_pids:
  "(\<And>p. pid (f p) = pid p) \<Longrightarrow>
   map pid (known_peers (update_peer i f s)) = map pid (known_peers s)"
  by (simp add: update_peer_def map_update_first)

lemma peer_reset_pid [simp]: "pid (peer_reset p) = pid p"
  by (simp add: peer_reset_def)

text \<open>
  The comparison operators of raft entries never look at the term. Equality is false of every
  pair, also of an entry and itself, and the four orderings compare the indices alone.
\<close>

theorem entry_comparisons_ignore_term:
  "\<not> entry_eq a b \<and> entry_neq a b \<and>
   entry_less a b = (ei_index a < ei_index b) \<and>
   entry_le a b = (ei_index a \<le> ei_index b) \<and>
   entry_greater a b = (ei_index b < ei_index a) \<and>
   entry_ge a b = (ei_index b \<le> ei_index a)"
  by (auto simp: entry_neq_def entry_le_def entry_greater_def entry_ge_def entry_less_index)

end
