(* ===== verification/Raft_Storage.thy ===== *)
theory Raft_Storage
  imports Raft_Types
begin

text \<open>
  The persistent state of a raft node: the interface \<open>src/raft/raft_storage.hpp\<close> and its
  implementation \<open>MemStorage\<close> of \<open>src/raft/mem_storage.cpp\<close>. The vector \<open>entries_\<close> is a
  list, the journal file is the list of the lines written to it (a write that fails ends the
  process and is not modelled). Indexing past the vector and erasing with an iterator outside it are
  \<open>OutOfRange\<close>; the code's own \<open>exit(1)\<close> is \<open>ExitProcess\<close>.

  The contract of the interface is the locale \<open>raft_log\<close>: an abstract log is the list of the
  appended entries, and the operations are described on that list. \<open>MemStorage\<close> interprets it.
\<close>

record MemStorage =
  st_entries :: "Entry list"
  st_log_file :: "string list"
  st_voted_for :: string
  st_uncommit :: EntryInfo
  st_commit :: EntryInfo
  st_current_term :: u64

definition zero_info :: EntryInfo where
  "zero_info = \<lparr>ei_index = 0, ei_term = 0\<rparr>"

definition new_MemStorage :: MemStorage where
  "new_MemStorage =
     \<lparr>st_entries = [], st_log_file = [], st_voted_for = [], st_uncommit = zero_info, st_commit = zero_info,
      st_current_term = 0\<rparr>"

definition journal_write :: "string \<Rightarrow> MemStorage \<Rightarrow> MemStorage" where
  "journal_write line s = s\<lparr>st_log_file := st_log_file s @ [line]\<rparr>"

definition entry_line :: "Entry \<Rightarrow> string" where
  "entry_line e = ''E '' @ dec_word (ei_index (info e)) @ '' '' @ data e @ [CHR 0x0A]"

definition append_log :: "MemStorage \<Rightarrow> Entry list \<Rightarrow> (MemStorage \<times> EntryInfo) res" where
  "append_log s es =
     (case es of
        [] \<Rightarrow> Inr (s, st_uncommit s)
      | e # _ \<Rightarrow>
          res_bind
            (if ei_index (info e) \<le> ei_index (st_uncommit s) then
               (let i = unat (ei_index (st_uncommit s) - 1) in
                if length (st_entries s) \<le> i then Inl OutOfRange
                else if ei_index (info (st_entries s ! i)) \<noteq> ei_index (st_uncommit s) then Inl ExitProcess
                else if ei_index (info e) = 0 then Inl OutOfRange
                else Inr (take (unat (ei_index (info e) - 1)) (st_entries s)))
             else Inr (st_entries s))
            (\<lambda>kept.
               let s' = journal_write (concat (map entry_line es)) (s\<lparr>st_entries := kept @ es\<rparr>);
                   u = info (last es)
               in Inr (s'\<lparr>st_uncommit := u\<rparr>, u)))"

definition set_voted_for :: "MemStorage \<Rightarrow> string \<Rightarrow> MemStorage" where
  "set_voted_for s i =
     (if st_voted_for s = i then s
      else (let s' = (if i \<noteq> [] then journal_write (''V '' @ i @ [CHR 0x0A]) s else s)
            in s'\<lparr>st_voted_for := i\<rparr>))"

definition set_current_term :: "MemStorage \<Rightarrow> u64 \<Rightarrow> MemStorage" where
  "set_current_term s t =
     (if st_current_term s = t then s
      else (journal_write (''T '' @ dec_word t @ [CHR 0x0A]) s)\<lparr>st_current_term := t\<rparr>)"

definition get_entry_info :: "MemStorage \<Rightarrow> u64 \<Rightarrow> EntryInfo res" where
  "get_entry_info s i =
     (if i = 0 \<or> length (st_entries s) < unat i then Inr zero_info
      else if ei_index (info (st_entries s ! unat (i - 1))) \<noteq> i then Inl ExitProcess
      else Inr (info (st_entries s ! unat (i - 1))))"

definition commit_until :: "MemStorage \<Rightarrow> u64 \<Rightarrow> (MemStorage \<times> EntryInfo) res" where
  "commit_until s i =
     (let c = min (ei_index (st_uncommit s)) i in
      if ei_index (st_commit s) = c then Inr (s, st_commit s)
      else
        (let s' = journal_write (''C '' @ dec_word c @ [CHR 0x0A]) s in
         res_bind (get_entry_info s' c) (\<lambda>e. Inr (s'\<lparr>st_commit := e\<rparr>, e))))"

definition get_log_state :: "MemStorage \<Rightarrow> LogState" where
  "get_log_state s = \<lparr>ls_commit = st_commit s, ls_uncommit = st_uncommit s\<rparr>"

definition entries_since :: "MemStorage \<Rightarrow> u64 \<Rightarrow> (Entry list) res" where
  "entries_since s i =
     (if length (st_entries s) \<le> unat i then Inr []
      else if ei_index (info (st_entries s ! unat i)) \<noteq> i + 1 then Inl ExitProcess
      else Inr (drop (unat i) (st_entries s)))"

subsection \<open>The invariant of the log\<close>

text \<open>Entry \<open>k\<close> of the vector carries index \<open>k + 1\<close>, the positions \<open>uncommit_\<close> and
  \<open>commit_\<close> are those of entries of the vector (or zero), in that order.\<close>

definition numbered :: "Entry list \<Rightarrow> bool" where
  "numbered es \<longleftrightarrow> length es < 2 ^ 64 \<and>
     (\<forall>k < length es. unat (ei_index (info (es ! k))) = k + 1)"

definition info_at :: "Entry list \<Rightarrow> nat \<Rightarrow> EntryInfo" where
  "info_at es n = (if n = 0 then zero_info else info (es ! (n - 1)))"

definition storage_ok :: "MemStorage \<Rightarrow> bool" where
  "storage_ok s \<longleftrightarrow> numbered (st_entries s) \<and>
     st_uncommit s = info_at (st_entries s) (length (st_entries s)) \<and>
     (\<exists>c \<le> length (st_entries s). st_commit s = info_at (st_entries s) c)"

text \<open>A batch a leader sends: numbered consecutively from \<open>n + 1\<close> on.\<close>

definition batch_from :: "nat \<Rightarrow> Entry list \<Rightarrow> bool" where
  "batch_from n es \<longleftrightarrow> n + length es < 2 ^ 64 \<and>
     (\<forall>k < length es. unat (ei_index (info (es ! k))) = n + k + 1)"

lemma storage_ok_new: "storage_ok new_MemStorage"
  by (simp add: storage_ok_def new_MemStorage_def numbered_def info_at_def)

lemma numbered_take: "numbered es \<Longrightarrow> numbered (take n es)"
  by (auto simp: numbered_def)

lemma numbered_append:
  "numbered (xs @ ys) \<longleftrightarrow> numbered xs \<and> batch_from (length xs) ys"
proof
  assume n: "numbered (xs @ ys)"
  have "unat (ei_index (info (xs ! k))) = k + 1" if "k < length xs" for k
    using n that by (auto simp: numbered_def nth_append dest: spec [of _ k])
  moreover have "unat (ei_index (info (ys ! k))) = length xs + k + 1" if "k < length ys" for k
    using n that by (auto simp: numbered_def dest: spec [of _ "length xs + k"])
  ultimately show "numbered xs \<and> batch_from (length xs) ys"
    using n by (auto simp: numbered_def batch_from_def)
next
  assume "numbered xs \<and> batch_from (length xs) ys"
  then show "numbered (xs @ ys)"
    by (auto simp: numbered_def batch_from_def nth_append)
qed

lemma unat_index_info_at:
  "numbered es \<Longrightarrow> n \<le> length es \<Longrightarrow> unat (ei_index (info_at es n)) = n"
  by (auto simp: info_at_def zero_info_def numbered_def)

lemma info_at_append: "n \<le> length xs \<Longrightarrow> info_at (xs @ ys) n = info_at xs n"
  by (auto simp: info_at_def nth_append)

lemma info_at_take: "n \<le> m \<Longrightarrow> m \<le> length xs \<Longrightarrow> info_at (take m xs) n = info_at xs n"
  by (auto simp: info_at_def)

lemma info_at_last: "es \<noteq> [] \<Longrightarrow> info_at es (length es) = info (last es)"
  by (simp add: info_at_def last_conv_nth)

lemma storage_ok_uncommit_index:
  "storage_ok s \<Longrightarrow> unat (ei_index (st_uncommit s)) = length (st_entries s)"
  by (auto simp: storage_ok_def unat_index_info_at)

lemma storage_ok_commit_le:
  "storage_ok s \<Longrightarrow> ei_index (st_commit s) \<le> ei_index (st_uncommit s)"
  by (auto simp: storage_ok_def word_le_nat_alt unat_index_info_at)

lemma storage_ok_commit_info:
  "storage_ok s \<Longrightarrow> st_commit s = info_at (st_entries s) (unat (ei_index (st_commit s)))"
  by (auto simp: storage_ok_def unat_index_info_at)

lemma unat_pred: "(w :: u64) \<noteq> 0 \<Longrightarrow> unat (w - 1) = unat w - 1"
  by (metis unat_minus_one)

subsection \<open>The operations on a storage that satisfies the invariant\<close>

lemma entries_since_ok:
  assumes "storage_ok s"
  shows "entries_since s i = Inr (drop (unat i) (st_entries s))"
proof (cases "length (st_entries s) \<le> unat i")
  case True
  then show ?thesis by (simp add: entries_since_def)
next
  case False
  then have lt: "unat i < length (st_entries s)" by simp
  have n: "numbered (st_entries s)" using assms by (simp add: storage_ok_def)
  then have "unat (ei_index (info (st_entries s ! unat i))) = unat i + 1"
    using lt by (simp add: numbered_def)
  moreover have "unat (i + 1) = unat i + 1"
    using n lt by (simp add: numbered_def unat_word_ariths)
  ultimately have "ei_index (info (st_entries s ! unat i)) = i + 1"
    by (intro unat_eqD) simp
  with False show ?thesis by (simp add: entries_since_def)
qed

lemma get_entry_info_ok:
  assumes "storage_ok s"
  shows "get_entry_info s i =
         Inr (if unat i \<le> length (st_entries s) then info_at (st_entries s) (unat i) else zero_info)"
proof (cases "i = 0 \<or> length (st_entries s) < unat i")
  case True
  then show ?thesis by (auto simp: get_entry_info_def info_at_def)
next
  case False
  then have nz: "i \<noteq> 0" and le: "unat i \<le> length (st_entries s)" by auto
  have pos: "unat i > 0" using nz by (simp add: unat_gt_0)
  have "unat (ei_index (info (st_entries s ! (unat i - 1)))) = unat i"
    using assms le pos by (simp add: storage_ok_def numbered_def)
  then have "ei_index (info (st_entries s ! (unat i - 1))) = i"
    by (rule unat_eqD)
  with False le nz pos show ?thesis
    by (simp add: get_entry_info_def unat_pred info_at_def)
qed

lemma journal_write_simps [simp, frame_simps]:
  "st_entries (journal_write l s) = st_entries s"
  "st_uncommit (journal_write l s) = st_uncommit s"
  "st_commit (journal_write l s) = st_commit s"
  "st_voted_for (journal_write l s) = st_voted_for s"
  "st_current_term (journal_write l s) = st_current_term s"
  by (simp_all add: journal_write_def)

lemma storage_ok_cong:
  "st_entries s = st_entries s' \<Longrightarrow> st_uncommit s = st_uncommit s' \<Longrightarrow> st_commit s = st_commit s' \<Longrightarrow>
   storage_ok s = storage_ok s'"
  by (simp add: storage_ok_def)

lemma storage_ok_journal [simp]: "storage_ok (journal_write l s) = storage_ok s"
  by (rule storage_ok_cong) simp_all

lemma commit_until_ok:
  assumes ok: "storage_ok s"
  shows "\<exists>s'. commit_until s i = Inr (s', st_commit s') \<and> storage_ok s' \<and>
              st_entries s' = st_entries s \<and> st_uncommit s' = st_uncommit s \<and>
              st_voted_for s' = st_voted_for s \<and> st_current_term s' = st_current_term s \<and>
              st_commit s' = info_at (st_entries s) (min (length (st_entries s)) (unat i))"
proof -
  let ?c = "min (ei_index (st_uncommit s)) i"
  have c: "unat ?c = min (length (st_entries s)) (unat i)"
    using storage_ok_uncommit_index [OF ok] by (auto simp: min_def word_le_nat_alt)
  show ?thesis
  proof (cases "ei_index (st_commit s) = ?c")
    case True
    then have "st_commit s = info_at (st_entries s) (min (length (st_entries s)) (unat i))"
      using storage_ok_commit_info [OF ok] c by simp
    with True ok show ?thesis by (auto simp: commit_until_def)
  next
    case False
    let ?s = "journal_write (''C '' @ dec_word ?c @ [CHR 0x0A]) s"
    have "get_entry_info ?s ?c = Inr (info_at (st_entries s) (unat ?c))"
      using get_entry_info_ok [of ?s ?c] ok c by simp
    moreover have "storage_ok (?s\<lparr>st_commit := info_at (st_entries s) (unat ?c)\<rparr>)"
      using ok c unfolding storage_ok_def by (auto intro!: exI [of _ "unat ?c"])
    ultimately show ?thesis
      using False c by (auto simp: commit_until_def Let_def)
  qed
qed

lemma append_log_frame:
  assumes "append_log s es = Inr (s', u)"
  shows "st_voted_for s' = st_voted_for s \<and> st_current_term s' = st_current_term s \<and>
         st_commit s' = st_commit s \<and> u = st_uncommit s'"
  using assms
  by (auto simp: append_log_def Let_def journal_write_def split: list.splits if_splits)

lemma append_log_ok:
  assumes ok: "storage_ok s" and b: "batch_from n es"
    and lo: "unat (ei_index (st_commit s)) \<le> n" and hi: "n \<le> length (st_entries s)"
  shows "\<exists>s'. append_log s es = Inr (s', st_uncommit s') \<and> storage_ok s' \<and>
              st_entries s' = (if es = [] then st_entries s else take n (st_entries s) @ es)"
proof (cases es)
  case Nil
  then show ?thesis using ok by (auto simp: append_log_def)
next
  case (Cons e es')
  let ?kept = "take n (st_entries s)"
  have n: "numbered (st_entries s)" using ok by (simp add: storage_ok_def)
  have first: "unat (ei_index (info e)) = n + 1" using b Cons by (auto simp: batch_from_def)
  have ne: "ei_index (info e) \<noteq> 0" using first by auto
  have u: "unat (ei_index (st_uncommit s)) = length (st_entries s)"
    by (rule storage_ok_uncommit_index [OF ok])
  have kept: "(if ei_index (info e) \<le> ei_index (st_uncommit s) then
               (let i = unat (ei_index (st_uncommit s) - 1) in
                if length (st_entries s) \<le> i then Inl OutOfRange
                else if ei_index (info (st_entries s ! i)) \<noteq> ei_index (st_uncommit s) then Inl ExitProcess
                else if ei_index (info e) = 0 then Inl OutOfRange
                else Inr (take (unat (ei_index (info e) - 1)) (st_entries s)))
             else Inr (st_entries s)) = (Inr ?kept :: (Entry list) res)"
  proof (cases "ei_index (info e) \<le> ei_index (st_uncommit s)")
    case True
    then have len: "n < length (st_entries s)"
      using first u by (simp add: word_le_nat_alt)
    then have nz: "ei_index (st_uncommit s) \<noteq> 0" using u by (metis length_greater_0_conv less_zeroE list.size(3) unat_0)
    have i: "unat (ei_index (st_uncommit s) - 1) = length (st_entries s) - 1"
      using u nz by (simp add: unat_pred)
    have "unat (ei_index (info (st_entries s ! (length (st_entries s) - 1)))) =
          unat (ei_index (st_uncommit s))"
      using n len u by (simp add: numbered_def)
    then have "ei_index (info (st_entries s ! (length (st_entries s) - 1))) = ei_index (st_uncommit s)"
      by (rule unat_eqD)
    moreover have "unat (ei_index (info e) - 1) = n" using first ne by (simp add: unat_pred)
    ultimately show ?thesis using True len i ne by (auto simp: Let_def)
  next
    case False
    then have "length (st_entries s) \<le> n" using first u by (simp add: word_le_nat_alt)
    with False show ?thesis by simp
  qed
  have num: "numbered (?kept @ es)"
    using n b hi by (simp add: numbered_append numbered_take min_absorb2)
  have last: "info (last es) = info_at (?kept @ es) (length (?kept @ es))"
    using Cons info_at_last [of "?kept @ es"] by simp
  have com: "st_commit s = info_at (?kept @ es) (unat (ei_index (st_commit s)))"
    using storage_ok_commit_info [OF ok] lo hi
    by (simp add: info_at_append info_at_take)
  have le: "unat (ei_index (st_commit s)) \<le> length (?kept @ es)"
    using lo hi by simp
  show ?thesis
    using Cons kept num last com le
    by (auto simp: append_log_def storage_ok_def Let_def journal_write_def
             intro!: exI [of _ "unat (ei_index (st_commit s))"])
qed

subsection \<open>The interface\<close>

text \<open>
  What \<open>raft_storage.hpp\<close> promises its client, over an abstract log: a batch numbered from
  \<open>n + 1\<close> on, at or above the committed position, replaces everything after position \<open>n\<close>;
  committing moves the committed position and nothing else; the two read operations return
  suffixes and positions of the log.
\<close>

locale raft_log =
  fixes log :: "'s \<Rightarrow> Entry list"
    and ok :: "'s \<Rightarrow> bool"
    and committed :: "'s \<Rightarrow> nat"
    and app :: "'s \<Rightarrow> Entry list \<Rightarrow> ('s \<times> EntryInfo) res"
    and commit :: "'s \<Rightarrow> u64 \<Rightarrow> ('s \<times> EntryInfo) res"
    and since :: "'s \<Rightarrow> u64 \<Rightarrow> (Entry list) res"
    and info_of :: "'s \<Rightarrow> u64 \<Rightarrow> EntryInfo res"
  assumes committed_le: "ok s \<Longrightarrow> committed s \<le> length (log s)"
    and log_numbered: "ok s \<Longrightarrow> numbered (log s)"
    and app_law: "ok s \<Longrightarrow> batch_from n es \<Longrightarrow> committed s \<le> n \<Longrightarrow> n \<le> length (log s) \<Longrightarrow>
      \<exists>s'. app s es = Inr (s', info_at (log s') (length (log s'))) \<and> ok s' \<and> committed s' = committed s \<and>
           log s' = (if es = [] then log s else take n (log s) @ es)"
    and commit_law: "ok s \<Longrightarrow>
      \<exists>s'. commit s i = Inr (s', info_at (log s) (committed s')) \<and> ok s' \<and> log s' = log s \<and>
           committed s' = min (length (log s)) (unat i)"
    and since_law: "ok s \<Longrightarrow> since s i = Inr (drop (unat i) (log s))"
    and info_law: "ok s \<Longrightarrow>
      info_of s i = Inr (if unat i \<le> length (log s) then info_at (log s) (unat i) else zero_info)"
begin

lemma app_keeps_committed:
  assumes "ok s" "batch_from n es" "committed s \<le> n" "n \<le> length (log s)"
    and "app s es = Inr (s', u)"
  shows "take (committed s) (log s') = take (committed s) (log s) \<and> committed s' = committed s"
  using app_law [OF assms(1-4)] assms(3-5) by (auto simp: min_absorb1)

lemma suffix_is_batch:
  assumes "ok l" "n \<le> length (log l)"
  shows "batch_from n (drop n (log l))"
  using log_numbered [OF assms(1)] numbered_append [of "take n (log l)" "drop n (log l)"] assms(2)
  by (simp add: min_absorb2)

text \<open>Replication: a follower whose log agrees with the leader's up to \<open>i\<close>, and that appends what
  the leader reads from \<open>i\<close> on, ends with the leader's log (unless the suffix is empty).\<close>

lemma replication:
  assumes l: "ok l" and f: "ok f" and i: "unat i < length (log l)"
    and agree: "take (unat i) (log l) = take (unat i) (log f)"
    and "unat i \<le> length (log f)" "committed f \<le> unat i"
    and read: "since l i = Inr es"
  shows "\<exists>f'. app f es = Inr (f', info_at (log l) (length (log l))) \<and> ok f' \<and> log f' = log l"
proof -
  have es: "es = drop (unat i) (log l)" using since_law [OF l] read by simp
  then have b: "batch_from (unat i) es" using suffix_is_batch [OF l, of "unat i"] i by simp
  have "take (unat i) (log f) @ es = log l" using agree es by (metis append_take_drop_id)
  moreover have "es \<noteq> []" using es i by simp
  ultimately show ?thesis using app_law [OF f b assms(6) assms(5)] by auto
qed

end

definition st_committed :: "MemStorage \<Rightarrow> nat" where
  "st_committed s = unat (ei_index (st_commit s))"

lemma st_committed_le: "storage_ok s \<Longrightarrow> st_committed s \<le> length (st_entries s)"
  using storage_ok_commit_le [of s] storage_ok_uncommit_index [of s]
  by (simp add: st_committed_def word_le_nat_alt)

interpretation mem: raft_log st_entries storage_ok st_committed append_log commit_until entries_since
  get_entry_info
proof (unfold_locales, goal_cases)
  case (1 s)
  then show ?case by (rule st_committed_le)
next
  case (2 s)
  then show ?case by (simp add: storage_ok_def)
next
  case (3 s n es)
  then obtain s' where s': "append_log s es = Inr (s', st_uncommit s')" "storage_ok s'"
      "st_entries s' = (if es = [] then st_entries s else take n (st_entries s) @ es)"
    using append_log_ok [of s n es] by (auto simp: st_committed_def)
  moreover have "st_committed s' = st_committed s"
    using append_log_frame [OF s'(1)] by (simp add: st_committed_def)
  moreover have "st_uncommit s' = info_at (st_entries s') (length (st_entries s'))"
    using s'(2) by (simp add: storage_ok_def)
  ultimately show ?case by auto
next
  case (4 s i)
  then obtain s' where s': "commit_until s i = Inr (s', st_commit s')" "storage_ok s'"
      "st_entries s' = st_entries s"
      "st_commit s' = info_at (st_entries s) (min (length (st_entries s)) (unat i))"
    using commit_until_ok by blast
  then have "st_committed s' = min (length (st_entries s)) (unat i)"
    using 4 by (simp add: st_committed_def unat_index_info_at storage_ok_def)
  then show ?case using s' by auto
next
  case (5 s i)
  then show ?case by (rule entries_since_ok)
next
  case (6 s i)
  then show ?case by (rule get_entry_info_ok)
qed

subsection \<open>Properties\<close>

text \<open>
  C29: every write operation of \<open>MemStorage\<close> keeps the log invariant, returns instead of
  exiting, and never touches a committed entry: \<open>append\<close> of a batch placed at or above the
  committed position keeps the committed prefix and replaces the rest, \<open>commit_until\<close> moves the
  committed position to the smaller of the argument and the end of the log.
\<close>

theorem storage_append_refines_log:
  assumes "storage_ok s" "batch_from n es" "st_committed s \<le> n" "n \<le> length (st_entries s)"
  shows "\<exists>s'. append_log s es = Inr (s', st_uncommit s') \<and> storage_ok s' \<and>
              st_entries s' = (if es = [] then st_entries s else take n (st_entries s) @ es) \<and>
              take (st_committed s) (st_entries s') = take (st_committed s) (st_entries s) \<and>
              st_commit s' = st_commit s"
proof -
  obtain s' where s': "append_log s es = Inr (s', st_uncommit s')" "storage_ok s'"
      "st_entries s' = (if es = [] then st_entries s else take n (st_entries s) @ es)"
    using append_log_ok [of s n es] assms by (auto simp: st_committed_def)
  then show ?thesis
    using mem.app_keeps_committed [OF assms s'(1)] append_log_frame [OF s'(1)] by blast
qed

definition demo_entry :: "nat \<Rightarrow> string \<Rightarrow> Entry" where
  "demo_entry n d = \<lparr>info = \<lparr>ei_index = of_nat n, ei_term = 1\<rparr>, data = d\<rparr>"

definition demo_storage :: MemStorage where
  "demo_storage =
     new_MemStorage\<lparr>st_entries := [demo_entry 1 ''a'', demo_entry 2 ''b''],
       st_uncommit := info (demo_entry 2 ''b''), st_commit := info (demo_entry 1 ''a'')\<rparr>"

lemma demo_storage_ok: "storage_ok demo_storage"
proof -
  have "numbered [demo_entry 1 ''a'', demo_entry 2 ''b'']"
    by (auto simp: numbered_def demo_entry_def less_Suc_eq nth_Cons')
  moreover have "info (demo_entry 1 ''a'') = info_at [demo_entry 1 ''a'', demo_entry 2 ''b''] 1"
    by (simp add: info_at_def)
  ultimately show ?thesis
    by (auto simp: storage_ok_def demo_storage_def info_at_def intro!: exI [of _ 1])
qed

lemma demo_batch: "batch_from 1 [demo_entry 2 ''c'', demo_entry 3 ''d'']"
  by (auto simp: batch_from_def demo_entry_def less_Suc_eq nth_Cons')

theorem storage_append_refines_log_witness:
  "\<exists>s'. append_log demo_storage [demo_entry 2 ''c'', demo_entry 3 ''d''] = Inr (s', st_uncommit s') \<and>
        map data (st_entries s') = [''a'', ''c'', ''d''] \<and> st_commit s' = st_commit demo_storage"
proof -
  have "st_committed demo_storage \<le> 1" "1 \<le> length (st_entries demo_storage)"
    by (simp_all add: demo_storage_def st_committed_def demo_entry_def)
  from storage_append_refines_log [OF demo_storage_ok demo_batch this]
  show ?thesis by (auto simp: demo_storage_def demo_entry_def)
qed

text \<open>
  Log replication through the storage interface. When the follower's log agrees with the leader's
  up to position \<open>i\<close> and nothing after \<open>i\<close> is committed there, appending what the leader's
  \<open>entries_since(i)\<close> returns gives the follower the leader's log.
\<close>

theorem storage_replication:
  assumes "storage_ok l" "storage_ok f" "unat i < length (st_entries l)"
    and "take (unat i) (st_entries l) = take (unat i) (st_entries f)"
    and "unat i \<le> length (st_entries f)" "st_committed f \<le> unat i"
  shows "\<exists>es f'. entries_since l i = Inr es \<and> append_log f es = Inr (f', st_uncommit l) \<and>
                 storage_ok f' \<and> st_entries f' = st_entries l"
proof -
  have "entries_since l i = Inr (drop (unat i) (st_entries l))"
    by (rule entries_since_ok [OF assms(1)])
  then show ?thesis
    using mem.replication [OF assms(1-6)] assms(1) by (auto simp: storage_ok_def)
qed

theorem storage_replication_witness:
  "\<exists>es f'. entries_since demo_storage 0 = Inr es \<and> append_log new_MemStorage es = Inr (f', st_uncommit demo_storage) \<and>
           storage_ok f' \<and> st_entries f' = st_entries demo_storage"
  using storage_replication [OF demo_storage_ok storage_ok_new, of 0]
  by (simp add: demo_storage_def new_MemStorage_def st_committed_def zero_info_def)

text \<open>
  \<open>commit_until\<close> ends normally on a well-formed log, keeps every entry, and the committed
  position becomes exactly the smaller of the requested index and the last index.
\<close>

theorem storage_commit_until:
  assumes "storage_ok s"
  shows "\<exists>s'. commit_until s i = Inr (s', st_commit s') \<and> storage_ok s' \<and>
              st_entries s' = st_entries s \<and>
              st_commit s' = info_at (st_entries s) (min (length (st_entries s)) (unat i))"
  using commit_until_ok [OF assms] by blast

theorem storage_commit_until_witness:
  "\<exists>s'. commit_until demo_storage 7 = Inr (s', st_commit s') \<and>
        st_commit s' = info (demo_entry 2 ''b'')"
  using storage_commit_until [OF demo_storage_ok, of 7]
  by (auto simp: demo_storage_def info_at_def)

end
