(* ===== verification/Raft_Server.thy ===== *)
theory Raft_Server
  imports Raft_Storage
begin

text \<open>
  The raft node: \<open>src/raft/raft_server.ipp\<close>, one definition per event handler. A handler takes the
  server and the message and returns the new server with the callbacks it made, in order, or the fault
  it ended in. The interface \<open>Callbacks\<close> (\<open>src/raft/raft_callbacks.hpp\<close>) is the datatype
  \<open>callback\<close>. Console output and the sleep of the client handler are left out.
\<close>

record Server =
  state :: State
  storage :: MemStorage

definition new_Server :: "string \<Rightarrow> peer_info_t list \<Rightarrow> MemStorage \<Rightarrow> Server" where
  "new_Server i ps s = \<lparr>state = new_state i ps, storage = s\<rparr>"

datatype callback =
    SetHeartbeatTimeout
  | SetFollowerTimeout
  | SetCandidateTimeout
  | SetMinimumTimeout
  | SendAppendEntriesRequest string AppendEntriesRequest
  | SendAppendEntriesResponse string AppendEntriesResponse
  | SendVoteRequest string VoteRequest
  | SendVoteResponse string VoteResponse
  | SendClientRequest string ClientRequest
  | Drop string
  | NewLeaderElected string
  | CommitAdvanced u64

type_synonym step = "(Server \<times> callback list) res"

abbreviation current_term :: "Server \<Rightarrow> u64" where
  "current_term s \<equiv> st_current_term (storage s)"

abbreviation server_log_state :: "Server \<Rightarrow> LogState" where
  "server_log_state s \<equiv> get_log_state (storage s)"

definition with_state :: "(State \<Rightarrow> State) \<Rightarrow> Server \<Rightarrow> Server" where
  "with_state f s = s\<lparr>state := f (state s)\<rparr>"

definition with_storage :: "(MemStorage \<Rightarrow> MemStorage) \<Rightarrow> Server \<Rightarrow> Server" where
  "with_storage f s = s\<lparr>storage := f (storage s)\<rparr>"

subsection \<open>Timeouts\<close>

definition on_TimeoutRequest :: "Server \<Rightarrow> Server \<times> callback list" where
  "on_TimeoutRequest s0 =
     (let s1 = with_state (\<lambda>st. st\<lparr>role := Candidate\<rparr>) s0;
          s2 = with_storage (\<lambda>g. set_current_term g (st_current_term g + 1)) s1;
          s3 = with_state (\<lambda>st. st\<lparr>known_peers :=
                 map (\<lambda>p. p\<lparr>voted_for_me := (sid st = pid p)\<rparr>) (known_peers st)\<rparr>) s2;
          s4 = with_storage (\<lambda>g. set_voted_for g (sid (state s3))) s3;
          me = sid (state s4);
          req = (\<lambda>p. \<lparr>vr_header = \<lparr>peer_id = me, destination_id = pid p,
                       message_id = last_message_id p + 1, hdr_term = current_term s4,
                       log_state = server_log_state s4\<rparr>\<rparr>);
          sends = [SendVoteRequest (pid p) (req p). p \<leftarrow> known_peers (state s4), pid p \<noteq> me];
          s5 = with_state (\<lambda>st. st\<lparr>known_peers :=
                 map (\<lambda>p. if pid p = me then p
                          else p\<lparr>last_message_id := last_message_id p + 1,
                                 waiting_for_response := True\<rparr>) (known_peers st)\<rparr>) s4
      in (s5, sends @ [SetCandidateTimeout]))"

definition on_HeartbeatRequest :: "Server \<Rightarrow> Server \<times> callback list" where
  "on_HeartbeatRequest s =
     (let me = sid (state s);
          req = (\<lambda>p. \<lparr>aer_header = \<lparr>peer_id = me, destination_id = pid p,
                       message_id = last_message_id p, hdr_term = current_term s,
                       log_state = server_log_state s\<rparr>,
                      previous_entry = match_entry p, entries = []\<rparr>);
          sends = [SendAppendEntriesRequest (pid p) (req p). p \<leftarrow> known_peers (state s), pid p \<noteq> me];
          s' = with_state (\<lambda>st. st\<lparr>known_peers :=
                 map (\<lambda>p. if pid p = me then p else p\<lparr>waiting_for_response := True\<rparr>)
                     (known_peers st)\<rparr>) s
      in (s', sends @ [SetHeartbeatTimeout]))"

definition on_MinimumTimeoutRequest :: "Server \<Rightarrow> Server" where
  "on_MinimumTimeoutRequest = with_state (\<lambda>st. st\<lparr>minimum_timeout_reached := True\<rparr>)"

definition timeout :: "Server \<Rightarrow> Server \<times> callback list" where
  "timeout s = (if role (state s) = Leader then on_HeartbeatRequest s else on_TimeoutRequest s)"

definition on_ConfigChangeRequest :: "Server \<Rightarrow> ConfigChangeRequest \<Rightarrow> Server" where
  "on_ConfigChangeRequest s req = s"

subsection \<open>Stepping down\<close>

definition step_down :: "u64 \<Rightarrow> Server \<Rightarrow> Server" where
  "step_down t s0 =
     (let s1 = (if current_term s0 \<noteq> t then with_storage (\<lambda>g. set_current_term g t) s0 else s0);
          s2 = (if st_voted_for (storage s1) \<noteq> [] then with_storage (\<lambda>g. set_voted_for g []) s1 else s1)
      in if role (state s2) \<noteq> Follower
         then with_state (\<lambda>st. st\<lparr>role := Follower, known_peers := map peer_reset (known_peers st)\<rparr>) s2
         else s2)"

subsection \<open>Votes\<close>

text \<open>A leader stops waiting for a peer that asks for votes: it has come back after a crash.\<close>

definition release_requester :: "string \<Rightarrow> Server \<Rightarrow> Server" where
  "release_requester from s =
     (if role (state s) = Leader
      then with_state (update_peer from (\<lambda>p. p\<lparr>waiting_for_response := False\<rparr>)) s else s)"

definition on_VoteRequest :: "Server \<Rightarrow> VoteRequest \<Rightarrow> Server \<times> callback list" where
  "on_VoteRequest s0 req =
     (let h = vr_header req; from = peer_id h in
      if destination_id h \<noteq> sid (state s0) \<or> find_peer (state s0) from = None then (s0, [Drop from])
      else
        (let s1 = release_requester from s0;
             response = \<lparr>vs_header = \<lparr>peer_id = sid (state s1), destination_id = from,
                           message_id = message_id h, hdr_term = max (current_term s1) (hdr_term h),
                           log_state = server_log_state s1\<rparr>, vote_granted = False\<rparr>
         in if \<not> minimum_timeout_reached (state s1) then (s1, [])
            else if hdr_term h \<le> current_term s1 then (s1, [SendVoteResponse from response])
            else
              (let s2 = with_state (\<lambda>st. st\<lparr>leader_id := []\<rparr>) (step_down (hdr_term h) s1) in
               if ei_index (ls_uncommit (server_log_state s2)) \<le> ei_index (ls_uncommit (log_state h))
               then (with_storage (\<lambda>g. set_voted_for g from) s2,
                     [SetFollowerTimeout, SendVoteResponse from (response\<lparr>vote_granted := True\<rparr>)])
               else (s2, [SendVoteResponse from response]))))"

definition num_votes :: "peer_info_t list \<Rightarrow> nat" where
  "num_votes ps = length (filter voted_for_me ps)"

text \<open>The block of the vote-response handler that runs once the votes reach a majority.\<close>

definition become_leader :: "Server \<Rightarrow> Server \<times> callback list" where
  "become_leader s0 =
     (let me = sid (state s0);
          s1 = with_state (\<lambda>st. st\<lparr>role := Leader\<rparr>) s0;
          announce = (if leader_id (state s1) \<noteq> me then [NewLeaderElected me] else []);
          s2 = with_state (\<lambda>st. st\<lparr>leader_id := me\<rparr>) s1;
          prev = ls_uncommit (server_log_state s2);
          req = (\<lambda>p. \<lparr>aer_header = \<lparr>peer_id = me, destination_id = pid p,
                       message_id = last_message_id p + 1, hdr_term = current_term s2,
                       log_state = server_log_state s2\<rparr>,
                      previous_entry = prev, entries = []\<rparr>);
          sends = [SendAppendEntriesRequest (pid p) (req p). p \<leftarrow> known_peers (state s2), pid p \<noteq> me];
          upd = (\<lambda>p. let p1 = p\<lparr>waiting_for_response := True,
                               next_entry := (next_entry p)\<lparr>ei_index := ei_index prev + 1\<rparr>,
                               match_entry := (match_entry p)\<lparr>ei_index := 0\<rparr>\<rparr>
                     in if pid p = me then p1\<lparr>match_entry := prev\<rparr>
                        else p1\<lparr>last_message_id := last_message_id p + 1\<rparr>);
          s3 = with_state (\<lambda>st. st\<lparr>known_peers := map upd (known_peers st),
                                   minimum_timeout_reached := False\<rparr>) s2
      in (s3, announce @ sends @ [SetMinimumTimeout, SetHeartbeatTimeout]))"

definition on_VoteResponse :: "Server \<Rightarrow> VoteResponse \<Rightarrow> step" where
  "on_VoteResponse s0 resp =
     (let h = vs_header resp; from = peer_id h in
      case find_peer (state s0) from of
        None \<Rightarrow> Inl NullDereference
      | Some p \<Rightarrow>
          if destination_id h \<noteq> sid (state s0) \<or> \<not> waiting_for_response p then
            Inr (s0, if message_id h \<le> last_message_id p then [Drop from] else [])
          else if current_term s0 < hdr_term h then Inr (step_down (hdr_term h) s0, [])
          else if role (state s0) \<noteq> Candidate \<or> \<not> vote_granted resp then Inr (s0, [])
          else
            (let s1 = with_state (update_peer from
                        (\<lambda>p. p\<lparr>waiting_for_response := False, voted_for_me := True\<rparr>)) s0;
                 ps = known_peers (state s1)
             in if 1 + length ps div 2 \<le> num_votes ps then Inr (become_leader s1) else Inr (s1, [])))"

subsection \<open>Appending\<close>

text \<open>The end of the append handler, from the call of \<open>storage->append\<close> on.\<close>

definition append_and_reply :: "Server \<Rightarrow> AppendEntriesRequest \<Rightarrow> AppendEntriesResponse \<Rightarrow> step" where
  "append_and_reply s0 req response =
     (let h = aer_header req; from = peer_id h in
      res_bind (append_log (storage s0) (entries req)) (\<lambda>(g1, _).
      res_bind
        (if ei_index (st_commit g1) < ei_index (ls_commit (log_state h)) then
           (if ei_term (st_commit g1) \<le> ei_term (ls_commit (log_state h)) then
              res_bind (commit_until g1 (ei_index (ls_commit (log_state h)))) (\<lambda>(g2, _).
              Inr (g2, [CommitAdvanced (ei_index (ls_commit (log_state h)))]))
            else Inl AssertionFailed)
         else Inr (g1, []))
        (\<lambda>(g2, committed).
           let s1 = s0\<lparr>storage := g2\<rparr>;
               response' = response\<lparr>success := True,
                 aes_header := (aes_header response)\<lparr>log_state := get_log_state g2\<rparr>\<rparr>;
               s2 = with_state (\<lambda>st. st\<lparr>minimum_timeout_reached := False\<rparr>) s1
           in Inr (s2, committed @ [SetMinimumTimeout, SetFollowerTimeout,
                                    SendAppendEntriesResponse from response']))))"

text \<open>The check of the previous entry, then the append.\<close>

definition check_and_append :: "Server \<Rightarrow> AppendEntriesRequest \<Rightarrow> AppendEntriesResponse \<Rightarrow> step" where
  "check_and_append s req response =
     (let from = peer_id (aer_header req);
          prev = previous_entry req;
          ls = server_log_state s
      in if entry_neq prev (ls_uncommit ls) \<and> ei_index prev < ei_index (ls_commit ls) then
           Inr (s, [Drop from])
         else if entry_neq prev (ls_uncommit ls) \<and> ei_index (ls_uncommit ls) < ei_index prev then
           Inr (s, [SendAppendEntriesResponse from response])
         else if ei_index (ls_uncommit ls) < ei_index prev then
           Inr (s, [SendAppendEntriesResponse from response])
         else append_and_reply s req response)"

definition on_AppendEntriesRequest :: "Server \<Rightarrow> AppendEntriesRequest \<Rightarrow> step" where
  "on_AppendEntriesRequest s0 req =
     (let h = aer_header req; from = peer_id h in
      if destination_id h \<noteq> sid (state s0) \<or> find_peer (state s0) from = None then
        Inr (s0, [Drop from])
      else
        (let response = \<lparr>aes_header = \<lparr>peer_id = sid (state s0), destination_id = from,
                           message_id = message_id h, hdr_term = max (current_term s0) (hdr_term h),
                           log_state = server_log_state s0\<rparr>, success = False\<rparr>;
             follow = (\<lambda>s. if leader_id (state s) \<noteq> from
                           then (with_state (\<lambda>st. st\<lparr>leader_id := from\<rparr>) s, [NewLeaderElected from])
                           else (s, []))
         in if hdr_term h < current_term s0 then
              Inr (s0, [SendAppendEntriesResponse from response])
            else if current_term s0 < hdr_term h then
              (let (s1, cs) = follow (step_down (hdr_term h) s0) in
               res_bind (check_and_append s1 req response) (\<lambda>(s2, cs'). Inr (s2, cs @ cs')))
            else if leader_id (state s0) \<noteq> from \<and> leader_id (state s0) \<noteq> [] then
              Inr (s0, [Drop from])
            else
              (let (s1, cs) = follow s0 in
               res_bind (check_and_append s1 req response) (\<lambda>(s2, cs'). Inr (s2, cs @ cs')))))"

text \<open>The position a majority of the peers has reached: the match indices sorted in decreasing
  order, read at half of their number.\<close>

definition majority_index :: "peer_info_t list \<Rightarrow> u64" where
  "majority_index ps = rev (sort (map (\<lambda>p. ei_index (match_entry p)) ps)) ! (length ps div 2)"

text \<open>A refused append: one entry further back, with everything from there on.\<close>

definition retry_append :: "Server \<Rightarrow> string \<Rightarrow> peer_info_t \<Rightarrow> step" where
  "retry_append s from p =
     (let n0 = ei_index (next_entry p) - 1;
          n1 = (if n0 = 0 then 1 else n0);
          mid = last_message_id p + 1
      in res_bind (get_entry_info (storage s) (n1 - 1)) (\<lambda>prev.
         res_bind (entries_since (storage s) (n1 - 1)) (\<lambda>es.
           let req = \<lparr>aer_header = \<lparr>peer_id = sid (state s), destination_id = from,
                        message_id = mid, hdr_term = current_term s,
                        log_state = server_log_state s\<rparr>,
                      previous_entry = prev, entries = es\<rparr>;
               s' = with_state (update_peer from
                      (\<lambda>p. p\<lparr>next_entry := (next_entry p)\<lparr>ei_index := n1\<rparr>,
                             last_message_id := mid, waiting_for_response := True\<rparr>)) s
           in Inr (s', [SendAppendEntriesRequest from req]))))"

text \<open>An accepted append: the match index of the peer moves up, and the commit index with the
  majority.\<close>

definition advance_match :: "Server \<Rightarrow> string \<Rightarrow> u64 \<Rightarrow> step" where
  "advance_match s from u =
     (let s' = with_state (update_peer from
                 (\<lambda>p. p\<lparr>next_entry := (next_entry p)\<lparr>ei_index := max (ei_index (next_entry p)) (u + 1)\<rparr>,
                        match_entry := (match_entry p)\<lparr>ei_index := u\<rparr>\<rparr>)) s;
          new_commit = majority_index (known_peers (state s'))
      in if ei_index (st_commit (storage s')) < new_commit then
           res_bind (commit_until (storage s') new_commit) (\<lambda>(g, _).
           Inr (s'\<lparr>storage := g\<rparr>, [CommitAdvanced new_commit]))
         else Inr (s', []))"

definition on_AppendEntriesResponse :: "Server \<Rightarrow> AppendEntriesResponse \<Rightarrow> step" where
  "on_AppendEntriesResponse s0 resp =
     (let h = aes_header resp; from = peer_id h in
      case (if destination_id h \<noteq> sid (state s0) then None else find_peer (state s0) from) of
        None \<Rightarrow> Inr (s0, [Drop from])
      | Some p \<Rightarrow>
          if \<not> waiting_for_response p \<or> last_message_id p \<noteq> message_id h \<or>
             hdr_term h < current_term s0 then Inr (s0, [])
          else
            (let s1 = with_state (update_peer from (\<lambda>p. p\<lparr>waiting_for_response := False\<rparr>)) s0 in
             if current_term s1 < hdr_term h then Inr (step_down (hdr_term h) s1, [])
             else if role (state s1) \<noteq> Leader then Inr (s1, [])
             else if \<not> success resp then retry_append s1 from p
             else if ei_index (match_entry p) < ei_index (ls_uncommit (log_state h)) then
               advance_match s1 from (ei_index (ls_uncommit (log_state h)))
             else Inr (s1, [])))"

subsection \<open>Client requests\<close>

definition max_u64 :: u64 where
  "max_u64 = - 1"

text \<open>One pass of the loop that forwards a new entry: the request for the peer. The request object
  lives outside the loop, so its previous entry and its entries are reused from one peer to the
  next.\<close>

definition request_for :: "MemStorage \<Rightarrow> AppendEntriesRequest \<Rightarrow> peer_info_t \<Rightarrow> AppendEntriesRequest res" where
  "request_for g req p =
     (let req1 = req\<lparr>aer_header := (aer_header req)\<lparr>message_id := last_message_id p + 1,
                                                     destination_id := pid p\<rparr>\<rparr>;
          prior = ei_index (next_entry p) - 1
      in if ei_index (previous_entry req1) \<noteq> prior then
           res_bind (get_entry_info g prior) (\<lambda>e.
           res_bind (entries_since g prior) (\<lambda>es.
           Inr (req1\<lparr>previous_entry := \<lparr>ei_index = prior, ei_term = ei_term e\<rparr>, entries := es\<rparr>)))
         else Inr req1)"

fun forward_entry :: "string \<Rightarrow> u64 \<Rightarrow> MemStorage \<Rightarrow> AppendEntriesRequest \<Rightarrow> peer_info_t list \<Rightarrow>
    (peer_info_t list \<times> callback list) res" where
  "forward_entry me new_index g req [] = Inr ([], [])"
| "forward_entry me new_index g req (p # ps) =
     (if pid p = me then
        res_bind (forward_entry me new_index g req ps) (\<lambda>(qs, cs).
          Inr (p\<lparr>match_entry := (match_entry p)\<lparr>ei_index := new_index\<rparr>,
                 next_entry := (next_entry p)\<lparr>ei_index := new_index + 1\<rparr>\<rparr> # qs, cs))
      else if ei_index (next_entry p) \<noteq> new_index \<or> waiting_for_response p then
        res_bind (forward_entry me new_index g req ps) (\<lambda>(qs, cs). Inr (p # qs, cs))
      else
        res_bind (request_for g req p) (\<lambda>req'.
          let p1 = p\<lparr>last_message_id := last_message_id p + 1, waiting_for_response := True\<rparr>;
              p2 = (if ei_index (next_entry p1) = new_index
                    then p1\<lparr>next_entry := (next_entry p1)\<lparr>ei_index := ei_index (next_entry p1) + 1\<rparr>\<rparr>
                    else p1)
          in res_bind (forward_entry me new_index g req' ps) (\<lambda>(qs, cs).
             Inr (p2 # qs, SendAppendEntriesRequest (pid p) req' # cs))))"

definition on_ClientRequest :: "Server \<Rightarrow> ClientRequest \<Rightarrow> step" where
  "on_ClientRequest s req =
     (if role (state s) = Follower then
        (case find_peer (state s) (leader_id (state s)) of
           None \<Rightarrow> Inr (s, [])
         | Some leader \<Rightarrow> Inr (s, [SendClientRequest (pid leader) req]))
      else if role (state s) = Candidate then Inr (s, [])
      else
        (let new_index = ei_index (ls_uncommit (server_log_state s)) + 1;
             e = \<lparr>info = \<lparr>ei_index = new_index, ei_term = current_term s\<rparr>, data = cr_data req\<rparr>
         in res_bind (append_log (storage s) [e]) (\<lambda>(g, u).
            if ei_index u \<noteq> new_index then Inl ExitProcess
            else
              (let out = \<lparr>aer_header = \<lparr>peer_id = sid (state s), destination_id = [], message_id = 0,
                            hdr_term = st_current_term g, log_state = get_log_state g\<rparr>,
                          previous_entry = \<lparr>ei_index = max_u64, ei_term = max_u64\<rparr>, entries = []\<rparr>
               in res_bind (forward_entry (sid (state s)) new_index g out (known_peers (state s)))
                    (\<lambda>(ps, cs).
                       Inr (\<lparr>state = (state s)\<lparr>known_peers := ps\<rparr>, storage = g\<rparr>,
                            cs @ [SetHeartbeatTimeout]))))))"

end
