(* ===== verification/Raft_Cluster.thy ===== *)
theory Raft_Cluster
  imports Raft_Server
begin

text \<open>
  A cluster of raft nodes over a network that may lose, delay, duplicate and reorder messages: the
  handlers of \<open>Raft_Server\<close> run one event at a time, every message ever sent stays deliverable.
  \<open>handle\<close> is the choice of the handler by message type (the end of
  \<open>process_server_message\<close> in \<open>src/raft/simple_message_processor.cpp\<close>). A handler that faults takes
  its node down for good (the storage lives in memory, its journal is never read back).

  The theory holds what one handler call does to votes and terms (\<open>vote_step\<close>), the quorum
  argument as a locale, the election-safety invariant over all reachable states, and runs of the
  model that show where the code leaves the guarantees of the raft protocol.
\<close>

datatype message =
    MVoteRequest VoteRequest
  | MVoteResponse VoteResponse
  | MAppendEntriesRequest AppendEntriesRequest
  | MAppendEntriesResponse AppendEntriesResponse
  | MClientRequest ClientRequest

fun handle :: "Server \<Rightarrow> message \<Rightarrow> step" where
  "handle s (MVoteRequest r) = Inr (on_VoteRequest s r)"
| "handle s (MVoteResponse r) = on_VoteResponse s r"
| "handle s (MAppendEntriesRequest r) = on_AppendEntriesRequest s r"
| "handle s (MAppendEntriesResponse r) = on_AppendEntriesResponse s r"
| "handle s (MClientRequest r) = on_ClientRequest s r"

text \<open>The messages among the callbacks of a handler, with their destinations.\<close>

fun outgoing :: "callback \<Rightarrow> (string \<times> message) list" where
  "outgoing (SendVoteRequest d r) = [(d, MVoteRequest r)]"
| "outgoing (SendVoteResponse d r) = [(d, MVoteResponse r)]"
| "outgoing (SendAppendEntriesRequest d r) = [(d, MAppendEntriesRequest r)]"
| "outgoing (SendAppendEntriesResponse d r) = [(d, MAppendEntriesResponse r)]"
| "outgoing (SendClientRequest d r) = [(d, MClientRequest r)]"
| "outgoing _ = []"

definition outbox :: "callback list \<Rightarrow> (string \<times> message) list" where
  "outbox cs = concat (map outgoing cs)"

record Cluster =
  servers :: "string \<Rightarrow> Server option"
  net :: "(string \<times> message) list"

datatype event =
    Timeout string
  | MinimumTimeout string
  | Deliver string message
  | Submit string ClientRequest

definition finish :: "Cluster \<Rightarrow> string \<Rightarrow> step \<Rightarrow> Cluster" where
  "finish c i r =
     (case r of
        Inl _ \<Rightarrow> c\<lparr>servers := (servers c)(i := None)\<rparr>
      | Inr (s, cs) \<Rightarrow> \<lparr>servers = (servers c)(i := Some s), net = net c @ outbox cs\<rparr>)"

fun event_node :: "event \<Rightarrow> string" where
  "event_node (Timeout i) = i"
| "event_node (MinimumTimeout i) = i"
| "event_node (Deliver i m) = i"
| "event_node (Submit i r) = i"

fun node_event :: "Server \<Rightarrow> event \<Rightarrow> step" where
  "node_event s (Timeout i) = Inr (timeout s)"
| "node_event s (MinimumTimeout i) = Inr (on_MinimumTimeoutRequest s, [])"
| "node_event s (Deliver i m) = handle s m"
| "node_event s (Submit i r) = on_ClientRequest s r"

fun enabled :: "Cluster \<Rightarrow> event \<Rightarrow> bool" where
  "enabled c (Deliver i m) \<longleftrightarrow> (i, m) \<in> set (net c)"
| "enabled c _ \<longleftrightarrow> True"

text \<open>One event at one node; \<open>None\<close> when the node is down or the message was never sent.\<close>

definition run_event :: "Cluster \<Rightarrow> event \<Rightarrow> Cluster option" where
  "run_event c e =
     (case servers c (event_node e) of
        None \<Rightarrow> None
      | Some s \<Rightarrow> if enabled c e then Some (finish c (event_node e) (node_event s e)) else None)"

fun run_events :: "Cluster \<Rightarrow> event list \<Rightarrow> Cluster option" where
  "run_events c [] = Some c"
| "run_events c (e # es) = (case run_event c e of None \<Rightarrow> None | Some c' \<Rightarrow> run_events c' es)"

text \<open>The states the events allowed by \<open>P\<close> lead to.\<close>

inductive reachable :: "(Cluster \<Rightarrow> event \<Rightarrow> bool) \<Rightarrow> Cluster \<Rightarrow> Cluster \<Rightarrow> bool" for P c0 where
  init: "reachable P c0 c0"
| step: "reachable P c0 c \<Longrightarrow> P c e \<Longrightarrow> run_event c e = Some c' \<Longrightarrow> reachable P c0 c'"

definition boot :: "string list \<Rightarrow> Cluster" where
  "boot ids =
     \<lparr>servers = (\<lambda>i. if i \<in> set ids
                      then Some (new_Server i (map (\<lambda>j. new_peer j [] 0 0) ids) new_MemStorage) else None),
      net = []\<rparr>"

lemma run_event_cases:
  assumes "run_event c e = Some c'"
  obtains (crash) s f where "servers c (event_node e) = Some s" "enabled c e" "node_event s e = Inl f"
      "c' = c\<lparr>servers := (servers c)(event_node e := None)\<rparr>"
    | (normal) s s' cs where "servers c (event_node e) = Some s" "enabled c e"
      "node_event s e = Inr (s', cs)"
      "c' = \<lparr>servers = (servers c)(event_node e := Some s'), net = net c @ outbox cs\<rparr>"
  using assms
  by (auto simp: run_event_def finish_def split: option.splits if_splits sum.splits prod.splits)


subsection \<open>What one handler call does to votes and terms\<close>

text \<open>A ballot of \<open>v\<close> for \<open>c\<close> in term \<open>t\<close>: a granted vote on its way from \<open>v\<close> to \<open>c\<close>, or a
  vote request of \<open>v\<close> itself, which votes for itself when it asks.\<close>

definition ballot :: "(string \<times> message) list \<Rightarrow> string \<Rightarrow> u64 \<Rightarrow> string \<Rightarrow> bool" where
  "ballot ms v t c \<longleftrightarrow>
     (\<exists>d r. (d, MVoteResponse r) \<in> set ms \<and> vote_granted r \<and> peer_id (vs_header r) = v \<and>
            destination_id (vs_header r) = c \<and> hdr_term (vs_header r) = t) \<or>
     (v = c \<and> (\<exists>d r. (d, MVoteRequest r) \<in> set ms \<and> peer_id (vr_header r) = v \<and>
                      hdr_term (vr_header r) = t))"

abbreviation node_id :: "Server \<Rightarrow> string" where
  "node_id s \<equiv> sid (state s)"

abbreviation peers :: "Server \<Rightarrow> peer_info_t list" where
  "peers s \<equiv> known_peers (state s)"

abbreviation node_role :: "Server \<Rightarrow> Role" where
  "node_role s \<equiv> role (state s)"

text \<open>A vote response that grants node \<open>i\<close> the vote of \<open>v\<close> and is not newer than term \<open>t\<close>.\<close>

fun vote_arrives :: "event \<Rightarrow> string \<Rightarrow> string \<Rightarrow> u64 \<Rightarrow> bool" where
  "vote_arrives (Deliver d (MVoteResponse r)) i v t \<longleftrightarrow>
     vote_granted r \<and> peer_id (vs_header r) = v \<and> destination_id (vs_header r) = i \<and>
     hdr_term (vs_header r) \<le> t"
| "vote_arrives _ i v t \<longleftrightarrow> False"

definition vote_step :: "event \<Rightarrow> Server \<Rightarrow> Server \<Rightarrow> callback list \<Rightarrow> bool" where
  "vote_step e s s' cs \<longleftrightarrow>
     node_id s' = node_id s \<and> map pid (peers s') = map pid (peers s) \<and>
     current_term s \<le> current_term s' \<and>
     (\<forall>v t c. ballot (outbox cs) v t c \<longrightarrow>
        v = node_id s \<and> t = current_term s' \<and> current_term s < t) \<and>
     (\<forall>v t c c'. ballot (outbox cs) v t c \<longrightarrow> ballot (outbox cs) v t c' \<longrightarrow> c = c') \<and>
     (node_role s' \<noteq> Follower \<longrightarrow>
        (\<forall>p \<in> set (peers s'). voted_for_me p \<longrightarrow>
           ballot (outbox cs) (pid p) (current_term s') (node_id s) \<or>
           current_term s' = current_term s \<and> node_role s \<noteq> Follower \<and>
             (\<exists>q \<in> set (peers s). pid q = pid p \<and> voted_for_me q) \<or>
           current_term s' = current_term s \<and> vote_arrives e (node_id s) (pid p) (current_term s))) \<and>
     (node_role s' = Leader \<longrightarrow>
        current_term s' = current_term s \<and> node_role s = Leader \<or>
        length (peers s') div 2 < num_votes (peers s')) \<and>
     (\<forall>d r. (d, MAppendEntriesRequest r) \<in> set (outbox cs) \<longrightarrow>
        peer_id (aer_header r) = node_id s \<and> hdr_term (aer_header r) = current_term s' \<and>
        node_role s' = Leader)"

text \<open>A handler call that neither grants nor counts votes.\<close>

definition quiet_step :: "Server \<Rightarrow> Server \<Rightarrow> callback list \<Rightarrow> bool" where
  "quiet_step s s' cs \<longleftrightarrow>
     node_id s' = node_id s \<and>
     map (\<lambda>p. (pid p, voted_for_me p)) (peers s') = map (\<lambda>p. (pid p, voted_for_me p)) (peers s) \<and>
     current_term s' = current_term s \<and> node_role s' = node_role s \<and>
     (\<forall>d r. SendVoteRequest d r \<notin> set cs) \<and>
     (\<forall>d r. SendVoteResponse d r \<in> set cs \<longrightarrow> \<not> vote_granted r) \<and>
     (\<forall>d r. SendAppendEntriesRequest d r \<in> set cs \<longrightarrow>
        peer_id (aer_header r) = node_id s \<and> hdr_term (aer_header r) = current_term s \<and>
        node_role s = Leader)"

lemma mem_outgoing:
  "(d, MVoteRequest r) \<in> set (outgoing x) \<longleftrightarrow> x = SendVoteRequest d r"
  "(d, MVoteResponse r') \<in> set (outgoing x) \<longleftrightarrow> x = SendVoteResponse d r'"
  "(d, MAppendEntriesRequest q) \<in> set (outgoing x) \<longleftrightarrow> x = SendAppendEntriesRequest d q"
  "(d, MAppendEntriesResponse q') \<in> set (outgoing x) \<longleftrightarrow> x = SendAppendEntriesResponse d q'"
  by (cases x; auto)+

lemma mem_outbox [simp]:
  "(d, MVoteRequest r) \<in> set (outbox cs) \<longleftrightarrow> SendVoteRequest d r \<in> set cs"
  "(d, MVoteResponse r') \<in> set (outbox cs) \<longleftrightarrow> SendVoteResponse d r' \<in> set cs"
  "(d, MAppendEntriesRequest q) \<in> set (outbox cs) \<longleftrightarrow> SendAppendEntriesRequest d q \<in> set cs"
  "(d, MAppendEntriesResponse q') \<in> set (outbox cs) \<longleftrightarrow> SendAppendEntriesResponse d q' \<in> set cs"
  by (auto simp: outbox_def mem_outgoing)

lemma outbox_append [simp]: "outbox (xs @ ys) = outbox xs @ outbox ys"
  by (simp add: outbox_def)

lemma ballot_append: "ballot (xs @ ys) v t c \<longleftrightarrow> ballot xs v t c \<or> ballot ys v t c"
  by (auto simp: ballot_def)

lemma ballot_outbox:
  "ballot (outbox cs) v t c \<longleftrightarrow>
     (\<exists>d r. SendVoteResponse d r \<in> set cs \<and> vote_granted r \<and> peer_id (vs_header r) = v \<and>
            destination_id (vs_header r) = c \<and> hdr_term (vs_header r) = t) \<or>
     (v = c \<and> (\<exists>d r. SendVoteRequest d r \<in> set cs \<and> peer_id (vr_header r) = v \<and>
                      hdr_term (vr_header r) = t))"
  by (simp add: ballot_def)

lemma map_pid_votes:
  assumes "map (\<lambda>p. (pid p, voted_for_me p)) ps = map (\<lambda>p. (pid p, voted_for_me p)) qs"
  shows "map pid ps = map pid qs"
    and "p \<in> set ps \<Longrightarrow> \<exists>q \<in> set qs. pid q = pid p \<and> voted_for_me q = voted_for_me p"
proof -
  show "map pid ps = map pid qs"
    using arg_cong [OF assms, of "map fst"] by (simp add: comp_def)
  assume "p \<in> set ps"
  then have "(pid p, voted_for_me p) \<in> set (map (\<lambda>p. (pid p, voted_for_me p)) qs)"
    using assms [symmetric] by auto
  then show "\<exists>q \<in> set qs. pid q = pid p \<and> voted_for_me q = voted_for_me p" by auto
qed

lemma vote_step_quiet:
  assumes "quiet_step s s' cs"
  shows "vote_step e s s' cs"
proof -
  have b: "\<not> ballot (outbox cs) v t c" for v t c
    using assms by (auto simp: quiet_step_def ballot_outbox)
  have v: "map (\<lambda>p. (pid p, voted_for_me p)) (peers s') = map (\<lambda>p. (pid p, voted_for_me p)) (peers s)"
    using assms by (simp add: quiet_step_def)
  show ?thesis
    using assms map_pid_votes [OF v] b unfolding vote_step_def quiet_step_def by fastforce
qed


lemma step_down_simps [simp, frame_simps]:
  "node_id (step_down t s) = node_id s"
  "map pid (peers (step_down t s)) = map pid (peers s)"
  "node_role (step_down t s) = Follower"
  "st_current_term (storage (step_down t s)) = t"
  "st_entries (storage (step_down t s)) = st_entries (storage s)"
  "st_uncommit (storage (step_down t s)) = st_uncommit (storage s)"
  "st_commit (storage (step_down t s)) = st_commit (storage s)"
  "get_log_state (storage (step_down t s)) = get_log_state (storage s)"
  by (auto simp: step_down_def Let_def with_state_def with_storage_def set_current_term_def
      set_voted_for_def get_log_state_def comp_def)

lemma vote_step_step_down:
  assumes "current_term s < t" "node_id s1 = node_id s" "map pid (peers s1) = map pid (peers s)"
    and "node_role s1 = Follower" "st_current_term (storage s1) = t"
    and "\<And>v t c. \<not> ballot (outbox cs) v t c"
    and "\<And>d r. SendAppendEntriesRequest d r \<notin> set cs"
  shows "vote_step e s s1 cs"
  using assms by (auto simp: vote_step_def)

lemma on_TimeoutRequest_fields:
  assumes "on_TimeoutRequest s = (s', cs)"
  shows "node_id s' = node_id s" "map pid (peers s') = map pid (peers s)"
    and "current_term s' = current_term s + 1" "node_role s' = Candidate"
    and "p \<in> set (peers s') \<Longrightarrow> voted_for_me p \<Longrightarrow> pid p = node_id s"
    and "storage s' = set_voted_for (set_current_term (storage s) (current_term s + 1)) (node_id s)"
    and "SendVoteRequest d r \<in> set cs \<longleftrightarrow>
           (\<exists>p \<in> set (peers s). pid p \<noteq> node_id s \<and> d = pid p \<and>
              r = \<lparr>vr_header = \<lparr>peer_id = node_id s, destination_id = pid p,
                     message_id = last_message_id p + 1, hdr_term = current_term s + 1,
                     log_state = server_log_state s\<rparr>\<rparr>)"
    and "SendVoteResponse d r' \<notin> set cs" "SendAppendEntriesRequest d q \<notin> set cs"
  using assms
  by (auto simp: on_TimeoutRequest_def Let_def with_state_def with_storage_def comp_def
      set_current_term_def set_voted_for_def get_log_state_def split: if_splits)

lemma u64_less_inc: "(t :: u64) \<noteq> max_u64 \<Longrightarrow> t < t + 1"
  by (simp add: max_u64_def inc_less_eq_self_iff_eq flip: not_le)

lemma on_TimeoutRequest_vote_step:
  assumes "current_term s \<noteq> max_u64" and other: "\<exists>j \<in> set (map pid (peers s)). j \<noteq> node_id s"
    and r: "on_TimeoutRequest s = (s', cs)"
  shows "vote_step e s s' cs"
proof -
  note f = on_TimeoutRequest_fields [OF r]
  have b: "ballot (outbox cs) v t c \<longleftrightarrow> v = c \<and> v = node_id s \<and> t = current_term s + 1" for v t c
    using other by (fastforce simp: ballot_outbox f)
  show ?thesis
    unfolding vote_step_def b using f(1-5,9) u64_less_inc [OF assms(1)]
    by (auto simp: less_imp_le)
qed

lemma on_HeartbeatRequest_quiet:
  assumes "node_role s = Leader" "on_HeartbeatRequest s = (s', cs)"
  shows "quiet_step s s' cs"
  using assms
  by (auto simp: on_HeartbeatRequest_def Let_def with_state_def quiet_step_def comp_def)

lemma timeout_vote_step:
  assumes "current_term s \<noteq> max_u64" "\<exists>j \<in> set (map pid (peers s)). j \<noteq> node_id s"
    and "timeout s = (s', cs)"
  shows "vote_step e s s' cs"
  using assms on_TimeoutRequest_vote_step on_HeartbeatRequest_quiet
  by (auto simp: timeout_def vote_step_quiet split: if_splits)

lemma release_requester_simps [simp, frame_simps]:
  "node_id (release_requester i s) = node_id s"
  "storage (release_requester i s) = storage s"
  "node_role (release_requester i s) = node_role s"
  "map (\<lambda>p. (pid p, voted_for_me p)) (peers (release_requester i s)) =
   map (\<lambda>p. (pid p, voted_for_me p)) (peers s)"
  "map pid (peers (release_requester i s)) = map pid (peers s)"
  by (auto simp: release_requester_def with_state_def update_peer_def map_update_first)

lemma with_simps [simp]:
  "state (with_state f s) = f (state s)" "storage (with_state f s) = storage s"
  "state (with_storage g s) = state s" "storage (with_storage g s) = g (storage s)"
  by (simp_all add: with_state_def with_storage_def)

lemma set_voted_for_simps [simp, frame_simps]:
  "st_current_term (set_voted_for g i) = st_current_term g"
  "st_entries (set_voted_for g i) = st_entries g"
  "st_uncommit (set_voted_for g i) = st_uncommit g"
  "st_commit (set_voted_for g i) = st_commit g"
  "st_voted_for (set_voted_for g i) = i"
  by (auto simp: set_voted_for_def Let_def)

lemma on_VoteRequest_vote_step:
  assumes r: "on_VoteRequest s req = (s', cs)"
  shows "vote_step e s s' cs"
proof -
  let ?h = "vr_header req"
  let ?s1 = "release_requester (peer_id ?h) s"
  consider (drop) "destination_id ?h \<noteq> node_id s \<or> find_peer (state s) (peer_id ?h) = None"
    | (early) "\<not> (destination_id ?h \<noteq> node_id s \<or> find_peer (state s) (peer_id ?h) = None)"
        "\<not> minimum_timeout_reached (state ?s1)"
    | (old) "\<not> (destination_id ?h \<noteq> node_id s \<or> find_peer (state s) (peer_id ?h) = None)"
        "minimum_timeout_reached (state ?s1)" "hdr_term ?h \<le> current_term s"
    | (newer) "\<not> (destination_id ?h \<noteq> node_id s \<or> find_peer (state s) (peer_id ?h) = None)"
        "minimum_timeout_reached (state ?s1)" "current_term s < hdr_term ?h"
    by fastforce
  then show ?thesis
  proof cases
    case drop
    then have "s' = s" "cs = [Drop (peer_id ?h)]" using r by (simp_all add: on_VoteRequest_def Let_def)
    then show ?thesis by (intro vote_step_quiet) (simp add: quiet_step_def)
  next
    case early
    then have "s' = ?s1" "cs = []" using r unfolding on_VoteRequest_def Let_def by auto
    then show ?thesis by (intro vote_step_quiet) (simp add: quiet_step_def)
  next
    case old
    then have "s' = ?s1 \<and> (\<exists>q. cs = [SendVoteResponse (peer_id ?h) q] \<and> \<not> vote_granted q)"
      using r unfolding on_VoteRequest_def Let_def by auto
    then show ?thesis by (intro vote_step_quiet) (auto simp: quiet_step_def)
  next
    case newer
    let ?s2 = "with_state (\<lambda>st. st\<lparr>leader_id := []\<rparr>) (step_down (hdr_term ?h) ?s1)"
    let ?r = "\<lparr>vs_header = \<lparr>peer_id = node_id s, destination_id = peer_id ?h,
                  message_id = message_id ?h, hdr_term = hdr_term ?h,
                  log_state = server_log_state s\<rparr>, vote_granted = False\<rparr>"
    have m: "max (current_term s) (hdr_term ?h) = hdr_term ?h" "\<not> hdr_term ?h \<le> current_term s"
      using newer by simp_all
    have "(s', cs) =
       (if ei_index (ls_uncommit (server_log_state ?s2)) \<le> ei_index (ls_uncommit (log_state ?h))
        then (with_storage (\<lambda>g. set_voted_for g (peer_id ?h)) ?s2,
              [SetFollowerTimeout, SendVoteResponse (peer_id ?h) (?r\<lparr>vote_granted := True\<rparr>)])
        else (?s2, [SendVoteResponse (peer_id ?h) ?r]))"
      using newer(1,2) r unfolding on_VoteRequest_def Let_def by (auto simp: m)
    then show ?thesis
      using newer by (auto simp: vote_step_def ballot_outbox less_imp_le split: if_splits)
  qed
qed


lemma find_peer_pid: "find_peer st i = Some p \<Longrightarrow> pid p = i"
  by (simp add: find_peer_set)

lemma quiet_step_same: "quiet_step s s []"
  by (simp add: quiet_step_def)

lemma become_leader_fields:
  assumes "become_leader s = (s', cs)"
  shows "node_id s' = node_id s" "storage s' = storage s" "node_role s' = Leader"
    and "map (\<lambda>p. (pid p, voted_for_me p)) (peers s') = map (\<lambda>p. (pid p, voted_for_me p)) (peers s)"
    and "SendVoteRequest d r \<notin> set cs" "SendVoteResponse d r' \<notin> set cs"
    and "SendAppendEntriesRequest d q \<in> set cs \<Longrightarrow>
         peer_id (aer_header q) = node_id s \<and> hdr_term (aer_header q) = current_term s"
  using assms by (auto simp: become_leader_def Let_def comp_def split: if_splits)

lemma num_votes_cong:
  assumes "map (\<lambda>p. (pid p, voted_for_me p)) ps = map (\<lambda>p. (pid p, voted_for_me p)) qs"
  shows "num_votes ps = num_votes qs"
proof -
  have "num_votes rs = length (filter snd (map (\<lambda>p. (pid p, voted_for_me p)) rs))" for rs
    by (simp add: num_votes_def filter_map comp_def)
  then show ?thesis using assms by metis
qed

lemma on_VoteResponse_vote_step:
  assumes r: "on_VoteResponse s resp = Inr (s', cs)"
  shows "vote_step (Deliver d (MVoteResponse resp)) s s' cs"
proof -
  let ?h = "vs_header resp"
  obtain p where p: "find_peer (state s) (peer_id ?h) = Some p"
    using r by (auto simp: on_VoteResponse_def Let_def split: option.splits)
  consider (ignored) "destination_id ?h \<noteq> node_id s \<or> \<not> waiting_for_response p"
    | (newer) "\<not> (destination_id ?h \<noteq> node_id s \<or> \<not> waiting_for_response p)" "current_term s < hdr_term ?h"
    | (no) "\<not> (destination_id ?h \<noteq> node_id s \<or> \<not> waiting_for_response p)" "\<not> current_term s < hdr_term ?h"
        "node_role s \<noteq> Candidate \<or> \<not> vote_granted resp"
    | (vote) "\<not> (destination_id ?h \<noteq> node_id s \<or> \<not> waiting_for_response p)" "\<not> current_term s < hdr_term ?h"
        "\<not> (node_role s \<noteq> Candidate \<or> \<not> vote_granted resp)"
    by fastforce
  then show ?thesis
  proof cases
    case ignored
    then have "s' = s" "cs = [] \<or> cs = [Drop (peer_id ?h)]"
      using r p by (auto simp: on_VoteResponse_def Let_def split: if_splits)
    then show ?thesis by (intro vote_step_quiet) (auto simp: quiet_step_def)
  next
    case newer
    then have "s' = step_down (hdr_term ?h) s" "cs = []"
      using r p by (auto simp: on_VoteResponse_def Let_def)
    then show ?thesis using newer
      by (intro vote_step_step_down [of _ "hdr_term ?h"]) (auto simp: ballot_outbox)
  next
    case no
    then have "s' = s" "cs = []" using r p by (auto simp: on_VoteResponse_def Let_def)
    then show ?thesis by (intro vote_step_quiet) (simp add: quiet_step_same)
  next
    case vote
    let ?s1 = "with_state (update_peer (peer_id ?h)
                 (\<lambda>p. p\<lparr>waiting_for_response := False, voted_for_me := True\<rparr>)) s"
    have s': "(s', cs) = (if 1 + length (peers ?s1) div 2 \<le> num_votes (peers ?s1)
                          then become_leader ?s1 else (?s1, []))"
      using vote r p by (auto simp: on_VoteResponse_def Let_def split: if_splits)
    have s1: "map pid (peers ?s1) = map pid (peers s)"
      by (simp add: update_peer_pids)
    have old: "\<exists>q \<in> set (peers s). pid q = pid x \<and> voted_for_me q"
      if "x \<in> set (peers ?s1)" "voted_for_me x" "peer_id ?h \<noteq> pid x" for x
      using that by (auto simp: update_peer_def dest!: set_update_first)
    show ?thesis
    proof (cases "1 + length (peers ?s1) div 2 \<le> num_votes (peers ?s1)")
      case True
      then have b: "become_leader ?s1 = (s', cs)" using s' by simp
      note f = become_leader_fields [OF b]
      have "num_votes (peers s') = num_votes (peers ?s1)" by (rule num_votes_cong [OF f(4)])
      moreover have "length (peers s') = length (peers ?s1)" by (rule map_eq_imp_length_eq [OF f(4)])
      moreover have "map pid (peers s') = map pid (peers s)" using map_pid_votes(1) [OF f(4)] s1 by simp
      moreover have "\<exists>q \<in> set (peers s). pid q = pid x \<and> voted_for_me q"
        if x: "x \<in> set (peers s')" "voted_for_me x" "peer_id ?h \<noteq> pid x" for x
        using map_pid_votes(2) [OF f(4) x(1)] old x(2,3) by metis
      ultimately show ?thesis
        using vote True f by (auto simp: vote_step_def ballot_outbox not_less)
    next
      case False
      then have "s' = ?s1" "cs = []" using s' by simp_all
      then show ?thesis
        using vote s1 old by (auto simp: vote_step_def ballot_outbox not_less)
    qed
  qed
qed


text \<open>What the part of the append handler behind its guards leaves alone.\<close>

lemma append_and_reply_frame:
  assumes "append_and_reply s req resp = Inr (s', cs)"
  shows "node_id s' = node_id s" "peers s' = peers s" "node_role s' = node_role s"
    and "current_term s' = current_term s" "leader_id (state s') = leader_id (state s)"
    and "SendVoteRequest d r \<notin> set cs" "SendVoteResponse d r' \<notin> set cs"
    and "SendAppendEntriesRequest d q \<notin> set cs"
  using assms
  by (auto simp: append_and_reply_def Let_def commit_until_def get_entry_info_def split: if_splits
      dest!: append_log_frame)

lemma check_and_append_frame:
  assumes "check_and_append s req resp = Inr (s', cs)"
  shows "node_id s' = node_id s" "peers s' = peers s" "node_role s' = node_role s"
    and "current_term s' = current_term s" "leader_id (state s') = leader_id (state s)"
    and "SendVoteRequest d r \<notin> set cs" "SendVoteResponse d r' \<notin> set cs"
    and "SendAppendEntriesRequest d q \<notin> set cs"
  using assms append_and_reply_frame [of s req resp s' cs]
  by (auto simp: check_and_append_def Let_def split: if_splits)

lemma on_AppendEntriesRequest_cases:
  assumes "on_AppendEntriesRequest s req = Inr (s', cs)"
  obtains
    (same) "s' = s" "cs = [Drop (peer_id (aer_header req))] \<or>
        (\<exists>q. cs = [SendAppendEntriesResponse (peer_id (aer_header req)) q])"
  | (newer) s1 c1 c2 resp where "current_term s < hdr_term (aer_header req)"
      "check_and_append s1 req resp = Inr (s', c2)" "cs = c1 @ c2"
      "s1 = step_down (hdr_term (aer_header req)) s \<and> c1 = [] \<or>
       s1 = with_state (\<lambda>st. st\<lparr>leader_id := peer_id (aer_header req)\<rparr>)
              (step_down (hdr_term (aer_header req)) s) \<and>
       c1 = [NewLeaderElected (peer_id (aer_header req))]"
  | (current) s1 c1 c2 resp where
      "check_and_append s1 req resp = Inr (s', c2)" "cs = c1 @ c2"
      "s1 = s \<and> c1 = [] \<or>
       s1 = with_state (\<lambda>st. st\<lparr>leader_id := peer_id (aer_header req)\<rparr>) s \<and>
       c1 = [NewLeaderElected (peer_id (aer_header req))]"
  using assms unfolding on_AppendEntriesRequest_def Let_def
  by (auto split: if_splits prod.splits)

lemma on_AppendEntriesRequest_vote_step:
  assumes r: "on_AppendEntriesRequest s req = Inr (s', cs)"
  shows "vote_step e s s' cs"
  using r
proof (cases rule: on_AppendEntriesRequest_cases)
  case same
  then show ?thesis by (intro vote_step_quiet) (auto simp: quiet_step_def)
next
  case newer
  show ?thesis
    using newer(1,3,4) check_and_append_frame [OF newer(2)]
    by (intro vote_step_step_down [of _ "hdr_term (aer_header req)"])
      (auto simp: ballot_append ballot_outbox)
next
  case current
  show ?thesis
    using current(2,3) check_and_append_frame [OF current(1)]
    by (intro vote_step_quiet) (auto simp: quiet_step_def)
qed

lemma commit_until_frame:
  assumes "commit_until g i = Inr (g', e)"
  shows "st_current_term g' = st_current_term g" "st_voted_for g' = st_voted_for g"
    and "st_entries g' = st_entries g" "st_uncommit g' = st_uncommit g"
  using assms by (auto simp: commit_until_def Let_def get_entry_info_def split: if_splits)

lemma update_peer_votes:
  "(\<And>p. pid (f p) = pid p \<and> voted_for_me (f p) = voted_for_me p) \<Longrightarrow>
   map (\<lambda>p. (pid p, voted_for_me p)) (known_peers (update_peer i f st)) =
   map (\<lambda>p. (pid p, voted_for_me p)) (known_peers st)"
  by (simp add: update_peer_def map_update_first)

lemma retry_append_quiet:
  assumes "retry_append s from p = Inr (s', cs)" "node_role s = Leader"
  shows "quiet_step s s' cs"
  using assms by (auto simp: retry_append_def Let_def quiet_step_def update_peer_votes)

lemma advance_match_quiet:
  assumes "advance_match s from u = Inr (s', cs)"
  shows "quiet_step s s' cs"
  using assms
  by (auto simp: advance_match_def Let_def quiet_step_def update_peer_votes dest: commit_until_frame(1)
      split: if_splits)

lemma quiet_step_from:
  assumes "quiet_step s1 s' cs" "node_id s1 = node_id s" "current_term s1 = current_term s"
    and "node_role s1 = node_role s"
    and "map (\<lambda>p. (pid p, voted_for_me p)) (peers s1) = map (\<lambda>p. (pid p, voted_for_me p)) (peers s)"
  shows "quiet_step s s' cs"
  using assms by (simp add: quiet_step_def)

definition stop_waiting :: "string \<Rightarrow> Server \<Rightarrow> Server" where
  "stop_waiting i s = with_state (update_peer i (\<lambda>p. p\<lparr>waiting_for_response := False\<rparr>)) s"

lemma stop_waiting_simps [simp, frame_simps]:
  "node_id (stop_waiting i s) = node_id s"
  "storage (stop_waiting i s) = storage s"
  "node_role (stop_waiting i s) = node_role s"
  "map (\<lambda>p. (pid p, voted_for_me p)) (peers (stop_waiting i s)) =
   map (\<lambda>p. (pid p, voted_for_me p)) (peers s)"
  "map pid (peers (stop_waiting i s)) = map pid (peers s)"
  by (simp_all add: stop_waiting_def update_peer_votes update_peer_pids)

lemma on_AppendEntriesResponse_cases:
  assumes r: "on_AppendEntriesResponse s resp = Inr (s', cs)"
  obtains (same) "s' = s" "cs = [] \<or> cs = [Drop (peer_id (aes_header resp))]"
  | (released) "s' = stop_waiting (peer_id (aes_header resp)) s" "cs = []"
  | (newer) "current_term s < hdr_term (aes_header resp)" "cs = []"
      "s' = step_down (hdr_term (aes_header resp)) (stop_waiting (peer_id (aes_header resp)) s)"
  | (retry) p where "node_role s = Leader"
      "retry_append (stop_waiting (peer_id (aes_header resp)) s) (peer_id (aes_header resp)) p = Inr (s', cs)"
  | (advance) u where "node_role s = Leader"
      "advance_match (stop_waiting (peer_id (aes_header resp)) s) (peer_id (aes_header resp)) u = Inr (s', cs)"
proof -
  let ?h = "aes_header resp"
  show ?thesis
  proof (cases "destination_id ?h \<noteq> node_id s \<or> find_peer (state s) (peer_id ?h) = None")
    case True
    then have "s' = s" "cs = [Drop (peer_id ?h)]"
      using r by (auto simp: on_AppendEntriesResponse_def Let_def split: if_splits)
    then show ?thesis using same by simp
  next
    case False
    then obtain p where p: "find_peer (state s) (peer_id ?h) = Some p" "destination_id ?h = node_id s"
      by auto
    note r' = r [unfolded on_AppendEntriesResponse_def Let_def, folded stop_waiting_def, unfolded p, simplified]
    show ?thesis
    proof (cases "current_term s < hdr_term ?h")
      case True
      then have "s' = s \<and> cs = [] \<or> s' = step_down (hdr_term ?h) (stop_waiting (peer_id ?h) s) \<and> cs = []"
        using r' by (auto split: if_splits)
      then show ?thesis using same newer True by blast
    next
      case False
      then have "s' = s \<and> cs = [] \<or> s' = stop_waiting (peer_id ?h) s \<and> cs = [] \<or>
          node_role s = Leader \<and> retry_append (stop_waiting (peer_id ?h) s) (peer_id ?h) p = Inr (s', cs) \<or>
          (\<exists>u. node_role s = Leader \<and> advance_match (stop_waiting (peer_id ?h) s) (peer_id ?h) u = Inr (s', cs))"
        using r' by (auto split: if_splits)
      then show ?thesis using same released retry advance by blast
    qed
  qed
qed

lemma on_AppendEntriesResponse_vote_step:
  assumes r: "on_AppendEntriesResponse s resp = Inr (s', cs)"
  shows "vote_step e s s' cs"
  using r
proof (cases rule: on_AppendEntriesResponse_cases)
  case same
  then show ?thesis by (auto intro!: vote_step_quiet simp: quiet_step_def)
next
  case released
  then show ?thesis by (auto intro!: vote_step_quiet simp: quiet_step_def)
next
  case newer
  then show ?thesis
    by (intro vote_step_step_down [of _ "hdr_term (aes_header resp)"]) (auto simp: ballot_outbox)
next
  case (retry p)
  show ?thesis
    by (rule vote_step_quiet, rule quiet_step_from, rule retry_append_quiet [OF retry(2)])
      (simp_all add: retry(1))
next
  case (advance u)
  show ?thesis
    by (rule vote_step_quiet, rule quiet_step_from, rule advance_match_quiet [OF advance(2)]) simp_all
qed

lemma request_for_header:
  assumes "request_for g req p = Inr req'"
  shows "peer_id (aer_header req') = peer_id (aer_header req)" "hdr_term (aer_header req') = hdr_term (aer_header req)"
  using assms by (auto simp: request_for_def Let_def split: if_splits)

lemma forward_entry_Cons_cases:
  assumes "forward_entry me n g req (p # ps) = Inr (qs, cs)"
  obtains (skip) q qs' where "forward_entry me n g req ps = Inr (qs', cs)" "qs = q # qs'" "pid q = pid p"
      "voted_for_me q = voted_for_me p" "pid p = me \<or> q = p"
  | (send) req' q qs' cs' where "pid p \<noteq> me" "request_for g req p = Inr req'" "ei_index (next_entry p) = n"
      "\<not> waiting_for_response p"
      "forward_entry me n g req' ps = Inr (qs', cs')" "qs = q # qs'" "pid q = pid p"
      "voted_for_me q = voted_for_me p" "cs = SendAppendEntriesRequest (pid p) req' # cs'"
  using assms by (auto simp: Let_def split: if_splits)

lemma forward_entry_frame:
  assumes "forward_entry me n g req ps = Inr (qs, cs)"
  shows "map (\<lambda>p. (pid p, voted_for_me p)) qs = map (\<lambda>p. (pid p, voted_for_me p)) ps \<and>
         (\<forall>c \<in> set cs. \<exists>d r. c = SendAppendEntriesRequest d r \<and>
            peer_id (aer_header r) = peer_id (aer_header req) \<and>
            hdr_term (aer_header r) = hdr_term (aer_header req))"
  using assms
proof (induction ps arbitrary: req qs cs)
  case Nil
  then show ?case by simp
next
  case (Cons p ps)
  from Cons.prems show ?case
  proof (cases rule: forward_entry_Cons_cases)
    case (skip q qs')
    then show ?thesis using Cons.IH by simp
  next
    case (send req' q qs' cs')
    then show ?thesis using Cons.IH [OF send(5)] request_for_header [OF send(2)] by simp
  qed
qed

lemma on_ClientRequest_quiet:
  assumes r: "on_ClientRequest s req = Inr (s', cs)"
  shows "quiet_step s s' cs"
proof (cases "node_role s")
  case Leader
  then show ?thesis
    using r
    by (auto simp: on_ClientRequest_def Let_def quiet_step_def dest!: append_log_frame forward_entry_frame
        split: if_splits prod.splits)
qed (use r in \<open>auto simp: on_ClientRequest_def quiet_step_def split: option.splits\<close>)


text \<open>Every event handler keeps to \<open>vote_step\<close>; only the timeout needs a side condition, that the
  term does not wrap and that the node has another peer.\<close>

definition term_room :: "Server \<Rightarrow> event \<Rightarrow> bool" where
  "term_room s e \<longleftrightarrow> (case e of Timeout _ \<Rightarrow> current_term s \<noteq> max_u64 | _ \<Rightarrow> True)"

lemma node_event_vote_step:
  assumes "node_event s e = Inr (s', cs)" "term_room s e"
    and "\<exists>j \<in> set (map pid (peers s)). j \<noteq> node_id s"
  shows "vote_step e s s' cs"
proof (cases e)
  case (Timeout i)
  then show ?thesis using assms timeout_vote_step by (simp add: term_room_def)
next
  case (MinimumTimeout i)
  then show ?thesis using assms
    by (auto simp: on_MinimumTimeoutRequest_def quiet_step_def intro!: vote_step_quiet)
next
  case (Deliver i m)
  then show ?thesis using assms(1)
    by (cases m) (auto intro: on_VoteRequest_vote_step on_VoteResponse_vote_step
        on_AppendEntriesRequest_vote_step on_AppendEntriesResponse_vote_step
        vote_step_quiet on_ClientRequest_quiet)
next
  case (Submit i r)
  then show ?thesis using assms(1) by (auto intro: vote_step_quiet on_ClientRequest_quiet)
qed

subsection \<open>Quorums\<close>

text \<open>The combinatorial core of an election: any two quorums share a voter, and a voter that casts
  at most one ballot in a term cannot be in the quorums of two candidates of that term.\<close>

locale quorum_system =
  fixes quorum :: "'v set \<Rightarrow> bool"
  assumes quorums_meet: "quorum Q \<Longrightarrow> quorum R \<Longrightarrow> \<exists>v. v \<in> Q \<and> v \<in> R"
begin

definition elected :: "('v \<Rightarrow> 't \<Rightarrow> 'c \<Rightarrow> bool) \<Rightarrow> 'c \<Rightarrow> 't \<Rightarrow> bool" where
  "elected b c t \<longleftrightarrow> (\<exists>Q. quorum Q \<and> (\<forall>v \<in> Q. b v t c))"

lemma elected_mono:
  "elected b c t \<Longrightarrow> (\<And>v t c. b v t c \<Longrightarrow> b' v t c) \<Longrightarrow> elected b' c t"
  unfolding elected_def by blast

lemma elected_unique:
  assumes "\<And>v c c'. b v t c \<Longrightarrow> b v t c' \<Longrightarrow> c = c'" "elected b c t" "elected b c' t"
  shows "c = c'"
  using assms quorums_meet unfolding elected_def by metis

end

definition majority :: "string list \<Rightarrow> string set \<Rightarrow> bool" where
  "majority ids Q \<longleftrightarrow> Q \<subseteq> set ids \<and> length ids div 2 < card Q"

lemma majorities_meet:
  assumes "majority ids Q" "majority ids R"
  shows "\<exists>v. v \<in> Q \<and> v \<in> R"
proof (rule ccontr)
  assume "\<not> ?thesis"
  then have "card (Q \<union> R) = card Q + card R"
    using assms by (intro card_Un_disjoint) (auto simp: majority_def finite_subset)
  moreover have "card (Q \<union> R) \<le> card (set ids)"
    using assms by (intro card_mono) (auto simp: majority_def)
  moreover have "card (set ids) \<le> length ids" by (rule card_length)
  ultimately show False using assms by (auto simp: majority_def)
qed

interpretation maj: quorum_system "majority ids" for ids
  by unfold_locales (rule majorities_meet)


subsection \<open>Election safety\<close>

text \<open>The events the positive result is about: terms do not wrap, and a granted vote is delivered
  no later than in the term it was asked for. The code itself does not check the latter.\<close>

definition timely :: "Cluster \<Rightarrow> event \<Rightarrow> bool" where
  "timely c e \<longleftrightarrow>
     (case servers c (event_node e) of
        None \<Rightarrow> True
      | Some s \<Rightarrow> term_room s e \<and>
          (case e of
             Deliver _ (MVoteResponse r) \<Rightarrow> vote_granted r \<longrightarrow> current_term s \<le> hdr_term (vs_header r)
           | _ \<Rightarrow> True))"

definition nodes_inv :: "string list \<Rightarrow> Cluster \<Rightarrow> bool" where
  "nodes_inv ids c \<longleftrightarrow>
     (\<forall>i s. servers c i = Some s \<longrightarrow> i \<in> set ids \<and> node_id s = i \<and> map pid (peers s) = ids)"

definition ballots_inv :: "Cluster \<Rightarrow> bool" where
  "ballots_inv c \<longleftrightarrow>
     (\<forall>v t x s. ballot (net c) v t x \<longrightarrow> servers c v = Some s \<longrightarrow> t \<le> current_term s) \<and>
     (\<forall>v t x x'. ballot (net c) v t x \<longrightarrow> ballot (net c) v t x' \<longrightarrow> x = x')"

definition counted_inv :: "Cluster \<Rightarrow> bool" where
  "counted_inv c \<longleftrightarrow>
     (\<forall>i s p. servers c i = Some s \<longrightarrow> node_role s \<noteq> Follower \<longrightarrow> p \<in> set (peers s) \<longrightarrow>
        voted_for_me p \<longrightarrow> ballot (net c) (pid p) (current_term s) i)"

definition leaders_inv :: "string list \<Rightarrow> Cluster \<Rightarrow> bool" where
  "leaders_inv ids c \<longleftrightarrow>
     (\<forall>i s. servers c i = Some s \<longrightarrow> node_role s = Leader \<longrightarrow>
        maj.elected ids (ballot (net c)) i (current_term s)) \<and>
     (\<forall>d r. (d, MAppendEntriesRequest r) \<in> set (net c) \<longrightarrow>
        maj.elected ids (ballot (net c)) (peer_id (aer_header r)) (hdr_term (aer_header r)))"

definition election_inv :: "string list \<Rightarrow> Cluster \<Rightarrow> bool" where
  "election_inv ids c \<longleftrightarrow> nodes_inv ids c \<and> ballots_inv c \<and> counted_inv c \<and> leaders_inv ids c"

lemma ballot_Nil [simp]: "\<not> ballot [] v t x"
  by (simp add: ballot_def)

lemma election_inv_boot: "election_inv ids (boot ids)"
  by (auto simp: election_inv_def nodes_inv_def ballots_inv_def counted_inv_def leaders_inv_def
      boot_def new_Server_def new_state_def new_peer_def comp_def split: if_splits)

lemma election_inv_crash:
  "election_inv ids c \<Longrightarrow> election_inv ids (c\<lparr>servers := (servers c)(i := None)\<rparr>)"
  by (simp add: election_inv_def nodes_inv_def ballots_inv_def counted_inv_def leaders_inv_def)

lemma voters_majority:
  assumes "map pid ps = ids" "distinct ids" "length ps div 2 < num_votes ps"
  shows "majority ids (pid ` set (filter voted_for_me ps))"
proof -
  have d: "distinct (map pid (filter voted_for_me ps))"
    using assms(1,2) by (metis distinct_map distinct_filter filter_is_subset inj_on_subset)
  have "card (pid ` set (filter voted_for_me ps)) = num_votes ps"
    using distinct_card [OF d] by (simp add: num_votes_def)
  moreover have "length ids = length ps" using assms(1) by auto
  ultimately show ?thesis using assms by (auto simp: majority_def)
qed

abbreviation after :: "Cluster \<Rightarrow> string \<Rightarrow> Server \<Rightarrow> callback list \<Rightarrow> Cluster" where
  "after c i s' cs \<equiv> \<lparr>servers = (servers c)(i := Some s'), net = net c @ outbox cs\<rparr>"

lemma vote_step_ballotD:
  assumes "vote_step e s s' cs" "ballot (outbox cs) x t y"
  shows "x = node_id s" "t = current_term s'" "current_term s < t"
  using assms unfolding vote_step_def by blast+

lemma nodes_inv_normal:
  assumes "nodes_inv ids c" "servers c i = Some s" "vote_step e s s' cs"
  shows "nodes_inv ids (after c i s' cs)"
  using assms by (auto simp: nodes_inv_def vote_step_def)

lemma ballots_inv_normal:
  assumes inv: "ballots_inv c" and i: "servers c i = Some s" "node_id s = i" and v: "vote_step e s s' cs"
  shows "ballots_inv (after c i s' cs)"
proof -
  note new = vote_step_ballotD [OF v]
  have old: "t \<le> current_term s" if "ballot (net c) i t y" for t y
    using inv i that by (auto simp: ballots_inv_def)
  have grow: "current_term s \<le> current_term s'" using v by (simp add: vote_step_def)
  have "x = y" if "ballot (net c @ outbox cs) w t x" "ballot (net c @ outbox cs) w t y" for w t x y
  proof -
    have "ballot (outbox cs) w t x \<Longrightarrow> ballot (outbox cs) w t y \<Longrightarrow> x = y"
      using v unfolding vote_step_def by blast
    moreover have "ballot (net c) w t x \<Longrightarrow> ballot (net c) w t y \<Longrightarrow> x = y"
      using inv by (auto simp: ballots_inv_def)
    moreover have "\<not> (ballot (net c) w t x' \<and> ballot (outbox cs) w t y')" for x' y'
      using new [of w t y'] old [of t x'] i(2) by force
    ultimately show ?thesis using that unfolding ballot_append by blast
  qed
  moreover have "t \<le> current_term z"
    if b: "ballot (net c @ outbox cs) x t y" and z: "((servers c)(i := Some s')) x = Some z" for x t y z
  proof (cases "x = i")
    case True
    have "t \<le> current_term s'"
      using b unfolding ballot_append True
    proof
      assume "ballot (net c) i t y"
      then show ?thesis using old grow by (meson order_trans)
    qed (use new in auto)
    then show ?thesis using z True by simp
  next
    case False
    then have "ballot (net c) x t y" "servers c x = Some z"
      using b z new(1) i(2) by (auto simp: ballot_append)
    then show ?thesis using inv by (auto simp: ballots_inv_def)
  qed
  ultimately show ?thesis unfolding ballots_inv_def by auto
qed

lemma counted_inv_normal:
  assumes inv: "counted_inv c" and i: "servers c i = Some s" "node_id s = i" and v: "vote_step e s s' cs"
    and arrives: "\<And>x. vote_arrives e i x (current_term s) \<Longrightarrow> ballot (net c) x (current_term s) i"
  shows "counted_inv (after c i s' cs)"
proof -
  have "ballot (net c @ outbox cs) (pid p) (current_term s') i"
    if p: "node_role s' \<noteq> Follower" "p \<in> set (peers s')" "voted_for_me p" for p
  proof -
    consider "ballot (outbox cs) (pid p) (current_term s') i"
      | q where "current_term s' = current_term s" "node_role s \<noteq> Follower" "q \<in> set (peers s)"
          "pid q = pid p" "voted_for_me q"
      | "current_term s' = current_term s" "vote_arrives e i (pid p) (current_term s)"
      using v p i(2) unfolding vote_step_def by blast
    then show ?thesis
    proof cases
      case 2
      then have "ballot (net c) (pid q) (current_term s) i"
        using inv i(1) unfolding counted_inv_def by blast
      then show ?thesis using 2 by (simp add: ballot_append)
    qed (use arrives in \<open>auto simp: ballot_append\<close>)
  qed
  then show ?thesis using inv by (auto simp: counted_inv_def ballot_append)
qed

lemma leaders_inv_normal:
  assumes inv: "leaders_inv ids c" and d: "distinct ids"
    and i: "servers c i = Some s" "node_id s = i" "map pid (peers s) = ids" and v: "vote_step e s s' cs"
    and counted: "counted_inv (after c i s' cs)"
  shows "leaders_inv ids (after c i s' cs)"
proof -
  have mono: "maj.elected ids (ballot (net c)) x t \<Longrightarrow> maj.elected ids (ballot (net c @ outbox cs)) x t" for x t
    by (erule maj.elected_mono) (simp add: ballot_append)
  have led: "maj.elected ids (ballot (net c @ outbox cs)) i (current_term s')" if l: "node_role s' = Leader"
  proof (cases "current_term s' = current_term s \<and> node_role s = Leader")
    case True
    then show ?thesis using inv i mono by (auto simp: leaders_inv_def)
  next
    case False
    then have "length (peers s') div 2 < num_votes (peers s')" "map pid (peers s') = ids"
      using v l i(3) by (auto simp: vote_step_def)
    then have "majority ids (pid ` set (filter voted_for_me (peers s')))"
      using voters_majority d by blast
    moreover have "ballot (net c @ outbox cs) x (current_term s') i"
      if "x \<in> pid ` set (filter voted_for_me (peers s'))" for x
      using that l counted unfolding counted_inv_def by fastforce
    ultimately show ?thesis unfolding maj.elected_def by blast
  qed
  have sent: "peer_id (aer_header r) = i \<and> hdr_term (aer_header r) = current_term s' \<and> node_role s' = Leader"
    if "SendAppendEntriesRequest x r \<in> set cs" for x r
    using v that i(2) unfolding vote_step_def mem_outbox by blast
  have "maj.elected ids (ballot (net c @ outbox cs)) (peer_id (aer_header r)) (hdr_term (aer_header r))"
    if "(x, MAppendEntriesRequest r) \<in> set (net c @ outbox cs)" for x r
    using that inv mono led sent [of x r] by (auto simp: leaders_inv_def)
  moreover have "maj.elected ids (ballot (net c @ outbox cs)) j (current_term z)"
    if "((servers c)(i := Some s')) j = Some z" "node_role z = Leader" for j z
    using that inv mono led by (auto simp: leaders_inv_def split: if_splits)
  ultimately show ?thesis unfolding leaders_inv_def by auto
qed

lemma election_inv_normal:
  assumes inv: "election_inv ids c" and d: "distinct ids" and i: "servers c i = Some s"
    and v: "vote_step e s s' cs"
    and arrives: "\<And>x. vote_arrives e i x (current_term s) \<Longrightarrow> ballot (net c) x (current_term s) i"
  shows "election_inv ids (after c i s' cs)"
proof -
  have id: "node_id s = i" "map pid (peers s) = ids"
    using inv i by (auto simp: election_inv_def nodes_inv_def)
  have "counted_inv (after c i s' cs)"
    using inv counted_inv_normal [OF _ i id(1) v arrives] by (simp add: election_inv_def)
  then show ?thesis
    using inv nodes_inv_normal [OF _ i v] ballots_inv_normal [OF _ i id(1) v]
      leaders_inv_normal [OF _ d i id v] by (simp add: election_inv_def)
qed

lemma timely_vote_arrives:
  assumes "timely c e" "enabled c e" "servers c (event_node e) = Some s"
    and "vote_arrives e i x (current_term s)"
  shows "ballot (net c) x (current_term s) i"
proof -
  obtain d r where 1: "e = Deliver d (MVoteResponse r)" "vote_granted r" "peer_id (vs_header r) = x"
      "destination_id (vs_header r) = i" "hdr_term (vs_header r) \<le> current_term s"
    using assms(4) by (auto elim: vote_arrives.elims)
  then have "current_term s \<le> hdr_term (vs_header r)"
    using assms by (auto simp: timely_def)
  then show ?thesis using assms(2) 1 by (fastforce simp: ballot_def)
qed

lemma election_inv_reachable:
  assumes "reachable timely (boot ids) c" "distinct ids" "2 \<le> length ids"
  shows "election_inv ids c"
  using assms(1)
proof (induction rule: reachable.induct)
  case init
  show ?case by (rule election_inv_boot)
next
  case (step c e c')
  from step.hyps(3) show ?case
  proof (cases rule: run_event_cases)
    case (crash s f)
    then show ?thesis using step election_inv_crash by simp
  next
    case (normal s s' cs)
    have id: "node_id s = event_node e" "map pid (peers s) = ids"
      using step.IH normal by (auto simp: election_inv_def nodes_inv_def)
    obtain a b rest where "ids = a # b # rest" using assms(3) by (cases ids; cases "tl ids"; auto)
    then have "\<exists>j \<in> set ids. j \<noteq> node_id s" using assms(2) by auto
    then have "vote_step e s s' cs"
      using node_event_vote_step [OF normal(3)] normal(1) step.hyps(2) id by (simp add: timely_def)
    then show ?thesis
      using election_inv_normal [OF step.IH assms(2) normal(1)] normal step.hyps(2) timely_vote_arrives
      by blast
  qed
qed

end
