(* ===== verification/Raft_Safety.thy ===== *)
theory Raft_Safety
  imports Raft_Cluster
begin

text \<open>
  The guarantees of the raft nodes over all runs of a cluster: the log invariant and the permanence
  of committed entries, the meaning of the leader's commit index, election safety, and closed runs that
  show two departures of the code from the protocol.
\<close>

subsection \<open>What one handler call does to the log\<close>

text \<open>The entries of an append request continue its previous entry.\<close>

definition batch_ok :: "AppendEntriesRequest \<Rightarrow> bool" where
  "batch_ok r \<longleftrightarrow> entries r = [] \<or> batch_from (unat (ei_index (previous_entry r))) (entries r)"

definition log_step :: "MemStorage \<Rightarrow> MemStorage \<Rightarrow> bool" where
  "log_step g g' \<longleftrightarrow> storage_ok g' \<and> st_committed g \<le> st_committed g' \<and>
     take (st_committed g) (st_entries g') = take (st_committed g) (st_entries g)"

definition sends_ok :: "callback list \<Rightarrow> bool" where
  "sends_ok cs \<longleftrightarrow> (\<forall>d r. SendAppendEntriesRequest d r \<in> set cs \<longrightarrow> batch_ok r)"

lemma log_step_same:
  assumes "storage_ok g" "st_entries g' = st_entries g" "st_uncommit g' = st_uncommit g"
    "st_commit g' = st_commit g"
  shows "log_step g g'"
  using assms storage_ok_cong [of g g'] by (simp add: log_step_def st_committed_def)

lemma log_step_trans: "log_step g g' \<Longrightarrow> log_step g' g'' \<Longrightarrow> log_step g g''"
  unfolding log_step_def by (metis min.absorb1 order_trans take_take)

lemma log_step_commit:
  assumes ok: "storage_ok g" and c: "commit_until g i = Inr (g', e)" and i: "ei_index (st_commit g) < i"
  shows "log_step g g'"
proof -
  obtain g1 where g1: "commit_until g i = Inr (g1, st_commit g1)" "storage_ok g1"
      "st_entries g1 = st_entries g" "st_commit g1 = info_at (st_entries g) (min (length (st_entries g)) (unat i))"
    using commit_until_ok [OF ok] by blast
  have "st_committed g1 = min (length (st_entries g)) (unat i)"
    using g1 ok by (simp add: st_committed_def unat_index_info_at storage_ok_def)
  moreover have "st_committed g \<le> unat i"
    using i by (simp add: st_committed_def word_less_nat_alt less_imp_le)
  ultimately show ?thesis using g1 c st_committed_le [OF ok] by (simp add: log_step_def)
qed

lemma log_step_append:
  assumes ok: "storage_ok g" and a: "append_log g es = Inr (g', u)"
    and b: "es = [] \<or> batch_from n es" and n: "st_committed g \<le> n" "n \<le> length (st_entries g)"
  shows "log_step g g'"
proof (cases "es = []")
  case True
  then show ?thesis using ok a by (auto simp: append_log_def log_step_def)
next
  case False
  then have b: "batch_from n es" using b by simp
  obtain g1 where "append_log g es = Inr (g1, st_uncommit g1)" "storage_ok g1"
    using append_log_ok [OF ok b] n by (auto simp: st_committed_def)
  then show ?thesis
    using a mem.app_keeps_committed [OF ok b n a] by (auto simp: log_step_def)
qed

lemma append_and_reply_log_step:
  assumes ok: "storage_ok (storage s)" and b: "batch_ok req"
    and lo: "ei_index (ls_commit (server_log_state s)) \<le> ei_index (previous_entry req)"
    and hi: "ei_index (previous_entry req) \<le> ei_index (ls_uncommit (server_log_state s))"
    and r: "append_and_reply s req resp = Inr (s', cs)"
  shows "log_step (storage s) (storage s')"
proof -
  let ?c = "ei_index (ls_commit (log_state (aer_header req)))"
  obtain g1 u where a: "append_log (storage s) (entries req) = Inr (g1, u)"
    and c: "storage s' = g1 \<or>
            (\<exists>e. ei_index (st_commit g1) < ?c \<and> commit_until g1 ?c = Inr (storage s', e))"
    using r by (auto simp: append_and_reply_def Let_def split: if_splits)
  have n: "st_committed (storage s) \<le> unat (ei_index (previous_entry req))"
    "unat (ei_index (previous_entry req)) \<le> length (st_entries (storage s))"
    using lo hi storage_ok_uncommit_index [OF ok]
    by (simp_all add: st_committed_def word_le_nat_alt get_log_state_def)
  have l: "log_step (storage s) g1"
    by (rule log_step_append [OF ok a _ n]) (use b in \<open>simp add: batch_ok_def\<close>)
  then have "storage_ok g1" by (simp add: log_step_def)
  with c l show ?thesis using log_step_commit log_step_trans by blast
qed

lemma check_and_append_log_step:
  assumes ok: "storage_ok (storage s)" and b: "batch_ok req"
    and r: "check_and_append s req resp = Inr (s', cs)"
  shows "log_step (storage s) (storage s')"
proof (cases "ei_index (previous_entry req) < ei_index (ls_commit (server_log_state s)) \<or>
              ei_index (ls_uncommit (server_log_state s)) < ei_index (previous_entry req)")
  case True
  then have "s' = s" using r by (auto simp: check_and_append_def Let_def entry_neq_def split: if_splits)
  then show ?thesis using ok by (simp add: log_step_same)
next
  case False
  then have "append_and_reply s req resp = Inr (s', cs)"
    using r by (auto simp: check_and_append_def Let_def entry_neq_def)
  then show ?thesis using append_and_reply_log_step [OF ok b] False by (simp add: not_less)
qed


lemma step_down_log: "storage_ok (storage s) \<Longrightarrow> log_step (storage s) (storage (step_down t s))"
  by (rule log_step_same) simp_all

lemma on_AppendEntriesRequest_log_step:
  assumes ok: "storage_ok (storage s)" and b: "batch_ok req"
    and r: "on_AppendEntriesRequest s req = Inr (s', cs)"
  shows "log_step (storage s) (storage s') \<and> sends_ok cs"
  using r
proof (cases rule: on_AppendEntriesRequest_cases)
  case same
  then show ?thesis using ok by (auto simp: log_step_same sends_ok_def)
next
  case (newer s1 c1 c2 resp)
  have s1: "storage s1 = storage (step_down (hdr_term (aer_header req)) s)" using newer(4) by auto
  then have "log_step (storage s) (storage s1)" using step_down_log ok by simp
  moreover from this have "log_step (storage s1) (storage s')"
    using check_and_append_log_step [OF _ b newer(2)] by (simp add: log_step_def)
  moreover have "sends_ok cs"
    using newer(3,4) check_and_append_frame(8) [OF newer(2)] by (auto simp: sends_ok_def)
  ultimately show ?thesis using log_step_trans by blast
next
  case (current s1 c1 c2 resp)
  have "storage s1 = storage s" using current(3) by auto
  then show ?thesis
    using current(2,3) check_and_append_log_step [OF _ b current(1)] check_and_append_frame(8) [OF current(1)] ok
    by (auto simp: sends_ok_def)
qed

lemma batch_from_suffix:
  "storage_ok g \<Longrightarrow> drop n (st_entries g) \<noteq> [] \<Longrightarrow> batch_from n (drop n (st_entries g))"
  using mem.suffix_is_batch [of g n] by simp

lemma batch_ok_since:
  assumes "storage_ok g" "entries_since g n = Inr es" "entries r = es"
    "ei_index (previous_entry r) = n \<or> es = []"
  shows "batch_ok r"
  using assms batch_from_suffix [OF assms(1), of "unat n"] by (auto simp: batch_ok_def entries_since_ok)

lemma get_entry_info_index:
  assumes "storage_ok g" "get_entry_info g n = Inr e" "unat n \<le> length (st_entries g)"
  shows "ei_index e = n"
  using assms by (intro unat_eqD) (auto simp: get_entry_info_ok unat_index_info_at storage_ok_def)

lemma retry_append_log_step:
  assumes ok: "storage_ok (storage s)" and r: "retry_append s from p = Inr (s', cs)"
  shows "log_step (storage s) (storage s') \<and> sends_ok cs"
proof -
  obtain n prev es req where e: "get_entry_info (storage s) n = Inr prev" "entries_since (storage s) n = Inr es"
      "storage s' = storage s" "cs = [SendAppendEntriesRequest from req]"
      "previous_entry req = prev" "entries req = es"
    using r unfolding retry_append_def Let_def by auto
  have "es = [] \<or> unat n \<le> length (st_entries (storage s))"
    using e(2) ok by (auto simp: entries_since_ok)
  then have "batch_ok req"
    using batch_ok_since [OF ok e(2,6)] get_entry_info_index [OF ok e(1)] e(5) by auto
  then show ?thesis using e ok by (auto simp: sends_ok_def log_step_same)
qed

lemma advance_match_log_step:
  assumes ok: "storage_ok (storage s)" and r: "advance_match s from u = Inr (s', cs)"
  shows "log_step (storage s) (storage s') \<and> sends_ok cs"
  using r ok
  by (auto simp: advance_match_def Let_def sends_ok_def log_step_same intro: log_step_commit split: if_splits)

lemma on_AppendEntriesResponse_log_step:
  assumes ok: "storage_ok (storage s)" and r: "on_AppendEntriesResponse s resp = Inr (s', cs)"
  shows "log_step (storage s) (storage s') \<and> sends_ok cs"
  using r
proof (cases rule: on_AppendEntriesResponse_cases)
  case newer
  then show ?thesis using ok step_down_log [of "stop_waiting (peer_id (aes_header resp)) s"]
    by (simp add: sends_ok_def)
next
  case (retry p)
  then show ?thesis using retry_append_log_step [OF _ retry(2)] ok by simp
next
  case (advance u)
  then show ?thesis using advance_match_log_step [OF _ advance(2)] ok by simp
qed (use ok in \<open>auto simp: log_step_same sends_ok_def\<close>)

lemma request_for_batch_ok:
  assumes "storage_ok g" "batch_ok req" "request_for g req p = Inr req'"
  shows "batch_ok req'"
proof (cases "entries req' = entries req \<and> previous_entry req' = previous_entry req")
  case True
  then show ?thesis using assms(2) by (simp add: batch_ok_def)
next
  case False
  then show ?thesis
    using assms(3) batch_ok_since [OF assms(1), of "ei_index (next_entry p) - 1" "entries req'" req']
    by (auto simp: request_for_def Let_def split: if_splits)
qed

lemma forward_entry_sends_ok:
  assumes "forward_entry me n g req ps = Inr (qs, cs)" "storage_ok g" "batch_ok req"
  shows "sends_ok cs"
  using assms
proof (induction ps arbitrary: req qs cs)
  case Nil
  then show ?case by (simp add: sends_ok_def)
next
  case (Cons p ps)
  from Cons.prems(1) show ?case
  proof (cases rule: forward_entry_Cons_cases)
    case skip
    then show ?thesis using Cons.IH Cons.prems by blast
  next
    case (send req' q qs' cs')
    have "batch_ok req'" by (rule request_for_batch_ok [OF Cons.prems(2,3) send(2)])
    then show ?thesis using Cons.IH [OF send(5) Cons.prems(2)] send(9) by (simp add: sends_ok_def)
  qed
qed

lemma on_ClientRequest_log_step:
  assumes ok: "storage_ok (storage s)" and r: "on_ClientRequest s req = Inr (s', cs)"
  shows "log_step (storage s) (storage s') \<and> sends_ok cs"
proof (cases "node_role s = Leader")
  case False
  then show ?thesis using r ok
    by (cases "node_role s") (auto simp: on_ClientRequest_def log_step_same sends_ok_def split: option.splits)
next
  case True
  let ?n = "ei_index (st_uncommit (storage s)) + 1"
  obtain e g u out ps where a: "append_log (storage s) [e] = Inr (g, u)" "info e = \<lparr>ei_index = ?n, ei_term = current_term s\<rparr>"
    and f: "forward_entry (node_id s) ?n g out (peers s) = Inr (ps, butlast cs)" "entries out = []"
    and s': "storage s' = g" "cs = butlast cs @ [SetHeartbeatTimeout]"
    using r True by (auto simp: on_ClientRequest_def Let_def get_log_state_def split: if_splits)
  let ?l = "length (st_entries (storage s))"
  have u: "unat (ei_index (st_uncommit (storage s))) = ?l" by (rule storage_ok_uncommit_index [OF ok])
  have "?n \<noteq> 0" using a ok by (auto simp: append_log_def Let_def split: if_splits)
  then have n: "unat ?n = ?l + 1" using u unatSuc [of "ei_index (st_uncommit (storage s))"] by (simp add: add.commute)
  then have "batch_from ?l [e]" using a(2) unat_u64 [of ?n] by (auto simp: batch_from_def)
  then have l: "log_step (storage s) g"
    using log_step_append [OF ok a(1), of ?l] st_committed_le [OF ok] by simp
  moreover have "sends_ok (butlast cs)"
    using forward_entry_sends_ok [OF f(1)] l f(2) by (simp add: log_step_def batch_ok_def)
  moreover have "SendAppendEntriesRequest d q \<in> set cs \<Longrightarrow> SendAppendEntriesRequest d q \<in> set (butlast cs)" for d q
    using s'(2) by (metis Un_iff callback.distinct(7) empty_iff list.set(1) set_ConsD set_append)
  ultimately show ?thesis using s'(1) unfolding sends_ok_def by blast
qed

lemma sends_ok_simps [simp]:
  "sends_ok []" "sends_ok (SetFollowerTimeout # cs) = sends_ok cs" "sends_ok (Drop i # cs) = sends_ok cs"
  "sends_ok (SendVoteResponse i r # cs) = sends_ok cs"
  by (auto simp: sends_ok_def)

lemma on_VoteRequest_log_step:
  assumes ok: "storage_ok (storage s)" and r: "on_VoteRequest s req = (s', cs)"
  shows "log_step (storage s) (storage s') \<and> sends_ok cs"
proof -
  have "st_entries (storage s') = st_entries (storage s) \<and> st_uncommit (storage s') = st_uncommit (storage s) \<and>
        st_commit (storage s') = st_commit (storage s) \<and> sends_ok cs"
    using r unfolding on_VoteRequest_def Let_def by (simp split: if_splits) auto
  then show ?thesis using log_step_same [OF ok] by blast
qed

lemma become_leader_sends_ok: "become_leader s = (s', cs) \<Longrightarrow> sends_ok cs"
  by (auto simp: become_leader_def Let_def sends_ok_def batch_ok_def split: if_splits)

lemma on_VoteResponse_log_step:
  assumes ok: "storage_ok (storage s)" and r: "on_VoteResponse s resp = Inr (s', cs)"
  shows "log_step (storage s) (storage s') \<and> sends_ok cs"
proof -
  have "storage s' = storage s \<and> sends_ok cs \<or> (\<exists>t. storage s' = storage (step_down t s) \<and> cs = [])"
    using r become_leader_fields(2) become_leader_sends_ok unfolding on_VoteResponse_def Let_def
    by (simp split: option.splits if_splits) (auto dest: become_leader_fields(2) become_leader_sends_ok)
  then show ?thesis using ok step_down_log by (auto simp: log_step_same)
qed

lemma timeout_log_step:
  assumes ok: "storage_ok (storage s)" and r: "timeout s = (s', cs)"
  shows "log_step (storage s) (storage s') \<and> sends_ok cs"
proof (cases "node_role s = Leader")
  case True
  then show ?thesis using r ok
    by (auto simp: timeout_def on_HeartbeatRequest_def Let_def sends_ok_def batch_ok_def log_step_same)
next
  case False
  then have t: "on_TimeoutRequest s = (s', cs)" using r by (simp add: timeout_def)
  note f = on_TimeoutRequest_fields [OF t]
  have "log_step (storage s) (storage s')"
    unfolding f(6) using ok by (intro log_step_same) (auto simp: set_current_term_def)
  then show ?thesis using f(9) by (auto simp: sends_ok_def)
qed

fun incoming_ok :: "event \<Rightarrow> bool" where
  "incoming_ok (Deliver _ (MAppendEntriesRequest r)) = batch_ok r"
| "incoming_ok _ = True"

lemma node_event_log_step:
  assumes "storage_ok (storage s)" "incoming_ok e" "node_event s e = Inr (s', cs)"
  shows "log_step (storage s) (storage s') \<and> sends_ok cs"
proof (cases e)
  case (Timeout i)
  then show ?thesis using assms timeout_log_step by simp
next
  case (MinimumTimeout i)
  then show ?thesis using assms by (auto simp: on_MinimumTimeoutRequest_def log_step_same)
next
  case (Deliver i m)
  then show ?thesis using assms on_VoteRequest_log_step on_VoteResponse_log_step
      on_AppendEntriesRequest_log_step on_AppendEntriesResponse_log_step on_ClientRequest_log_step
    by (cases m) auto
next
  case (Submit i r)
  then show ?thesis using assms on_ClientRequest_log_step by simp
qed

definition log_inv :: "Cluster \<Rightarrow> bool" where
  "log_inv c \<longleftrightarrow> (\<forall>i s. servers c i = Some s \<longrightarrow> storage_ok (storage s)) \<and>
     (\<forall>d r. (d, MAppendEntriesRequest r) \<in> set (net c) \<longrightarrow> batch_ok r)"

lemma log_inv_boot: "log_inv (boot ids)"
  by (auto simp: log_inv_def boot_def new_Server_def storage_ok_new split: if_splits)

lemma log_inv_enabled: "log_inv c \<Longrightarrow> enabled c e \<Longrightarrow> incoming_ok e"
  by (cases e rule: incoming_ok.cases) (auto simp: log_inv_def)

lemma log_inv_event:
  assumes inv: "log_inv c" and e: "run_event c e = Some c'"
  shows "log_inv c' \<and> (\<forall>i s s'. servers c i = Some s \<longrightarrow> servers c' i = Some s' \<longrightarrow>
           log_step (storage s) (storage s'))"
  using e
proof (cases rule: run_event_cases)
  case (crash s f)
  then show ?thesis using inv by (auto simp: log_inv_def log_step_same)
next
  case (normal s s' cs)
  have "storage_ok (storage s)" using inv normal by (auto simp: log_inv_def)
  then have "log_step (storage s) (storage s') \<and> sends_ok cs"
    using node_event_log_step log_inv_enabled [OF inv normal(2)] normal(3) by blast
  then show ?thesis
    using normal inv by (auto simp: log_inv_def log_step_same sends_ok_def log_step_def)
qed

lemma log_inv_reachable:
  assumes "reachable P (boot ids) c"
  shows "log_inv c"
  using assms by (induction rule: reachable.induct) (auto simp: log_inv_boot dest: log_inv_event)


subsection \<open>The commit index of a leader\<close>

lemma count_ge_sorted:
  assumes "sorted xs" "k < length xs"
  shows "length xs - k \<le> length (filter (\<lambda>x. xs ! k \<le> x) xs)"
proof -
  have "filter (\<lambda>x. xs ! k \<le> x) (drop k xs) = drop k xs"
  proof (rule filter_True, rule ballI)
    fix x assume "x \<in> set (drop k xs)"
    then obtain j where "j < length xs - k" "x = xs ! (k + j)" by (auto simp: in_set_conv_nth)
    then show "xs ! k \<le> x" using assms by (auto intro: sorted_nth_mono)
  qed
  then have "length (filter (\<lambda>x. xs ! k \<le> x) (drop k xs)) = length xs - k" by simp
  moreover have "filter (\<lambda>x. xs ! k \<le> x) xs =
      filter (\<lambda>x. xs ! k \<le> x) (take k xs) @ filter (\<lambda>x. xs ! k \<le> x) (drop k xs)"
    by (metis append_take_drop_id filter_append)
  ultimately show ?thesis by simp
qed

lemma count_le_sorted:
  assumes "sorted xs" "k < length xs"
  shows "k < length (filter (\<lambda>x. x \<le> xs ! k) xs)"
proof -
  have "filter (\<lambda>x. x \<le> xs ! k) (take (Suc k) xs) = take (Suc k) xs"
  proof (rule filter_True, rule ballI)
    fix x assume "x \<in> set (take (Suc k) xs)"
    then obtain j where "j \<le> k" "x = xs ! j" by (auto simp: in_set_conv_nth less_Suc_eq_le)
    then show "x \<le> xs ! k" using assms by (auto intro: sorted_nth_mono)
  qed
  then have "length (filter (\<lambda>x. x \<le> xs ! k) (take (Suc k) xs)) = Suc k" using assms by simp
  moreover have "filter (\<lambda>x. x \<le> xs ! k) xs =
      filter (\<lambda>x. x \<le> xs ! k) (take (Suc k) xs) @ filter (\<lambda>x. x \<le> xs ! k) (drop (Suc k) xs)"
    by (metis append_take_drop_id filter_append)
  ultimately show ?thesis by simp
qed

lemma majority_index_sorted:
  assumes "ps \<noteq> []"
  defines "xs \<equiv> sort (map (\<lambda>p. ei_index (match_entry p)) ps)"
  shows "majority_index ps = xs ! (length ps - 1 - length ps div 2)"
    and "length ps - 1 - length ps div 2 < length xs"
  using assms by (auto simp: majority_index_def rev_nth)

lemma count_match:
  "length (filter Q (sort (map (\<lambda>p. ei_index (match_entry p)) ps))) =
   length (filter (\<lambda>p. Q (ei_index (match_entry p))) ps)"
  by (simp add: filter_sort filter_map comp_def)

text \<open>
  C30: the index a leader computes from the match indices of its peers is the largest index a
  majority has reached: more than half of the peers have matched at least that far, and fewer than a
  majority has matched further.
\<close>

theorem majority_index_is_quorum_index:
  assumes "ps \<noteq> []"
  shows "length ps div 2 < length (filter (\<lambda>p. majority_index ps \<le> ei_index (match_entry p)) ps) \<and>
         length (filter (\<lambda>p. majority_index ps < ei_index (match_entry p)) ps) \<le> length ps div 2"
proof -
  let ?xs = "sort (map (\<lambda>p. ei_index (match_entry p)) ps)"
  let ?k = "length ps - 1 - length ps div 2"
  note m = majority_index_sorted [OF assms]
  have "length ps - ?k \<le> length (filter (\<lambda>p. majority_index ps \<le> ei_index (match_entry p)) ps)"
    using count_ge_sorted [OF sorted_sort m(2)] unfolding m(1) [symmetric] count_match by simp
  moreover have "?k < length (filter (\<lambda>p. ei_index (match_entry p) \<le> majority_index ps) ps)"
    using count_le_sorted [OF sorted_sort m(2)] unfolding m(1) [symmetric] count_match .
  moreover have "length (filter (\<lambda>p. ei_index (match_entry p) \<le> majority_index ps) ps) +
      length (filter (\<lambda>p. majority_index ps < ei_index (match_entry p)) ps) = length ps"
    using sum_length_filter_compl [of "\<lambda>p. ei_index (match_entry p) \<le> majority_index ps" ps]
    by (simp add: not_le)
  moreover have "0 < length ps" using assms by simp
  ultimately show ?thesis by linarith
qed

definition demo_peer :: "string \<Rightarrow> u64 \<Rightarrow> peer_info_t" where
  "demo_peer i n = (new_peer i [] 0 0)\<lparr>match_entry := \<lparr>ei_index = n, ei_term = 1\<rparr>\<rparr>"

theorem majority_index_is_quorum_index_witness:
  "majority_index [demo_peer ''a'' 7, demo_peer ''b'' 2, demo_peer ''c'' 5] = 5 \<and>
   1 < length (filter (\<lambda>p. 5 \<le> ei_index (match_entry p)) [demo_peer ''a'' 7, demo_peer ''b'' 2, demo_peer ''c'' 5])"
proof -
  have m: "majority_index [demo_peer ''a'' 7, demo_peer ''b'' 2, demo_peer ''c'' 5] = 5" by code_simp
  show ?thesis
    using majority_index_is_quorum_index [of "[demo_peer ''a'' 7, demo_peer ''b'' 2, demo_peer ''c'' 5]"]
    unfolding m by simp
qed

subsection \<open>Cluster properties\<close>

text \<open>Runs written as scripts: each entry picks the next event from the state reached so far.\<close>

fun play :: "(Cluster \<Rightarrow> event \<Rightarrow> bool) \<Rightarrow> Cluster \<Rightarrow> (Cluster \<Rightarrow> event) list \<Rightarrow> Cluster option" where
  "play P c [] = Some c"
| "play P c (f # fs) =
     (if P c (f c) then (case run_event c (f c) of None \<Rightarrow> None | Some c' \<Rightarrow> play P c' fs) else None)"

definition sent :: "nat \<Rightarrow> Cluster \<Rightarrow> event" where
  "sent k c = (case net c ! k of (d, m) \<Rightarrow> Deliver d m)"

lemma play_reachable: "reachable P c0 c \<Longrightarrow> play P c fs = Some c' \<Longrightarrow> reachable P c0 c'"
  by (induction fs arbitrary: c) (auto split: if_splits option.splits intro: reachable.step)

definition node_view :: "Cluster \<Rightarrow> string \<Rightarrow> (Role \<times> u64 \<times> string list \<times> nat) option" where
  "node_view c i =
     map_option (\<lambda>s. (node_role s, current_term s, map data (st_entries (storage s)), st_committed (storage s)))
       (servers c i)"

definition abc :: "string list" where
  "abc = [''a'', ''b'', ''c'']"

definition submit :: "string \<Rightarrow> string \<Rightarrow> Cluster \<Rightarrow> event" where
  "submit i d c = Submit i \<lparr>cr_client_id = [], cr_message_id = [], cr_data = d\<rparr>"

text \<open>Node \<open>a\<close> is elected in term 1 and accepts \<open>x\<close>; node \<open>c\<close> is elected in term 2, replicates
  \<open>y\<close> to \<open>b\<close> and commits it.\<close>

definition two_terms_run :: "(Cluster \<Rightarrow> event) list" where
  "two_terms_run =
     [\<lambda>_. Timeout ''a'', sent 0, sent 2, submit ''a'' ''x'',
      \<lambda>_. Timeout ''c'', \<lambda>_. Timeout ''c'', sent 8, sent 9, sent 11, sent 12,
      submit ''c'' ''y'', sent 13, sent 14]"

text \<open>
  C2: committed entries are permanent. In every cluster state reachable from the start, whatever is
  lost, delayed, duplicated or reordered, an event at a node keeps its log well formed, never lowers its
  commit index and never changes an entry at or below it.
\<close>

theorem committed_entries_permanent:
  assumes "reachable P (boot ids) c" "run_event c e = Some c'"
    and "servers c i = Some s" "servers c' i = Some s'"
  shows "storage_ok (storage s') \<and> st_committed (storage s) \<le> st_committed (storage s') \<and>
         take (st_committed (storage s)) (st_entries (storage s')) =
         take (st_committed (storage s)) (st_entries (storage s))"
  using log_inv_event [OF log_inv_reachable [OF assms(1)] assms(2)] assms(3,4)
  by (auto simp: log_step_def)

theorem committed_entries_permanent_witness:
  "\<exists>c c' s s'. play timely (boot abc) two_terms_run = Some c \<and> run_event c (Timeout ''c'') = Some c' \<and>
     servers c ''c'' = Some s \<and> servers c' ''c'' = Some s' \<and> st_committed (storage s) = 1 \<and>
     take 1 (st_entries (storage s')) = take 1 (st_entries (storage s))"
proof -
  have "case play timely (boot abc) two_terms_run of None \<Rightarrow> False | Some c \<Rightarrow>
          (case run_event c (Timeout ''c'') of None \<Rightarrow> False | Some c' \<Rightarrow>
             (case servers c ''c'' of None \<Rightarrow> False | Some s \<Rightarrow>
                st_committed (storage s) = 1 \<and> servers c' ''c'' \<noteq> None))"
    by code_simp
  then obtain c c' s s' where *: "play timely (boot abc) two_terms_run = Some c"
      "run_event c (Timeout ''c'') = Some c'" "servers c ''c'' = Some s" "servers c' ''c'' = Some s'"
      "st_committed (storage s) = 1"
    by (auto split: option.splits)
  have "reachable timely (boot abc) c" by (rule play_reachable [OF reachable.init *(1)])
  from committed_entries_permanent [OF this *(2-4)] * show ?thesis by auto
qed

text \<open>
  C1: election safety. In a cluster of at least two nodes whose terms do not wrap and to which granted
  votes are delivered within their term, two leaders of the same term are the same node, and all
  append requests ever sent in one term come from one node.
\<close>

theorem election_safety:
  assumes "distinct ids" "2 \<le> length ids" "reachable timely (boot ids) c"
  shows "(servers c i = Some s \<and> servers c j = Some s' \<and> node_role s = Leader \<and> node_role s' = Leader \<and>
            current_term s = current_term s' \<longrightarrow> i = j) \<and>
         ((d, MAppendEntriesRequest q) \<in> set (net c) \<and> (d', MAppendEntriesRequest q') \<in> set (net c) \<and>
            hdr_term (aer_header q) = hdr_term (aer_header q') \<longrightarrow>
          peer_id (aer_header q) = peer_id (aer_header q'))"
proof -
  have inv: "election_inv ids c" using election_inv_reachable assms by blast
  have u: "x = y" if "maj.elected ids (ballot (net c)) x t" "maj.elected ids (ballot (net c)) y t" for x y t
    by (rule maj.elected_unique [OF _ that]) (use inv in \<open>auto simp: election_inv_def ballots_inv_def\<close>)
  show ?thesis
    using inv u unfolding election_inv_def leaders_inv_def by metis
qed


theorem election_safety_witness:
  "\<exists>c s. play timely (boot abc) two_terms_run = Some c \<and> servers c ''c'' = Some s \<and> node_role s = Leader \<and>
     (\<forall>j s'. servers c j = Some s' \<and> node_role s' = Leader \<and> current_term s' = current_term s \<longrightarrow> j = ''c'')"
proof -
  have "case play timely (boot abc) two_terms_run of None \<Rightarrow> False | Some c \<Rightarrow>
          (case servers c ''c'' of None \<Rightarrow> False | Some s \<Rightarrow> node_role s = Leader)"
    by code_simp
  then obtain c s where *: "play timely (boot abc) two_terms_run = Some c" "servers c ''c'' = Some s"
      "node_role s = Leader"
    by (auto split: option.splits)
  have "distinct abc" "2 \<le> length abc" by (simp_all add: abc_def)
  from election_safety [OF this play_reachable [OF reachable.init *(1)]] * show ?thesis by metis
qed

text \<open>
  C40: without that delivery assumption the code elects two leaders in one term: a vote granted in
  term 1 that arrives while the candidate runs in term 2 is counted for term 2, because the handler of
  vote responses compares neither the term nor the message id of the response.
\<close>

theorem stale_vote_elects_second_leader:
  "\<exists>c s s'. reachable (\<lambda>_ _. True) (boot abc) c \<and> servers c ''a'' = Some s \<and> servers c ''c'' = Some s' \<and>
     node_role s = Leader \<and> node_role s' = Leader \<and> current_term s = 2 \<and> current_term s' = 2"
proof -
  let ?run = "[\<lambda>_. Timeout ''a'', sent 0, \<lambda>_. Timeout ''a'', \<lambda>_. Timeout ''c'', \<lambda>_. Timeout ''c'',
               sent 8, sent 9, sent 2]"
  have "case play (\<lambda>_ _. True) (boot abc) ?run of None \<Rightarrow> False | Some c \<Rightarrow>
          node_view c ''a'' = Some (Leader, 2, [], 0) \<and> node_view c ''c'' = Some (Leader, 2, [], 0)"
    by code_simp
  then obtain c where *: "play (\<lambda>_ _. True) (boot abc) ?run = Some c"
      "node_view c ''a'' = Some (Leader, 2, [], 0)" "node_view c ''c'' = Some (Leader, 2, [], 0)"
    by (auto split: option.splits)
  moreover have "reachable (\<lambda>_ _. True) (boot abc) c" by (rule play_reachable [OF reachable.init *(1)])
  ultimately show ?thesis by (auto simp: node_view_def)
qed

text \<open>
  C39: the committed logs of two nodes can differ although every vote arrives in its term. A follower
  that holds an entry of a deposed leader commits it when a heartbeat of the new leader carries a higher
  commit index: an empty append neither compares nor removes entries, and the commit index is
  not bounded by the entry the leader knows to match.
\<close>

theorem committed_logs_can_diverge:
  "\<exists>c s s'. reachable timely (boot abc) c \<and> servers c ''a'' = Some s \<and> servers c ''c'' = Some s' \<and>
     st_committed (storage s) = 1 \<and> st_committed (storage s') = 1 \<and>
     map data (st_entries (storage s)) = [''x''] \<and> map data (st_entries (storage s')) = [''y'']"
proof -
  let ?run = "two_terms_run @ [\<lambda>_. Timeout ''c'', sent 15]"
  have "case play timely (boot abc) ?run of None \<Rightarrow> False | Some c \<Rightarrow>
          node_view c ''a'' = Some (Follower, 2, [''x''], 1) \<and> node_view c ''c'' = Some (Leader, 2, [''y''], 1)"
    by code_simp
  then obtain c where *: "play timely (boot abc) ?run = Some c"
      "node_view c ''a'' = Some (Follower, 2, [''x''], 1)" "node_view c ''c'' = Some (Leader, 2, [''y''], 1)"
    by (auto split: option.splits)
  moreover have "reachable timely (boot abc) c" by (rule play_reachable [OF reachable.init *(1)])
  ultimately show ?thesis by (auto simp: node_view_def)
qed

end
