(* ===== verification/Raft_Serialize.thy ===== *)
theory Raft_Serialize
  imports Raft_Types
begin

text \<open>
  The wire format of the raft messages: \<open>src/raft/simple_serialize.cpp\<close> and \<open>.hpp\<close>. An
  \<open>operator<<\<close> is a function that prints a value to a string, an \<open>operator>>\<close> a reader that
  takes the rest of the stream and returns the value and what is left, or the exception the stream
  throws (the streams have \<open>failbit\<close> and \<open>badbit\<close> in their exception masks). The readers of the
  standard library are modelled as they work in the C locale with the default flags: leading
  white space is skipped, a string is a maximal run of other characters, an unsigned number is an optional
  sign and digits within the range of the type, a bool is the number 0 or 1.

  \<open>vector::reserve\<close> may throw for a length the peer chose; which lengths do is a parameter.
\<close>

type_synonym 'a reader = "string \<Rightarrow> ('a \<times> string) res"

abbreviation stream_failure :: fault where
  "stream_failure \<equiv> Thrown ''ios_base::failure''"

subsection \<open>Extraction from a stream\<close>

definition isspace :: "char \<Rightarrow> bool" where
  "isspace c \<longleftrightarrow> (of_char c :: nat) = 32 \<or> 9 \<le> (of_char c :: nat) \<and> (of_char c :: nat) \<le> 13"

definition skip_ws :: "string \<Rightarrow> string" where
  "skip_ws s = dropWhile isspace s"

definition read_string :: "string reader" where
  "read_string s =
     (let t = skip_ws s in
      if t = [] then Inl stream_failure
      else Inr (takeWhile (\<lambda>c. \<not> isspace c) t, dropWhile (\<lambda>c. \<not> isspace c) t))"

definition split_sign :: "string \<Rightarrow> bool \<times> string" where
  "split_sign s =
     (case s of [] \<Rightarrow> (False, []) | c # cs \<Rightarrow>
        if c = CHR ''-'' then (True, cs) else if c = CHR ''+'' then (False, cs) else (False, s))"

text \<open>Sign, digits and the rest of the stream.\<close>

definition read_number :: "string \<Rightarrow> ((bool \<times> nat) \<times> string) res" where
  "read_number s =
     (let (neg, t) = split_sign (skip_ws s); ds = takeWhile is_digit t in
      if ds = [] then Inl stream_failure else Inr ((neg, dec_value 0 ds), dropWhile is_digit t))"

definition read_u64 :: "u64 reader" where
  "read_u64 s = res_bind (read_number s) (\<lambda>((neg, n), t).
     if 2 ^ 64 \<le> n then Inl stream_failure
     else Inr (if neg then - of_nat n else of_nat n, t))"

definition read_int :: "int reader" where
  "read_int s = res_bind (read_number s) (\<lambda>((neg, n), t).
     let i = (if neg then - int n else int n) in
     if i < - (2 ^ 31) \<or> 2 ^ 31 \<le> i then Inl stream_failure else Inr (i, t))"

definition read_bool :: "bool reader" where
  "read_bool s = res_bind (read_number s) (\<lambda>((neg, n), t).
     if n = 0 then Inr (False, t) else if n = 1 \<and> \<not> neg then Inr (True, t) else Inl stream_failure)"

definition print_bool :: "bool \<Rightarrow> string" where
  "print_bool b = (if b then ''1'' else ''0'')"

definition print_int :: "int \<Rightarrow> string" where
  "print_int i = (if i < 0 then ''-'' @ dec (nat (- i)) else dec (nat i))"

fun read_elems :: "'a reader \<Rightarrow> nat \<Rightarrow> 'a list reader" where
  "read_elems r 0 s = Inr ([], s)"
| "read_elems r (Suc n) s = res_bind (r s) (\<lambda>(x, t). res_bind (read_elems r n t) (\<lambda>(xs, u). Inr (x # xs, u)))"

text \<open>\<open>reserve_throws\<close> gives the exception \<open>reserve(n)\<close> ends in, if any.\<close>

definition read_vector :: "(nat \<Rightarrow> fault option) \<Rightarrow> 'a reader \<Rightarrow> 'a list reader" where
  "read_vector reserve_throws r s = res_bind (read_u64 s) (\<lambda>(n, t).
     case reserve_throws (unat n) of Some e \<Rightarrow> Inl e | None \<Rightarrow> read_elems r (unat n) t)"

definition print_vector :: "('a \<Rightarrow> string) \<Rightarrow> 'a list \<Rightarrow> string" where
  "print_vector p xs = dec (length xs) @ '' '' @ concat (map (\<lambda>x. p x @ '' '') xs)"

subsection \<open>The operators\<close>

definition print_EntryInfo :: "EntryInfo \<Rightarrow> string" where
  "print_EntryInfo i = dec_word (ei_index i) @ '' '' @ dec_word (ei_term i)"

definition read_EntryInfo :: "EntryInfo reader" where
  "read_EntryInfo s = res_bind (read_u64 s) (\<lambda>(i, s). res_bind (read_u64 s) (\<lambda>(t, s).
     Inr (\<lparr>ei_index = i, ei_term = t\<rparr>, s)))"

definition print_MessageHeader :: "MessageHeader \<Rightarrow> string" where
  "print_MessageHeader h =
     peer_id h @ '' '' @ destination_id h @ '' '' @ dec_word (message_id h) @ '' '' @
     dec_word (hdr_term h) @ '' '' @ print_EntryInfo (ls_commit (log_state h)) @ '' '' @
     print_EntryInfo (ls_uncommit (log_state h))"

definition read_MessageHeader :: "MessageHeader reader" where
  "read_MessageHeader s =
     res_bind (read_string s) (\<lambda>(p, s). res_bind (read_string s) (\<lambda>(d, s).
     res_bind (read_u64 s) (\<lambda>(m, s). res_bind (read_u64 s) (\<lambda>(t, s).
     res_bind (read_EntryInfo s) (\<lambda>(c, s). res_bind (read_EntryInfo s) (\<lambda>(u, s).
     Inr (\<lparr>peer_id = p, destination_id = d, message_id = m, hdr_term = t,
           log_state = \<lparr>ls_commit = c, ls_uncommit = u\<rparr>\<rparr>, s)))))))"

definition print_Entry :: "Entry \<Rightarrow> string" where
  "print_Entry e = print_EntryInfo (info e) @ '' '' @ data e"

definition read_Entry :: "Entry reader" where
  "read_Entry s = res_bind (read_EntryInfo s) (\<lambda>(i, s). res_bind (read_string s) (\<lambda>(d, s).
     Inr (\<lparr>info = i, data = d\<rparr>, s)))"

definition print_AppendEntriesRequest :: "AppendEntriesRequest \<Rightarrow> string" where
  "print_AppendEntriesRequest r =
     ''AppendEntriesRequest '' @ print_MessageHeader (aer_header r) @ '' '' @
     print_EntryInfo (previous_entry r) @ '' '' @ print_vector print_Entry (entries r) @ [CHR 0x0A]"

definition read_AppendEntriesRequest :: "(nat \<Rightarrow> fault option) \<Rightarrow> AppendEntriesRequest reader" where
  "read_AppendEntriesRequest rt s =
     res_bind (read_MessageHeader s) (\<lambda>(h, s). res_bind (read_EntryInfo s) (\<lambda>(p, s).
     res_bind (read_vector rt read_Entry s) (\<lambda>(es, s).
     Inr (\<lparr>aer_header = h, previous_entry = p, entries = es\<rparr>, s))))"

definition print_AppendEntriesResponse :: "AppendEntriesResponse \<Rightarrow> string" where
  "print_AppendEntriesResponse r =
     ''AppendEntriesResponse '' @ print_MessageHeader (aes_header r) @ '' '' @ print_bool (success r) @
     '' '' @ [CHR 0x0A]"

definition read_AppendEntriesResponse :: "AppendEntriesResponse reader" where
  "read_AppendEntriesResponse s =
     res_bind (read_MessageHeader s) (\<lambda>(h, s). res_bind (read_bool s) (\<lambda>(b, s).
     Inr (\<lparr>aes_header = h, success = b\<rparr>, s)))"

definition print_VoteRequest :: "VoteRequest \<Rightarrow> string" where
  "print_VoteRequest r = ''VoteRequest '' @ print_MessageHeader (vr_header r) @ '' '' @ [CHR 0x0A]"

definition read_VoteRequest :: "VoteRequest reader" where
  "read_VoteRequest s = res_bind (read_MessageHeader s) (\<lambda>(h, s). Inr (\<lparr>vr_header = h\<rparr>, s))"

definition print_VoteResponse :: "VoteResponse \<Rightarrow> string" where
  "print_VoteResponse r =
     ''VoteResponse '' @ print_MessageHeader (vs_header r) @ '' '' @ print_bool (vote_granted r) @
     '' '' @ [CHR 0x0A]"

definition read_VoteResponse :: "VoteResponse reader" where
  "read_VoteResponse s =
     res_bind (read_MessageHeader s) (\<lambda>(h, s). res_bind (read_bool s) (\<lambda>(b, s).
     Inr (\<lparr>vs_header = h, vote_granted = b\<rparr>, s)))"

definition print_ClientRequest :: "ClientRequest \<Rightarrow> string" where
  "print_ClientRequest r = ''ClientRequest '' @ cr_data r @ '' '' @ [CHR 0x0A]"

text \<open>Only the data is read; the other two fields keep the empty strings of their construction.\<close>

definition read_ClientRequest :: "ClientRequest reader" where
  "read_ClientRequest s = res_bind (read_string s) (\<lambda>(d, s).
     Inr (\<lparr>cr_client_id = [], cr_message_id = [], cr_data = d\<rparr>, s))"

definition print_ClientResponse :: "ClientResponse \<Rightarrow> string" where
  "print_ClientResponse r = ''ClientResponse '' @ print_EntryInfo (cs_entry_info r) @ '' '' @ [CHR 0x0A]"

definition print_LocalFailureResponse :: string where
  "print_LocalFailureResponse = ''LocalFailureResponse '' @ [CHR 0x0A]"

definition print_NotLeaderResponse :: "NotLeaderResponse \<Rightarrow> string" where
  "print_NotLeaderResponse r =
     ''NotLeaderResponse '' @ nl_leader_id r @ '' '' @ ip (nl_leader_info r) @ '' '' @
     print_int (client_port (nl_leader_info r)) @ '' '' @ [CHR 0x0A]"

definition print_CurrentEntryResponse :: "CurrentEntryResponse \<Rightarrow> string" where
  "print_CurrentEntryResponse r =
     ''CurrentEntryResponse '' @ dec_word (ei_index (ce_entry_info r)) @ '' '' @
     dec_word (ei_term (ce_entry_info r)) @ '' '' @ [CHR 0x0A]"

definition print_PeerConfig :: "PeerConfig \<Rightarrow> string" where
  "print_PeerConfig c =
     pc_name c @ '' '' @ pc_address c @ '' '' @ print_int (pc_peer_port c) @ '' '' @
     print_int (pc_client_port c) @ '' '' @ print_bool (pc_is_new c)"

definition read_PeerConfig :: "PeerConfig reader" where
  "read_PeerConfig s =
     res_bind (read_string s) (\<lambda>(n, s). res_bind (read_string s) (\<lambda>(a, s).
     res_bind (read_int s) (\<lambda>(p, s). res_bind (read_int s) (\<lambda>(cp, s).
     res_bind (read_bool s) (\<lambda>(b, s).
     Inr (\<lparr>pc_name = n, pc_address = a, pc_peer_port = p, pc_client_port = cp, pc_is_new = b\<rparr>, s))))))"

definition print_ConfigChangeRequest :: "ConfigChangeRequest \<Rightarrow> string" where
  "print_ConfigChangeRequest r =
     ''ConfigChangeRequest '' @ print_MessageHeader (cc_header r) @ '' '' @ dec_word (cc_previous_entry r) @
     '' '' @ print_vector print_PeerConfig (cc_peer_configs r) @ [CHR 0x0A]"

text \<open>The watermark is not on the wire; the reader leaves the value \<open>w\<close> the field had.\<close>

definition read_ConfigChangeRequest :: "(nat \<Rightarrow> fault option) \<Rightarrow> u64 \<Rightarrow> ConfigChangeRequest reader" where
  "read_ConfigChangeRequest rt w s =
     res_bind (read_MessageHeader s) (\<lambda>(h, s). res_bind (read_u64 s) (\<lambda>(p, s).
     res_bind (read_vector rt read_PeerConfig s) (\<lambda>(cs, s).
     Inr (\<lparr>cc_header = h, cc_previous_entry = p, cc_peer_configs = cs, cc_request_watermark = w\<rparr>, s))))"


subsection \<open>Round trips\<close>

definition boundary :: "string \<Rightarrow> bool" where
  "boundary s \<longleftrightarrow> s = [] \<or> isspace (hd s)"

definition clean_word :: "string \<Rightarrow> bool" where
  "clean_word s \<longleftrightarrow> s \<noteq> [] \<and> (\<forall>c \<in> set s. \<not> isspace c)"

lemma isspace_space [simp]: "isspace (CHR '' '')"
  by (simp add: isspace_def)

lemma boundary_simps [simp]: "boundary []" "boundary (CHR '' '' # s)" "boundary (CHR 0x0A # s)"
  by (simp_all add: boundary_def isspace_def)

lemma digit_not_space: "is_digit c \<Longrightarrow> \<not> isspace c"
  by (auto simp: is_digit_def isspace_def)

lemma space_not_digit: "isspace c \<Longrightarrow> \<not> is_digit c"
  by (auto simp: is_digit_def isspace_def)

lemma skip_ws_space [simp]: "skip_ws (CHR '' '' # s) = skip_ws s"
  by (simp add: skip_ws_def)

lemma skip_ws_word: "s \<noteq> [] \<Longrightarrow> \<not> isspace (hd s) \<Longrightarrow> skip_ws (s @ t) = s @ t"
  by (cases s) (simp_all add: skip_ws_def)

lemma takeWhile_boundary:
  assumes "\<forall>c \<in> set s. P c" "\<And>c. isspace c \<Longrightarrow> \<not> P c" "boundary t"
  shows "takeWhile P (s @ t) = s" "dropWhile P (s @ t) = t"
proof -
  have "takeWhile P t = [] \<and> dropWhile P t = t" using assms(2,3) by (cases t) (auto simp: boundary_def)
  then show "takeWhile P (s @ t) = s" "dropWhile P (s @ t) = t"
    using assms(1) by (simp_all add: takeWhile_append2 dropWhile_append2)
qed

lemma read_string_word:
  assumes "clean_word s" "boundary t"
  shows "read_string (s @ t) = Inr (s, t)"
proof -
  have "skip_ws (s @ t) = s @ t" using assms by (intro skip_ws_word) (auto simp: clean_word_def)
  then show ?thesis
    using assms takeWhile_boundary [of s "\<lambda>c. \<not> isspace c" t] by (simp add: read_string_def clean_word_def)
qed

lemma split_sign_digit: "is_digit c \<Longrightarrow> split_sign (c # s) = (False, c # s)"
  by (auto simp: split_sign_def is_digit_def)

lemma read_number_dec:
  assumes "boundary t"
  shows "read_number (dec n @ t) = Inr ((False, n), t)"
proof -
  obtain c ds where d: "dec n = c # ds" by (cases "dec n") simp_all
  then have c: "is_digit c" using dec_digits [of c n] by simp
  have "skip_ws (dec n @ t) = dec n @ t"
    using d c digit_not_space by (intro skip_ws_word) auto
  moreover have "takeWhile is_digit (dec n @ t) = dec n" "dropWhile is_digit (dec n @ t) = t"
    using takeWhile_boundary [of "dec n" is_digit t] dec_digits space_not_digit assms by auto
  ultimately show ?thesis
    using d c dec_value_dec [of n] by (simp add: read_number_def split_sign_digit)
qed

lemma read_u64_dec: "n < 2 ^ 64 \<Longrightarrow> boundary t \<Longrightarrow> read_u64 (dec n @ t) = Inr (of_nat n, t)"
  by (simp add: read_u64_def read_number_dec)

lemma read_number_space [simp]: "read_number (CHR '' '' # s) = read_number s"
  by (simp add: read_number_def)

lemma read_u64_space [simp]: "read_u64 (CHR '' '' # s) = read_u64 s"
  by (simp add: read_u64_def)

text \<open>A printer and a reader that undo each other on the values without stray white space.\<close>

locale codec =
  fixes "print" :: "'a \<Rightarrow> string"
    and "read" :: "'a reader"
    and clean :: "'a \<Rightarrow> bool"
  assumes read_print: "clean x \<Longrightarrow> boundary t \<Longrightarrow> read (print x @ t) = Inr (x, t)"
    and read_space: "read (CHR '' '' # s) = read s"
begin

lemma read_elems_print:
  assumes "\<forall>x \<in> set xs. clean x"
  shows "read_elems read (length xs) (CHR '' '' # concat (map (\<lambda>x. print x @ '' '') xs) @ t) =
         Inr (xs, CHR '' '' # t)"
  using assms by (induction xs) (simp_all add: read_space read_print)

lemma vector_roundtrip:
  assumes "\<forall>x \<in> set xs. clean x" "length xs < 2 ^ 64" "rt (length xs) = None"
  shows "read_vector rt read (print_vector print xs @ t) = Inr (xs, CHR '' '' # t)"
proof -
  have "read_u64 (dec (length xs) @ CHR '' '' # concat (map (\<lambda>x. print x @ '' '') xs) @ t) =
        Inr (of_nat (length xs), CHR '' '' # concat (map (\<lambda>x. print x @ '' '') xs) @ t)"
    using assms(2) by (simp add: read_u64_dec)
  moreover have "unat (of_nat (length xs) :: u64) = length xs"
    using assms(2) by (simp add: unat_of_nat take_bit_nat_eq_self)
  ultimately show ?thesis
    using assms read_elems_print by (simp add: read_vector_def print_vector_def)
qed

lemma vector_space: "read_vector rt read (CHR '' '' # s) = read_vector rt read s"
  by (simp add: read_vector_def)

end

interpretation word_codec: codec "\<lambda>s. s" read_string clean_word
  by unfold_locales (simp add: read_string_word, simp add: read_string_def)

interpretation u64_codec: codec dec_word read_u64 "\<lambda>_. True"
  by unfold_locales (use unat_u64 in \<open>simp_all add: dec_word_def read_u64_dec\<close>)

lemma read_number_minus:
  assumes "boundary t"
  shows "read_number (CHR ''-'' # dec n @ t) = Inr ((True, n), t)"
proof -
  have "takeWhile is_digit (dec n @ t) = dec n" "dropWhile is_digit (dec n @ t) = t"
    using takeWhile_boundary [of "dec n" is_digit t] dec_digits space_not_digit assms by auto
  then show ?thesis
    using dec_value_dec [of n] by (simp add: read_number_def skip_ws_def isspace_def split_sign_def)
qed

definition int_range :: "int \<Rightarrow> bool" where
  "int_range i \<longleftrightarrow> - (2 ^ 31) \<le> i \<and> i < 2 ^ 31"

interpretation int_codec: codec print_int read_int int_range
  by unfold_locales
    (auto simp: print_int_def read_int_def read_number_dec read_number_minus int_range_def Let_def)

lemma dec_small: "dec 0 = ''0''" "dec (Suc 0) = ''1''"
  by code_simp+

interpretation bool_codec: codec print_bool read_bool "\<lambda>_. True"
  by unfold_locales
    (use read_number_dec [of _ 0] read_number_dec [of _ "Suc 0"] in \<open>auto simp: print_bool_def read_bool_def dec_small\<close>)

interpretation info_codec: codec print_EntryInfo read_EntryInfo "\<lambda>_. True"
  by unfold_locales
    (simp_all add: print_EntryInfo_def read_EntryInfo_def u64_codec.read_print)

definition clean_header :: "MessageHeader \<Rightarrow> bool" where
  "clean_header h \<longleftrightarrow> clean_word (peer_id h) \<and> clean_word (destination_id h)"

interpretation header_codec: codec print_MessageHeader read_MessageHeader clean_header
  by unfold_locales
    (simp_all add: print_MessageHeader_def read_MessageHeader_def clean_header_def word_codec.read_print
      word_codec.read_space u64_codec.read_print info_codec.read_print info_codec.read_space)

interpretation entry_codec: codec print_Entry read_Entry "\<lambda>e. clean_word (data e)"
  by unfold_locales
    (simp_all add: print_Entry_def read_Entry_def word_codec.read_print word_codec.read_space
      info_codec.read_print info_codec.read_space)

definition clean_config :: "PeerConfig \<Rightarrow> bool" where
  "clean_config c \<longleftrightarrow> clean_word (pc_name c) \<and> clean_word (pc_address c) \<and>
     int_range (pc_peer_port c) \<and> int_range (pc_client_port c)"

interpretation config_codec: codec print_PeerConfig read_PeerConfig clean_config
  by unfold_locales
    (simp_all add: print_PeerConfig_def read_PeerConfig_def clean_config_def word_codec.read_print
      word_codec.read_space int_codec.read_print int_codec.read_space bool_codec.read_print bool_codec.read_space)

end
