(* ===== verification/Raft_Session.thy ===== *)
theory Raft_Session
  imports Raft_Serialize "HOL-Library.Sublist"
begin

text \<open>
  One TCP session of the raft transport: \<open>src/raft/asio_tcp_session.cpp\<close>, and the splitting of its
  byte stream into messages, \<open>newline_tokenizer\<close> of \<open>src/raft/simple_message_processor.cpp\<close>. A
  session is a record; the start of an asynchronous write is \<open>writes_in_flight + 1\<close>, its completion
  handler an operation of its own. \<open>written\<close> records the messages whose write completed and is read by
  no operation.
\<close>

datatype MessageCategory = Client | Peer

record Session =
  s_id :: string
  s_stop :: bool
  s_close :: bool
  write_queue :: "string list"
  writes_in_flight :: nat
  incomplete_message :: string
  category :: MessageCategory
  written :: "string list"

definition new_Session :: "MessageCategory \<Rightarrow> string \<Rightarrow> Session" where
  "new_Session cat i =
     \<lparr>s_id = i, s_stop = True, s_close = False, write_queue = [], writes_in_flight = 0,
      incomplete_message = [], category = cat, written = []\<rparr>"

definition session_start :: "Session \<Rightarrow> Session" where
  "session_start s = (if \<not> s_stop s then s else s\<lparr>s_stop := False\<rparr>)"

definition session_stop :: "Session \<Rightarrow> Session" where
  "session_stop s = s\<lparr>s_stop := True\<rparr>"

definition stop_and_close :: "Session \<Rightarrow> Session" where
  "stop_and_close s = (if s_close s then s else (session_stop s)\<lparr>s_close := True\<rparr>)"

definition do_write :: "Session \<Rightarrow> Session" where
  "do_write s = (if s_stop s then s else s\<lparr>writes_in_flight := writes_in_flight s + 1\<rparr>)"

definition session_send :: "string \<Rightarrow> Session \<Rightarrow> Session" where
  "session_send m s =
     (if s_stop s then s
      else (let s' = s\<lparr>write_queue := write_queue s @ [m]\<rparr>
            in if length (write_queue s') = 1 then do_write s' else s'))"

text \<open>The completion handler of a write; the second component is whether it asks the server to drop
  the session.\<close>

definition write_done :: "bool \<Rightarrow> Session \<Rightarrow> Session \<times> bool" where
  "write_done ok s =
     (let s0 = s\<lparr>writes_in_flight := writes_in_flight s - 1,
                 written := written s @ (if ok then take 1 (write_queue s) else [])\<rparr>
      in if ok \<and> \<not> s_stop s0
         then (let s1 = s0\<lparr>write_queue := tl (write_queue s0)\<rparr>
               in (if write_queue s1 \<noteq> [] then do_write s1 else s1, False))
         else (s0\<lparr>s_stop := True, write_queue := []\<rparr>, True))"

text \<open>The completion handler of a read that failed, or that found the session stopped.\<close>

definition read_failed :: "Session \<Rightarrow> Session \<times> bool" where
  "read_failed s = (s\<lparr>s_stop := True\<rparr>, write_queue s = [])"

subsection \<open>Splitting the stream\<close>

definition strip_cr :: "string \<Rightarrow> string" where
  "strip_cr m = (if m \<noteq> [] \<and> last m = CHR 0x0D then butlast m else m)"

lemma rest_shorter: "x \<in> set xs \<Longrightarrow> length (tl (dropWhile P xs)) < length xs"
  using length_dropWhile_le [of P xs] by (cases xs) auto

text \<open>The messages completed by a buffer, in the order of the callbacks, and the new incomplete
  message.\<close>

function newline_tokenizer :: "string \<Rightarrow> string \<Rightarrow> string list \<times> string" where
  "newline_tokenizer buf inc =
     (if CHR 0x0A \<in> set buf then
        (let line = takeWhile (\<lambda>c. c \<noteq> CHR 0x0A) buf;
             rest = tl (dropWhile (\<lambda>c. c \<noteq> CHR 0x0A) buf);
             (ms, inc') = newline_tokenizer rest []
         in (strip_cr (inc @ line) # ms, inc'))
      else ([], inc @ buf))"
  by pat_completeness auto
termination
  by (relation "measure (length \<circ> fst)") (use rest_shorter in \<open>auto simp del: length_tl\<close>)

declare newline_tokenizer.simps [simp del]


lemma split_at_first:
  "x \<notin> set xs \<Longrightarrow> takeWhile (\<lambda>c. c \<noteq> x) (xs @ x # ys) = xs \<and> dropWhile (\<lambda>c. c \<noteq> x) (xs @ x # ys) = x # ys"
  by (induction xs) auto

lemma tokenizer_line:
  "CHR 0x0A \<notin> set line \<Longrightarrow>
   newline_tokenizer (line @ CHR 0x0A # rest) inc =
     (let (ms, inc') = newline_tokenizer rest [] in (strip_cr (inc @ line) # ms, inc'))"
  by (subst newline_tokenizer.simps) (simp add: split_at_first)

lemma tokenizer_partial: "CHR 0x0A \<notin> set buf \<Longrightarrow> newline_tokenizer buf inc = ([], inc @ buf)"
  by (subst newline_tokenizer.simps) simp

lemma tokenizer_prefix:
  "CHR 0x0A \<notin> set a \<Longrightarrow> newline_tokenizer (a @ b) inc = newline_tokenizer b (inc @ a)"
proof (cases "CHR 0x0A \<in> set b")
  case False
  assume "CHR 0x0A \<notin> set a"
  with False show ?thesis by (simp add: tokenizer_partial)
next
  case True
  assume a: "CHR 0x0A \<notin> set a"
  obtain l r where "b = l @ CHR 0x0A # r" "CHR 0x0A \<notin> set l" using split_list_first [OF True] by blast
  then show ?thesis using a tokenizer_line [of "a @ l" r inc] tokenizer_line [of l r "inc @ a"] by simp
qed

text \<open>
  The splitting of the byte stream into messages does not depend on how the network cuts it:
  two buffers one after the other give the messages and the remainder of their concatenation.
\<close>

theorem tokenizer_chunks:
  "newline_tokenizer (a @ b) inc =
     (let (ms, inc1) = newline_tokenizer a inc; (ns, inc2) = newline_tokenizer b inc1 in (ms @ ns, inc2))"
proof (induction a arbitrary: inc rule: length_induct)
  case (1 a)
  show ?case
  proof (cases "CHR 0x0A \<in> set a")
    case False
    then show ?thesis by (simp add: tokenizer_prefix tokenizer_partial)
  next
    case True
    obtain l r where a: "a = l @ CHR 0x0A # r" "CHR 0x0A \<notin> set l" using split_list_first [OF True] by blast
    have "newline_tokenizer (r @ b) [] =
        (let (ms, inc1) = newline_tokenizer r []; (ns, inc2) = newline_tokenizer b inc1 in (ms @ ns, inc2))"
      using 1 a by simp
    then show ?thesis
      using a tokenizer_line [of l "r @ b" inc] tokenizer_line [of l r inc]
      by (auto split: prod.splits)
  qed
qed

subsection \<open>The write queue\<close>

datatype session_event = Send string | WriteDone bool | ReadFailed | StopAndClose

text \<open>A session with the messages it has accepted; a write completes only while one is in flight.\<close>

fun session_step :: "Session \<times> string list \<Rightarrow> session_event \<Rightarrow> Session \<times> string list" where
  "session_step (s, acc) (Send m) = (session_send m s, if s_stop s then acc else acc @ [m])"
| "session_step (s, acc) (WriteDone ok) = (if writes_in_flight s = 0 then s else fst (write_done ok s), acc)"
| "session_step (s, acc) ReadFailed = (fst (read_failed s), acc)"
| "session_step (s, acc) StopAndClose = (stop_and_close s, acc)"

definition session_inv :: "Session \<times> string list \<Rightarrow> bool" where
  "session_inv sa = (case sa of (s, acc) \<Rightarrow>
     writes_in_flight s \<le> 1 \<and>
     (writes_in_flight s = 1 \<longrightarrow> write_queue s \<noteq> []) \<and>
     (\<not> s_stop s \<longrightarrow> (writes_in_flight s = 1 \<longleftrightarrow> write_queue s \<noteq> []) \<and> acc = written s @ write_queue s) \<and>
     prefix (written s @ (if writes_in_flight s = 1 then take 1 (write_queue s) else [])) acc)"

lemma session_inv_step: "session_inv sa \<Longrightarrow> session_inv (session_step sa e)"
proof (cases sa)
  case (Pair s acc)
  assume inv: "session_inv sa"
  show ?thesis
  proof (cases e)
    case (Send m)
    then show ?thesis using inv Pair
      by (cases "write_queue s") (auto simp: session_inv_def session_send_def do_write_def Let_def)
  next
    case (WriteDone ok)
    then show ?thesis using inv Pair
      by (cases "write_queue s")
        (auto simp: session_inv_def write_done_def do_write_def Let_def take_is_prefix dest: append_prefixD)
  next
    case ReadFailed
    then show ?thesis using inv Pair by (auto simp: session_inv_def read_failed_def)
  next
    case StopAndClose
    then show ?thesis using inv Pair by (auto simp: session_inv_def stop_and_close_def session_stop_def)
  qed
qed

lemma session_inv_run: "session_inv sa \<Longrightarrow> session_inv (foldl session_step sa es)"
  by (induction es arbitrary: sa) (auto simp: session_inv_step)

text \<open>
  C36: a started session writes in order and one message at a time. Whatever is sent, however the
  writes complete and whenever the session fails or is closed, at most one write is outstanding and the
  messages written are a prefix of the messages accepted; while the session runs, everything accepted
  is written or queued.
\<close>

theorem session_writes_in_order:
  "case foldl session_step (session_start (new_Session cat i), []) es of (s, acc) \<Rightarrow>
     writes_in_flight s \<le> 1 \<and> prefix (written s) acc \<and>
     (\<not> s_stop s \<longrightarrow> acc = written s @ write_queue s \<and> (write_queue s = [] \<longleftrightarrow> writes_in_flight s = 0))"
proof -
  have "session_inv (session_start (new_Session cat i), [])"
    by (simp add: session_inv_def session_start_def new_Session_def)
  then have "session_inv (foldl session_step (session_start (new_Session cat i), []) es)"
    by (rule session_inv_run)
  then show ?thesis by (auto simp: session_inv_def split: prod.splits if_splits dest: append_prefixD)
qed

theorem session_writes_in_order_witness:
  "case foldl session_step (session_start (new_Session Peer ''b''), [])
      [Send ''x'', Send ''y'', WriteDone True] of (s, acc) \<Rightarrow>
     acc = [''x'', ''y''] \<and> written s = [''x''] \<and> acc = written s @ write_queue s"
  using session_writes_in_order [of Peer "''b''" "[Send ''x'', Send ''y'', WriteDone True]"]
  by (simp add: session_start_def new_Session_def session_send_def do_write_def write_done_def)

end
