(* ===== verification/Raft_Net.thy ===== *)
theory Raft_Net
  imports Raft_Cluster Raft_Session
begin

text \<open>
  The transport around a raft node: the server of \<open>src/raft/asio_tcp_server.cpp\<close>, which owns the
  sessions and is the node's \<open>Callbacks\<close> object, and the message processor of
  \<open>src/raft/simple_message_processor.cpp\<close>, which turns lines into handler calls.

  Sessions are shared objects, so they live in a store (\<open>heap\<close>, addressed by numbers) and the
  vectors and maps of the server hold addresses. The event loop calls completion handlers; each is a
  definition. A handler's callbacks run after its own state changes here; they read of the raft node only its
  peer list and its storage, which the rest of a handler does not change once it has called
  back. Timers are the kind of timeout that was set last.
\<close>

datatype timer_kind = HeartbeatTimer | FollowerTimer | CandidateTimer

record Net =
  raft :: Server
  heap :: "nat \<Rightarrow> Session option"
  next_addr :: nat
  net_peers :: "nat list"
  all_clients :: "(string \<times> nat) list"
  accepting_peer :: "nat option"
  accepting_client :: "nat option"
  connecting :: "(nat \<times> string) list"
  next_id :: u64
  net_stop :: bool
  watermark_index :: u64
  timer :: "timer_kind option"
  minimum_timer :: bool

definition new_Net :: "Server \<Rightarrow> Net" where
  "new_Net r =
     \<lparr>raft = r, heap = (\<lambda>_. None), next_addr = 0, net_peers = [], all_clients = [],
      accepting_peer = None, accepting_client = None, connecting = [], next_id = 0, net_stop = True,
      watermark_index = 0, timer = None, minimum_timer = False\<rparr>"

definition update_session :: "nat \<Rightarrow> (Session \<Rightarrow> Session) \<Rightarrow> Net \<Rightarrow> Net" where
  "update_session a f n = n\<lparr>heap := (heap n)(a := map_option f (heap n a))\<rparr>"

definition session_id :: "Net \<Rightarrow> nat \<Rightarrow> string option" where
  "session_id n a = map_option s_id (heap n a)"

definition alloc_session :: "Session \<Rightarrow> Net \<Rightarrow> nat \<times> Net" where
  "alloc_session s n =
     (next_addr n, n\<lparr>heap := (heap n)(next_addr n \<mapsto> s), next_addr := next_addr n + 1\<rparr>)"

fun update_sessions :: "nat list \<Rightarrow> (Session \<Rightarrow> Session) \<Rightarrow> Net \<Rightarrow> Net" where
  "update_sessions [] f n = n"
| "update_sessions (a # as) f n = update_sessions as f (update_session a f n)"

subsection \<open>Starting, stopping, accepting\<close>

definition do_accept_peer :: "Net \<Rightarrow> Net" where
  "do_accept_peer n =
     (if net_stop n \<or> accepting_peer n \<noteq> None then n
      else (let i = next_id n + 1;
                (a, n') = alloc_session (new_Session Peer (''+'' @ dec_word i)) (n\<lparr>next_id := i\<rparr>)
            in n'\<lparr>accepting_peer := Some a\<rparr>))"

definition accepted_peer :: "bool \<Rightarrow> Net \<Rightarrow> Net" where
  "accepted_peer ok n =
     (if net_stop n then n\<lparr>accepting_peer := None\<rparr>
      else (case accepting_peer n of
              None \<Rightarrow> n
            | Some a \<Rightarrow> do_accept_peer
                (if ok then update_session a session_start (n\<lparr>net_peers := net_peers n @ [a], accepting_peer := None\<rparr>)
                 else n)))"

definition do_accept_client :: "Net \<Rightarrow> Net" where
  "do_accept_client n =
     (if net_stop n \<or> accepting_client n \<noteq> None then n
      else (let i = next_id n + 1;
                (a, n') = alloc_session (new_Session Client (''-'' @ dec_word i)) (n\<lparr>next_id := i\<rparr>)
            in n'\<lparr>accepting_client := Some a\<rparr>))"

definition accepted_client :: "bool \<Rightarrow> Net \<Rightarrow> Net" where
  "accepted_client ok n =
     (if net_stop n then n\<lparr>accepting_client := None\<rparr>
      else (case accepting_client n of
              None \<Rightarrow> n
            | Some a \<Rightarrow> do_accept_client
                (if ok then
                   (case session_id n a of
                      None \<Rightarrow> n
                    | Some i \<Rightarrow>
                        (case map_of (all_clients n) i of
                           None \<Rightarrow> update_session a session_start
                             (n\<lparr>all_clients := (i, a) # all_clients n, accepting_client := None\<rparr>)
                         | Some b \<Rightarrow> update_session b session_start (n\<lparr>accepting_client := None\<rparr>)))
                 else n)))"

definition net_start :: "Net \<Rightarrow> Net" where
  "net_start n =
     (if \<not> net_stop n then n
      else (let n1 = n\<lparr>net_stop := False, timer := Some FollowerTimer\<rparr>;
                n2 = n1\<lparr>raft := on_MinimumTimeoutRequest (raft n1)\<rparr>
            in do_accept_client (do_accept_peer n2)))"

definition net_do_stop :: "Net \<Rightarrow> Net" where
  "net_do_stop n =
     (if net_stop n then n
      else (let n1 = update_sessions (net_peers n) stop_and_close (n\<lparr>net_stop := True\<rparr>);
                n2 = update_sessions (map snd (all_clients n)) stop_and_close (n1\<lparr>net_peers := []\<rparr>)
            in n2\<lparr>all_clients := []\<rparr>))"

subsection \<open>Identification and dropping of sessions\<close>

text \<open>The loop of \<open>identify\<close>. The name to look for is a reference to the name of the calling session
  \<open>self\<close>, so it changes when the loop renames that session.\<close>

fun identify_loop :: "nat \<Rightarrow> string \<Rightarrow> nat list \<Rightarrow> nat \<Rightarrow> Net \<Rightarrow> nat \<times> Net" where
  "identify_loop self peer [] k n = (k, n)"
| "identify_loop self peer (a # as) k n =
     (if session_id n a = session_id n self
      then identify_loop self peer as (k + 1) (update_session a (\<lambda>s. s\<lparr>s_id := peer\<rparr>) n)
      else identify_loop self peer as k n)"

definition identify :: "nat \<Rightarrow> string \<Rightarrow> Net \<Rightarrow> bool \<times> Net" where
  "identify self peer n =
     (if net_stop n then (False, n)
      else (let (k, n') = identify_loop self peer (net_peers n) 0 n
            in (find_peer (state (raft n')) peer \<noteq> None \<and> k = 1, n')))"

definition drop_session :: "string \<Rightarrow> Net \<Rightarrow> Net" where
  "drop_session i n =
     (if net_stop n then n
      else if i \<noteq> [] \<and> hd i = CHR ''-'' \<and> map_of (all_clients n) i \<noteq> None then
        (case map_of (all_clients n) i of
           None \<Rightarrow> n
         | Some a \<Rightarrow> (update_session a stop_and_close n)
                        \<lparr>all_clients := filter (\<lambda>(j, b). j \<noteq> i) (all_clients n)\<rparr>)
      else
        (update_sessions (filter (\<lambda>a. session_id n a = Some i) (net_peers n)) stop_and_close n)
           \<lparr>net_peers := filter (\<lambda>a. session_id n a \<noteq> Some i) (net_peers n)\<rparr>)"


subsection \<open>Sending\<close>

fun serialize :: "message \<Rightarrow> string" where
  "serialize (MAppendEntriesRequest r) = print_AppendEntriesRequest r"
| "serialize (MAppendEntriesResponse r) = print_AppendEntriesResponse r"
| "serialize (MVoteRequest r) = print_VoteRequest r"
| "serialize (MVoteResponse r) = print_VoteResponse r"
| "serialize (MClientRequest r) = print_ClientRequest r"

text \<open>Without a session to the peer a connection is started, and the message waits for it; a name
  outside the peer list is a null pointer.\<close>

definition net_session_send :: "string \<Rightarrow> string \<Rightarrow> Net \<Rightarrow> Net res" where
  "net_session_send i text n =
     (if net_stop n then Inr n
      else (case find (\<lambda>a. session_id n a = Some i) (net_peers n) of
              Some a \<Rightarrow> Inr (update_session a (session_send text) n)
            | None \<Rightarrow>
                (case find_peer (state (raft n)) i of
                   None \<Rightarrow> Inl NullDereference
                 | Some _ \<Rightarrow>
                     (let (a, n') = alloc_session (new_Session Peer i) n
                      in Inr (n'\<lparr>connecting := connecting n' @ [(a, text)]\<rparr>)))))"

definition connected :: "nat \<Rightarrow> bool \<Rightarrow> Net \<Rightarrow> Net" where
  "connected a ok n =
     (case map_of (connecting n) a of
        None \<Rightarrow> n
      | Some text \<Rightarrow>
          (let n1 = n\<lparr>connecting := filter (\<lambda>(b, _). b \<noteq> a) (connecting n)\<rparr>
           in if ok \<and> \<not> net_stop n1
              then update_session a (session_send text \<circ> session_start) (n1\<lparr>net_peers := net_peers n1 @ [a]\<rparr>)
              else n1))"

definition client_session_send :: "string \<Rightarrow> string \<Rightarrow> Net \<Rightarrow> Net" where
  "client_session_send i text n =
     (if net_stop n then n
      else (case map_of (all_clients n) i of None \<Rightarrow> n | Some a \<Rightarrow> update_session a (session_send text) n))"

text \<open>The body of the loop in \<open>commit_advanced\<close>.\<close>

definition announce :: "EntryInfo \<Rightarrow> Net \<Rightarrow> Net" where
  "announce e n =
     (update_sessions (map snd (all_clients n)) (session_send (print_CurrentEntryResponse \<lparr>ce_entry_info = e\<rparr>)) n)
        \<lparr>watermark_index := watermark_index n + 1\<rparr>"

lemma update_session_frame [simp, frame_simps]:
  "raft (update_session a f n) = raft n" "all_clients (update_session a f n) = all_clients n"
  "watermark_index (update_session a f n) = watermark_index n" "net_stop (update_session a f n) = net_stop n"
  "net_peers (update_session a f n) = net_peers n"
  by (simp_all add: update_session_def)

lemma update_sessions_frame [simp, frame_simps]:
  "raft (update_sessions as f n) = raft n" "all_clients (update_sessions as f n) = all_clients n"
  "watermark_index (update_sessions as f n) = watermark_index n" "net_stop (update_sessions as f n) = net_stop n"
  "net_peers (update_sessions as f n) = net_peers n"
  by (induction as arbitrary: n) simp_all

lemma announce_frame [simp, frame_simps]:
  "raft (announce e n) = raft n" "all_clients (announce e n) = all_clients n" "net_stop (announce e n) = net_stop n"
  "watermark_index (announce e n) = watermark_index n + 1"
  by (simp_all add: announce_def)

lemma unat_inc_below: "(w :: u64) < c \<Longrightarrow> unat (w + 1) = unat w + 1"
  using unat_u64 [of c] by (simp add: unat_word_ariths word_less_nat_alt)

function commit_loop :: "u64 \<Rightarrow> Net \<Rightarrow> Net res" where
  "commit_loop c n =
     (if watermark_index n < c then
        res_bind (get_entry_info (storage (raft n)) (watermark_index n)) (\<lambda>e. commit_loop c (announce e n))
      else Inr n)"
  by pat_completeness auto
termination
  by (relation "measure (\<lambda>(c, n). unat c - unat (watermark_index n))")
    (auto simp: unat_inc_below word_less_nat_alt)

declare commit_loop.simps [simp del]

definition commit_advanced :: "u64 \<Rightarrow> Net \<Rightarrow> Net res" where
  "commit_advanced c n = (if net_stop n \<or> all_clients n = [] then Inr n else commit_loop c n)"

fun run_callback :: "callback \<Rightarrow> Net \<Rightarrow> Net res" where
  "run_callback SetHeartbeatTimeout n = Inr (n\<lparr>timer := Some HeartbeatTimer\<rparr>)"
| "run_callback SetFollowerTimeout n = Inr (n\<lparr>timer := Some FollowerTimer\<rparr>)"
| "run_callback SetCandidateTimeout n = Inr (n\<lparr>timer := Some CandidateTimer\<rparr>)"
| "run_callback SetMinimumTimeout n = Inr (if net_stop n then n else n\<lparr>minimum_timer := True\<rparr>)"
| "run_callback (SendAppendEntriesRequest i r) n = net_session_send i (serialize (MAppendEntriesRequest r)) n"
| "run_callback (SendAppendEntriesResponse i r) n = net_session_send i (serialize (MAppendEntriesResponse r)) n"
| "run_callback (SendVoteRequest i r) n = net_session_send i (serialize (MVoteRequest r)) n"
| "run_callback (SendVoteResponse i r) n = net_session_send i (serialize (MVoteResponse r)) n"
| "run_callback (SendClientRequest i r) n = net_session_send i (serialize (MClientRequest r)) n"
| "run_callback (Drop i) n = Inr (drop_session i n)"
| "run_callback (NewLeaderElected i) n = Inr n"
| "run_callback (CommitAdvanced c) n = commit_advanced c n"

fun run_callbacks :: "callback list \<Rightarrow> Net \<Rightarrow> Net res" where
  "run_callbacks [] n = Inr n"
| "run_callbacks (c # cs) n = res_bind (run_callback c n) (run_callbacks cs)"

definition node_step :: "step \<Rightarrow> Net \<Rightarrow> Net res" where
  "node_step r n = res_bind r (\<lambda>(s, cs). run_callbacks cs (n\<lparr>raft := s\<rparr>))"

definition timer_fires :: "Net \<Rightarrow> Net res" where
  "timer_fires n = (if net_stop n then Inr n else node_step (Inr (timeout (raft n))) (n\<lparr>timer := None\<rparr>))"

definition minimum_timer_fires :: "Net \<Rightarrow> Net" where
  "minimum_timer_fires n =
     (if net_stop n then n else n\<lparr>minimum_timer := False, raft := on_MinimumTimeoutRequest (raft n)\<rparr>)"


subsection \<open>Receiving\<close>

definition drop_self :: "nat \<Rightarrow> Net \<Rightarrow> Net res" where
  "drop_self self n = Inr (case session_id n self of None \<Rightarrow> n | Some i \<Rightarrow> drop_session i n)"

text \<open>A message whose sender names itself differently from the session is accepted only if the
  session can be renamed.\<close>

definition process_impl :: "nat \<Rightarrow> string \<Rightarrow> message \<Rightarrow> Net \<Rightarrow> Net res" where
  "process_impl self sender m n =
     (if session_id n self \<noteq> Some sender then
        (let (ok, n') = identify self sender n
         in if ok then node_step (handle (raft n') m) n' else Inr (drop_session sender n'))
      else node_step (handle (raft n) m) n)"

text \<open>The read in the \<open>try\<close> block: a stream failure drops the session, another exception ends the
  process.\<close>

definition guarded_read :: "nat \<Rightarrow> ('a \<times> string) res \<Rightarrow> ('a \<Rightarrow> Net \<Rightarrow> Net res) \<Rightarrow> Net \<Rightarrow> Net res" where
  "guarded_read self r k n =
     (case r of
        Inl e \<Rightarrow> if e = stream_failure then drop_self self n else Inl e
      | Inr (x, _) \<Rightarrow> k x n)"

definition process_server_message :: "(nat \<Rightarrow> fault option) \<Rightarrow> nat \<Rightarrow> string \<Rightarrow> Net \<Rightarrow> Net res" where
  "process_server_message rt self text n =
     (case read_string text of
        Inl e \<Rightarrow> drop_self self n
      | Inr (name, s) \<Rightarrow>
          if name = ''AppendEntriesRequest'' then
            guarded_read self (read_AppendEntriesRequest rt s)
              (\<lambda>r. process_impl self (peer_id (aer_header r)) (MAppendEntriesRequest r)) n
          else if name = ''AppendEntriesResponse'' then
            guarded_read self (read_AppendEntriesResponse s)
              (\<lambda>r. process_impl self (peer_id (aes_header r)) (MAppendEntriesResponse r)) n
          else if name = ''ClientRequest'' then
            guarded_read self (read_ClientRequest s)
              (\<lambda>r n. node_step (on_ClientRequest (raft n) r) n) n
          else if name = ''VoteResponse'' then
            guarded_read self (read_VoteResponse s)
              (\<lambda>r. process_impl self (peer_id (vs_header r)) (MVoteResponse r)) n
          else if name = ''VoteRequest'' then
            guarded_read self (read_VoteRequest s)
              (\<lambda>r. process_impl self (peer_id (vr_header r)) (MVoteRequest r)) n
          else if name = ''ConfigChangeRequest'' then
            guarded_read self (read_ConfigChangeRequest rt 0 s)
              (\<lambda>r n. Inr (n\<lparr>raft := on_ConfigChangeRequest (raft n) r\<rparr>)) n
          else drop_self self n)"

definition process_client_message :: "nat \<Rightarrow> string \<Rightarrow> Net \<Rightarrow> Net res" where
  "process_client_message self text n =
     (case read_string text of
        Inl e \<Rightarrow> drop_self self n
      | Inr (name, s) \<Rightarrow>
          if name = ''ClientRequest'' then
            guarded_read self (read_ClientRequest s)
              (\<lambda>r n. case session_id n self of
                       None \<Rightarrow> Inr n
                     | Some i \<Rightarrow> node_step (on_ClientRequest (raft n) (r\<lparr>cr_client_id := i\<rparr>)) n) n
          else if name = ''CurrentEntryRequest'' then
            (case session_id n self of
               None \<Rightarrow> Inr n
             | Some i \<Rightarrow> Inr (client_session_send i
                 (print_CurrentEntryResponse \<lparr>ce_entry_info = ls_commit (server_log_state (raft n))\<rparr>) n))
          else drop_self self n)"

definition process_message :: "(nat \<Rightarrow> fault option) \<Rightarrow> MessageCategory \<Rightarrow> nat \<Rightarrow> string \<Rightarrow> Net \<Rightarrow> Net res" where
  "process_message rt cat self text n =
     (if cat = Client then process_client_message self text n else process_server_message rt self text n)"

fun process_messages :: "(nat \<Rightarrow> fault option) \<Rightarrow> MessageCategory \<Rightarrow> nat \<Rightarrow> string list \<Rightarrow> Net \<Rightarrow> Net res" where
  "process_messages rt cat self [] n = Inr n"
| "process_messages rt cat self (m # ms) n =
     res_bind (process_message rt cat self m n) (process_messages rt cat self ms)"

definition process_read :: "(nat \<Rightarrow> fault option) \<Rightarrow> nat \<Rightarrow> string \<Rightarrow> Net \<Rightarrow> Net res" where
  "process_read rt self buf n =
     (case heap n self of
        None \<Rightarrow> Inr n
      | Some s \<Rightarrow>
          (let (ms, inc) = newline_tokenizer buf (incomplete_message s)
           in process_messages rt (category s) self ms
                (update_session self (\<lambda>s. s\<lparr>incomplete_message := inc\<rparr>) n)))"


subsection \<open>From one node's send to the other node's handler\<close>

fun sender :: "message \<Rightarrow> string option" where
  "sender (MAppendEntriesRequest r) = Some (peer_id (aer_header r))"
| "sender (MAppendEntriesResponse r) = Some (peer_id (aes_header r))"
| "sender (MVoteRequest r) = Some (peer_id (vr_header r))"
| "sender (MVoteResponse r) = Some (peer_id (vs_header r))"
| "sender (MClientRequest r) = None"

text \<open>The messages the format can carry: names and data are single words, and the fields of a client
  request that are not on the wire are empty.\<close>

fun clean_message :: "message \<Rightarrow> bool" where
  "clean_message (MAppendEntriesRequest r) \<longleftrightarrow> clean_header (aer_header r) \<and>
     (\<forall>e \<in> set (entries r). clean_word (data e)) \<and> length (entries r) < 2 ^ 64"
| "clean_message (MAppendEntriesResponse r) \<longleftrightarrow> clean_header (aes_header r)"
| "clean_message (MVoteRequest r) \<longleftrightarrow> clean_header (vr_header r)"
| "clean_message (MVoteResponse r) \<longleftrightarrow> clean_header (vs_header r)"
| "clean_message (MClientRequest r) \<longleftrightarrow> clean_word (cr_data r) \<and> cr_client_id r = [] \<and> cr_message_id r = []"

fun batch_size :: "message \<Rightarrow> nat" where
  "batch_size (MAppendEntriesRequest r) = length (entries r)"
| "batch_size _ = 0"

abbreviation newline :: char where
  "newline \<equiv> CHR 0x0A"

lemma clean_no_newline: "clean_word s \<Longrightarrow> newline \<notin> set s"
  by (auto simp: clean_word_def isspace_def)

lemma dec_no_newline [simp]: "newline \<notin> set (dec n)" "newline \<notin> set (dec_word w)"
proof -
  show *: "newline \<notin> set (dec n)" for n using dec_digits [of newline n] by (auto simp: is_digit_def)
  show "newline \<notin> set (dec_word w)" unfolding dec_word_def by (rule *)
qed

lemma info_no_newline [simp]: "newline \<notin> set (print_EntryInfo i)"
  by (simp add: print_EntryInfo_def)

lemma bool_no_newline [simp]: "newline \<notin> set (print_bool b)"
  by (simp add: print_bool_def)

lemma header_no_newline: "clean_header h \<Longrightarrow> newline \<notin> set (print_MessageHeader h)"
  by (simp add: print_MessageHeader_def clean_header_def clean_no_newline)

lemma entries_no_newline:
  "\<forall>e \<in> set es. clean_word (data e) \<Longrightarrow> newline \<notin> set (print_vector print_Entry es)"
  by (auto simp: print_vector_def print_Entry_def clean_no_newline)

lemma serialize_line:
  assumes "clean_message m"
  obtains l where "serialize m = l @ '' '' @ [newline]" "newline \<notin> set l"
proof (cases m)
  case (MAppendEntriesRequest r)
  let ?v = "print_vector print_Entry (entries r)"
  have "?v \<noteq> [] \<and> last ?v = CHR '' ''" by (cases "entries r" rule: rev_cases) (simp_all add: print_vector_def)
  then have v: "?v = butlast ?v @ '' ''" by (metis append_butlast_last_id)
  have n: "newline \<notin> set ?v" using assms MAppendEntriesRequest by (simp add: entries_no_newline)
  show ?thesis
    by (rule that [of "''AppendEntriesRequest '' @ print_MessageHeader (aer_header r) @ '' '' @
        print_EntryInfo (previous_entry r) @ '' '' @ butlast ?v"])
      (use v n assms MAppendEntriesRequest header_no_newline in
        \<open>auto simp: print_AppendEntriesRequest_def dest: in_set_butlastD\<close>)
next
  case (MAppendEntriesResponse r)
  show ?thesis
    by (rule that [of "''AppendEntriesResponse '' @ print_MessageHeader (aes_header r) @ '' '' @ print_bool (success r)"])
      (use assms MAppendEntriesResponse header_no_newline in \<open>auto simp: print_AppendEntriesResponse_def\<close>)
next
  case (MVoteRequest r)
  show ?thesis
    by (rule that [of "''VoteRequest '' @ print_MessageHeader (vr_header r)"])
      (use assms MVoteRequest header_no_newline in \<open>auto simp: print_VoteRequest_def\<close>)
next
  case (MVoteResponse r)
  show ?thesis
    by (rule that [of "''VoteResponse '' @ print_MessageHeader (vs_header r) @ '' '' @ print_bool (vote_granted r)"])
      (use assms MVoteResponse header_no_newline in \<open>auto simp: print_VoteResponse_def\<close>)
next
  case (MClientRequest r)
  show ?thesis
    by (rule that [of "''ClientRequest '' @ cr_data r"])
      (use assms MClientRequest clean_no_newline in \<open>auto simp: print_ClientRequest_def\<close>)
qed

lemma read_name:
  assumes "clean_word name"
  shows "read_string (name @ CHR '' '' # t) = Inr (name, CHR '' '' # t)"
  using read_string_word [OF assms] by simp

lemma clean_names [simp]:
  "clean_word ''AppendEntriesRequest''" "clean_word ''AppendEntriesResponse''" "clean_word ''VoteRequest''"
  "clean_word ''VoteResponse''" "clean_word ''ClientRequest''"
  by code_simp+


lemmas read_back =
  header_codec.read_print header_codec.read_space info_codec.read_print info_codec.read_space
  bool_codec.read_print bool_codec.read_space word_codec.read_print word_codec.read_space

lemma message_eta:
  "\<lparr>aer_header = aer_header q, previous_entry = previous_entry q, entries = entries q\<rparr> = q"
  "\<lparr>aes_header = aes_header p, success = success p\<rparr> = p"
  "\<lparr>vr_header = vr_header v\<rparr> = v"
  "\<lparr>vs_header = vs_header w, vote_granted = vote_granted w\<rparr> = w"
  by simp_all

lemma process_server_message_text:
  assumes "serialize m = text @ [newline]" "clean_message m" "rt (batch_size m) = None"
    and "sender m = None \<or> session_id n self = sender m"
  shows "process_server_message rt self text n = node_step (handle (raft n) m) n"
proof (cases m)
  case (MAppendEntriesRequest r)
  then have "text = ''AppendEntriesRequest'' @ CHR '' '' # print_MessageHeader (aer_header r) @ '' '' @
      print_EntryInfo (previous_entry r) @ '' '' @ print_vector print_Entry (entries r)"
    using assms(1) by (simp add: print_AppendEntriesRequest_def)
  moreover have "read_vector rt read_Entry (print_vector print_Entry (entries r)) = Inr (entries r, '' '')"
    using assms(2,3) MAppendEntriesRequest entry_codec.vector_roundtrip [of "entries r" rt "[]"] by simp
  ultimately show ?thesis
    using assms(2,4) MAppendEntriesRequest
    by (simp only: process_server_message_def read_name clean_names)
      (simp add: guarded_read_def read_AppendEntriesRequest_def read_back entry_codec.vector_space process_impl_def message_eta)
next
  case (MAppendEntriesResponse r)
  then have "text = ''AppendEntriesResponse'' @ CHR '' '' # print_MessageHeader (aes_header r) @ '' '' @
      print_bool (success r) @ '' ''"
    using assms(1) by (simp add: print_AppendEntriesResponse_def)
  then show ?thesis
    using assms(2,4) MAppendEntriesResponse
    by (simp only: process_server_message_def read_name clean_names)
      (simp add: guarded_read_def read_AppendEntriesResponse_def read_back process_impl_def message_eta)
next
  case (MVoteRequest r)
  then have "text = ''VoteRequest'' @ CHR '' '' # print_MessageHeader (vr_header r) @ '' ''"
    using assms(1) by (simp add: print_VoteRequest_def)
  then show ?thesis
    using assms(2,4) MVoteRequest
    by (simp only: process_server_message_def read_name clean_names)
      (simp add: guarded_read_def read_VoteRequest_def read_back process_impl_def message_eta)
next
  case (MVoteResponse r)
  then have "text = ''VoteResponse'' @ CHR '' '' # print_MessageHeader (vs_header r) @ '' '' @
      print_bool (vote_granted r) @ '' ''"
    using assms(1) by (simp add: print_VoteResponse_def)
  then show ?thesis
    using assms(2,4) MVoteResponse
    by (simp only: process_server_message_def read_name clean_names)
      (simp add: guarded_read_def read_VoteResponse_def read_back process_impl_def message_eta)
next
  case (MClientRequest r)
  then have "text = ''ClientRequest'' @ CHR '' '' # cr_data r @ '' ''"
    using assms(1) by (simp add: print_ClientRequest_def)
  moreover have r: "\<lparr>cr_client_id = [], cr_message_id = [], cr_data = cr_data r\<rparr> = r"
    using assms(2) MClientRequest by simp
  ultimately show ?thesis
    using assms(2) MClientRequest
    by (simp only: process_server_message_def read_name clean_names)
      (simp add: guarded_read_def read_ClientRequest_def read_back r)
qed

lemma set_incomplete_id:
  assumes "heap n a = Some s" "incomplete_message s = x"
  shows "update_session a (\<lambda>s. s\<lparr>incomplete_message := x\<rparr>) n = n"
proof -
  have "(heap n)(a := map_option (\<lambda>s. s\<lparr>incomplete_message := x\<rparr>) (heap n a)) = heap n"
    using assms by (auto simp: fun_eq_iff)
  then show ?thesis by (simp add: update_session_def)
qed

lemma set_incomplete_twice:
  "update_session a (\<lambda>s. s\<lparr>incomplete_message := y\<rparr>) (update_session a (\<lambda>s. s\<lparr>incomplete_message := x\<rparr>) n) =
   update_session a (\<lambda>s. s\<lparr>incomplete_message := y\<rparr>) n"
  by (simp add: update_session_def option.map_comp comp_def)



definition demo_server :: Server where
  "demo_server = new_Server ''a'' [new_peer ''a'' [] 0 0, new_peer ''b'' [] 0 0] new_MemStorage"

definition demo_net :: Net where
  "demo_net = (new_Net demo_server)\<lparr>net_stop := False, net_peers := [0],
     heap := [0 \<mapsto> session_start (new_Session Peer ''b'')], next_addr := 1\<rparr>"

definition demo_vote_request :: VoteRequest where
  "demo_vote_request = \<lparr>vr_header = \<lparr>peer_id = ''b'', destination_id = ''a'', message_id = 1, hdr_term = 1,
     log_state = \<lparr>ls_commit = zero_info, ls_uncommit = zero_info\<rparr>\<rparr>\<rparr>"


subsection \<open>Announcing commits to clients\<close>

lemma heap_update_sessions:
  "distinct as \<Longrightarrow> heap (update_sessions as f n) a = (if a \<in> set as then map_option f (heap n a) else heap n a)"
  by (induction as arbitrary: n) (auto simp: update_session_def)

definition entry_at :: "MemStorage \<Rightarrow> nat \<Rightarrow> EntryInfo" where
  "entry_at g k = (if k \<le> length (st_entries g) then info_at (st_entries g) k else zero_info)"

lemma commit_loop_announces:
  assumes "storage_ok (storage (raft n))" "distinct (map snd (all_clients n))" "(i, a) \<in> set (all_clients n)"
    and "heap n a = Some s"
  shows "\<exists>n'. commit_loop c n = Inr n' \<and> watermark_index n' = max (watermark_index n) c \<and>
              heap n' a = Some (fold (\<lambda>k. session_send (print_CurrentEntryResponse
                 \<lparr>ce_entry_info = entry_at (storage (raft n)) k\<rparr>))
                 [unat (watermark_index n) ..< unat c] s)"
  using assms
proof (induction c n arbitrary: s rule: commit_loop.induct)
  case (1 c n)
  let ?w = "watermark_index n"
  let ?e = "entry_at (storage (raft n)) (unat ?w)"
  let ?send = "\<lambda>k. session_send (print_CurrentEntryResponse \<lparr>ce_entry_info = entry_at (storage (raft n)) k\<rparr>)"
  show ?case
  proof (cases "?w < c")
    case False
    then have u: "[unat ?w ..< unat c] = []" "max ?w c = ?w"
      by (auto simp: word_le_nat_alt not_less)
    show ?thesis unfolding u using False 1(5) by (simp add: commit_loop.simps [of c n])
  next
    case True
    have e: "get_entry_info (storage (raft n)) ?w = Inr ?e"
      by (simp add: get_entry_info_ok [OF 1(2)] entry_at_def)
    have a: "heap (announce ?e n) a = Some (?send (unat ?w) s)"
      using 1(3-5) by (auto simp: announce_def heap_update_sessions image_iff intro: bexI [of _ "(i, a)"])
    have r: "[unat ?w ..< unat c] = unat ?w # [unat (?w + 1) ..< unat c]"
      using True by (simp add: upt_conv_Cons word_less_nat_alt unat_inc_below)
    have m: "max (?w + 1) c = max ?w c" using True inc_le [OF True] by simp
    from 1(1) [OF True e] 1(2-4) a
    show ?thesis unfolding r by (simp add: commit_loop.simps [of c n] True e m)
  qed
qed

text \<open>
  What clients learn of a commit. On a running server with clients, \<open>commit_advanced(c)\<close>
  returns and sends every client, in order, the positions from the watermark up to but not including
  \<open>c\<close>, and moves the watermark to \<open>c\<close>: the entry committed last is announced with the next commit
  only, and the first announcement is the position 0 of no entry.
\<close>

theorem commit_advanced_announces:
  assumes "storage_ok (storage (raft n))" "\<not> net_stop n" "distinct (map snd (all_clients n))"
    and "(i, a) \<in> set (all_clients n)" "heap n a = Some s"
  shows "\<exists>n'. commit_advanced c n = Inr n' \<and> watermark_index n' = max (watermark_index n) c \<and>
              heap n' a = Some (fold (\<lambda>k. session_send (print_CurrentEntryResponse
                 \<lparr>ce_entry_info = entry_at (storage (raft n)) k\<rparr>))
                 [unat (watermark_index n) ..< unat c] s)"
  using commit_loop_announces [OF assms(1,3-5)] assms(2,4) by (auto simp: commit_advanced_def)

definition demo_client_net :: Net where
  "demo_client_net = (new_Net (demo_server\<lparr>storage := demo_storage\<rparr>))\<lparr>net_stop := False, all_clients := [(''-1'', 0)],
     heap := [0 \<mapsto> session_start (new_Session Client ''-1'')], next_addr := 1\<rparr>"

theorem commit_advanced_announces_witness:
  "\<exists>n' s'. commit_advanced 1 demo_client_net = Inr n' \<and> heap n' 0 = Some s' \<and>
     write_queue s' = [''CurrentEntryResponse 0 0 '' @ [CHR 0x0A]]"
proof -
  have "storage_ok (storage (raft demo_client_net))"
    using demo_storage_ok by (simp add: demo_client_net_def new_Net_def)
  then have "\<exists>n'. commit_advanced 1 demo_client_net = Inr n' \<and>
      heap n' 0 = Some (session_send (print_CurrentEntryResponse \<lparr>ce_entry_info = zero_info\<rparr>)
        (session_start (new_Session Client ''-1'')))"
    using commit_advanced_announces [of demo_client_net "''-1''" 0 "session_start (new_Session Client ''-1'')" 1]
    by (simp add: demo_client_net_def new_Net_def entry_at_def info_at_def) blast
  moreover have "write_queue (session_send (print_CurrentEntryResponse \<lparr>ce_entry_info = zero_info\<rparr>)
      (session_start (new_Session Client ''-1''))) = [''CurrentEntryResponse 0 0 '' @ [CHR 0x0A]]"
    by code_simp
  ultimately show ?thesis by blast
qed

text \<open>
  Two connections between the same nodes can destroy each other. When a peer's connection was
  accepted first and the node's own connection to that peer came up before the peer's first message,
  that message makes \<open>identify\<close> count both sessions, because the name it compares with is the one it
  has just overwritten; it fails, and both sessions are closed.
\<close>

theorem simultaneous_connect_drops_both:
  "\<exists>n'. process_impl 0 ''b'' (MVoteRequest demo_vote_request)
          (demo_net\<lparr>net_peers := [0, 1],
             heap := [0 \<mapsto> session_start (new_Session Peer ''+1''), 1 \<mapsto> session_start (new_Session Peer ''b'')],
             next_addr := 2\<rparr>) = Inr n' \<and>
        net_peers n' = [] \<and> map_option s_close (heap n' 0) = Some True \<and> map_option s_close (heap n' 1) = Some True"
  by (simp add: process_impl_def identify_def demo_net_def new_Net_def session_id_def session_start_def
      new_Session_def update_session_def drop_session_def stop_and_close_def session_stop_def)

end
