(* ===== verification/Oxm.thy ===== *)
theory Oxm
  imports Prelude
begin

text \<open>
  OpenFlow extensible match fields: \<open>src/oxm/type.hh\<close>, \<open>src/oxm/field.hh\<close>, \<open>src/oxm/field_set.hh\<close> and
  the field types of \<open>src/oxm/openflow_basic.hh\<close>. A dynamic bit set of size \<open>n\<close> is a size and an
  integer whose bits from \<open>n\<close> on are clear. The generic classes \<open>field<type>\<close>, \<open>mask<type>\<close> and
  \<open>value<type>\<close> are records with their type; the checks of their constructors and of \<open>binop_type\<close> are the
  error branches. Types are compared by namespace and id, as \<open>operator==\<close> does.

  A set of fields is the list of its entries, at most one for each type.
\<close>

unbundle bit_operations_syntax

subsection \<open>Types\<close>

record oxm_type =
  ns :: u16
  tid :: u8
  maskable :: bool
  nbits :: nat

definition nbytes :: "oxm_type \<Rightarrow> nat" where
  "nbytes t = nbits t div 8 + (if nbits t mod 8 \<noteq> 0 then 1 else 0)"

definition type_eq :: "oxm_type \<Rightarrow> oxm_type \<Rightarrow> bool" where
  "type_eq a b \<longleftrightarrow> ns a = ns b \<and> tid a = tid b"

definition ofb_type :: "u8 \<Rightarrow> nat \<Rightarrow> bool \<Rightarrow> oxm_type" where
  "ofb_type i n m = \<lparr>ns = 0x8000, tid = i, maskable = m, nbits = n\<rparr>"

definition in_port :: oxm_type where "in_port = ofb_type 0 32 False"

definition eth_dst :: oxm_type where "eth_dst = ofb_type 3 48 True"

definition eth_src :: oxm_type where "eth_src = ofb_type 4 48 True"

definition eth_type :: oxm_type where "eth_type = ofb_type 5 16 False"

definition vlan_vid :: oxm_type where "vlan_vid = ofb_type 6 12 False"

definition ip_proto :: oxm_type where "ip_proto = ofb_type 10 8 False"

definition ipv4_src :: oxm_type where "ipv4_src = ofb_type 11 32 True"

definition ipv4_dst :: oxm_type where "ipv4_dst = ofb_type 12 32 True"

definition tcp_src :: oxm_type where "tcp_src = ofb_type 13 16 False"

definition tcp_dst :: oxm_type where "tcp_dst = ofb_type 14 16 False"

definition udp_src :: oxm_type where "udp_src = ofb_type 15 16 False"

definition udp_dst :: oxm_type where "udp_dst = ofb_type 16 16 False"

definition icmp_type :: oxm_type where "icmp_type = ofb_type 19 8 False"

definition icmp_code :: oxm_type where "icmp_code = ofb_type 20 8 False"

definition arp_op :: oxm_type where "arp_op = ofb_type 21 16 False"

definition arp_spa :: oxm_type where "arp_spa = ofb_type 22 32 True"

definition arp_tpa :: oxm_type where "arp_tpa = ofb_type 23 32 True"

definition arp_sha :: oxm_type where "arp_sha = ofb_type 24 48 True"

definition arp_tha :: oxm_type where "arp_tha = ofb_type 25 48 True"

definition ipv6_src :: oxm_type where "ipv6_src = ofb_type 26 128 True"

definition ipv6_dst :: oxm_type where "ipv6_dst = ofb_type 27 128 True"

definition basic_types :: "oxm_type list" where
  "basic_types =
     [in_port, eth_dst, eth_src, eth_type, vlan_vid, ip_proto, ipv4_src, ipv4_dst, tcp_src, tcp_dst, udp_src,
      udp_dst, icmp_type, icmp_code, arp_op, arp_spa, arp_tpa, arp_sha, arp_tha, ipv6_src, ipv6_dst]"

subsection \<open>Bit sets, values, masks and fields\<close>

record bits =
  b_size :: nat
  b_bits :: int

record oxm_value =
  v_type :: oxm_type
  v_bits :: int

record oxm_mask =
  m_type :: oxm_type
  m_bits :: int

record oxm_field =
  f_type :: oxm_type
  f_value :: int
  f_mask :: int

abbreviation bad_bit_length :: fault where
  "bad_bit_length \<equiv> Thrown ''bad_bit_length''"

abbreviation bad_mask :: fault where
  "bad_mask \<equiv> Thrown ''bad_mask''"

abbreviation bad_operands :: fault where
  "bad_operands \<equiv> Thrown ''bad_operands''"

definition all_ones :: "oxm_type \<Rightarrow> int" where
  "all_ones t = mask (nbits t)"

definition mk_value :: "oxm_type \<Rightarrow> bits \<Rightarrow> oxm_value res" where
  "mk_value t b = (if b_size b \<noteq> nbits t then Inl bad_bit_length else Inr \<lparr>v_type = t, v_bits = b_bits b\<rparr>)"

definition mk_mask :: "oxm_type \<Rightarrow> bits \<Rightarrow> oxm_mask res" where
  "mk_mask t b =
     (if b_size b \<noteq> nbits t then Inl bad_bit_length
      else if \<not> maskable t \<and> \<not> (b_bits b = all_ones t \<or> b_bits b = 0) then Inl bad_mask
      else Inr \<lparr>m_type = t, m_bits = b_bits b\<rparr>)"

definition mk_field :: "oxm_type \<Rightarrow> bits \<Rightarrow> bits \<Rightarrow> oxm_field res" where
  "mk_field t v m =
     res_bind (mk_value t v) (\<lambda>val. res_bind (mk_mask t m) (\<lambda>msk.
       Inr \<lparr>f_type = t, f_value = v_bits val AND m_bits msk, f_mask = m_bits msk\<rparr>))"

definition exact_mask :: "oxm_type \<Rightarrow> oxm_mask" where
  "exact_mask t = \<lparr>m_type = t, m_bits = all_ones t\<rparr>"

definition wildcard_field :: "oxm_type \<Rightarrow> oxm_field" where
  "wildcard_field t = \<lparr>f_type = t, f_value = 0, f_mask = 0\<rparr>"

definition mask_of :: "oxm_field \<Rightarrow> oxm_mask" where
  "mask_of f = \<lparr>m_type = f_type f, m_bits = f_mask f\<rparr>"

definition value_of :: "oxm_field \<Rightarrow> oxm_value" where
  "value_of f = \<lparr>v_type = f_type f, v_bits = f_value f\<rparr>"

definition exact :: "oxm_field \<Rightarrow> bool" where
  "exact f \<longleftrightarrow> f_mask f = all_ones (f_type f)"

definition wildcard :: "oxm_field \<Rightarrow> bool" where
  "wildcard f \<longleftrightarrow> f_mask f = 0"

definition fuzzy :: "oxm_field \<Rightarrow> bool" where
  "fuzzy f \<longleftrightarrow> \<not> (exact f \<or> wildcard f)"

definition mask_eq :: "oxm_mask \<Rightarrow> oxm_mask \<Rightarrow> bool" where
  "mask_eq a b \<longleftrightarrow> type_eq (m_type a) (m_type b) \<and> m_bits a = m_bits b"

definition field_eq :: "oxm_field \<Rightarrow> oxm_field \<Rightarrow> bool" where
  "field_eq a b \<longleftrightarrow> type_eq (f_type a) (f_type b) \<and> f_value a = f_value b \<and> f_mask a = f_mask b"

definition binop_type :: "oxm_type \<Rightarrow> oxm_type \<Rightarrow> oxm_type res" where
  "binop_type a b = (if type_eq a b then Inr a else Inl bad_operands)"

subsection \<open>Operators\<close>

definition mask_and :: "oxm_mask \<Rightarrow> oxm_mask \<Rightarrow> oxm_mask res" where
  "mask_and a b = res_bind (binop_type (m_type a) (m_type b)) (\<lambda>t.
     mk_mask t \<lparr>b_size = nbits (m_type a), b_bits = m_bits a AND m_bits b\<rparr>)"

definition mask_or :: "oxm_mask \<Rightarrow> oxm_mask \<Rightarrow> oxm_mask res" where
  "mask_or a b = res_bind (binop_type (m_type a) (m_type b)) (\<lambda>t.
     mk_mask t \<lparr>b_size = nbits (m_type a), b_bits = m_bits a OR m_bits b\<rparr>)"

definition mask_xor :: "oxm_mask \<Rightarrow> oxm_mask \<Rightarrow> oxm_mask res" where
  "mask_xor a b = res_bind (binop_type (m_type a) (m_type b)) (\<lambda>t.
     mk_mask t \<lparr>b_size = nbits (m_type a), b_bits = m_bits a XOR m_bits b\<rparr>)"

definition mask_not :: "oxm_mask \<Rightarrow> oxm_mask res" where
  "mask_not a = mk_mask (m_type a)
     \<lparr>b_size = nbits (m_type a), b_bits = take_bit (nbits (m_type a)) (NOT (m_bits a))\<rparr>"

text \<open>\<open>value & mask\<close>\<close>

definition value_mask :: "oxm_value \<Rightarrow> oxm_mask \<Rightarrow> oxm_field res" where
  "value_mask v m = res_bind (binop_type (v_type v) (m_type m)) (\<lambda>t.
     mk_field t \<lparr>b_size = nbits (v_type v), b_bits = v_bits v\<rparr> \<lparr>b_size = nbits (m_type m), b_bits = m_bits m\<rparr>)"

text \<open>\<open>field & mask\<close>\<close>

definition field_mask :: "oxm_field \<Rightarrow> oxm_mask \<Rightarrow> oxm_field res" where
  "field_mask f m = res_bind (binop_type (f_type f) (m_type m)) (\<lambda>t.
     mk_field t \<lparr>b_size = nbits (f_type f), b_bits = f_value f\<rparr>
                \<lparr>b_size = nbits (f_type f), b_bits = f_mask f AND m_bits m\<rparr>)"

text \<open>\<open>field & field\<close>: do they agree where both are known?\<close>

definition field_match :: "oxm_field \<Rightarrow> oxm_field \<Rightarrow> bool res" where
  "field_match a b =
     res_bind (mask_and (mask_of a) (mask_of b)) (\<lambda>m.
     res_bind (value_mask (value_of a) m) (\<lambda>x.
     res_bind (value_mask (value_of b) m) (\<lambda>y. Inr (field_eq x y))))"

text \<open>\<open>value >> field\<close> and \<open>field >> field\<close>: overwriting.\<close>

definition value_rewrite :: "oxm_value \<Rightarrow> oxm_field \<Rightarrow> oxm_value res" where
  "value_rewrite v f = res_bind (binop_type (v_type v) (f_type f)) (\<lambda>t.
     mk_value t \<lparr>b_size = nbits (v_type v), b_bits = (v_bits v AND NOT (f_mask f)) OR f_value f\<rparr>)"

definition field_rewrite :: "oxm_field \<Rightarrow> oxm_field \<Rightarrow> oxm_field res" where
  "field_rewrite a b =
     res_bind (value_rewrite (value_of a) b) (\<lambda>v.
     res_bind (mask_or (mask_of a) (mask_of b)) (\<lambda>m. value_mask v m))"

subsection \<open>Sets of fields\<close>

type_synonym field_set = "oxm_field list"

definition find_entry :: "oxm_type \<Rightarrow> field_set \<Rightarrow> oxm_field option" where
  "find_entry t fs = find (\<lambda>f. type_eq (f_type f) t) fs"

definition fs_load :: "oxm_mask \<Rightarrow> field_set \<Rightarrow> oxm_field res" where
  "fs_load m fs =
     (case find_entry (m_type m) fs of
        None \<Rightarrow> field_mask (wildcard_field (m_type m)) m
      | Some f \<Rightarrow> field_mask f m)"

definition fs_modify :: "oxm_field \<Rightarrow> field_set \<Rightarrow> field_set res" where
  "fs_modify p fs =
     (let fs' = (case find_entry (f_type p) fs of None \<Rightarrow> fs @ [p] | Some _ \<Rightarrow> fs)
      in case find_entry (f_type p) fs' of
           None \<Rightarrow> Inr fs'
         | Some f \<Rightarrow> res_bind (field_rewrite f p) (\<lambda>g.
             Inr (update_first (\<lambda>f. type_eq (f_type f) (f_type p)) (\<lambda>_. g) fs')))"

definition fs_erase :: "oxm_mask \<Rightarrow> field_set \<Rightarrow> field_set res" where
  "fs_erase m fs =
     (case find_entry (m_type m) fs of
        None \<Rightarrow> Inr fs
      | Some f \<Rightarrow>
          res_bind (mask_not m) (\<lambda>nm. res_bind (field_mask f nm) (\<lambda>g.
            Inr (if wildcard g then filter (\<lambda>f. \<not> type_eq (f_type f) (m_type m)) fs
                 else update_first (\<lambda>f. type_eq (f_type f) (m_type m)) (\<lambda>_. g) fs))))"


subsection \<open>Well-formed fields\<close>

definition wf_type :: "oxm_type \<Rightarrow> bool" where
  "wf_type t \<longleftrightarrow> t \<in> set basic_types"

definition bits_ok :: "oxm_type \<Rightarrow> int \<Rightarrow> bool" where
  "bits_ok t b \<longleftrightarrow> b AND all_ones t = b \<and> (maskable t \<or> b = all_ones t \<or> b = 0)"

definition wf_mask :: "oxm_mask \<Rightarrow> bool" where
  "wf_mask m \<longleftrightarrow> wf_type (m_type m) \<and> bits_ok (m_type m) (m_bits m)"

definition wf_field :: "oxm_field \<Rightarrow> bool" where
  "wf_field f \<longleftrightarrow> wf_type (f_type f) \<and> bits_ok (f_type f) (f_mask f) \<and> f_value f AND f_mask f = f_value f"

definition wf_set :: "field_set \<Rightarrow> bool" where
  "wf_set fs \<longleftrightarrow> (\<forall>f \<in> set fs. wf_field f \<and> \<not> wildcard f) \<and> distinct (map f_type fs)"

lemma basic_keys: "distinct (map (\<lambda>t. (ns t, tid t)) basic_types)"
  by code_simp

lemma type_eq_basic: "wf_type a \<Longrightarrow> wf_type b \<Longrightarrow> type_eq a b \<longleftrightarrow> a = b"
  using basic_keys unfolding wf_type_def type_eq_def distinct_map by (auto dest: inj_onD)

lemma type_eq_refl [simp]: "type_eq t t"
  by (simp add: type_eq_def)

lemma bits_ok_and: "bits_ok t a \<Longrightarrow> bits_ok t b \<Longrightarrow> bits_ok t (a AND b)"
  by (auto simp: bits_ok_def and.assoc)

lemma bits_ok_or: "bits_ok t a \<Longrightarrow> bits_ok t b \<Longrightarrow> bits_ok t (a OR b)"
  by (auto simp: bits_ok_def bit.conj_disj_distrib2)

lemma bits_ok_not: "bits_ok t a \<Longrightarrow> bits_ok t (take_bit (nbits t) (NOT a))"
proof -
  assume ok: "bits_ok t a"
  have "take_bit (nbits t) (NOT a) AND all_ones t = take_bit (nbits t) (NOT a)"
    by (rule bit_eqI) (auto simp: all_ones_def bit_simps)
  moreover have "take_bit (nbits t) (NOT (all_ones t)) = 0" "take_bit (nbits t) (NOT 0) = all_ones t"
    by (auto simp: all_ones_def bit_simps intro!: bit_eqI)
  ultimately show ?thesis using ok by (auto simp: bits_ok_def)
qed

lemma and_not_take:
  "a AND all_ones t = a \<Longrightarrow> a AND take_bit (nbits t) (NOT b) = a AND NOT b"
  by (metis (no_types) all_ones_def and.assoc and.commute take_bit_eq_mask)

text \<open>The operators on well-formed operands of one type: no check fails.\<close>

definition restrict :: "oxm_field \<Rightarrow> int \<Rightarrow> oxm_field" where
  "restrict f b = \<lparr>f_type = f_type f, f_value = f_value f AND (f_mask f AND b), f_mask = f_mask f AND b\<rparr>"

definition overwrite :: "oxm_field \<Rightarrow> oxm_field \<Rightarrow> oxm_field" where
  "overwrite a b =
     \<lparr>f_type = f_type a, f_value = ((f_value a AND NOT (f_mask b)) OR f_value b) AND (f_mask a OR f_mask b),
      f_mask = f_mask a OR f_mask b\<rparr>"

definition agrees :: "oxm_field \<Rightarrow> oxm_field \<Rightarrow> bool" where
  "agrees a b \<longleftrightarrow> f_value a AND (f_mask a AND f_mask b) = f_value b AND (f_mask a AND f_mask b)"

lemma mk_mask_ok: "bits_ok t b \<Longrightarrow> mk_mask t \<lparr>b_size = nbits t, b_bits = b\<rparr> = Inr \<lparr>m_type = t, m_bits = b\<rparr>"
  by (auto simp: mk_mask_def bits_ok_def)

lemma field_mask_ok:
  "wf_field f \<Longrightarrow> wf_mask m \<Longrightarrow> m_type m = f_type f \<Longrightarrow> field_mask f m = Inr (restrict f (m_bits m))"
  by (simp add: field_mask_def binop_type_def mk_field_def mk_value_def mk_mask_ok bits_ok_and wf_field_def
      wf_mask_def restrict_def)

lemma mask_not_ok:
  "wf_mask m \<Longrightarrow> mask_not m = Inr \<lparr>m_type = m_type m, m_bits = take_bit (nbits (m_type m)) (NOT (m_bits m))\<rparr>"
  by (simp add: mask_not_def mk_mask_ok bits_ok_not wf_mask_def)

lemma field_match_ok:
  "wf_field a \<Longrightarrow> wf_field b \<Longrightarrow> f_type a = f_type b \<Longrightarrow> field_match a b = Inr (agrees a b)"
  by (simp add: field_match_def mask_and_def mask_of_def value_of_def value_mask_def binop_type_def mk_field_def
      mk_value_def mk_mask_ok bits_ok_and wf_field_def agrees_def field_eq_def)

lemma field_rewrite_ok:
  "wf_field a \<Longrightarrow> wf_field b \<Longrightarrow> f_type a = f_type b \<Longrightarrow> field_rewrite a b = Inr (overwrite a b)"
  by (simp add: field_rewrite_def value_rewrite_def mask_or_def mask_of_def value_of_def value_mask_def
      binop_type_def mk_field_def mk_value_def mk_mask_ok bits_ok_or wf_field_def overwrite_def)

lemma wf_restrict: "wf_field f \<Longrightarrow> bits_ok (f_type f) b \<Longrightarrow> wf_field (restrict f b)"
  by (auto simp: wf_field_def restrict_def bits_ok_and and.assoc)

lemma wf_overwrite: "wf_field a \<Longrightarrow> wf_field b \<Longrightarrow> f_type a = f_type b \<Longrightarrow> wf_field (overwrite a b)"
  by (auto simp: wf_field_def overwrite_def bits_ok_or and.assoc)

lemma wf_wildcard: "wf_type t \<Longrightarrow> wf_field (wildcard_field t)"
  by (simp add: wf_field_def wildcard_field_def bits_ok_def)

lemma wf_mask_of: "wf_field f \<Longrightarrow> wf_mask (mask_of f)"
  by (simp add: wf_field_def wf_mask_def mask_of_def)

lemma field_simps [simp]:
  "f_type (wildcard_field t) = t" "f_mask (wildcard_field t) = 0" "f_value (wildcard_field t) = 0"
  "f_type (overwrite a b) = f_type a" "f_type (restrict a n) = f_type a"
  "m_type (mask_of a) = f_type a" "m_bits (mask_of a) = f_mask a" "wildcard (wildcard_field t)"
  by (simp_all add: wildcard_field_def overwrite_def restrict_def mask_of_def wildcard_def)

text \<open>Bit by bit.\<close>

lemma bit_restrict [simp]:
  "bit (f_mask (restrict f b)) i \<longleftrightarrow> bit (f_mask f) i \<and> bit b i"
  "bit (f_value (restrict f b)) i \<longleftrightarrow> bit (f_value f) i \<and> bit (f_mask f) i \<and> bit b i"
  by (auto simp: restrict_def bit_and_iff)

lemma bit_overwrite [simp]:
  "bit (f_mask (overwrite a b)) i \<longleftrightarrow> bit (f_mask a) i \<or> bit (f_mask b) i"
  "bit (f_value (overwrite a b)) i \<longleftrightarrow>
     (bit (f_value a) i \<and> \<not> bit (f_mask b) i \<or> bit (f_value b) i) \<and> (bit (f_mask a) i \<or> bit (f_mask b) i)"
  by (auto simp: overwrite_def bit_and_iff bit_or_iff bit_not_iff)

lemma agrees_bits:
  "agrees a b \<longleftrightarrow> (\<forall>i. bit (f_mask a) i \<longrightarrow> bit (f_mask b) i \<longrightarrow> bit (f_value a) i = bit (f_value b) i)"
  by (auto simp: agrees_def bit_eq_iff bit_and_iff)

lemma wf_value_bit: "wf_field f \<Longrightarrow> bit (f_value f) i \<Longrightarrow> bit (f_mask f) i"
  unfolding wf_field_def by (metis bit_and_iff)

lemma wildcard_bits: "wildcard f \<longleftrightarrow> (\<forall>i. \<not> bit (f_mask f) i)"
  by (auto simp: wildcard_def bit_eq_iff)

lemma field_eqI:
  assumes "wf_field a" "wf_field b" "f_type a = f_type b" "\<And>i. bit (f_mask a) i = bit (f_mask b) i"
    "\<And>i. bit (f_mask a) i \<Longrightarrow> bit (f_value a) i = bit (f_value b) i"
  shows "a = b"
proof -
  have "f_mask a = f_mask b" using assms(4) by (intro bit_eqI) simp
  moreover have "f_value a = f_value b"
    using assms wf_value_bit by (intro bit_eqI) blast
  ultimately show ?thesis using assms(3) by simp
qed


subsection \<open>Well-formed sets\<close>

definition fs_get :: "field_set \<Rightarrow> oxm_type \<Rightarrow> oxm_field" where
  "fs_get fs t = (case find_entry t fs of None \<Rightarrow> wildcard_field t | Some f \<Rightarrow> f)"

lemma find_entry_SomeD: "find_entry t fs = Some f \<Longrightarrow> f \<in> set fs \<and> type_eq (f_type f) t"
  unfolding find_entry_def using find_Some_set by fastforce

lemma find_entry_NoneD: "find_entry t fs = None \<Longrightarrow> f \<in> set fs \<Longrightarrow> \<not> type_eq (f_type f) t"
  unfolding find_entry_def by (auto simp: find_None_iff)

lemma find_entry_type:
  "wf_set fs \<Longrightarrow> wf_type t \<Longrightarrow> find_entry t fs = Some f \<Longrightarrow> f_type f = t \<and> wf_field f \<and> f \<in> set fs"
  using find_entry_SomeD type_eq_basic by (fastforce simp: wf_set_def wf_field_def)

lemma fs_get_wf: "wf_set fs \<Longrightarrow> wf_type t \<Longrightarrow> wf_field (fs_get fs t) \<and> f_type (fs_get fs t) = t"
  using find_entry_type by (auto simp: fs_get_def wf_wildcard split: option.splits)

lemma fs_get_in:
  assumes "wf_set fs" "f \<in> set fs"
  shows "fs_get fs (f_type f) = f"
proof (cases "find_entry (f_type f) fs")
  case None
  then show ?thesis using find_entry_NoneD [OF None assms(2)] by simp
next
  case (Some g)
  have "wf_type (f_type f)" using assms by (auto simp: wf_set_def wf_field_def)
  then have "f_type g = f_type f" "g \<in> set fs" using find_entry_type [OF assms(1) _ Some] by auto
  then have "g = f" using assms by (auto simp: wf_set_def distinct_map dest: inj_onD)
  then show ?thesis using Some by (simp add: fs_get_def)
qed

lemma fs_get_not_wildcard:
  "wf_set fs \<Longrightarrow> wf_type t \<Longrightarrow> \<not> wildcard (fs_get fs t) \<Longrightarrow> fs_get fs t \<in> set fs"
  using find_entry_type by (fastforce simp: fs_get_def wildcard_def wildcard_field_def split: option.splits)

lemma wf_set_Nil [simp]: "wf_set []"
  by (simp add: wf_set_def)

lemma fs_get_Nil [simp]: "fs_get [] t = wildcard_field t"
  by (simp add: fs_get_def find_entry_def)

lemma fs_load_ok:
  assumes "wf_set fs" "wf_mask m"
  shows "fs_load m fs = Inr (restrict (fs_get fs (m_type m)) (m_bits m))"
proof -
  have t: "wf_type (m_type m)" using assms(2) by (simp add: wf_mask_def)
  have "fs_load m fs = field_mask (fs_get fs (m_type m)) m"
    by (simp add: fs_load_def fs_get_def split: option.splits)
  then show ?thesis using field_mask_ok fs_get_wf [OF assms(1) t] assms(2) by simp
qed

lemma overwrite_self: "wf_field p \<Longrightarrow> overwrite p p = p"
  by (rule field_eqI) (auto simp: wf_overwrite)

lemma overwrite_wildcard: "wf_field p \<Longrightarrow> overwrite (wildcard_field (f_type p)) p = p"
proof -
  assume p: "wf_field p"
  then have "wf_type (f_type p)" by (simp add: wf_field_def)
  with p show ?thesis by (intro field_eqI) (auto intro!: wf_overwrite wf_wildcard)
qed

lemma update_first_by_type:
  assumes "wf_set fs" "wf_type t"
  shows "update_first (\<lambda>f. type_eq (f_type f) t) (\<lambda>_. g) fs = map (\<lambda>f. if f_type f = t then g else f) fs"
  using assms
proof (induction fs)
  case (Cons f fs)
  have "type_eq (f_type f) t \<longleftrightarrow> f_type f = t" using Cons.prems type_eq_basic by (auto simp: wf_set_def wf_field_def)
  moreover have "f_type x \<noteq> f_type f" if "x \<in> set fs" for x
    using Cons.prems(1) imageI [OF that, of f_type] by (auto simp: wf_set_def)
  then have "f_type f = t \<Longrightarrow> map (\<lambda>f. if f_type f = t then g else f) fs = fs"
    by (intro map_idI) auto
  ultimately show ?case using Cons by (auto simp: wf_set_def)
qed simp

lemma fs_getI:
  assumes "wf_set fs" "f \<in> set fs" "f_type f = t"
  shows "fs_get fs t = f"
  using fs_get_in [OF assms(1,2)] assms(3) by simp

lemma fs_get_absent:
  assumes "wf_set fs" "wf_type t" "t \<notin> f_type ` set fs"
  shows "fs_get fs t = wildcard_field t"
proof (cases "find_entry t fs")
  case (Some f)
  then show ?thesis using find_entry_type [OF assms(1,2) Some] assms(3) by auto
qed (simp add: fs_get_def)


lemma replace_entry:
  assumes fs: "wf_set fs" and g: "wf_field g" "\<not> wildcard g" and f: "f \<in> set fs" "f_type f = f_type g"
  defines "fs' \<equiv> map (\<lambda>h. if f_type h = f_type g then g else h) fs"
  shows "wf_set fs'" "wf_type t \<Longrightarrow> fs_get fs' t = (if t = f_type g then g else fs_get fs t)"
proof -
  have "map f_type fs' = map f_type fs" by (simp add: fs'_def)
  moreover have "\<forall>h \<in> set fs'. wf_field h \<and> \<not> wildcard h" using fs g by (auto simp: fs'_def wf_set_def)
  ultimately show wf: "wf_set fs'" using fs by (simp add: wf_set_def)
  assume t: "wf_type t"
  consider "t = f_type g" | h where "h \<in> set fs" "f_type h = t" "t \<noteq> f_type g"
    | "t \<notin> f_type ` set fs" "t \<noteq> f_type g" using f by (cases "t \<in> f_type ` set fs") auto
  then show "fs_get fs' t = (if t = f_type g then g else fs_get fs t)"
  proof cases
    case 1
    have "g \<in> set fs'" using f by (force simp: fs'_def)
    then show ?thesis using fs_getI [OF wf] 1 by simp
  next
    case 2
    then have "h \<in> set fs'" by (force simp: fs'_def)
    then show ?thesis using fs_getI [OF wf] fs_getI [OF fs] 2 by metis
  next
    case 3
    then have "t \<notin> f_type ` set fs'" by (auto simp: fs'_def)
    then show ?thesis using fs_get_absent [OF wf t] fs_get_absent [OF fs t] 3 by simp
  qed
qed

lemma overwrite_not_wildcard: "\<not> wildcard p \<Longrightarrow> \<not> wildcard (overwrite a p)"
  by (auto simp: wildcard_bits)

lemma add_entry:
  assumes "wf_set fs" "wf_field p" "\<not> wildcard p" "find_entry (f_type p) fs = None"
  shows "wf_set (fs @ [p])" "wf_type t \<Longrightarrow> fs_get (fs @ [p]) t = (if t = f_type p then p else fs_get fs t)"
proof -
  have n: "f_type p \<notin> f_type ` set fs" using find_entry_NoneD [OF assms(4)] by force
  then show wf: "wf_set (fs @ [p])" using assms by (auto simp: wf_set_def)
  assume t: "wf_type t"
  consider "t = f_type p" | h where "h \<in> set fs" "f_type h = t" | "t \<notin> f_type ` set fs" "t \<noteq> f_type p"
    by (cases "t \<in> f_type ` set fs") auto
  then show "fs_get (fs @ [p]) t = (if t = f_type p then p else fs_get fs t)"
  proof cases
    case 1
    then show ?thesis using fs_getI [OF wf, of p t] by simp
  next
    case 2
    then have "t \<noteq> f_type p" using n imageI [of h "set fs" f_type] by auto
    then show ?thesis using 2 fs_getI [OF wf, of h t] fs_getI [OF assms(1), of h t] by simp
  next
    case 3
    then show ?thesis using fs_get_absent [OF wf t] fs_get_absent [OF assms(1) t] by auto
  qed
qed

lemma fs_modify_ok:
  assumes fs: "wf_set fs" and p: "wf_field p" "\<not> wildcard p"
  shows "\<exists>fs'. fs_modify p fs = Inr fs' \<and> wf_set fs' \<and>
           (\<forall>t. wf_type t \<longrightarrow> fs_get fs' t = (if t = f_type p then overwrite (fs_get fs t) p else fs_get fs t))"
proof (cases "find_entry (f_type p) fs")
  case None
  have tp: "wf_type (f_type p)" using p by (simp add: wf_field_def)
  note a = add_entry [OF fs p None]
  have e: "find_entry (f_type p) (fs @ [p]) = Some p" using None unfolding find_entry_def by (induction fs) (auto split: if_splits)
  have "f_type x \<noteq> f_type p" if "x \<in> set fs" for x
    using find_entry_NoneD [OF None that] by auto
  then have "map (\<lambda>f. if f_type f = f_type p then p else f) (fs @ [p]) = fs @ [p]"
    by (auto intro!: map_idI)
  then have "fs_modify p fs = Inr (fs @ [p])"
    using None e p by (simp add: fs_modify_def field_rewrite_ok overwrite_self update_first_by_type [OF a(1) tp])
  moreover have "overwrite (fs_get fs (f_type p)) p = p"
    using None overwrite_wildcard [OF p(1)] by (simp add: fs_get_def)
  ultimately show ?thesis using a by simp
next
  case (Some f)
  have tp: "wf_type (f_type p)" using p by (simp add: wf_field_def)
  have f: "f_type f = f_type p" "wf_field f" "f \<in> set fs" using find_entry_type [OF fs tp Some] by auto
  let ?g = "overwrite f p"
  have "fs_modify p fs = Inr (map (\<lambda>h. if f_type h = f_type ?g then ?g else h) fs)"
    using Some f p by (simp add: fs_modify_def field_rewrite_ok update_first_by_type [OF fs tp])
  moreover have "fs_get fs (f_type p) = f" using Some by (simp add: fs_get_def)
  ultimately show ?thesis
    using replace_entry [OF fs wf_overwrite [OF f(2) p(1) f(1)] overwrite_not_wildcard [OF p(2)] f(3)] f(1)
    by auto
qed

lemma fs_erase_ok:
  assumes fs: "wf_set fs" and m: "wf_mask m"
  shows "\<exists>fs'. fs_erase m fs = Inr fs' \<and> wf_set fs' \<and>
           (\<forall>t. wf_type t \<longrightarrow> fs_get fs' t =
              (if t = m_type m then restrict (fs_get fs t) (take_bit (nbits t) (NOT (m_bits m))) else fs_get fs t))"
proof (cases "find_entry (m_type m) fs")
  case None
  then have "fs_get fs (m_type m) = wildcard_field (m_type m)" by (simp add: fs_get_def)
  moreover have "restrict (wildcard_field t) b = wildcard_field t" for t b
    by (simp add: restrict_def wildcard_field_def)
  ultimately show ?thesis using None fs by (simp add: fs_erase_def)
next
  case (Some f)
  let ?t = "m_type m"
  let ?g = "restrict f (take_bit (nbits ?t) (NOT (m_bits m)))"
  have t: "wf_type ?t" using m by (simp add: wf_mask_def)
  have f: "f_type f = ?t" "wf_field f" "f \<in> set fs" using find_entry_type [OF fs t Some] by auto
  have nm: "bits_ok ?t (take_bit (nbits ?t) (NOT (m_bits m)))" using m by (simp add: wf_mask_def bits_ok_not)
  then have g: "wf_field ?g" using f wf_restrict by simp
  have e: "fs_erase m fs = Inr (if wildcard ?g then filter (\<lambda>f. \<not> type_eq (f_type f) ?t) fs
      else map (\<lambda>h. if f_type h = f_type ?g then ?g else h) fs)"
    using Some f m nm t
    by (simp add: fs_erase_def mask_not_ok field_mask_ok wf_mask_def update_first_by_type [OF fs t])
  have get: "fs_get fs ?t = f" using Some by (simp add: fs_get_def)
  show ?thesis
  proof (cases "wildcard ?g")
    case False
    then show ?thesis using replace_entry [OF fs g False f(3)] e get f(1) by auto
  next
    case True
    let ?fs = "filter (\<lambda>f. f_type f \<noteq> ?t) fs"
    have "filter (\<lambda>f. \<not> type_eq (f_type f) ?t) fs = ?fs"
      using fs t type_eq_basic by (intro filter_cong) (auto simp: wf_set_def wf_field_def)
    moreover have wf: "wf_set ?fs" using fs by (auto simp: wf_set_def distinct_map_filter)
    moreover have "fs_get ?fs x = (if x = ?t then ?g else fs_get fs x)" if x: "wf_type x" for x
    proof (cases "x \<in> f_type ` set ?fs")
      case True
      then obtain h where "h \<in> set fs" "f_type h = x" "x \<noteq> ?t" by auto
      then show ?thesis using fs_getI [OF wf, of h x] fs_getI [OF fs, of h x] by simp
    next
      case False
      have "?g = wildcard_field ?t"
        using \<open>wildcard ?g\<close> f g t by (intro field_eqI) (auto simp: wf_wildcard wildcard_bits)
      then show ?thesis using False fs_get_absent [OF wf x] fs_get_absent [OF fs x] by force
    qed
    ultimately show ?thesis using e True get by auto
  qed
qed


text \<open>
  Overwriting fields of a set and reading them back. On well-formed sets no operator throws: after
  \<open>modify\<close> a read of the type knows exactly the bits it knew before and those of the patch, the bits
  of the patch have the patch's values and the others keep theirs; after \<open>erase\<close> the erased bits are
  unknown and the rest is unchanged.
\<close>

theorem field_set_modify_load:
  assumes "wf_set fs" "wf_field p" "\<not> wildcard p" "wf_mask m" "m_type m = f_type p"
  shows "\<exists>fs' r r'. fs_modify p fs = Inr fs' \<and> wf_set fs' \<and> fs_load m fs = Inr r \<and> fs_load m fs' = Inr r' \<and>
           (\<forall>i. bit (f_mask r') i = (bit (m_bits m) i \<and> (bit (f_mask r) i \<or> bit (f_mask p) i))) \<and>
           (\<forall>i. bit (f_mask r') i \<longrightarrow>
              bit (f_value r') i = (if bit (f_mask p) i then bit (f_value p) i else bit (f_value r) i))"
proof -
  obtain fs' where fs': "fs_modify p fs = Inr fs'" "wf_set fs'"
      "fs_get fs' (f_type p) = overwrite (fs_get fs (f_type p)) p"
    using fs_modify_ok [OF assms(1-3)] assms(2) by (auto simp: wf_field_def)
  have "wf_type (f_type p)" using assms(2) by (simp add: wf_field_def)
  then have w: "wf_field (fs_get fs (f_type p))" using fs_get_wf [OF assms(1)] by simp
  show ?thesis
    using fs' fs_load_ok [OF assms(1,4)] fs_load_ok [OF fs'(2) assms(4)] assms(5)
      wf_value_bit [OF assms(2)] wf_value_bit [OF w]
    by (intro exI [of _ fs'] exI) (auto simp del: not_None_eq)
qed

definition demo_field :: oxm_field where
  "demo_field = \<lparr>f_type = ipv4_src, f_value = 0x0a000000, f_mask = 0xff000000\<rparr>"

lemma demo_field_wf: "wf_field demo_field" "\<not> wildcard demo_field" "wf_mask (mask_of demo_field)"
  by code_simp+

theorem field_set_modify_load_witness:
  "\<exists>fs' r'. fs_modify demo_field [] = Inr fs' \<and> fs_load (mask_of demo_field) fs' = Inr r' \<and> bit (f_mask r') 24 \<and>
     \<not> bit (f_value r') 24 \<and> bit (f_value r') 25"
proof -
  have "bit (f_mask demo_field) 24" "bit (f_mask demo_field) 25" "\<not> bit (f_value demo_field) 24"
    "bit (f_value demo_field) 25"
    by code_simp+
  moreover have "m_type (mask_of demo_field) = f_type demo_field" by simp
  note field_set_modify_load [OF wf_set_Nil demo_field_wf this]
  ultimately show ?thesis by (metis field_simps(7))
qed

end
