(* ===== verification/Decisions.thy ===== *)
theory Decisions
  imports Prelude
begin

text \<open>
  Forwarding decisions: \<open>src/Decision.hh\<close> and \<open>src/Decision.cc\<close>. The variant is a datatype, the part
  every alternative inherits is the record \<open>Base\<close>; a duration is a 32-bit number of seconds. The set of
  ports is a list without regard to order (\<open>same_ports\<close> is its equality).
\<close>

type_synonym duration = u32

record Base =
  return_flag :: bool
  base_idle :: duration
  base_hard :: duration

datatype decision_kind =
    Undefined
  | DropPacket
  | Unicast u32
  | Multicast "u32 list"
  | Broadcast
  | Inspect u16

record Decision =
  kind :: decision_kind
  base :: Base

definition new_Base :: Base where
  "new_Base = \<lparr>return_flag = False, base_idle = - 1, base_hard = - 1\<rparr>"

definition new_Decision :: Decision where
  "new_Decision = \<lparr>kind = Undefined, base = new_Base\<rparr>"

definition decision_conflict :: fault where
  "decision_conflict = Thrown ''decision_conflict''"

definition return_now :: "Decision \<Rightarrow> Decision" where
  "return_now d = d\<lparr>base := (base d)\<lparr>return_flag := True\<rparr>\<rparr>"

definition idle_timeout :: "Decision \<Rightarrow> duration" where
  "idle_timeout d = base_idle (base d)"

definition hard_timeout :: "Decision \<Rightarrow> duration" where
  "hard_timeout d = base_hard (base d)"

definition set_idle_timeout :: "duration \<Rightarrow> Decision \<Rightarrow> Decision" where
  "set_idle_timeout secs d = d\<lparr>base := (base d)\<lparr>base_idle := min secs (idle_timeout d)\<rparr>\<rparr>"

definition set_hard_timeout :: "duration \<Rightarrow> Decision \<Rightarrow> Decision" where
  "set_hard_timeout secs d =
     d\<lparr>base := (base d)\<lparr>base_hard := min secs (hard_timeout d), base_idle := min secs (idle_timeout d)\<rparr>\<rparr>"

definition unicast :: "u32 \<Rightarrow> Decision \<Rightarrow> Decision res" where
  "unicast port d =
     (if kind d \<noteq> Undefined \<and> kind d \<noteq> Unicast port then Inl decision_conflict
      else Inr \<lparr>kind = Unicast port, base = base d\<rparr>)"

definition same_ports :: "u32 list \<Rightarrow> u32 list \<Rightarrow> bool" where
  "same_ports a b \<longleftrightarrow> set a = set b"

definition multicast :: "u32 list \<Rightarrow> Decision \<Rightarrow> Decision res" where
  "multicast ps d =
     (case kind d of
        Undefined \<Rightarrow> Inr \<lparr>kind = Multicast ps, base = base d\<rparr>
      | Multicast qs \<Rightarrow> if same_ports qs ps then Inr \<lparr>kind = Multicast ps, base = base d\<rparr> else Inl decision_conflict
      | _ \<Rightarrow> Inl decision_conflict)"

definition broadcast :: "Decision \<Rightarrow> Decision res" where
  "broadcast d =
     (if kind d \<noteq> Undefined \<and> kind d \<noteq> Broadcast then Inl decision_conflict
      else Inr \<lparr>kind = Broadcast, base = base d\<rparr>)"

definition inspect :: "u16 \<Rightarrow> Decision \<Rightarrow> Decision res" where
  "inspect bytes d =
     (case kind d of
        Undefined \<Rightarrow> Inr \<lparr>kind = Inspect bytes, base = base d\<rparr>
      | Inspect len \<Rightarrow> Inr \<lparr>kind = Inspect (max bytes len), base = base d\<rparr>
      | _ \<Rightarrow> Inl decision_conflict)"

definition drop_packet :: "Decision \<Rightarrow> Decision" where
  "drop_packet d = \<lparr>kind = DropPacket, base = base d\<rparr>"

definition clear :: "Decision \<Rightarrow> Decision" where
  "clear d = \<lparr>kind = Undefined, base = new_Base\<rparr>"

subsection \<open>Chains of decisions\<close>

datatype decision_op =
    Return
  | IdleTimeout duration
  | HardTimeout duration
  | ToPort u32
  | ToPorts "u32 list"
  | ToAll
  | ToController u16
  | ToNone
  | Clear

fun decide :: "decision_op \<Rightarrow> Decision \<Rightarrow> Decision res" where
  "decide Return d = Inr (return_now d)"
| "decide (IdleTimeout t) d = Inr (set_idle_timeout t d)"
| "decide (HardTimeout t) d = Inr (set_hard_timeout t d)"
| "decide (ToPort p) d = unicast p d"
| "decide (ToPorts ps) d = multicast ps d"
| "decide ToAll d = broadcast d"
| "decide (ToController n) d = inspect n d"
| "decide ToNone d = Inr (drop_packet d)"
| "decide Clear d = Inr (clear d)"

fun decide_all :: "decision_op list \<Rightarrow> Decision \<Rightarrow> Decision res" where
  "decide_all [] d = Inr d"
| "decide_all (x # xs) d = res_bind (decide x d) (decide_all xs)"

lemma decide_base:
  assumes "decide x d = Inr d'"
  shows "x = Clear \<and> d' = new_Decision \<or>
         idle_timeout d' \<le> idle_timeout d \<and> hard_timeout d' \<le> hard_timeout d"
  using assms
  by (cases x)
    (auto simp: return_now_def set_idle_timeout_def set_hard_timeout_def unicast_def multicast_def broadcast_def
      inspect_def drop_packet_def clear_def new_Decision_def idle_timeout_def hard_timeout_def
      split: if_splits decision_kind.splits)

lemma decide_ordered:
  assumes "decide x d = Inr d'" "idle_timeout d \<le> hard_timeout d"
  shows "idle_timeout d' \<le> hard_timeout d'"
  using assms
  by (cases x)
    (auto simp: return_now_def set_idle_timeout_def set_hard_timeout_def unicast_def multicast_def broadcast_def
      inspect_def drop_packet_def clear_def new_Base_def idle_timeout_def hard_timeout_def min_def
      split: if_splits decision_kind.splits)

lemma decide_ordered_all: "decide_all xs d0 = Inr d \<Longrightarrow> idle_timeout d0 \<le> hard_timeout d0 \<Longrightarrow> idle_timeout d \<le> hard_timeout d"
  by (induction xs arbitrary: d0) (auto dest: decide_ordered)

lemma decide_all_shrinks:
  assumes "decide_all xs d0 = Inr d" "Clear \<notin> set xs"
  shows "idle_timeout d \<le> idle_timeout d0 \<and> hard_timeout d \<le> hard_timeout d0"
  using assms
proof (induction xs arbitrary: d0)
  case (Cons x xs)
  then obtain d1 where "decide x d0 = Inr d1" "decide_all xs d1 = Inr d" by auto
  then show ?case using Cons decide_base [of x d0 d1] by fastforce
qed simp

lemma decide_all_bounds:
  assumes "decide_all xs d0 = Inr d" "Clear \<notin> set xs"
  shows "(\<forall>t. IdleTimeout t \<in> set xs \<or> HardTimeout t \<in> set xs \<longrightarrow> idle_timeout d \<le> t) \<and>
         (\<forall>t. HardTimeout t \<in> set xs \<longrightarrow> hard_timeout d \<le> t)"
  using assms
proof (induction xs arbitrary: d0)
  case (Cons x xs)
  then obtain d1 where d1: "decide x d0 = Inr d1" "decide_all xs d1 = Inr d" by auto
  have "x = IdleTimeout t \<or> x = HardTimeout t \<Longrightarrow> idle_timeout d1 \<le> t" "x = HardTimeout t \<Longrightarrow> hard_timeout d1 \<le> t" for t
    using d1(1) by (auto simp: set_idle_timeout_def set_hard_timeout_def idle_timeout_def hard_timeout_def)
  then show ?case
    using Cons.IH [OF d1(2)] Cons.prems(2) decide_all_shrinks [OF d1(2)]
    by (auto intro: order_trans)
qed simp

text \<open>
  Along any chain of decisions that starts from an undefined one, the idle timeout never
  exceeds the hard timeout, and without a \<open>clear\<close> both only shrink: every timeout asked for on the
  way is an upper bound of the final one.
\<close>

theorem decision_timeouts:
  assumes "decide_all xs new_Decision = Inr d"
  shows "idle_timeout d \<le> hard_timeout d \<and>
         (Clear \<notin> set xs \<longrightarrow> (\<forall>t. IdleTimeout t \<in> set xs \<or> HardTimeout t \<in> set xs \<longrightarrow> idle_timeout d \<le> t) \<and>
                             (\<forall>t. HardTimeout t \<in> set xs \<longrightarrow> hard_timeout d \<le> t))"
  using decide_ordered_all [OF assms] decide_all_bounds [OF assms]
  by (simp add: new_Decision_def new_Base_def idle_timeout_def hard_timeout_def)

theorem decision_timeouts_witness:
  "\<exists>d. decide_all [HardTimeout 60, ToPort 3, IdleTimeout 10] new_Decision = Inr d \<and> kind d = Unicast 3 \<and>
       idle_timeout d \<le> 10 \<and> hard_timeout d \<le> 60 \<and> idle_timeout d \<le> hard_timeout d"
proof -
  obtain d where d: "decide_all [HardTimeout 60, ToPort 3, IdleTimeout 10] new_Decision = Inr d" "kind d = Unicast 3"
    by (simp add: unicast_def set_hard_timeout_def set_idle_timeout_def new_Decision_def)
  show ?thesis using decision_timeouts [OF d(1)] d by auto
qed

text \<open>
  The alternatives of a decision exclude each other. A decision for one port set can be
  repeated but not changed: any other target is a conflict, except dropping, which replaces every decision,
  and clearing, which also forgets the timeouts.
\<close>

theorem decision_conflicts:
  assumes "kind d = Unicast p"
  shows "unicast q d = (if q = p then Inr d else Inl decision_conflict) \<and>
         multicast ps d = Inl decision_conflict \<and> broadcast d = Inl decision_conflict \<and>
         inspect n d = Inl decision_conflict \<and> drop_packet d = d\<lparr>kind := DropPacket\<rparr> \<and> clear d = new_Decision"
  using assms
  by (auto simp: unicast_def multicast_def broadcast_def inspect_def drop_packet_def clear_def new_Decision_def)

theorem decision_conflicts_witness:
  "broadcast (new_Decision\<lparr>kind := Unicast 3\<rparr>) = Inl decision_conflict"
  using decision_conflicts [of "new_Decision\<lparr>kind := Unicast 3\<rparr>" 3 3 "[]" 0] by simp

end
