(* ===== verification/Maple.thy ===== *)
theory Maple
  imports Oxm Decisions
begin

text \<open>
  The Maple runtime: \<open>src/maple/TraceTree.cc\<close>, \<open>src/maple/TraceablePacketImpl.cc\<close> and
  \<open>src/maple/Runtime.hh\<close>. A policy is run on a packet through a wrapper that records which bits
  of the packet the decision depends on; the records form a trace tree, which answers later packets and is
  compiled to prioritized flow rules.

  A packet (\<open>src/api/Packet.hh\<close>) is the value of each header field it has; reading a field it does not have
  throws. A policy is the tree of its calls of \<open>load\<close>, \<open>test\<close> and \<open>modify\<close>, each continued with what
  the call returned, down to its decision. Flows are numbered; a tree holds weak pointers, so whether a flow
  still exists is a parameter. The tracer's vector of node pointers is a path from the root. The order in which
  an \<open>unordered_map\<close> is visited is the order of its list. The trace log is left out.
\<close>

subsection \<open>Packets\<close>

type_synonym packet = "oxm_type \<Rightarrow> int option"

abbreviation out_of_range :: fault where
  "out_of_range \<equiv> Thrown ''out_of_range''"

definition pkt_load :: "oxm_mask \<Rightarrow> packet \<Rightarrow> oxm_field res" where
  "pkt_load m pkt =
     (case pkt (m_type m) of
        None \<Rightarrow> Inl out_of_range
      | Some v \<Rightarrow> value_mask \<lparr>v_type = m_type m, v_bits = v\<rparr> m)"

definition pkt_test :: "oxm_field \<Rightarrow> packet \<Rightarrow> bool res" where
  "pkt_test need pkt = res_bind (pkt_load (mask_of need) pkt) (\<lambda>r. field_match r need)"

definition pkt_modify :: "oxm_field \<Rightarrow> packet \<Rightarrow> packet res" where
  "pkt_modify p pkt =
     (case pkt (f_type p) of
        None \<Rightarrow> Inl out_of_range
      | Some v \<Rightarrow> res_bind (value_rewrite \<lparr>v_type = f_type p, v_bits = v\<rparr> p) (\<lambda>w.
          Inr (pkt(f_type p \<mapsto> v_bits w))))"

text \<open>A packet fits a set of fields when it passes the test of each; the first that fails ends the check.\<close>

fun fs_match :: "field_set \<Rightarrow> packet \<Rightarrow> bool res" where
  "fs_match [] pkt = Inr True"
| "fs_match (f # fs) pkt = res_bind (pkt_test f pkt) (\<lambda>b. if b then fs_match fs pkt else Inr False)"

subsection \<open>The trace tree\<close>

datatype node =
    Unexplored
  | FlowNode nat
  | TestNode oxm_field node node
  | LoadNode oxm_mask "(int \<times> node) list"

fun lookup :: "(nat \<Rightarrow> bool) \<Rightarrow> packet \<Rightarrow> node \<Rightarrow> (nat option) res"
  and lookup_case :: "(nat \<Rightarrow> bool) \<Rightarrow> packet \<Rightarrow> int \<Rightarrow> (int \<times> node) list \<Rightarrow> (nat option) res" where
  "lookup alive pkt Unexplored = Inr None"
| "lookup alive pkt (FlowNode f) = Inr (if alive f then Some f else None)"
| "lookup alive pkt (TestNode need positive negative) =
     res_bind (pkt_test need pkt) (\<lambda>b. if b then lookup alive pkt positive else lookup alive pkt negative)"
| "lookup alive pkt (LoadNode m cases) =
     res_bind (pkt_load m pkt) (\<lambda>r. lookup_case alive pkt (f_value r) cases)"
| "lookup_case alive pkt v [] = Inr None"
| "lookup_case alive pkt v ((w, n) # cases) =
     (if w = v then lookup alive pkt n else lookup_case alive pkt v cases)"

subsection \<open>The tracer\<close>

datatype branch = Positive | Negative | Case int

record tracer =
  root :: node
  path :: "branch list"

abbreviation inconsistent_trace :: fault where
  "inconsistent_trace \<equiv> Thrown ''inconsistent_trace''"

fun node_at :: "branch list \<Rightarrow> node \<Rightarrow> node option" where
  "node_at [] n = Some n"
| "node_at (Positive # bs) (TestNode f p n) = node_at bs p"
| "node_at (Negative # bs) (TestNode f p n) = node_at bs n"
| "node_at (Case v # bs) (LoadNode m cases) =
     (case map_of cases v of None \<Rightarrow> None | Some n \<Rightarrow> node_at bs n)"
| "node_at _ _ = None"

definition put_case :: "int \<Rightarrow> node \<Rightarrow> (int \<times> node) list \<Rightarrow> (int \<times> node) list" where
  "put_case v n cases =
     (case map_of cases v of
        None \<Rightarrow> cases @ [(v, n)]
      | Some _ \<Rightarrow> map (\<lambda>(w, o'). if w = v then (w, n) else (w, o')) cases)"

fun update_at :: "branch list \<Rightarrow> node \<Rightarrow> node \<Rightarrow> node" where
  "update_at [] x n = x"
| "update_at (Positive # bs) x (TestNode f p n) = TestNode f (update_at bs x p) n"
| "update_at (Negative # bs) x (TestNode f p n) = TestNode f p (update_at bs x n)"
| "update_at (Case v # bs) x (LoadNode m cases) =
     (case map_of cases v of
        None \<Rightarrow> LoadNode m cases
      | Some n \<Rightarrow> LoadNode m (put_case v (update_at bs x n) cases))"
| "update_at _ x n = n"

definition put_node :: "node \<Rightarrow> tracer \<Rightarrow> tracer" where
  "put_node x t = t\<lparr>root := update_at (path t) x (root t)\<rparr>"

definition node_push :: "branch \<Rightarrow> tracer \<Rightarrow> tracer" where
  "node_push b t = t\<lparr>path := path t @ [b]\<rparr>"

definition tracer_load :: "oxm_field \<Rightarrow> tracer \<Rightarrow> tracer res" where
  "tracer_load d t =
     (case node_at (path t) (root t) of
        Some Unexplored \<Rightarrow>
          Inr (node_push (Case (f_value d)) (put_node (LoadNode (mask_of d) [(f_value d, Unexplored)]) t))
      | Some (LoadNode m cases) \<Rightarrow>
          if \<not> mask_eq m (mask_of d) then Inl inconsistent_trace
          else Inr (node_push (Case (f_value d))
                 (if map_of cases (f_value d) = None
                  then put_node (LoadNode m (cases @ [(f_value d, Unexplored)])) t else t))
      | _ \<Rightarrow> Inl inconsistent_trace)"

definition tracer_test :: "oxm_field \<Rightarrow> bool \<Rightarrow> tracer \<Rightarrow> tracer res" where
  "tracer_test pred ret t =
     (case node_at (path t) (root t) of
        Some Unexplored \<Rightarrow>
          Inr (node_push (if ret then Positive else Negative) (put_node (TestNode pred Unexplored Unexplored) t))
      | Some (TestNode need p n) \<Rightarrow>
          if \<not> field_eq need pred then Inl inconsistent_trace
          else Inr (node_push (if ret then Positive else Negative) t)
      | _ \<Rightarrow> Inl inconsistent_trace)"

definition tracer_finish :: "nat \<Rightarrow> tracer \<Rightarrow> tracer res" where
  "tracer_finish f t =
     (case node_at (path t) (root t) of
        Some Unexplored \<Rightarrow> Inr (put_node (FlowNode f) t)
      | Some (FlowNode _) \<Rightarrow> Inr (put_node (FlowNode f) t)
      | _ \<Rightarrow> Inl inconsistent_trace)"

subsection \<open>The tracing packet\<close>

record tpacket =
  pkt :: packet
  cache :: field_set
  tr :: tracer

definition tp_load :: "oxm_mask \<Rightarrow> tpacket \<Rightarrow> (oxm_field \<times> tpacket) res" where
  "tp_load m s =
     res_bind (pkt_load m (pkt s)) (\<lambda>r.
     res_bind (fs_load m (cache s)) (\<lambda>explored.
     res_bind (mask_not (mask_of explored)) (\<lambda>nm.
     res_bind (field_mask r nm) (\<lambda>unexplored.
       if \<not> wildcard unexplored then
         res_bind (tracer_load unexplored (tr s)) (\<lambda>t.
         res_bind (fs_modify unexplored (cache s)) (\<lambda>c. Inr (r, s\<lparr>tr := t, cache := c\<rparr>)))
       else Inr (r, s)))))"

definition tp_test :: "oxm_field \<Rightarrow> tpacket \<Rightarrow> (bool \<times> tpacket) res" where
  "tp_test need s =
     res_bind (pkt_load (mask_of need) (pkt s)) (\<lambda>r.
     res_bind (fs_load (mask_of need) (cache s)) (\<lambda>explored.
     res_bind (mask_not (mask_of explored)) (\<lambda>nm.
     res_bind (field_mask r nm) (\<lambda>unexplored.
     res_bind (field_match explored need) (\<lambda>possible.
       if \<not> possible then Inr (False, s)
       else if wildcard unexplored then Inr (True, s)
       else
         res_bind (field_match unexplored need) (\<lambda>ret.
         res_bind (field_mask need (mask_of unexplored)) (\<lambda>pred.
         res_bind (tracer_test pred ret (tr s)) (\<lambda>t.
           if ret then res_bind (fs_modify unexplored (cache s)) (\<lambda>c. Inr (True, s\<lparr>tr := t, cache := c\<rparr>))
           else Inr (False, s\<lparr>tr := t\<rparr>)))))))))"

definition tp_modify :: "oxm_field \<Rightarrow> tpacket \<Rightarrow> tpacket res" where
  "tp_modify p s =
     res_bind (pkt_modify p (pkt s)) (\<lambda>q.
     res_bind (fs_modify p (cache s)) (\<lambda>c. Inr (s\<lparr>pkt := q, cache := c\<rparr>)))"

subsection \<open>Policies and the runtime\<close>

datatype policy =
    Decide Decision
  | Load oxm_mask "oxm_field \<Rightarrow> policy"
  | Test oxm_field "bool \<Rightarrow> policy"
  | Modify oxm_field policy

primrec run_traced :: "policy \<Rightarrow> tpacket \<Rightarrow> (Decision \<times> tpacket) res" where
  "run_traced (Decide d) s = Inr (d, s)"
| "run_traced (Load m k) s = res_bind (tp_load m s) (\<lambda>(r, s'). run_traced (k r) s')"
| "run_traced (Test f k) s = res_bind (tp_test f s) (\<lambda>(b, s'). run_traced (k b) s')"
| "run_traced (Modify f p) s = res_bind (tp_modify f s) (\<lambda>s'. run_traced p s')"

text \<open>The policy on the bare packet.\<close>

primrec run_plain :: "policy \<Rightarrow> packet \<Rightarrow> Decision res" where
  "run_plain (Decide d) q = Inr d"
| "run_plain (Load m k) q = res_bind (pkt_load m q) (\<lambda>r. run_plain (k r) q)"
| "run_plain (Test f k) q = res_bind (pkt_test f q) (\<lambda>b. run_plain (k b) q)"
| "run_plain (Modify f p) q = res_bind (pkt_modify f q) (\<lambda>q'. run_plain p q')"

record Runtime =
  trace_tree :: node
  flow_decision :: "nat \<Rightarrow> Decision option"

definition new_Runtime :: Runtime where
  "new_Runtime = \<lparr>trace_tree = Unexplored, flow_decision = (\<lambda>_. None)\<rparr>"

text \<open>\<open>disposable\<close> is the flow's own answer once it has its decision.\<close>

definition augment :: "policy \<Rightarrow> (Decision \<Rightarrow> bool) \<Rightarrow> packet \<Rightarrow> nat \<Rightarrow> Runtime \<Rightarrow> Runtime res" where
  "augment p disposable q f r =
     res_bind (run_traced p \<lparr>pkt = q, cache = [], tr = \<lparr>root = trace_tree r, path = []\<rparr>\<rparr>) (\<lambda>(d, s).
       let r' = r\<lparr>flow_decision := (flow_decision r)(f \<mapsto> d)\<rparr>
       in if disposable d then Inr (r'\<lparr>trace_tree := root (tr s)\<rparr>)
          else res_bind (tracer_finish f (tr s)) (\<lambda>t. Inr (r'\<lparr>trace_tree := root t\<rparr>)))"

definition runtime_lookup :: "(nat \<Rightarrow> bool) \<Rightarrow> nat \<Rightarrow> packet \<Rightarrow> Runtime \<Rightarrow> nat res" where
  "runtime_lookup alive miss q r =
     res_bind (lookup alive q (trace_tree r)) (\<lambda>f. Inr (case f of Some g \<Rightarrow> g | None \<Rightarrow> miss))"

definition invalidate :: "Runtime \<Rightarrow> Runtime" where
  "invalidate r = r\<lparr>trace_tree := Unexplored\<rparr>"

subsection \<open>The compiler\<close>

record rule =
  priority :: u16
  match :: field_set
  target :: nat

record compiler =
  c_match :: field_set
  c_priority :: u16
  c_rules :: "rule list"

definition install :: "nat \<Rightarrow> compiler \<Rightarrow> compiler" where
  "install f c = c\<lparr>c_rules := c_rules c @ [\<lparr>priority = c_priority c, match = c_match c, target = f\<rparr>],
                   c_priority := c_priority c + 1\<rparr>"

fun compile :: "(nat \<Rightarrow> bool) \<Rightarrow> nat \<Rightarrow> node \<Rightarrow> compiler \<Rightarrow> compiler res"
  and compile_cases :: "(nat \<Rightarrow> bool) \<Rightarrow> nat \<Rightarrow> oxm_mask \<Rightarrow> (int \<times> node) list \<Rightarrow> compiler \<Rightarrow> compiler res" where
  "compile alive barrier Unexplored c = Inr c"
| "compile alive barrier (TestNode need positive negative) c =
     res_bind (compile alive barrier negative c) (\<lambda>c1.
     res_bind (fs_modify need (c_match c1)) (\<lambda>m.
     res_bind (compile alive barrier positive (install barrier (c1\<lparr>c_match := m\<rparr>))) (\<lambda>c2.
     res_bind (fs_erase (mask_of need) (c_match c2)) (\<lambda>m'. Inr (c2\<lparr>c_match := m'\<rparr>)))))"
| "compile alive barrier (LoadNode m cases) c = compile_cases alive barrier m cases c"
| "compile alive barrier (FlowNode f) c = Inr (if alive f then install f c else c)"
| "compile_cases alive barrier m [] c = Inr c"
| "compile_cases alive barrier m ((v, n) # cases) c =
     res_bind (value_mask \<lparr>v_type = m_type m, v_bits = v\<rparr> m) (\<lambda>f.
     res_bind (fs_modify f (c_match c)) (\<lambda>fs.
     res_bind (compile alive barrier n (c\<lparr>c_match := fs\<rparr>)) (\<lambda>c1.
     res_bind (fs_erase m (c_match c1)) (\<lambda>fs'.
     compile_cases alive barrier m cases (c1\<lparr>c_match := fs'\<rparr>)))))"

text \<open>\<open>commit\<close>: the old rules are removed, then the tree is compiled.\<close>

definition commit :: "(nat \<Rightarrow> bool) \<Rightarrow> nat \<Rightarrow> Runtime \<Rightarrow> (rule list) res" where
  "commit alive barrier r =
     res_bind (compile alive barrier (trace_tree r) \<lparr>c_match = [], c_priority = 1, c_rules = []\<rparr>) (\<lambda>c.
     Inr (c_rules c))"

end
