(* ===== verification/Maple_Sound.thy ===== *)
theory Maple_Sound
  imports Maple
begin

text \<open>
  Correctness of the trace tree. The next call of a policy that its tracer sees depends only on the
  bits already explored (\<open>advance\<close>), so a tree whose nodes agree with those calls (\<open>tree_ok\<close>) is
  extended by a run without contradiction, and every flow found in it carries the decision the policy would make.
\<close>

unbundle bit_operations_syntax

subsection \<open>Well-formed packets and policies\<close>

definition wf_packet :: "packet \<Rightarrow> bool" where
  "wf_packet q \<longleftrightarrow> (\<forall>t v. q t = Some v \<longrightarrow> v AND all_ones t = v)"

primrec wf_policy :: "policy \<Rightarrow> bool" where
  "wf_policy (Decide d) = True"
| "wf_policy (Load m k) = (wf_mask m \<and>
     (\<forall>r. wf_field r \<and> f_type r = m_type m \<and> f_mask r = m_bits m \<longrightarrow> wf_policy (k r)))"
| "wf_policy (Test f k) = (wf_field f \<and> (\<forall>b. wf_policy (k b)))"
| "wf_policy (Modify f p) = (wf_field f \<and> \<not> wildcard f \<and> wf_policy p)"

text \<open>The field that a read with mask \<open>m\<close> takes from a header value.\<close>

definition pick :: "oxm_mask \<Rightarrow> int \<Rightarrow> oxm_field" where
  "pick m v = \<lparr>f_type = m_type m, f_value = v AND m_bits m, f_mask = m_bits m\<rparr>"

lemma pick_simps [simp]:
  "f_type (pick m v) = m_type m" "f_mask (pick m v) = m_bits m"
  "bit (f_value (pick m v)) i \<longleftrightarrow> bit v i \<and> bit (m_bits m) i"
  by (simp_all add: pick_def bit_and_iff)

lemma wf_pick: "wf_mask m \<Longrightarrow> wf_field (pick m v)"
  by (simp add: wf_field_def wf_mask_def pick_def and.assoc)

lemma value_mask_pick: "wf_mask m \<Longrightarrow> value_mask \<lparr>v_type = m_type m, v_bits = v\<rparr> m = Inr (pick m v)"
  by (simp add: value_mask_def binop_type_def mk_field_def mk_value_def mk_mask_ok wf_mask_def pick_def)

lemma pkt_load_ok: "wf_mask m \<Longrightarrow> pkt_load m q = (case q (m_type m) of None \<Rightarrow> Inl out_of_range | Some v \<Rightarrow> Inr (pick m v))"
  by (simp add: pkt_load_def value_mask_pick split: option.split)

lemma pkt_test_ok:
  "wf_field f \<Longrightarrow> pkt_test f q =
     (case q (f_type f) of None \<Rightarrow> Inl out_of_range | Some v \<Rightarrow> Inr (agrees (pick (mask_of f) v) f))"
  by (simp add: pkt_test_def pkt_load_ok wf_mask_of field_match_ok wf_pick split: option.split)

lemma pkt_modify_ok:
  "wf_field p \<Longrightarrow> pkt_modify p q =
     (case q (f_type p) of None \<Rightarrow> Inl out_of_range
      | Some v \<Rightarrow> Inr (q(f_type p \<mapsto> (v AND NOT (f_mask p)) OR f_value p)))"
  by (simp add: pkt_modify_def value_rewrite_def binop_type_def mk_value_def split: option.split)

subsection \<open>The next traced call\<close>

type_synonym scache = "oxm_type \<Rightarrow> oxm_field"

definition scache :: "field_set \<Rightarrow> scache" where
  "scache c = (\<lambda>t. if wf_type t then fs_get c t else wildcard_field t)"

definition learn :: "oxm_field \<Rightarrow> scache \<Rightarrow> scache" where
  "learn p sc = sc(f_type p := overwrite (sc (f_type p)) p)"

datatype head =
    HDone Decision
  | HLoad oxm_mask "int \<Rightarrow> policy \<times> scache"
  | HTest oxm_field "bool \<Rightarrow> policy \<times> scache"

primrec advance :: "policy \<Rightarrow> scache \<Rightarrow> head" where
  "advance (Decide d) sc = HDone d"
| "advance (Load m k) sc =
     (let e = restrict (sc (m_type m)) (m_bits m); um = m_bits m AND NOT (f_mask e)
      in if um = 0 then advance (k \<lparr>f_type = m_type m, f_value = f_value e, f_mask = m_bits m\<rparr>) sc
         else HLoad \<lparr>m_type = m_type m, m_bits = um\<rparr>
                (\<lambda>v. (k \<lparr>f_type = m_type m, f_value = f_value e OR v, f_mask = m_bits m\<rparr>,
                      learn \<lparr>f_type = m_type m, f_value = v, f_mask = um\<rparr> sc)))"
| "advance (Test n k) sc =
     (let e = restrict (sc (f_type n)) (f_mask n); um = f_mask n AND NOT (f_mask e)
      in if \<not> agrees e n then advance (k False) sc
         else if um = 0 then advance (k True) sc
         else HTest (restrict n um) (\<lambda>b. if b then (k True, learn (restrict n um) sc) else (k False, sc)))"
| "advance (Modify f p) sc = advance p (learn f sc)"

abbreviation adv :: "policy \<times> scache \<Rightarrow> head" where
  "adv x \<equiv> advance (fst x) (snd x)"

text \<open>What the current packet \<open>q\<close> has to do with the original \<open>q0\<close> and the cache.\<close>

definition view :: "packet \<Rightarrow> scache \<Rightarrow> packet \<Rightarrow> bool" where
  "view q0 sc q \<longleftrightarrow>
     (\<forall>t. wf_type t \<longrightarrow> wf_field (sc t) \<and> f_type (sc t) = t \<and> (q0 t = None \<longleftrightarrow> q t = None) \<and>
        (\<forall>v0 v. q0 t = Some v0 \<longrightarrow> q t = Some v \<longrightarrow>
           (\<forall>i. bit v i = (if bit (f_mask (sc t)) i then bit (f_value (sc t)) i else bit v0 i))))"

lemma viewD:
  assumes "view q0 sc q" "wf_type t"
  shows "wf_field (sc t)" "f_type (sc t) = t" "q0 t = None \<longleftrightarrow> q t = None"
    and "q0 t = Some v0 \<Longrightarrow> q t = Some v \<Longrightarrow> bit v i = (if bit (f_mask (sc t)) i then bit (f_value (sc t)) i else bit v0 i)"
  using assms unfolding view_def by blast+

lemma view_initial: "view q (\<lambda>t. wildcard_field t) q"
  by (simp add: view_def wf_wildcard)

text \<open>Learning bits that agree with the current packet.\<close>

lemma view_learn:
  assumes v: "view q0 sc q" and p: "wf_field p"
    and agree: "\<And>x i. q (f_type p) = Some x \<Longrightarrow> bit (f_mask p) i \<Longrightarrow> bit (f_value p) i = bit x i"
  shows "view q0 (learn p sc) q"
  unfolding view_def
proof (intro allI impI)
  fix t assume t: "wf_type t"
  show "wf_field (learn p sc t) \<and> f_type (learn p sc t) = t \<and> (q0 t = None \<longleftrightarrow> q t = None) \<and>
      (\<forall>v0 v. q0 t = Some v0 \<longrightarrow> q t = Some v \<longrightarrow>
         (\<forall>i. bit v i = (if bit (f_mask (learn p sc t)) i then bit (f_value (learn p sc t)) i else bit v0 i)))"
  proof (cases "t = f_type p")
    case True
    note d = viewD [OF v t]
    have "wf_field (learn p sc t)" "f_type (learn p sc t) = t"
      using d p True by (auto simp: learn_def intro!: wf_overwrite)
    moreover have "bit x i = (if bit (f_mask (learn p sc t)) i then bit (f_value (learn p sc t)) i else bit x0 i)"
      if "q0 t = Some x0" "q t = Some x" for x0 x i
      using d(4) [OF that] agree [of x i] that True wf_value_bit [OF p] wf_value_bit [OF d(1)]
      by (auto simp: learn_def)
    ultimately show ?thesis using d(3) by blast
  next
    case False
    then show ?thesis using viewD [OF v t] by (simp add: learn_def)
  qed
qed

text \<open>Writing to the packet and to the cache.\<close>

lemma view_modify:
  assumes v: "view q0 sc q" and p: "wf_field p" and q: "q (f_type p) = Some x"
  shows "view q0 (learn p sc) (q(f_type p \<mapsto> (x AND NOT (f_mask p)) OR f_value p))" (is "view q0 _ ?q")
  unfolding view_def
proof (intro allI impI)
  fix t assume t: "wf_type t"
  show "wf_field (learn p sc t) \<and> f_type (learn p sc t) = t \<and> (q0 t = None \<longleftrightarrow> ?q t = None) \<and>
      (\<forall>v0 v. q0 t = Some v0 \<longrightarrow> ?q t = Some v \<longrightarrow>
         (\<forall>i. bit v i = (if bit (f_mask (learn p sc t)) i then bit (f_value (learn p sc t)) i else bit v0 i)))"
  proof (cases "t = f_type p")
    case True
    note d = viewD [OF v t]
    have "wf_field (learn p sc t)" "f_type (learn p sc t) = t"
      using d p True by (auto simp: learn_def intro!: wf_overwrite)
    moreover have "q0 t \<noteq> None" using d(3) q True by simp
    moreover have "bit y i = (if bit (f_mask (learn p sc t)) i then bit (f_value (learn p sc t)) i else bit x0 i)"
      if "q0 t = Some x0" "?q t = Some y" for x0 y i
      using d(4) [OF that(1), of x i] that q True wf_value_bit [OF p] wf_value_bit [OF d(1)]
      by (auto simp: learn_def bit_simps)
    ultimately show ?thesis using True by simp
  next
    case False
    then show ?thesis using viewD [OF v t] by (simp add: learn_def)
  qed
qed


subsection \<open>Reads through the cache\<close>

definition unexplored_bits :: "scache \<Rightarrow> oxm_mask \<Rightarrow> int" where
  "unexplored_bits sc m = m_bits m AND NOT (f_mask (restrict (sc (m_type m)) (m_bits m)))"

lemma bit_unexplored [simp]:
  "bit (unexplored_bits sc m) i \<longleftrightarrow> bit (m_bits m) i \<and> \<not> bit (f_mask (sc (m_type m))) i"
  by (auto simp: unexplored_bits_def bit_simps)

lemma unexplored_ok:
  assumes "wf_mask m" "wf_field (sc (m_type m))" "f_type (sc (m_type m)) = m_type m"
  shows "bits_ok (m_type m) (unexplored_bits sc m)"
proof -
  let ?e = "f_mask (restrict (sc (m_type m)) (m_bits m))"
  have "bits_ok (m_type m) ?e" using assms wf_restrict [OF assms(2), of "m_bits m"] by (simp add: wf_field_def wf_mask_def)
  then have "bits_ok (m_type m) (m_bits m AND take_bit (nbits (m_type m)) (NOT ?e))"
    using assms(1) by (simp add: bits_ok_and bits_ok_not wf_mask_def)
  moreover have "m_bits m AND all_ones (m_type m) = m_bits m" using assms(1) by (simp add: wf_mask_def bits_ok_def)
  ultimately show ?thesis by (simp add: unexplored_bits_def and_not_take)
qed

lemma read_split:
  assumes v: "view q0 sc q" and m: "wf_mask m" and q: "q0 (m_type m) = Some x0" "q (m_type m) = Some x"
  shows "pick m x = \<lparr>f_type = m_type m,
           f_value = f_value (restrict (sc (m_type m)) (m_bits m)) OR (x0 AND unexplored_bits sc m), f_mask = m_bits m\<rparr>"
    and "restrict (pick m x) (take_bit (nbits (m_type m)) (NOT (f_mask (restrict (sc (m_type m)) (m_bits m))))) =
         pick \<lparr>m_type = m_type m, m_bits = unexplored_bits sc m\<rparr> x0"
proof -
  have t: "wf_type (m_type m)" using m by (simp add: wf_mask_def)
  note d = viewD [OF v t]
  note b = d(4) [OF q]
  have r: "bit (m_bits m) i \<Longrightarrow> i < nbits (m_type m)" for i
    using m unfolding wf_mask_def bits_ok_def all_ones_def by (metis bit_and_iff bit_mask_iff)
  have "bit (f_value (pick m x)) i =
      bit (f_value (restrict (sc (m_type m)) (m_bits m)) OR (x0 AND unexplored_bits sc m)) i" for i
    using b [of i] wf_value_bit [OF d(1), of i] by (auto simp: bit_or_iff bit_and_iff)
  then show "pick m x = \<lparr>f_type = m_type m,
       f_value = f_value (restrict (sc (m_type m)) (m_bits m)) OR (x0 AND unexplored_bits sc m), f_mask = m_bits m\<rparr>"
    unfolding pick_def by (auto intro!: bit_eqI simp: pick_def)
  have "f_mask (restrict (pick m x) (take_bit (nbits (m_type m)) (NOT (f_mask (restrict (sc (m_type m)) (m_bits m)))))) =
      unexplored_bits sc m"
    using r by (intro bit_eqI) (auto simp: bit_simps)
  moreover have "f_value (restrict (pick m x) (take_bit (nbits (m_type m)) (NOT (f_mask (restrict (sc (m_type m)) (m_bits m)))))) =
      x0 AND unexplored_bits sc m"
    using r b by (intro bit_eqI) (auto simp: bit_simps)
  ultimately show "restrict (pick m x) (take_bit (nbits (m_type m)) (NOT (f_mask (restrict (sc (m_type m)) (m_bits m))))) =
         pick \<lparr>m_type = m_type m, m_bits = unexplored_bits sc m\<rparr> x0"
    by (simp add: pick_def restrict_def)
qed

text \<open>A test is decided by its explored part, or by the rest of the original packet.\<close>

lemma agrees_split:
  assumes v: "view q0 sc q" and n: "wf_field n" and q: "q0 (f_type n) = Some x0" "q (f_type n) = Some x"
  shows "agrees (pick (mask_of n) x) n \<longleftrightarrow>
         agrees (restrict (sc (f_type n)) (f_mask n)) n \<and>
         agrees (pick (mask_of (restrict n (unexplored_bits sc (mask_of n)))) x0) (restrict n (unexplored_bits sc (mask_of n)))"
proof -
  have t: "wf_type (f_type n)" using n by (simp add: wf_field_def)
  note d = viewD [OF v t]
  note b = d(4) [OF q]
  show ?thesis
    unfolding agrees_bits using b wf_value_bit [OF d(1)] wf_value_bit [OF n] by (simp add: bit_and_iff) blast
qed


lemma wf_pick_unexplored:
  assumes "view q0 sc q" "wf_mask m"
  shows "wf_mask \<lparr>m_type = m_type m, m_bits = unexplored_bits sc m\<rparr>"
proof -
  have t: "wf_type (m_type m)" using assms(2) by (simp add: wf_mask_def)
  then show ?thesis using unexplored_ok [OF assms(2)] viewD [OF assms(1) t] by (simp add: wf_mask_def)
qed

lemma restrict_unexplored_wf:
  assumes "view q0 sc q" "wf_field n"
  shows "wf_field (restrict n (unexplored_bits sc (mask_of n)))"
  using wf_pick_unexplored [OF assms(1) wf_mask_of [OF assms(2)]] assms(2)
  by (intro wf_restrict) (simp_all add: wf_mask_def)

lemma restrict_unexplored_mask: "f_mask (restrict n (unexplored_bits sc (mask_of n))) = unexplored_bits sc (mask_of n)"
  by (rule bit_eqI) auto

definition head_ok :: "packet \<Rightarrow> Decision \<Rightarrow> head \<Rightarrow> bool" where
  "head_ok q0 d h =
     (case h of
        HDone d' \<Rightarrow> d' = d
      | HLoad m k \<Rightarrow> wf_mask m \<and> (\<exists>r q. pkt_load m q0 = Inr r \<and> view q0 (snd (k (f_value r))) q \<and>
          wf_policy (fst (k (f_value r))) \<and> run_plain (fst (k (f_value r))) q = Inr d)
      | HTest n k \<Rightarrow> wf_field n \<and> (\<exists>b q. pkt_test n q0 = Inr b \<and> view q0 (snd (k b)) q \<and>
          wf_policy (fst (k b)) \<and> run_plain (fst (k b)) q = Inr d))"

lemma view_learn_unexplored:
  assumes v: "view q0 sc q" and m: "wf_mask m" and q0: "q0 (m_type m) = Some x0"
  shows "view q0 (learn (pick \<lparr>m_type = m_type m, m_bits = unexplored_bits sc m\<rparr> x0) sc) q"
proof (rule view_learn [OF v wf_pick [OF wf_pick_unexplored [OF v m]]])
  fix x i
  have t: "wf_type (m_type m)" using m by (simp add: wf_mask_def)
  assume "q (f_type (pick \<lparr>m_type = m_type m, m_bits = unexplored_bits sc m\<rparr> x0)) = Some x"
    and "bit (f_mask (pick \<lparr>m_type = m_type m, m_bits = unexplored_bits sc m\<rparr> x0)) i"
  then show "bit (f_value (pick \<lparr>m_type = m_type m, m_bits = unexplored_bits sc m\<rparr> x0)) i = bit x i"
    using viewD(4) [OF v t q0, of x i] by simp
qed

lemma pick_agrees:
  assumes "wf_field p" "agrees (pick (mask_of p) x) p"
  shows "pick (mask_of p) x = p"
  using assms wf_mask_of [OF assms(1)] by (intro field_eqI) (auto simp: wf_pick agrees_bits)

lemma advance_Load:
  "advance (Load m k) sc =
     (if unexplored_bits sc m = 0
      then advance (k \<lparr>f_type = m_type m, f_value = f_value (restrict (sc (m_type m)) (m_bits m)), f_mask = m_bits m\<rparr>) sc
      else HLoad \<lparr>m_type = m_type m, m_bits = unexplored_bits sc m\<rparr>
        (\<lambda>v. (k \<lparr>f_type = m_type m, f_value = f_value (restrict (sc (m_type m)) (m_bits m)) OR v, f_mask = m_bits m\<rparr>,
              learn \<lparr>f_type = m_type m, f_value = v, f_mask = unexplored_bits sc m\<rparr> sc)))"
  unfolding unexplored_bits_def by (simp add: Let_def)

lemma advance_Test:
  "advance (Test n k) sc =
     (let u = restrict n (unexplored_bits sc (mask_of n))
      in if \<not> agrees (restrict (sc (f_type n)) (f_mask n)) n then advance (k False) sc
         else if unexplored_bits sc (mask_of n) = 0 then advance (k True) sc
         else HTest u (\<lambda>b. if b then (k True, learn u sc) else (k False, sc)))"
  unfolding unexplored_bits_def by (simp add: Let_def cong: if_cong)

declare advance.simps(2,3) [simp del]

lemma advance_plain:
  assumes "view q0 sc q" "wf_policy p" "run_plain p q = Inr d"
  shows "head_ok q0 d (advance p sc)"
  using assms
proof (induction p arbitrary: sc q)
  case (Decide d')
  then show ?case by (simp add: head_ok_def)
next
  case (Load m k)
  have m: "wf_mask m" using Load.prems(2) by simp
  then have t: "wf_type (m_type m)" by (simp add: wf_mask_def)
  obtain x where x: "q (m_type m) = Some x" and r: "run_plain (k (pick m x)) q = Inr d"
    using Load.prems(3) by (auto simp: pkt_load_ok [OF m] split: option.splits)
  obtain x0 where x0: "q0 (m_type m) = Some x0" using viewD(3) [OF Load.prems(1) t] x by auto
  have w: "wf_policy (k (pick m x))" using Load.prems(2) wf_pick [OF m] by simp
  note sp = read_split [OF Load.prems(1) m x0 x]
  show ?case
  proof (cases "unexplored_bits sc m = 0")
    case True
    then have "advance (Load m k) sc = advance (k (pick m x)) sc"
      using sp(1) by (simp add: advance_Load)
    then show ?thesis using Load.IH [OF _ Load.prems(1) w r] by simp
  next
    case False
    let ?u = "pick \<lparr>m_type = m_type m, m_bits = unexplored_bits sc m\<rparr> x0"
    have "view q0 (learn ?u sc) q" by (rule view_learn_unexplored [OF Load.prems(1) m x0])
    then show ?thesis
      using False sp(1) r w x0 wf_pick_unexplored [OF Load.prems(1) m]
      by (auto simp: head_ok_def advance_Load pkt_load_ok pick_def)
  qed
next
  case (Test n k)
  have n: "wf_field n" using Test.prems(2) by simp
  then have t: "wf_type (f_type n)" by (simp add: wf_field_def)
  obtain x where x: "q (f_type n) = Some x" and r: "run_plain (k (agrees (pick (mask_of n) x) n)) q = Inr d"
    using Test.prems(3) by (auto simp: pkt_test_ok [OF n] split: option.splits)
  obtain x0 where x0: "q0 (f_type n) = Some x0" using viewD(3) [OF Test.prems(1) t] x by auto
  let ?u = "restrict n (unexplored_bits sc (mask_of n))"
  note sp = agrees_split [OF Test.prems(1) n x0 x]
  have wu: "wf_field ?u" by (rule restrict_unexplored_wf [OF Test.prems(1) n])
  have test0: "pkt_test ?u q0 = Inr (agrees (pick (mask_of ?u) x0) ?u)" using x0 by (simp add: pkt_test_ok [OF wu])
  note adv = advance_Test [of n k sc, unfolded Let_def]
  show ?case
  proof (cases "agrees (restrict (sc (f_type n)) (f_mask n)) n")
    case False
    then have "run_plain (k False) q = Inr d" using r sp by simp
    then show ?thesis using Test.IH [OF _ Test.prems(1)] Test.prems(2) False adv by auto
  next
    case e: True
    show ?thesis
    proof (cases "unexplored_bits sc (mask_of n) = 0")
      case True
      then have "agrees (pick (mask_of ?u) x0) ?u" by (simp add: agrees_bits)
      then have "run_plain (k True) q = Inr d" using r sp e by simp
      then show ?thesis using Test.IH [OF _ Test.prems(1)] Test.prems(2) True e adv by auto
    next
      case False
      have "view q0 (learn ?u sc) q" if "agrees (pick (mask_of ?u) x0) ?u"
        using view_learn_unexplored [OF Test.prems(1) wf_mask_of [OF n], of x0] x0 pick_agrees [OF wu that]
        by (simp add: mask_of_def restrict_unexplored_mask [unfolded mask_of_def])
      then show ?thesis
        using False e adv r sp wu test0 Test.prems(1,2) by (auto simp: head_ok_def)
    qed
  qed
next
  case (Modify f p)
  have f: "wf_field f" using Modify.prems(2) by simp
  obtain x where x: "q (f_type f) = Some x"
    "run_plain p (q(f_type f \<mapsto> (x AND NOT (f_mask f)) OR f_value f)) = Inr d"
    using Modify.prems(3) by (auto simp: pkt_modify_ok [OF f] split: option.splits)
  show ?case
    using Modify.IH [OF view_modify [OF Modify.prems(1) f x(1)] _ x(2)] Modify.prems(2) by simp
qed


subsection \<open>Trees that agree with a policy\<close>

fun tree_ok :: "(nat \<Rightarrow> Decision option) \<Rightarrow> node \<Rightarrow> head \<Rightarrow> bool"
  and cases_ok :: "(nat \<Rightarrow> Decision option) \<Rightarrow> (int \<times> node) list \<Rightarrow> (int \<Rightarrow> policy \<times> scache) \<Rightarrow> bool" where
  "tree_ok D Unexplored h = True"
| "tree_ok D (FlowNode f) h = (\<exists>d. h = HDone d \<and> D f = Some d)"
| "tree_ok D (TestNode n P N) h = (\<exists>k. h = HTest n k \<and> tree_ok D P (adv (k True)) \<and> tree_ok D N (adv (k False)))"
| "tree_ok D (LoadNode m cases) h = 
     (\<exists>k. h = HLoad m k \<and> distinct (map fst cases) \<and> (\<forall>v \<in> fst ` set cases. v AND m_bits m = v) \<and> cases_ok D cases k)"
| "cases_ok D [] k = True"
| "cases_ok D ((v, n) # cases) k = (tree_ok D n (adv (k v)) \<and> cases_ok D cases k)"

lemma cases_ok_iff: "cases_ok D cases k \<longleftrightarrow> (\<forall>(v, n) \<in> set cases. tree_ok D n (adv (k v)))"
  by (induction cases) auto

lemma tree_ok_mono:
  "tree_ok D T h \<Longrightarrow> D \<subseteq>\<^sub>m D' \<Longrightarrow> tree_ok D' T h"
  "cases_ok D cases k \<Longrightarrow> D \<subseteq>\<^sub>m D' \<Longrightarrow> cases_ok D' cases k"
proof (induction D T h and D cases k rule: tree_ok_cases_ok.induct)
  case (2 D f h)
  then show ?case by (auto simp: map_le_def dom_def)
qed auto

text \<open>Every flow found in such a tree carries the decision of the policy.\<close>

lemma lookup_sound:
  "tree_ok D T h \<Longrightarrow> head_ok q0 d h \<Longrightarrow>
     \<exists>r. lookup alive q0 T = Inr r \<and> (\<forall>f. r = Some f \<longrightarrow> alive f \<and> D f = Some d)"
  "cases_ok D cases k \<Longrightarrow> head_ok q0 d (adv (k v)) \<Longrightarrow>
     \<exists>r. lookup_case alive q0 v cases = Inr r \<and> (\<forall>f. r = Some f \<longrightarrow> alive f \<and> D f = Some d)"
proof (induction D T h and D cases k arbitrary: and v rule: tree_ok_cases_ok.induct)
  case (3 D n P N h)
  then obtain k where k: "h = HTest n k" "tree_ok D P (adv (k True))" "tree_ok D N (adv (k False))" by auto
  obtain b q where b: "pkt_test n q0 = Inr b" "head_ok q0 d (adv (k b))"
    using 3(4) k(1) advance_plain unfolding head_ok_def by (fastforce simp: head_ok_def)
  then show ?case using 3(1,2) k by (cases b) auto
next
  case (4 D m cases h)
  then obtain k where k: "h = HLoad m k" "cases_ok D cases k" by auto
  obtain r q where b: "pkt_load m q0 = Inr r" "head_ok q0 d (adv (k (f_value r)))"
    using 4(3) k(1) advance_plain by (fastforce simp: head_ok_def)
  then show ?case using 4(1) k by auto
next
  case (2 D f h)
  then show ?case by (auto simp: head_ok_def)
qed auto

subsection \<open>Paths\<close>

fun residual :: "branch list \<Rightarrow> head \<Rightarrow> head option" where
  "residual [] h = Some h"
| "residual (Case v # bs) (HLoad m k) = residual bs (adv (k v))"
| "residual (Positive # bs) (HTest n k) = residual bs (adv (k True))"
| "residual (Negative # bs) (HTest n k) = residual bs (adv (k False))"
| "residual _ _ = None"

fun path_of :: "packet \<Rightarrow> branch list \<Rightarrow> head \<Rightarrow> bool" where
  "path_of q0 [] h = True"
| "path_of q0 (Case v # bs) (HLoad m k) = (map_sum id f_value (pkt_load m q0) = Inr v \<and> path_of q0 bs (adv (k v)))"
| "path_of q0 (Positive # bs) (HTest n k) = (pkt_test n q0 = Inr True \<and> path_of q0 bs (adv (k True)))"
| "path_of q0 (Negative # bs) (HTest n k) = (pkt_test n q0 = Inr False \<and> path_of q0 bs (adv (k False)))"
| "path_of q0 _ _ = False"

lemma residual_append: "residual (bs @ cs) h = Option.bind (residual bs h) (residual cs)"
  by (induction bs h rule: residual.induct) auto

lemma path_of_append:
  "residual bs h = Some h' \<Longrightarrow> path_of q0 (bs @ cs) h \<longleftrightarrow> path_of q0 bs h \<and> path_of q0 cs h'"
  by (induction bs h rule: residual.induct) auto

lemma map_of_cases_ok:
  assumes "cases_ok D cases k" "map_of cases v = Some n"
  shows "tree_ok D n (adv (k v))"
  using assms map_of_SomeD by (fastforce simp: cases_ok_iff)

lemma put_case_fst: "map_of cases v = Some x \<Longrightarrow> map fst (put_case v n cases) = map fst cases"
  by (auto simp: put_case_def)

lemma put_case_keys: "map_of cases v = Some x \<Longrightarrow> fst ` set (put_case v n cases) = fst ` set cases"
  using put_case_fst [of cases v x n] by (metis list.set_map)

lemma put_case_ok: "cases_ok D cases k \<Longrightarrow> tree_ok D n (adv (k v)) \<Longrightarrow> cases_ok D (put_case v n cases) k"
  by (auto simp: put_case_def cases_ok_iff split: option.splits if_splits)

lemma map_of_put_case: "map_of (put_case v n cases) v = Some n"
proof (cases "map_of cases v")
  case None
  then show ?thesis by (simp add: put_case_def map_add_def)
next
  case (Some x)
  then show ?thesis unfolding put_case_def by simp (induction cases, auto split: if_splits)
qed

lemma tree_ok_node_at:
  "tree_ok D T h0 \<Longrightarrow> residual bs h0 = Some h \<Longrightarrow> node_at bs T = Some n \<Longrightarrow> tree_ok D n h"
  by (induction bs T arbitrary: h0 rule: node_at.induct) (auto split: option.splits dest: map_of_cases_ok)

lemma tree_ok_update:
  "tree_ok D T h0 \<Longrightarrow> residual bs h0 = Some h \<Longrightarrow> tree_ok D x h \<Longrightarrow> tree_ok D (update_at bs x T) h0"
proof (induction bs x T arbitrary: h0 rule: update_at.induct)
  case (4 v bs x m cases)
  then obtain k where k: "h0 = HLoad m k" "distinct (map fst cases)" "cases_ok D cases k"
    "\<forall>v \<in> fst ` set cases. v AND m_bits m = v" by auto
  show ?case
  proof (cases "map_of cases v")
    case (Some n)
    have "tree_ok D (update_at bs x n) (adv (k v))"
      using "4.IH" [OF Some map_of_cases_ok [OF k(3) Some]] "4.prems"(2,3) k(1) by simp
    then show ?thesis using Some k put_case_fst [OF Some] put_case_ok put_case_keys [OF Some] by simp
  qed (use "4.prems" in auto)
qed auto

lemma node_at_update:
  "node_at bs T = Some n \<Longrightarrow> node_at (bs @ cs) (update_at bs x T) = node_at cs x"
  by (induction bs T rule: node_at.induct) (auto split: option.splits simp: map_of_put_case)

lemmas node_at_update_self = node_at_update [where cs = "[]", simplified]

lemma node_at_append: "node_at (bs @ cs) T = Option.bind (node_at bs T) (node_at cs)"
  by (induction bs T rule: node_at.induct) (auto split: option.splits)

text \<open>The packet's own path is the one \<open>lookup\<close> takes.\<close>

lemma lookup_case_map_of:
  "lookup_case alive q v cases = (case map_of cases v of None \<Rightarrow> Inr None | Some n \<Rightarrow> lookup alive q n)"
  by (induction cases) auto

lemma lookup_path:
  "path_of q0 bs h \<Longrightarrow> tree_ok D T h \<Longrightarrow> node_at bs T = Some n \<Longrightarrow> lookup alive q0 T = lookup alive q0 n"
proof (induction bs T arbitrary: h rule: node_at.induct)
  case (4 v bs m cases)
  from "4.prems" obtain k x r where k: "h = HLoad m k" "cases_ok D cases k" "map_of cases v = Some x"
    "pkt_load m q0 = Inr r" "f_value r = v" "path_of q0 bs (adv (k v))" "node_at bs x = Some n"
    by (cases "pkt_load m q0") (auto split: option.splits)
  then show ?case using "4.IH" [OF k(3,6) map_of_cases_ok [OF k(2,3)] k(7)] by (simp add: lookup_case_map_of)
qed auto


subsection \<open>A traced run extends the tree\<close>

lemma tracer_load_ok:
  assumes "tree_ok D (root t) h0" "residual (path t) h0 = Some (HLoad (mask_of r) k)"
    "node_at (path t) (root t) \<noteq> None" and r: "f_value r AND f_mask r = f_value r"
  shows "\<exists>t'. tracer_load r t = Inr t' \<and> tree_ok D (root t') h0 \<and> path t' = path t @ [Case (f_value r)] \<and>
           node_at (path t') (root t') \<noteq> None"
proof -
  obtain n where n: "node_at (path t) (root t) = Some n" using assms(3) by auto
  have "tree_ok D n (HLoad (mask_of r) k)" by (rule tree_ok_node_at [OF assms(1,2) n])
  then consider "n = Unexplored" | cases where "n = LoadNode (mask_of r) cases" "distinct (map fst cases)" "cases_ok D cases k"
    "\<forall>v \<in> fst ` set cases. v AND f_mask r = v"
    by (cases n) auto
  then show ?thesis
  proof cases
    case 1
    then show ?thesis using n r tree_ok_update [OF assms(1,2), of "LoadNode (mask_of r) [(f_value r, Unexplored)]"]
      by (auto simp: tracer_load_def node_push_def put_node_def node_at_update)
  next
    case 2
    have "tree_ok D (update_at (path t) (LoadNode (mask_of r) (cases @ [(f_value r, Unexplored)])) (root t)) h0"
      if "map_of cases (f_value r) = None"
      using that 2 r by (intro tree_ok_update [OF assms(1,2)]) (auto simp: cases_ok_iff map_of_eq_None_iff)
    then show ?thesis using 2 n assms(1)
      by (auto simp: tracer_load_def node_push_def put_node_def node_at_update_self node_at_append mask_eq_def map_add_def)
  qed
qed

lemma tracer_test_ok:
  assumes "tree_ok D (root t) h0" "residual (path t) h0 = Some (HTest n k)" "node_at (path t) (root t) \<noteq> None"
  shows "\<exists>t'. tracer_test n b t = Inr t' \<and> tree_ok D (root t') h0 \<and>
           path t' = path t @ [if b then Positive else Negative] \<and> node_at (path t') (root t') \<noteq> None"
proof -
  obtain x where x: "node_at (path t) (root t) = Some x" using assms(3) by auto
  have "tree_ok D x (HTest n k)" by (rule tree_ok_node_at [OF assms(1,2) x])
  then consider "x = Unexplored" | P N where "x = TestNode n P N" by (cases x) auto
  then show ?thesis
  proof cases
    case 1
    then show ?thesis using x tree_ok_update [OF assms(1,2), of "TestNode n Unexplored Unexplored"]
      by (auto simp: tracer_test_def node_push_def put_node_def node_at_update)
  next
    case 2
    then show ?thesis using x assms(1)
      by (auto simp: tracer_test_def node_push_def node_at_append field_eq_def)
  qed
qed

lemma tracer_finish_ok:
  assumes "tree_ok D (root t) h0" "residual (path t) h0 = Some (HDone d)" "node_at (path t) (root t) \<noteq> None"
    "D f = Some d" "path_of q0 (path t) h0"
  shows "\<exists>t'. tracer_finish f t = Inr t' \<and> tree_ok D (root t') h0 \<and>
           lookup alive q0 (root t') = Inr (if alive f then Some f else None)"
proof -
  obtain x where x: "node_at (path t) (root t) = Some x" using assms(3) by auto
  have "tree_ok D x (HDone d)" by (rule tree_ok_node_at [OF assms(1,2) x])
  then consider "x = Unexplored" | g where "x = FlowNode g" by (cases x) auto
  then have "tracer_finish f t = Inr (put_node (FlowNode f) t)" using x by cases (auto simp: tracer_finish_def)
  moreover have u: "tree_ok D (update_at (path t) (FlowNode f) (root t)) h0"
    using tree_ok_update [OF assms(1,2), of "FlowNode f"] assms(4) by simp
  moreover have "node_at (path t) (update_at (path t) (FlowNode f) (root t)) = Some (FlowNode f)"
    by (rule node_at_update_self [OF x])
  note lookup_path [OF assms(5) u this, of alive]
  ultimately show ?thesis by (simp add: put_node_def)
qed


lemma fs_modify_scache:
  assumes "wf_set c" "wf_field p" "\<not> wildcard p"
  shows "\<exists>c'. fs_modify p c = Inr c' \<and> wf_set c' \<and> scache c' = learn p (scache c)"
proof -
  obtain c' where c': "fs_modify p c = Inr c'" "wf_set c'"
    "\<forall>t. wf_type t \<longrightarrow> fs_get c' t = (if t = f_type p then overwrite (fs_get c t) p else fs_get c t)"
    using fs_modify_ok [OF assms] by blast
  moreover have "scache c' = learn p (scache c)"
    using c'(3) assms(2) by (auto simp: fun_eq_iff scache_def learn_def wf_field_def)
  ultimately show ?thesis by blast
qed

lemma fs_load_scache:
  "wf_set c \<Longrightarrow> wf_mask m \<Longrightarrow> fs_load m c = Inr (restrict (scache c (m_type m)) (m_bits m))"
  by (simp add: fs_load_ok scache_def wf_mask_def)

text \<open>What holds of a traced run before each call of the policy.\<close>

definition trace_inv :: "(nat \<Rightarrow> Decision option) \<Rightarrow> packet \<Rightarrow> head \<Rightarrow> Decision \<Rightarrow> policy \<Rightarrow> tpacket \<Rightarrow> bool" where
  "trace_inv D q0 h0 d p s \<longleftrightarrow>
     tree_ok D (root (tr s)) h0 \<and> residual (path (tr s)) h0 = Some (advance p (scache (cache s))) \<and>
     node_at (path (tr s)) (root (tr s)) \<noteq> None \<and> path_of q0 (path (tr s)) h0 \<and>
     wf_set (cache s) \<and> view q0 (scache (cache s)) (pkt s) \<and> wf_policy p \<and> run_plain p (pkt s) = Inr d"

lemma explored_rest:
  assumes "view q0 sc q" "wf_mask m" "q0 (m_type m) = Some x0" "q (m_type m) = Some x"
  defines "e \<equiv> restrict (sc (m_type m)) (m_bits m)"
  shows "\<exists>nm. mask_not (mask_of e) = Inr nm \<and>
         field_mask (pick m x) nm = Inr (pick \<lparr>m_type = m_type m, m_bits = unexplored_bits sc m\<rparr> x0)"
    and "wf_field e" "f_type e = m_type m"
proof -
  have t: "wf_type (m_type m)" using assms(2) by (simp add: wf_mask_def)
  note d = viewD [OF assms(1) t]
  show e: "wf_field e" "f_type e = m_type m"
    using d assms(2) unfolding e_def by (auto intro!: wf_restrict simp: wf_mask_def)
  then have "wf_mask (mask_of e)" by (simp add: wf_mask_of)
  moreover from this have "wf_mask \<lparr>m_type = m_type m, m_bits = take_bit (nbits (m_type m)) (NOT (f_mask e))\<rparr>"
    using e by (simp add: wf_mask_def bits_ok_not)
  ultimately show "\<exists>nm. mask_not (mask_of e) = Inr nm \<and>
         field_mask (pick m x) nm = Inr (pick \<lparr>m_type = m_type m, m_bits = unexplored_bits sc m\<rparr> x0)"
    using read_split(2) [OF assms(1-4)] e
    by (simp add: mask_not_ok field_mask_ok wf_pick assms(2) e_def)
qed

lemma wildcard_pick [simp]: "wildcard (pick m x) \<longleftrightarrow> m_bits m = 0"
  by (simp add: wildcard_def)

lemma mask_of_pick [simp]: "mask_of (pick m x) = m"
  by (simp add: mask_of_def)

lemma trace_inv_Load:
  assumes inv: "trace_inv D q0 h0 d (Load m k) s"
  shows "\<exists>r s'. tp_load m s = Inr (r, s') \<and> trace_inv D q0 h0 d (k r) s'"
proof -
  let ?sc = "scache (cache s)"
  note i = inv [unfolded trace_inv_def]
  have m: "wf_mask m" and v: "view q0 ?sc (pkt s)" and c: "wf_set (cache s)" using i by auto
  have t: "wf_type (m_type m)" using m by (simp add: wf_mask_def)
  obtain x where x: "pkt s (m_type m) = Some x" and r: "run_plain (k (pick m x)) (pkt s) = Inr d"
    using i by (auto simp: pkt_load_ok [OF m] split: option.splits)
  obtain x0 where x0: "q0 (m_type m) = Some x0" using viewD(3) [OF v t] x by auto
  have w: "wf_policy (k (pick m x))" using i wf_pick [OF m] by simp
  note sp = read_split [OF v m x0 x] and rest = explored_rest [OF v m x0 x]
  let ?um = "\<lparr>m_type = m_type m, m_bits = unexplored_bits ?sc m\<rparr>"
  let ?u = "pick ?um x0"
  have load: "tp_load m s = (if unexplored_bits ?sc m = 0 then Inr (pick m x, s)
      else res_bind (tracer_load ?u (tr s)) (\<lambda>t. res_bind (fs_modify ?u (cache s)) (\<lambda>c. Inr (pick m x, s\<lparr>tr := t, cache := c\<rparr>))))"
    using rest(1) x by (auto simp: tp_load_def pkt_load_ok m fs_load_scache [OF c m] simp del: res_bind_eq_Inr)
  show ?thesis
  proof (cases "unexplored_bits ?sc m = 0")
    case True
    then have "advance (Load m k) ?sc = advance (k (pick m x)) ?sc" using sp(1) by (simp add: advance_Load)
    then show ?thesis using i r w load True by (simp add: trace_inv_def)
  next
    case False
    obtain c' where c': "fs_modify ?u (cache s) = Inr c'" "wf_set c'" "scache c' = learn ?u ?sc"
      using fs_modify_scache [OF c, of ?u] wf_pick [OF wf_pick_unexplored [OF v m]] False by auto
    define K where "K = (\<lambda>v. (k \<lparr>f_type = m_type m, f_value = f_value (restrict (?sc (m_type m)) (m_bits m)) OR v, f_mask = m_bits m\<rparr>,
              learn \<lparr>f_type = m_type m, f_value = v, f_mask = unexplored_bits ?sc m\<rparr> ?sc))"
    have res: "residual (path (tr s)) h0 = Some (HLoad ?um K)" using i False by (simp add: advance_Load K_def)
    then obtain t' where t': "tracer_load ?u (tr s) = Inr t'" "tree_ok D (root t') h0"
        "path t' = path (tr s) @ [Case (f_value ?u)]" "node_at (path t') (root t') \<noteq> None"
      using tracer_load_ok [of D "tr s" h0 ?u K] i by (auto simp: pick_def and.assoc)
    have K: "K (f_value ?u) = (k (pick m x), learn ?u ?sc)" using sp(1) by (simp add: K_def pick_def)
    have "pkt_load ?um q0 = Inr ?u" using x0 by (simp add: pkt_load_ok wf_pick_unexplored [OF v m])
    then have "path_of q0 (path t') h0" using t'(3) i K by (simp add: path_of_append [OF res])
    moreover have "residual (path t') h0 = Some (advance (k (pick m x)) (scache c'))"
      using t'(3) res K c'(3) by (simp add: residual_append)
    moreover have "view q0 (scache c') (pkt s)" using view_learn_unexplored [OF v m x0] c'(3) by simp
    ultimately show ?thesis using load False t' c' r w by (simp add: trace_inv_def)
  qed
qed


lemma agrees_restrict:
  "(\<And>i. bit u i \<Longrightarrow> bit (f_mask n) i) \<Longrightarrow>
   agrees (pick \<lparr>m_type = t, m_bits = u\<rparr> x) n \<longleftrightarrow> agrees (pick \<lparr>m_type = t, m_bits = u\<rparr> x) (restrict n u)"
  by (auto simp: agrees_bits)

lemma trace_inv_Test:
  assumes inv: "trace_inv D q0 h0 d (Test n k) s"
  shows "\<exists>b s'. tp_test n s = Inr (b, s') \<and> trace_inv D q0 h0 d (k b) s'"
proof -
  let ?sc = "scache (cache s)" and ?m = "mask_of n"
  note i = inv [unfolded trace_inv_def]
  have n: "wf_field n" and v: "view q0 ?sc (pkt s)" and c: "wf_set (cache s)" using i by auto
  have m: "wf_mask ?m" by (rule wf_mask_of [OF n])
  have t: "wf_type (f_type n)" using n by (simp add: wf_field_def)
  obtain x where x: "pkt s (f_type n) = Some x" and r: "run_plain (k (agrees (pick ?m x) n)) (pkt s) = Inr d"
    using i by (auto simp: pkt_test_ok [OF n] split: option.splits)
  obtain x0 where x0: "q0 (f_type n) = Some x0" using viewD(3) [OF v t] x by auto
  have w: "\<forall>b. wf_policy (k b)" using i by simp
  let ?e = "restrict (?sc (f_type n)) (f_mask n)" and ?um = "\<lparr>m_type = f_type n, m_bits = unexplored_bits ?sc ?m\<rparr>"
  let ?u = "restrict n (unexplored_bits ?sc ?m)" and ?p = "pick ?um x0"
  have um: "wf_mask ?um" using wf_pick_unexplored [OF v m] by simp
  have wu: "wf_field ?u" by (rule restrict_unexplored_wf [OF v n])
  have mu: "mask_of ?u = ?um" using restrict_unexplored_mask [of n ?sc] by (simp add: mask_of_def)
  note sp = agrees_split [OF v n x0 x, unfolded mu] and rest = explored_rest [OF v m, of x0 x] and adv = advance_Test [of n k ?sc]
  have ag: "agrees ?p n \<longleftrightarrow> agrees ?p ?u" by (rule agrees_restrict) simp
  have test: "tp_test n s =
      (if \<not> agrees ?e n then Inr (False, s) else if unexplored_bits ?sc ?m = 0 then Inr (True, s)
       else res_bind (tracer_test ?u (agrees ?p ?u) (tr s)) (\<lambda>t.
         if agrees ?p ?u then res_bind (fs_modify ?p (cache s)) (\<lambda>c. Inr (True, s\<lparr>tr := t, cache := c\<rparr>))
         else Inr (False, s\<lparr>tr := t\<rparr>)))"
    using rest x x0 ag
    by (auto simp: tp_test_def pkt_load_ok m fs_load_scache [OF c m] field_match_ok wf_pick um n field_mask_ok
        simp del: res_bind_eq_Inr)
  show ?thesis
  proof (cases "agrees ?e n \<and> unexplored_bits ?sc ?m \<noteq> 0")
    case False
    let ?b = "agrees ?e n"
    have "agrees ?p ?u" if ?b using that False by (auto simp: agrees_bits)
    then have "agrees (pick ?m x) n = ?b" using sp by blast
    moreover have "advance (Test n k) ?sc = advance (k ?b) ?sc" using False adv by (auto simp: Let_def)
    ultimately show ?thesis using i r w test False by (auto simp: trace_inv_def)
  next
    case True
    let ?b = "agrees ?p ?u"
    have b: "agrees (pick ?m x) n = ?b" using sp True by blast
    define K where "K = (\<lambda>b. if b then (k True, learn ?u ?sc) else (k False, ?sc))"
    have res: "residual (path (tr s)) h0 = Some (HTest ?u K)" using i True adv by (simp add: Let_def K_def)
    then obtain t' where t': "tracer_test ?u ?b (tr s) = Inr t'" "tree_ok D (root t') h0"
        "path t' = path (tr s) @ [if ?b then Positive else Negative]" "node_at (path t') (root t') \<noteq> None"
      using tracer_test_ok [of D "tr s" h0 ?u K ?b] i by auto
    have pu: "?p = ?u" if ?b using pick_agrees [OF wu, unfolded mu, OF that] .
    have "pkt_test ?u q0 = Inr ?b" using x0 mu by (simp add: pkt_test_ok [OF wu])
    then have "path_of q0 (path t') h0" using t'(3) i by (simp add: path_of_append [OF res])
    moreover have "residual (path t') h0 = Some (adv (K ?b))" using t'(3) res by (simp add: residual_append)
    moreover have "\<exists>c'. fs_modify ?p (cache s) = Inr c' \<and> wf_set c' \<and> scache c' = learn ?u ?sc \<and> view q0 (scache c') (pkt s)" if ?b
      using fs_modify_scache [OF c wf_pick [OF um], of x0] True view_learn_unexplored [OF v m, of x0] x0
        pu [OF that] by (auto simp: wildcard_def restrict_unexplored_mask)
    ultimately show ?thesis using test True t' r w b i by (cases ?b) (auto simp: trace_inv_def K_def)
  qed
qed

lemma trace_inv_Modify:
  assumes inv: "trace_inv D q0 h0 d (Modify f p) s"
  shows "\<exists>s'. tp_modify f s = Inr s' \<and> trace_inv D q0 h0 d p s'"
proof -
  note i = inv [unfolded trace_inv_def]
  have f: "wf_field f" "\<not> wildcard f" and c: "wf_set (cache s)" and v: "view q0 (scache (cache s)) (pkt s)"
    using i by auto
  obtain x where x: "pkt s (f_type f) = Some x"
    and r: "run_plain p ((pkt s)(f_type f \<mapsto> (x AND NOT (f_mask f)) OR f_value f)) = Inr d"
    using i by (auto simp: pkt_modify_ok [OF f(1)] split: option.splits)
  obtain c' where c': "fs_modify f (cache s) = Inr c'" "wf_set c'" "scache c' = learn f (scache (cache s))"
    using fs_modify_scache [OF c f] by blast
  then show ?thesis
    using i x r view_modify [OF v f(1) x] by (simp add: tp_modify_def pkt_modify_ok [OF f(1)] trace_inv_def)
qed

lemma run_traced_ok:
  "trace_inv D q0 h0 d p s \<Longrightarrow>
     \<exists>s'. run_traced p s = Inr (d, s') \<and> tree_ok D (root (tr s')) h0 \<and> residual (path (tr s')) h0 = Some (HDone d) \<and>
       node_at (path (tr s')) (root (tr s')) \<noteq> None \<and> path_of q0 (path (tr s')) h0"
proof (induction p arbitrary: s)
  case (Decide d')
  then show ?case by (simp add: trace_inv_def)
next
  case (Load m k)
  obtain r s' where "tp_load m s = Inr (r, s')" "trace_inv D q0 h0 d (k r) s'"
    using trace_inv_Load [OF Load.prems] by blast
  then show ?case using Load.IH [OF rangeI] by force
next
  case (Test n k)
  obtain b s' where "tp_test n s = Inr (b, s')" "trace_inv D q0 h0 d (k b) s'"
    using trace_inv_Test [OF Test.prems] by blast
  then show ?case using Test.IH [OF rangeI] by force
next
  case (Modify f p)
  then show ?case using trace_inv_Modify [OF Modify.prems] by fastforce
qed


subsection \<open>The runtime\<close>

definition runtime_ok :: "policy \<Rightarrow> Runtime \<Rightarrow> bool" where
  "runtime_ok p r \<longleftrightarrow> tree_ok (flow_decision r) (trace_tree r) (advance p wildcard_field)"

lemma scache_Nil [simp]: "scache [] = wildcard_field"
  by (simp add: scache_def fun_eq_iff)

lemma lookup_runtime_ok:
  assumes "runtime_ok p r" "wf_policy p" "run_plain p q = Inr d"
  shows "\<exists>x. lookup alive q (trace_tree r) = Inr x \<and> (\<forall>f. x = Some f \<longrightarrow> alive f \<and> flow_decision r f = Some d)"
  using lookup_sound(1) assms(1) advance_plain [OF view_initial assms(2,3)] unfolding runtime_ok_def by blast

lemma augment_ok:
  assumes "runtime_ok p r" "wf_policy p" "run_plain p q = Inr d" "flow_decision r f \<in> {None, Some d}"
  shows "\<exists>r'. augment p disposable q f r = Inr r' \<and> runtime_ok p r' \<and>
           flow_decision r' = (flow_decision r)(f \<mapsto> d) \<and>
           (\<not> disposable d \<longrightarrow> lookup alive q (trace_tree r') = Inr (if alive f then Some f else None))"
proof -
  let ?D = "(flow_decision r)(f \<mapsto> d)" and ?h = "advance p wildcard_field"
  let ?s = "\<lparr>pkt = q, cache = [], tr = \<lparr>root = trace_tree r, path = []\<rparr>\<rparr>"
  have "flow_decision r \<subseteq>\<^sub>m ?D" using assms(4) by (auto simp: map_le_def)
  then have "tree_ok ?D (trace_tree r) ?h" using assms(1) tree_ok_mono(1) by (auto simp: runtime_ok_def)
  then have "trace_inv ?D q ?h d p ?s" using assms(2,3) by (simp add: trace_inv_def view_initial)
  then obtain s' where s': "run_traced p ?s = Inr (d, s')" "tree_ok ?D (root (tr s')) ?h"
      "residual (path (tr s')) ?h = Some (HDone d)" "node_at (path (tr s')) (root (tr s')) \<noteq> None"
      "path_of q (path (tr s')) ?h"
    using run_traced_ok by blast
  then show ?thesis
    using tracer_finish_ok [OF s'(2-4) _ s'(5), of f alive]
    by (cases "disposable d") (auto simp: augment_def Let_def runtime_ok_def)
qed

text \<open>
  The life of a runtime under a policy: flows are added for packets the policy decides, with a fresh flow or
  the flow the tree itself returned; \<open>invalidate\<close> empties the tree, after which the policy may be another one.
\<close>

inductive runtime_reach :: "policy \<Rightarrow> Runtime \<Rightarrow> bool" where
  reach_new: "runtime_reach p new_Runtime"
| reach_augment: "runtime_reach p r \<Longrightarrow> run_plain p q = Inr d \<Longrightarrow>
     flow_decision r f = None \<or> lookup alive q (trace_tree r) = Inr (Some f) \<Longrightarrow>
     augment p disposable q f r = Inr r' \<Longrightarrow> runtime_reach p r'"
| reach_invalidate: "runtime_reach p r \<Longrightarrow> runtime_reach p' (invalidate r)"

lemma runtime_reach_ok: "runtime_reach p r \<Longrightarrow> wf_policy p \<Longrightarrow> runtime_ok p r"
proof (induction p r rule: runtime_reach.induct)
  case (reach_augment p r q d f alive disposable r')
  then have ok: "runtime_ok p r" by simp
  have "flow_decision r f \<in> {None, Some d}"
    using lookup_runtime_ok [OF ok reach_augment.prems reach_augment.hyps(2), of alive] reach_augment.hyps(3) by auto
  then show ?case
    using augment_ok [OF ok reach_augment.prems reach_augment.hyps(2), of f disposable] reach_augment.hyps(4) by auto
qed (simp_all add: runtime_ok_def new_Runtime_def invalidate_def)

text \<open>
  C4: the trace tree never answers wrongly. In every state a runtime can reach under a policy, looking up a
  packet the policy decides does not throw, and a flow it finds is alive and carries the decision that running the
  policy on this packet would give.
\<close>

theorem trace_tree_sound:
  assumes "runtime_reach p r" "wf_policy p" "run_plain p q = Inr d"
  shows "\<exists>x. lookup alive q (trace_tree r) = Inr x \<and>
           (case x of None \<Rightarrow> True | Some f \<Rightarrow> alive f \<and> flow_decision r f = Some d)"
  using lookup_runtime_ok [OF runtime_reach_ok [OF assms(1,2)] assms(2,3), of alive] by (auto split: option.split)

text \<open>
  C28: the tracer is complete and consistent. Running the policy through the tracing packet on any reachable
  tree never reports an inconsistent trace and reaches the policy's own decision; unless the flow is disposable, the
  same packet is then answered by the tree with the flow that was installed.
\<close>

theorem augment_then_lookup:
  assumes "runtime_reach p r" "wf_policy p" "run_plain p q = Inr d" "flow_decision r f = None" "alive f"
  shows "\<exists>r'. augment p disposable q f r = Inr r' \<and> runtime_reach p r' \<and> flow_decision r' f = Some d \<and>
           (disposable d \<or> runtime_lookup alive miss q r' = Inr f)"
proof -
  obtain r' where r': "augment p disposable q f r = Inr r'" "flow_decision r' f = Some d"
      "\<not> disposable d \<longrightarrow> lookup alive q (trace_tree r') = Inr (Some f)"
    using augment_ok [OF runtime_reach_ok [OF assms(1,2)] assms(2,3), of f disposable alive] assms(4,5) by auto
  have "runtime_reach p r'" using reach_augment [OF assms(1,3) _ r'(1)] assms(4) by simp
  then show ?thesis using r' by (auto simp: runtime_lookup_def)
qed

subsection \<open>An example\<close>

definition arp_match :: oxm_field where
  "arp_match = \<lparr>f_type = eth_type, f_value = 0x0806, f_mask = 0xffff\<rparr>"

definition demo_decision :: "decision_kind \<Rightarrow> Decision" where
  "demo_decision k = \<lparr>kind = k, base = new_Base\<rparr>"

text \<open>ARP is flooded, other packets go to the port named by their destination.\<close>

definition demo_policy :: policy where
  "demo_policy = Test arp_match (\<lambda>b.
     if b then Decide (demo_decision Broadcast)
     else Load (exact_mask eth_dst) (\<lambda>r. Decide (demo_decision (Unicast (word_of_int (f_value r))))))"

definition demo_packet :: "int \<Rightarrow> packet" where
  "demo_packet dst = [eth_type \<mapsto> 0x0800, eth_dst \<mapsto> dst]"

lemma demo_wf: "wf_policy demo_policy"
proof -
  have "wf_field arp_match" "wf_mask (exact_mask eth_dst)" by code_simp+
  then show ?thesis by (simp add: demo_policy_def)
qed

lemma demo_run: "run_plain demo_policy (demo_packet 5) = Inr (demo_decision (Unicast 5))"
  by code_simp

lemma demo_fresh: "flow_decision new_Runtime 7 = None"
  by (simp add: new_Runtime_def)

theorem augment_then_lookup_witness:
  "\<exists>r'. augment demo_policy (\<lambda>_. False) (demo_packet 5) 7 new_Runtime = Inr r' \<and> runtime_reach demo_policy r' \<and>
     flow_decision r' 7 = Some (demo_decision (Unicast 5)) \<and>
     runtime_lookup (\<lambda>_. True) 0 (demo_packet 5) r' = Inr 7"
  using augment_then_lookup [OF reach_new demo_wf demo_run demo_fresh, of "\<lambda>_. True" "\<lambda>_. False" 0] by simp

theorem trace_tree_sound_witness:
  "\<exists>r. runtime_reach demo_policy r \<and> lookup (\<lambda>_. True) (demo_packet 5) (trace_tree r) = Inr (Some 7) \<and>
     flow_decision r 7 = Some (demo_decision (Unicast 5))"
proof -
  obtain r where r: "augment demo_policy (\<lambda>_. False) (demo_packet 5) 7 new_Runtime = Inr r"
      "lookup (\<lambda>_. True) (demo_packet 5) (trace_tree r) = Inr (Some 7)"
    using augment_ok [OF runtime_reach_ok [OF reach_new demo_wf] demo_wf demo_run, of 7 "\<lambda>_. False" "\<lambda>_. True"] demo_fresh
    by auto
  have "runtime_reach demo_policy r" using reach_augment [OF reach_new demo_run _ r(1)] demo_fresh by simp
  then show ?thesis using trace_tree_sound [OF _ demo_wf demo_run, of r "\<lambda>_. True"] r(2) by auto
qed

end
