(* ===== verification/Packet_Parser.thy ===== *)
theory Packet_Parser
  imports Maple_Sound
begin

text \<open>
  The packet parser: \<open>src/PacketParser.cc\<close>, with the conversion between byte buffers and bit sets of
  \<open>src/types/bits.hh\<close>. The parser keeps a frame of bytes and, for each field id, a pointer to the
  field's first byte (\<open>bindings\<close>); reading and writing a field goes through that pointer. A pointer is a
  location: the parser's own copy of the input port, or an offset in the frame. The headers' struct layouts are the
  offsets and sizes below; bit fields are laid out as on the x86-64 ABI, the first one in the low bits.

  A buffer is read from its last byte to the byte before its first one (\<open>buffer_reads\<close>), which the following truncation drops.
  For a field at the start of a buffer this byte is outside it: the bytes before the input port and before the frame, which the
  standard leaves undefined, are the parameters \<open>port_prev\<close> and \<open>frame_prev\<close>.

  What the header fields of a frame are is stated apart from the parser, by their offsets in the protocol headers
  (\<open>header_fields\<close>), and the parser is proved to read these.
\<close>

unbundle bit_operations_syntax

subsection \<open>Bytes and bit sets\<close>

text \<open>A sequence of blocks, least significant first.\<close>

fun of_blocks :: "u8 list \<Rightarrow> int" where
  "of_blocks [] = 0"
| "of_blocks (b # bs) = uint b OR push_bit 8 (of_blocks bs)"

definition num_blocks :: "nat \<Rightarrow> nat" where
  "num_blocks n = n div 8 + (if n mod 8 \<noteq> 0 then 1 else 0)"

text \<open>The positions that are read, relative to the buffer and in the order of the reverse iterators.\<close>

definition buffer_reads :: "nat \<Rightarrow> int list" where
  "buffer_reads n = rev (map (\<lambda>k. int k - 1) [0..<num_blocks n + 1])"

definition bits_of_buffer :: "(int \<Rightarrow> u8) \<Rightarrow> nat \<Rightarrow> bits" where
  "bits_of_buffer buffer n = \<lparr>b_size = n, b_bits = take_bit n (of_blocks (map buffer (buffer_reads n)))\<rparr>"

fun to_blocks :: "nat \<Rightarrow> int \<Rightarrow> u8 list" where
  "to_blocks 0 v = []"
| "to_blocks (Suc n) v = word_of_int v # to_blocks n (drop_bit 8 v)"

definition to_buffer :: "bits \<Rightarrow> u8 list" where
  "to_buffer b = rev (to_blocks (num_blocks (b_size b)) (b_bits b))"

subsection \<open>The parser\<close>

datatype loc = PortLoc | FrameLoc nat

record PacketParser =
  data :: "u8 list option"
  in_port_bytes :: "u8 list"
  port_prev :: u8
  frame_prev :: u8
  bindings :: "loc option list"

abbreviation data_len :: "PacketParser \<Rightarrow> nat" where
  "data_len P \<equiv> (case data P of None \<Rightarrow> 0 | Some d \<Rightarrow> length d)"

abbreviation invalid_argument :: fault where
  "invalid_argument \<equiv> Thrown ''invalid_argument''"

fun bind :: "(nat \<times> loc) list \<Rightarrow> PacketParser \<Rightarrow> PacketParser res" where
  "bind [] P = Inr P"
| "bind ((i, l) # new) P =
     (if i \<ge> length (bindings P) then Inl out_of_range
      else if bindings P ! i \<noteq> None then Inl invalid_argument
      else bind new (P\<lparr>bindings := (bindings P)[i := Some l]\<rparr>))"

fun rebind :: "(nat \<times> loc) list \<Rightarrow> PacketParser \<Rightarrow> PacketParser res" where
  "rebind [] P = Inr P"
| "rebind ((i, l) # new) P =
     (if i \<ge> length (bindings P) then Inl out_of_range
      else if bindings P ! i = None then Inl invalid_argument
      else rebind new (P\<lparr>bindings := (bindings P)[i := Some l]\<rparr>))"

definition frame :: "PacketParser \<Rightarrow> u8 list" where
  "frame P = (case data P of None \<Rightarrow> [] | Some d \<Rightarrow> d)"

definition byte_at :: "nat \<Rightarrow> PacketParser \<Rightarrow> u8 res" where
  "byte_at i P = (if i < length (frame P) then Inr (frame P ! i) else Inl OutOfRange)"

definition u16_at :: "nat \<Rightarrow> PacketParser \<Rightarrow> u16 res" where
  "u16_at i P = res_bind (byte_at i P) (\<lambda>a. res_bind (byte_at (i + 1) P) (\<lambda>b. Inr (word_cat a b)))"

definition parse_l4 :: "u8 \<Rightarrow> nat \<Rightarrow> nat \<Rightarrow> PacketParser \<Rightarrow> PacketParser res" where
  "parse_l4 protocol off len P =
     (if protocol = 0x06 then
        if 20 \<le> len then bind [(13, FrameLoc off), (14, FrameLoc (off + 2))] P else Inr P
      else if protocol = 0x11 then
        if 8 \<le> len then bind [(15, FrameLoc off), (16, FrameLoc (off + 2))] P else Inr P
      else if protocol = 0x01 then
        if 4 \<le> len then bind [(19, FrameLoc off), (20, FrameLoc (off + 1))] P else Inr P
      else Inr P)"

definition ihl :: "u8 \<Rightarrow> nat" where
  "ihl b = unat (b AND 0x0f)"

definition parse_ipv4 :: "nat \<Rightarrow> nat \<Rightarrow> PacketParser \<Rightarrow> PacketParser res" where
  "parse_ipv4 off len P =
     (if 20 \<le> len then
        res_bind (bind [(10, FrameLoc (off + 9)), (11, FrameLoc (off + 12)), (12, FrameLoc (off + 16))] P) (\<lambda>P1.
        res_bind (byte_at off P1) (\<lambda>b0.
        res_bind (byte_at (off + 9) P1) (\<lambda>protocol.
          if len > ihl b0 * 4 then parse_l4 protocol (off + ihl b0 * 4) (len - ihl b0 * 4) P1
          else Inr P1)))
      else Inr P)"

definition parse_arp :: "nat \<Rightarrow> nat \<Rightarrow> PacketParser \<Rightarrow> PacketParser res" where
  "parse_arp off len P =
     (if 28 \<le> len then
        res_bind (u16_at off P) (\<lambda>htype.
        res_bind (u16_at (off + 2) P) (\<lambda>ptype.
        res_bind (byte_at (off + 4) P) (\<lambda>hlen.
        res_bind (byte_at (off + 5) P) (\<lambda>plen.
          if htype \<noteq> 1 \<or> ptype \<noteq> 0x0800 \<or> hlen \<noteq> 6 \<or> plen \<noteq> 4 then Inr P
          else bind [(21, FrameLoc (off + 6)), (24, FrameLoc (off + 8)), (25, FrameLoc (off + 18)),
                     (22, FrameLoc (off + 14)), (23, FrameLoc (off + 24))] P))))
      else Inr P)"

abbreviation nullptr_dereference :: fault where
  "nullptr_dereference \<equiv> Thrown ''nullptr_dereference''"

definition parse_ipv6 :: "nat \<Rightarrow> nat \<Rightarrow> PacketParser \<Rightarrow> PacketParser res" where
  "parse_ipv6 off len P =
     (if 40 \<le> len then
        res_bind (bind [(26, FrameLoc (off + 8)), (27, FrameLoc (off + 24)), (10, FrameLoc (off + 6))] P) (\<lambda>P1.
          if len > 40 then res_bind (byte_at (off + 6) P1) (\<lambda>protocol. parse_l4 protocol (off + 40) (len - 40) P1)
          else Inr P1)
      else Inl nullptr_dereference)"

definition parse_l3 :: "u16 \<Rightarrow> nat \<Rightarrow> nat \<Rightarrow> PacketParser \<Rightarrow> PacketParser res" where
  "parse_l3 ethertype off len P =
     (if ethertype = 0x0800 then parse_ipv4 off len P
      else if ethertype = 0x0806 then parse_arp off len P
      else if ethertype = 0x86dd then parse_ipv6 off len P
      else Inr P)"

definition parse_l2 :: "nat \<Rightarrow> PacketParser \<Rightarrow> PacketParser res" where
  "parse_l2 len P =
     (if 14 \<le> len then
        res_bind (u16_at 12 P) (\<lambda>tpid.
          if tpid = 0x8100 then
            if 18 \<le> len then
              res_bind (bind [(5, FrameLoc 16), (4, FrameLoc 6), (3, FrameLoc 0), (6, FrameLoc 14)] P) (\<lambda>P1.
              res_bind (u16_at 16 P1) (\<lambda>type. parse_l3 type 18 (len - 18) P1))
            else parse_l3 0 0 len P
          else
            res_bind (bind [(5, FrameLoc 12), (4, FrameLoc 6), (3, FrameLoc 0)] P) (\<lambda>P1.
            parse_l3 tpid 14 (len - 14) P1))
      else Inr P)"

definition big_endian :: "u32 \<Rightarrow> u8 list" where
  "big_endian w = [ucast (drop_bit 24 w), ucast (drop_bit 16 w), ucast (drop_bit 8 w), ucast w]"

definition new_PacketParser :: "u8 list option \<Rightarrow> u8 \<Rightarrow> u8 \<Rightarrow> u32 \<Rightarrow> PacketParser res" where
  "new_PacketParser d pp fp port =
     res_bind (bind [(0, PortLoc)]
       \<lparr>data = d, in_port_bytes = big_endian port, port_prev = pp, frame_prev = fp, bindings = replicate 40 None\<rparr>) (\<lambda>P.
       case d of None \<Rightarrow> Inr P | Some bytes \<Rightarrow> parse_l2 (length bytes) P)"

definition access :: "oxm_type \<Rightarrow> PacketParser \<Rightarrow> loc res" where
  "access t P =
     (if ns t \<noteq> 0x8000 then Inl out_of_range
      else if unat (tid t) \<ge> length (bindings P) then Inl out_of_range
      else case bindings P ! unat (tid t) of None \<Rightarrow> Inl out_of_range | Some l \<Rightarrow> Inr l)"

definition read_loc :: "loc \<Rightarrow> nat \<Rightarrow> PacketParser \<Rightarrow> bits res" where
  "read_loc l n P =
     (case l of
        PortLoc \<Rightarrow>
          if num_blocks n \<le> length (in_port_bytes P)
          then Inr (bits_of_buffer (\<lambda>k. if k < 0 then port_prev P else in_port_bytes P ! nat k) n) else Inl OutOfRange
      | FrameLoc i \<Rightarrow>
          if i + num_blocks n \<le> length (frame P)
          then Inr (bits_of_buffer (\<lambda>k. if int i + k < 0 then frame_prev P else frame P ! nat (int i + k)) n)
          else Inl OutOfRange)"

definition splice :: "nat \<Rightarrow> 'a list \<Rightarrow> 'a list \<Rightarrow> 'a list" where
  "splice i new xs = take i xs @ new @ drop (i + length new) xs"

definition write_loc :: "loc \<Rightarrow> u8 list \<Rightarrow> PacketParser \<Rightarrow> PacketParser res" where
  "write_loc l bytes P =
     (case l of
        PortLoc \<Rightarrow>
          if length bytes \<le> length (in_port_bytes P)
          then Inr (P\<lparr>in_port_bytes := splice 0 bytes (in_port_bytes P)\<rparr>) else Inl OutOfRange
      | FrameLoc i \<Rightarrow>
          if i + length bytes \<le> length (frame P)
          then Inr (P\<lparr>data := Some (splice i bytes (frame P))\<rparr>) else Inl OutOfRange)"

definition pp_load :: "oxm_mask \<Rightarrow> PacketParser \<Rightarrow> oxm_field res" where
  "pp_load m P =
     res_bind (access (m_type m) P) (\<lambda>l.
     res_bind (read_loc l (nbits (m_type m)) P) (\<lambda>value_bits.
     res_bind (mk_value (m_type m) value_bits) (\<lambda>v. value_mask v m)))"

definition pp_modify :: "oxm_field \<Rightarrow> PacketParser \<Rightarrow> PacketParser res" where
  "pp_modify patch P =
     res_bind (pp_load (exact_mask (f_type patch)) P) (\<lambda>current.
     res_bind (field_rewrite current patch) (\<lambda>updated.
     res_bind (access (f_type patch) P) (\<lambda>l.
       write_loc l (to_buffer \<lparr>b_size = nbits (f_type patch), b_bits = f_value updated\<rparr>) P)))"

definition serialize_to :: "nat \<Rightarrow> PacketParser \<Rightarrow> u8 list" where
  "serialize_to buffer_size P = take (min (data_len P) buffer_size) (frame P)"

definition total_bytes :: "PacketParser \<Rightarrow> nat" where
  "total_bytes P = data_len P"



subsection \<open>Bytes\<close>

lemma bit_of_blocks: "bit (of_blocks bs) i \<longleftrightarrow> i div 8 < length bs \<and> bit (bs ! (i div 8)) (i mod 8)"
proof (induction bs arbitrary: i)
  case (Cons b bs)
  show ?case
  proof (cases "i < 8")
    case True
    then show ?thesis by (simp add: bit_or_iff bit_push_bit_iff bit_uint_iff)
  next
    case False
    then have "i div 8 = Suc ((i - 8) div 8)" "i mod 8 = (i - 8) mod 8" "\<not> i < 8"
      by (simp_all add: div_if [of i 8] mod_if [of i 8] le_div_geq le_mod_geq)
    moreover have "\<not> bit b i" using False bit_imp_le_length [of b i] by auto
    ultimately show ?thesis using Cons.IH [of "i - 8"] by (auto simp: bit_or_iff bit_push_bit_iff bit_uint_iff)
  qed
qed simp

lemma bit_to_blocks: "k < n \<Longrightarrow> bit (to_blocks n v ! k) i \<longleftrightarrow> i < 8 \<and> bit v (8 * k + i)"
  by (induction n v arbitrary: k rule: to_blocks.induct)
    (auto simp: nth_Cons bit_simps less_Suc_eq_0_disj add.assoc split: nat.splits)

lemma length_to_blocks [simp]: "length (to_blocks n v) = n"
  by (induction n v rule: to_blocks.induct) auto

lemma of_blocks_to_blocks: "of_blocks (to_blocks n v) = take_bit (8 * n) v"
  by (rule bit_eqI) (auto simp: bit_of_blocks bit_to_blocks bit_take_bit_iff less_mult_imp_div_less mult.commute)

lemma num_blocks_bounds: "n \<le> 8 * num_blocks n"
  unfolding num_blocks_def by presburger

text \<open>The byte before the buffer has no influence.\<close>

lemma extra_block:
  assumes "n \<le> 8 * length bs"
  shows "take_bit n (of_blocks (bs @ [prev])) = take_bit n (of_blocks bs)"
proof -
  have "i div 8 < length bs" if "i < n" for i using that assms by linarith
  then show ?thesis by (intro bit_eqI) (auto simp: bit_take_bit_iff bit_of_blocks nth_append less_Suc_eq)
qed

lemma buffer_blocks:
  assumes "num_blocks n \<le> length bs" "\<And>k. k < num_blocks n \<Longrightarrow> buffer (int k) = bs ! k"
  shows "map buffer (buffer_reads n) = rev (take (num_blocks n) bs) @ [buffer (- 1)]"
proof -
  have "map buffer (rev (buffer_reads n)) = buffer (- 1) # map (\<lambda>k. buffer (int k)) [0..<num_blocks n]"
    by (simp add: buffer_reads_def upt_conv_Cons comp_def map_Suc_upt [symmetric] del: upt_Suc)
  also have "map (\<lambda>k. buffer (int k)) [0..<num_blocks n] = take (num_blocks n) bs"
    using assms by (intro nth_equalityI) auto
  finally show ?thesis by (metis rev.simps(2) rev_map rev_rev_ident)
qed

lemma bits_of_buffer_eq:
  assumes "num_blocks n \<le> length bs" "\<And>k. k < num_blocks n \<Longrightarrow> buffer (int k) = bs ! k"
  shows "bits_of_buffer buffer n = \<lparr>b_size = n, b_bits = take_bit n (of_blocks (rev (take (num_blocks n) bs)))\<rparr>"
  using assms(1) num_blocks_bounds [of n] by (simp add: bits_of_buffer_def buffer_blocks [OF assms] extra_block min_def)

lemma length_to_buffer [simp]: "length (to_buffer b) = num_blocks (b_size b)"
  by (simp add: to_buffer_def)

lemma splice_simps:
  assumes "i + length new \<le> length xs"
  shows "length (splice i new xs) = length xs" "drop i (splice i new xs) = new @ drop (i + length new) xs"
    and "j + k \<le> i \<or> i + length new \<le> j \<Longrightarrow> take k (drop j (splice i new xs)) = take k (drop j xs)"
proof -
  show "length (splice i new xs) = length xs" "drop i (splice i new xs) = new @ drop (i + length new) xs"
    using assms by (auto simp: splice_def)
  assume "j + k \<le> i \<or> i + length new \<le> j"
  then show "take k (drop j (splice i new xs)) = take k (drop j xs)"
    using assms by (auto simp: splice_def drop_take min_def)
qed


subsection \<open>The layout of the fields\<close>

lemma num_blocks_nbytes: "num_blocks (nbits t) = nbytes t"
  by (simp add: num_blocks_def nbytes_def)

definition bound :: "PacketParser \<Rightarrow> oxm_type \<Rightarrow> loc option" where
  "bound P t = bindings P ! unat (tid t)"

definition in_range :: "loc \<Rightarrow> nat \<Rightarrow> PacketParser \<Rightarrow> bool" where
  "in_range l n P = (case l of PortLoc \<Rightarrow> n \<le> length (in_port_bytes P) | FrameLoc i \<Rightarrow> i + n \<le> length (frame P))"

fun apart :: "loc \<times> nat \<Rightarrow> loc \<times> nat \<Rightarrow> bool" where
  "apart (PortLoc, n) (FrameLoc j, k) = True"
| "apart (FrameLoc j, k) (PortLoc, n) = True"
| "apart (FrameLoc i, n) (FrameLoc j, k) = (i + n \<le> j \<or> j + k \<le> i)"
| "apart _ _ = False"

definition range_ok :: "PacketParser \<Rightarrow> bool" where
  "range_ok P \<longleftrightarrow> length (bindings P) = 40 \<and>
     (\<forall>t l. wf_type t \<longrightarrow> bound P t = Some l \<longrightarrow> in_range l (nbytes t) P)"

definition layout_ok :: "PacketParser \<Rightarrow> bool" where
  "layout_ok P \<longleftrightarrow> range_ok P \<and>
     (\<forall>t t' l l'. wf_type t \<longrightarrow> wf_type t' \<longrightarrow> t \<noteq> t' \<longrightarrow> bound P t = Some l \<longrightarrow> bound P t' = Some l' \<longrightarrow>
        apart (l, nbytes t) (l', nbytes t'))"

lemma basic_ids: "wf_type t \<Longrightarrow> ns t = 0x8000 \<and> unat (tid t) < 40"
proof -
  have "list_all (\<lambda>t. ns t = 0x8000 \<and> unat (tid t) < 40) basic_types" by code_simp
  then show "wf_type t \<Longrightarrow> ns t = 0x8000 \<and> unat (tid t) < 40" by (simp add: wf_type_def list_all_iff)
qed

lemma access_ok:
  assumes "range_ok P" "wf_type t"
  shows "access t P = (case bound P t of None \<Rightarrow> Inl out_of_range | Some l \<Rightarrow> Inr l)"
  using assms basic_ids [OF assms(2)] by (simp add: access_def range_ok_def bound_def not_le)

text \<open>The bytes of a field and their value.\<close>

definition loc_bytes :: "loc \<Rightarrow> nat \<Rightarrow> PacketParser \<Rightarrow> u8 list" where
  "loc_bytes l n P = (case l of PortLoc \<Rightarrow> take n (in_port_bytes P) | FrameLoc i \<Rightarrow> take n (drop i (frame P)))"

definition field_bits :: "oxm_type \<Rightarrow> loc \<Rightarrow> PacketParser \<Rightarrow> int" where
  "field_bits t l P = take_bit (nbits t) (of_blocks (rev (loc_bytes l (nbytes t) P)))"

lemma read_loc_ok:
  assumes "in_range l (nbytes t) P"
  shows "read_loc l (nbits t) P = Inr \<lparr>b_size = nbits t, b_bits = field_bits t l P\<rparr>"
proof (cases l)
  case PortLoc
  then show ?thesis using assms
    by (simp add: read_loc_def in_range_def field_bits_def loc_bytes_def num_blocks_nbytes bits_of_buffer_eq [where bs = "in_port_bytes P"])
next
  case (FrameLoc i)
  let ?f = "\<lambda>k. if int i + k < 0 then frame_prev P else frame P ! nat (int i + k)"
  have "bits_of_buffer ?f (nbits t) = \<lparr>b_size = nbits t, b_bits = take_bit (nbits t) (of_blocks (rev (take (num_blocks (nbits t)) (drop i (frame P)))))\<rparr>"
    using assms FrameLoc by (intro bits_of_buffer_eq) (simp_all add: in_range_def num_blocks_nbytes nat_int_add)
  then show ?thesis using FrameLoc assms by (simp add: read_loc_def in_range_def field_bits_def loc_bytes_def num_blocks_nbytes)
qed

definition parser_view :: "PacketParser \<Rightarrow> packet" where
  "parser_view P t = (if wf_type t then map_option (\<lambda>l. field_bits t l P) (bound P t) else None)"

lemma pp_load_view:
  assumes "range_ok P" "wf_mask m"
  shows "pp_load m P = pkt_load m (parser_view P)"
proof -
  have t: "wf_type (m_type m)" using assms(2) by (simp add: wf_mask_def)
  show ?thesis
  proof (cases "bound P (m_type m)")
    case None
    then show ?thesis using t by (simp add: pp_load_def pkt_load_def parser_view_def access_ok [OF assms(1) t])
  next
    case (Some l)
    then have "in_range l (nbytes (m_type m)) P" using assms(1) t by (auto simp: range_ok_def)
    then show ?thesis using Some t
      by (simp add: pp_load_def pkt_load_def parser_view_def access_ok [OF assms(1) t] read_loc_ok mk_value_def)
  qed
qed

lemma loc_bytes_write:
  assumes "in_range l (length new) P" "write_loc l new P = Inr P'"
  shows "loc_bytes l (length new) P' = new" "apart (l, length new) (l', n) \<Longrightarrow> loc_bytes l' n P' = loc_bytes l' n P"
    and "bindings P' = bindings P" "in_range l' n P' = in_range l' n P"
proof -
  show "loc_bytes l (length new) P' = new"
    using assms by (auto simp: write_loc_def in_range_def loc_bytes_def frame_def splice_simps split: loc.splits)
      (simp add: splice_def)
  show "loc_bytes l' n P' = loc_bytes l' n P" if "apart (l, length new) (l', n)"
    using assms that
    by (cases l; cases l') (auto simp: write_loc_def in_range_def loc_bytes_def frame_def splice_simps)
  show "bindings P' = bindings P"
    using assms by (auto simp: write_loc_def in_range_def split: loc.splits)
  show "in_range l' n P' = in_range l' n P"
    using assms by (cases l; cases l') (auto simp: write_loc_def in_range_def frame_def splice_simps)
qed


lemma exact_mask_simps [simp]: "m_type (exact_mask t) = t" "m_bits (exact_mask t) = all_ones t"
  by (simp_all add: exact_mask_def)

text \<open>The value that \<open>modify\<close> writes.\<close>

lemma modified_value:
  assumes f: "wf_field f" and v: "take_bit (nbits (f_type f)) v = v"
  defines "w \<equiv> (v AND NOT (f_mask f)) OR f_value f"
  shows "f_value (overwrite (pick (exact_mask (f_type f)) v) f) = w" "take_bit (nbits (f_type f)) w = w"
proof -
  have "f_mask f AND all_ones (f_type f) = f_mask f" using f by (simp add: wf_field_def bits_ok_def)
  then have mb: "bit (f_mask f) i \<Longrightarrow> i < nbits (f_type f)" for i
    unfolding all_ones_def by (metis bit_and_iff bit_mask_iff)
  have vb: "bit v i \<Longrightarrow> i < nbits (f_type f)" for i using v by (metis bit_take_bit_iff)
  show "f_value (overwrite (pick (exact_mask (f_type f)) v) f) = w"
    using mb vb wf_value_bit [OF f] unfolding w_def by (intro bit_eqI) (auto simp: bit_simps all_ones_def)
  show "take_bit (nbits (f_type f)) w = w"
    using mb vb wf_value_bit [OF f] unfolding w_def by (intro bit_eqI) (auto simp: bit_simps)
qed

lemma wf_exact_mask: "wf_type t \<Longrightarrow> wf_mask (exact_mask t)"
  by (simp add: wf_mask_def bits_ok_def)

lemma bound_update: "bindings P' = bindings P \<Longrightarrow> bound P' t = bound P t"
  by (simp add: bound_def)

lemma pp_modify_view:
  assumes P: "layout_ok P" and f: "wf_field f"
  shows "case pkt_modify f (parser_view P) of
           Inl e \<Rightarrow> pp_modify f P = Inl e
         | Inr q \<Rightarrow> \<exists>P'. pp_modify f P = Inr P' \<and> layout_ok P' \<and> parser_view P' = q"
proof -
  let ?t = "f_type f"
  have t: "wf_type ?t" using f by (simp add: wf_field_def)
  have r: "range_ok P" using P by (simp add: layout_ok_def)
  note load = pp_load_view [OF r wf_exact_mask [OF t]]
  show ?thesis
  proof (cases "bound P ?t")
    case None
    then have "parser_view P ?t = None" using t by (simp add: parser_view_def)
    then show ?thesis
      using load by (simp add: pp_modify_def pkt_modify_ok [OF f] pkt_load_ok [OF wf_exact_mask [OF t]])
  next
    case (Some l)
    let ?v = "field_bits ?t l P" and ?n = "nbytes ?t"
    define w where "w = (?v AND NOT (f_mask f)) OR f_value f"
    have v: "parser_view P ?t = Some ?v" using Some t by (simp add: parser_view_def)
    have cur: "pp_load (exact_mask ?t) P = Inr (pick (exact_mask ?t) ?v)"
      using load v by (simp add: pkt_load_ok [OF wf_exact_mask [OF t]])
    have "take_bit (nbits ?t) ?v = ?v" by (simp add: field_bits_def)
    note val = modified_value(1) [OF f this, folded w_def] and w = modified_value(2) [OF f this, folded w_def]
    let ?new = "to_buffer \<lparr>b_size = nbits ?t, b_bits = w\<rparr>"
    have len: "length ?new = ?n" by (simp add: num_blocks_nbytes)
    have rng: "in_range l (length ?new) P" using r t Some len by (auto simp: range_ok_def)
    then obtain P' where P': "write_loc l ?new P = Inr P'" by (auto simp: write_loc_def in_range_def split: loc.splits)
    have mod: "pp_modify f P = Inr P'"
      using cur val P' Some wf_pick [OF wf_exact_mask [OF t]]
      by (simp add: pp_modify_def field_rewrite_ok f access_ok [OF r t])
    note wr = loc_bytes_write [OF rng P', unfolded len]
    have b: "bound P' x = bound P x" for x by (rule bound_update [OF wr(3)])
    have ok: "layout_ok P'" using P wr(3,4) b by (auto simp: layout_ok_def range_ok_def)
    have here: "field_bits ?t l P' = w"
      using w wr(1) num_blocks_bounds [of "nbits ?t"]
      by (simp add: field_bits_def to_buffer_def of_blocks_to_blocks min_def)
    have others: "field_bits x k P' = field_bits x k P" if "wf_type x" "x \<noteq> ?t" "bound P x = Some k" for x k
    proof -
      have "apart (l, ?n) (k, nbytes x)" using P that t Some unfolding layout_ok_def by metis
      then show ?thesis using wr(2) by (simp add: field_bits_def)
    qed
    have "parser_view P' = (parser_view P)(?t \<mapsto> w)"
    proof
      fix x
      show "parser_view P' x = ((parser_view P)(?t \<mapsto> w)) x"
        using b [of x] t Some here others [of x] by (cases "bound P x") (auto simp: parser_view_def)
    qed
    then show ?thesis using mod ok v by (simp add: pkt_modify_ok [OF f] w_def)
  qed
qed

subsection \<open>The interface of packets\<close>

text \<open>A packet as a policy sees it: any state with a load and a modify that act on a view of its fields.\<close>

locale packet_impl =
  fixes ok :: "'s \<Rightarrow> bool" and view_of :: "'s \<Rightarrow> packet"
    and load :: "oxm_mask \<Rightarrow> 's \<Rightarrow> oxm_field res" and modify :: "oxm_field \<Rightarrow> 's \<Rightarrow> 's res"
  assumes load_view: "ok s \<Longrightarrow> wf_mask m \<Longrightarrow> load m s = pkt_load m (view_of s)"
    and modify_view: "ok s \<Longrightarrow> wf_field f \<Longrightarrow>
      (case pkt_modify f (view_of s) of
         Inl e \<Rightarrow> modify f s = Inl e
       | Inr q \<Rightarrow> \<exists>s'. modify f s = Inr s' \<and> ok s' \<and> view_of s' = q)"

text \<open>Running a policy on a packet given by its operations.\<close>

primrec run_on :: "(oxm_mask \<Rightarrow> 's \<Rightarrow> oxm_field res) \<Rightarrow> (oxm_field \<Rightarrow> 's \<Rightarrow> 's res) \<Rightarrow> policy \<Rightarrow> 's \<Rightarrow> Decision res" where
  "run_on load modify (Decide d) s = Inr d"
| "run_on load modify (Load m k) s = res_bind (load m s) (\<lambda>r. run_on load modify (k r) s)"
| "run_on load modify (Test f k) s = res_bind (load (mask_of f) s) (\<lambda>r. res_bind (field_match r f) (\<lambda>b. run_on load modify (k b) s))"
| "run_on load modify (Modify f p) s = res_bind (modify f s) (\<lambda>s'. run_on load modify p s')"

context packet_impl
begin

lemma run_view: "wf_policy p \<Longrightarrow> ok s \<Longrightarrow> run_on load modify p s = run_plain p (view_of s)"
proof (induction p arbitrary: s)
  case (Load m k)
  have m: "wf_mask m" using Load.prems(1) by simp
  show ?case
  proof (cases "view_of s (m_type m)")
    case None
    then show ?thesis by (simp add: load_view [OF Load.prems(2) m] pkt_load_ok [OF m])
  next
    case (Some v)
    have "wf_policy (k (pick m v))" using Load.prems(1) wf_pick [OF m] by simp
    then show ?thesis using Load.IH [OF rangeI _ Load.prems(2)] Some by (simp add: load_view [OF Load.prems(2) m] pkt_load_ok [OF m])
  qed
next
  case (Test f k)
  have f: "wf_field f" using Test.prems(1) by simp
  have "run_on load modify (k b) s = run_plain (k b) (view_of s)" for b
    using Test.IH [OF rangeI _ Test.prems(2)] Test.prems(1) by simp
  then show ?case
    by (simp add: load_view [OF Test.prems(2) wf_mask_of [OF f]] pkt_test_def res_bind_assoc)
next
  case (Modify f p)
  have f: "wf_field f" using Modify.prems(1) by simp
  show ?case using modify_view [OF Modify.prems(2) f] Modify.IH Modify.prems(1)
    by (auto split: sum.splits)
qed simp

end

interpretation headers: packet_impl "\<lambda>_. True" "\<lambda>q. q" pkt_load pkt_modify
  by unfold_locales (auto split: sum.split)

interpretation parsed: packet_impl layout_ok parser_view pp_load pp_modify
proof
  show "pp_load m P = pkt_load m (parser_view P)" if "layout_ok P" "wf_mask m" for P m
    using that pp_load_view by (simp add: layout_ok_def)
qed (rule pp_modify_view)


subsection \<open>Parsing lays the fields out\<close>

definition fsize :: "nat \<Rightarrow> nat" where
  "fsize i = (case find (\<lambda>t. unat (tid t) = i) basic_types of Some t \<Rightarrow> nbytes t | None \<Rightarrow> 0)"

lemma fsize_simps [simp]:
  "fsize 0 = 4" "fsize 3 = 6" "fsize 4 = 6" "fsize 5 = 2" "fsize 6 = 2" "fsize 10 = 1" "fsize 11 = 4" "fsize 12 = 4"
  "fsize 13 = 2" "fsize 14 = 2" "fsize 15 = 2" "fsize 16 = 2" "fsize 19 = 1" "fsize 20 = 1" "fsize 21 = 2" "fsize 22 = 4"
  "fsize 23 = 4" "fsize 24 = 6" "fsize 25 = 6" "fsize 26 = 16" "fsize 27 = 16"
  by code_simp+

lemma fsize_type: "wf_type t \<Longrightarrow> fsize (unat (tid t)) = nbytes t"
proof -
  have "list_all (\<lambda>t. fsize (unat (tid t)) = nbytes t) basic_types" by code_simp
  then show "wf_type t \<Longrightarrow> fsize (unat (tid t)) = nbytes t" by (simp add: wf_type_def list_all_iff)
qed

type_synonym layout = "(nat \<times> loc) list"

definition laid :: "PacketParser \<Rightarrow> layout \<Rightarrow> bool" where
  "laid P lay \<longleftrightarrow> length (bindings P) = 40 \<and> (\<forall>i < 40. bindings P ! i = map_of lay i)"

definition inside :: "nat \<Rightarrow> nat \<Rightarrow> layout \<Rightarrow> bool" where
  "inside lo hi lay \<longleftrightarrow> (\<forall>(i, l) \<in> set lay. \<exists>j. l = FrameLoc j \<and> lo \<le> j \<and> j + fsize i \<le> hi)"

definition separate :: "layout \<Rightarrow> bool" where
  "separate lay \<longleftrightarrow> sorted_wrt (\<lambda>(i, l) (j, k). apart (l, fsize i) (k, fsize j)) lay"

lemma inside_simps [simp]:
  "inside lo hi []" "inside lo hi ((i, FrameLoc j) # lay) \<longleftrightarrow> lo \<le> j \<and> j + fsize i \<le> hi \<and> inside lo hi lay"
  by (auto simp: inside_def)

lemma separate_simps [simp]:
  "separate []"
  "separate ((i, l) # lay) \<longleftrightarrow> list_all (\<lambda>(j, k). apart (l, fsize i) (k, fsize j)) lay \<and> separate lay"
  by (simp_all add: separate_def list_all_iff)

lemma inside_append [simp]: "inside lo hi (a @ b) \<longleftrightarrow> inside lo hi a \<and> inside lo hi b"
  by (simp add: inside_def ball_Un)

lemma inside_mono: "inside lo hi a \<Longrightarrow> lo' \<le> lo \<Longrightarrow> hi \<le> hi' \<Longrightarrow> inside lo' hi' a"
  by (fastforce simp: inside_def)

lemma separate_append:
  "separate a \<Longrightarrow> separate b \<Longrightarrow> inside lo hi a \<Longrightarrow> inside lo' hi' b \<Longrightarrow> hi' \<le> lo \<Longrightarrow> separate (a @ b)"
  by (fastforce simp: separate_def inside_def sorted_wrt_append)

lemma separate_port: "separate a \<Longrightarrow> inside lo hi a \<Longrightarrow> separate (a @ [(0, PortLoc)])"
  by (fastforce simp: separate_def inside_def sorted_wrt_append)

text \<open>What parsing a piece of the frame does: it binds new fields, all inside that piece.\<close>

definition grows :: "nat \<Rightarrow> nat \<Rightarrow> bool \<Rightarrow> layout \<Rightarrow> layout \<Rightarrow> PacketParser \<Rightarrow> PacketParser res \<Rightarrow> bool" where
  "grows lo hi good ext lay P r \<longleftrightarrow>
     (\<exists>P'. r = Inr P' \<and> laid P' (ext @ lay) \<and> frame P' = frame P \<and> in_port_bytes P' = in_port_bytes P \<and>
        inside lo hi ext \<and> (good \<longrightarrow> separate ext))"

lemma grows_none: "laid P lay \<Longrightarrow> grows lo hi good [] lay P (Inr P)"
  unfolding grows_def by (rule exI [of _ P]) simp

lemma bind_laid:
  "laid P lay \<Longrightarrow> distinct (map fst new) \<Longrightarrow> (\<And>i. i \<in> fst ` set new \<Longrightarrow> i < 40 \<and> i \<notin> fst ` set lay) \<Longrightarrow>
   \<exists>P'. bind new P = Inr P' \<and> laid P' (new @ lay) \<and> frame P' = frame P \<and> in_port_bytes P' = in_port_bytes P"
proof (induction new arbitrary: P lay)
  case (Cons x new)
  obtain i l where x: "x = (i, l)" by fastforce
  have i: "i < 40" "i \<notin> fst ` set lay" "i \<notin> fst ` set new" using Cons.prems x by auto
  have none: "bindings P ! i = None" using Cons.prems(1) i by (simp add: laid_def map_of_eq_None_iff)
  let ?P = "P\<lparr>bindings := (bindings P)[i := Some l]\<rparr>"
  have "laid ?P ((i, l) # lay)" using Cons.prems(1) i by (auto simp: laid_def nth_list_update)
  moreover have "j < 40 \<and> j \<notin> fst ` set ((i, l) # lay)" if "j \<in> fst ` set new" for j
    using that Cons.prems(3) [of j] i x by auto
  moreover have "distinct (map fst new)" using Cons.prems(2) by simp
  ultimately obtain P' where P': "bind new ?P = Inr P'" "laid P' (new @ (i, l) # lay)" "frame P' = frame ?P"
      "in_port_bytes P' = in_port_bytes P"
    using Cons.IH [of ?P "(i, l) # lay"] by auto
  have "map_of (new @ (i, l) # lay) j = map_of ((i, l) # new @ lay) j" for j
    using i(3) map_of_eq_None_iff [of new i] by (cases "map_of new j") (auto simp: map_add_def)
  then have "laid P' ((i, l) # new @ lay)" using P'(2) unfolding laid_def by metis
  then show ?case using P' i(1) none Cons.prems(1) x by (auto simp: laid_def frame_def)
qed (auto simp: laid_def)

lemma bind_frame: "bind new P = Inr P1 \<Longrightarrow> frame P1 = frame P"
  by (induction new P rule: bind.induct) (auto simp: frame_def split: if_splits)

declare bind.simps [simp del]

lemma bind_grows:
  assumes "laid P lay" "distinct (map fst new)" "list_all (\<lambda>i. i < 40 \<and> i \<notin> fst ` set lay) (map fst new)"
    "inside lo hi new" "separate new"
  shows "grows lo hi good new lay P (bind new P)"
  using bind_laid [OF assms(1,2)] assms(3-5) unfolding grows_def list_all_iff list.set_map by blast

definition l4_fields :: "u8 \<Rightarrow> nat \<Rightarrow> nat \<Rightarrow> layout" where
  "l4_fields protocol off len =
     (if protocol = 6 \<and> 20 \<le> len then [(13, FrameLoc off), (14, FrameLoc (off + 2))]
      else if protocol = 17 \<and> 8 \<le> len then [(15, FrameLoc off), (16, FrameLoc (off + 2))]
      else if protocol = 1 \<and> 4 \<le> len then [(19, FrameLoc off), (20, FrameLoc (off + 1))]
      else [])"

lemma grows_l4:
  assumes "laid P lay" "fst ` set lay \<inter> {13, 14, 15, 16, 19, 20} = {}"
  shows "grows off (off + len) good (l4_fields protocol off len) lay P (parse_l4 protocol off len P)"
proof -
  have k: "i \<notin> fst ` set lay" if "i \<in> {13, 14, 15, 16, 19, 20}" for i using that assms(2) by blast
  show ?thesis
    unfolding parse_l4_def l4_fields_def
    using grows_none [OF assms(1)] bind_grows [OF assms(1), of "[(13, FrameLoc off), (14, FrameLoc (off + 2))]" off "off + len" good]
      bind_grows [OF assms(1), of "[(15, FrameLoc off), (16, FrameLoc (off + 2))]" off "off + len" good]
      bind_grows [OF assms(1), of "[(19, FrameLoc off), (20, FrameLoc (off + 1))]" off "off + len" good] k
    by (simp)
qed


lemma grows_seq:
  assumes "laid P lay" "distinct (map fst new)" "list_all (\<lambda>i. i < 40 \<and> i \<notin> fst ` set lay) (map fst new)"
    "inside lo mid new" "separate new" "mid \<le> hi" "lo \<le> low" "good \<Longrightarrow> mid \<le> low"
    and rest: "\<And>P1. laid P1 (new @ lay) \<Longrightarrow> frame P1 = frame P \<Longrightarrow> grows low hi good ext (new @ lay) P1 (f P1)"
  shows "grows lo hi good (ext @ new) lay P (res_bind (bind new P) f)"
proof -
  obtain P1 where P1: "bind new P = Inr P1" "laid P1 (new @ lay)" "frame P1 = frame P" "in_port_bytes P1 = in_port_bytes P"
    using bind_laid [OF assms(1,2)] assms(3) unfolding list_all_iff list.set_map by blast
  obtain P2 where P2: "f P1 = Inr P2" "laid P2 (ext @ new @ lay)" "frame P2 = frame P1" "in_port_bytes P2 = in_port_bytes P1"
      "inside low hi ext" "good \<longrightarrow> separate ext"
    using rest [OF P1(2,3)] unfolding grows_def by blast
  have "inside lo hi (ext @ new)" using P2(5) assms(4,6,7) by (auto intro: inside_mono)
  moreover have "good \<longrightarrow> separate (ext @ new)" using P2(5,6) assms(4,5,8) separate_append by blast
  ultimately show ?thesis using P1 P2 unfolding grows_def by (intro exI [of _ P2]) simp
qed

definition ihl_good :: "u16 \<Rightarrow> nat \<Rightarrow> PacketParser \<Rightarrow> bool" where
  "ihl_good ethertype off P \<longleftrightarrow>
     (ethertype = 0x0800 \<and> off + 20 \<le> length (frame P) \<longrightarrow> 5 \<le> ihl (frame P ! off))"

definition ipv4_fields :: "u8 list \<Rightarrow> nat \<Rightarrow> nat \<Rightarrow> layout" where
  "ipv4_fields bytes off len =
     (if 20 \<le> len then
        (if len > ihl (bytes ! off) * 4 then l4_fields (bytes ! (off + 9)) (off + ihl (bytes ! off) * 4) (len - ihl (bytes ! off) * 4) else []) @
        [(10, FrameLoc (off + 9)), (11, FrameLoc (off + 12)), (12, FrameLoc (off + 16))]
      else [])"

lemma grows_ipv4:
  assumes "laid P lay" "fst ` set lay \<subseteq> {0, 3, 4, 5, 6}" "off + len = length (frame P)"
  shows "grows off (off + len) (ihl_good 0x0800 off P) (ipv4_fields (frame P) off len) lay P (parse_ipv4 off len P)"
proof (cases "20 \<le> len")
  case False
  then show ?thesis using assms(1) by (simp add: parse_ipv4_def ipv4_fields_def grows_none)
next
  case True
  let ?new = "[(10, FrameLoc (off + 9)), (11, FrameLoc (off + 12)), (12, FrameLoc (off + 16))]"
  let ?h = "ihl (frame P ! off) * 4"
  have k: "i \<notin> fst ` set lay" if "i \<notin> {0, 3, 4, 5, 6}" for i using that assms(2) by blast
  let ?l4 = "if len > ?h then l4_fields (frame P ! (off + 9)) (off + ?h) (len - ?h) else []"
  have "grows off (off + len) (ihl_good 0x0800 off P) (?l4 @ ?new) lay P (res_bind (bind ?new P) (\<lambda>P1.
      if len > ?h then parse_l4 (frame P ! (off + 9)) (off + ?h) (len - ?h) P1 else Inr P1))"
  proof (rule grows_seq [OF assms(1), where mid = "off + 20" and low = "off + ?h"])
    show "off + 20 \<le> off + ?h" if "ihl_good 0x0800 off P" using that True assms(3) by (simp add: ihl_good_def)
    fix P1 assume P1: "laid P1 (?new @ lay)"
    then show "grows (off + ?h) (off + len) (ihl_good 0x0800 off P) ?l4 (?new @ lay) P1
        (if len > ?h then parse_l4 (frame P ! (off + 9)) (off + ?h) (len - ?h) P1 else Inr P1)"
      using grows_l4 [OF P1, where off = "off + ?h" and len = "len - ?h"] k by (auto simp: grows_none)
  qed (use k True in simp_all)
  moreover have "parse_ipv4 off len P = res_bind (bind ?new P) (\<lambda>P1.
      if len > ?h then parse_l4 (frame P ! (off + 9)) (off + ?h) (len - ?h) P1 else Inr P1)"
    using True assms(3) by (auto simp: parse_ipv4_def byte_at_def dest!: bind_frame intro!: res_bind_cong)
  moreover have "ipv4_fields (frame P) off len = ?l4 @ ?new" using True by (simp add: ipv4_fields_def)
  ultimately show ?thesis by metis
qed

definition ipv6_fields :: "u8 list \<Rightarrow> nat \<Rightarrow> nat \<Rightarrow> layout" where
  "ipv6_fields bytes off len =
     (if len > 40 then l4_fields (bytes ! (off + 6)) (off + 40) (len - 40) else []) @
     [(26, FrameLoc (off + 8)), (27, FrameLoc (off + 24)), (10, FrameLoc (off + 6))]"

lemma grows_ipv6:
  assumes "laid P lay" "fst ` set lay \<subseteq> {0, 3, 4, 5, 6}" "off + len = length (frame P)" "40 \<le> len"
  shows "grows off (off + len) good (ipv6_fields (frame P) off len) lay P (parse_ipv6 off len P)"
proof -
  let ?new = "[(26, FrameLoc (off + 8)), (27, FrameLoc (off + 24)), (10, FrameLoc (off + 6))]"
  have k: "i \<notin> fst ` set lay" if "i \<notin> {0, 3, 4, 5, 6}" for i using that assms(2) by blast
  have "grows off (off + len) good (ipv6_fields (frame P) off len) lay P (res_bind (bind ?new P) (\<lambda>P1.
      if len > 40 then parse_l4 (frame P ! (off + 6)) (off + 40) (len - 40) P1 else Inr P1))"
    unfolding ipv6_fields_def
  proof (rule grows_seq [OF assms(1), where mid = "off + 40" and low = "off + 40"])
    fix P1 assume P1: "laid P1 (?new @ lay)"
    then show "grows (off + 40) (off + len) good (if len > 40 then l4_fields (frame P ! (off + 6)) (off + 40) (len - 40) else []) (?new @ lay) P1
        (if len > 40 then parse_l4 (frame P ! (off + 6)) (off + 40) (len - 40) P1 else Inr P1)"
      using grows_l4 [OF P1, where off = "off + 40" and len = "len - 40"] k by (auto simp: grows_none)
  qed (use k assms(4) in simp_all)
  moreover have "parse_ipv6 off len P = res_bind (bind ?new P) (\<lambda>P1.
      if len > 40 then parse_l4 (frame P ! (off + 6)) (off + 40) (len - 40) P1 else Inr P1)"
    using assms(3,4) by (auto simp: parse_ipv6_def byte_at_def dest!: bind_frame intro!: res_bind_cong)
  ultimately show ?thesis by simp
qed

definition be16 :: "u8 list \<Rightarrow> nat \<Rightarrow> u16" where
  "be16 bytes i = word_cat (bytes ! i) (bytes ! (i + 1))"

lemma u16_at_frame: "i + 1 < length (frame P) \<Longrightarrow> u16_at i P = Inr (be16 (frame P) i)"
  by (simp add: u16_at_def byte_at_def be16_def)

definition arp_fields :: "u8 list \<Rightarrow> nat \<Rightarrow> nat \<Rightarrow> layout" where
  "arp_fields bytes off len =
     (if 28 \<le> len \<and> be16 bytes off = 1 \<and> be16 bytes (off + 2) = 0x0800 \<and> bytes ! (off + 4) = 6 \<and> bytes ! (off + 5) = 4
      then [(21, FrameLoc (off + 6)), (24, FrameLoc (off + 8)), (25, FrameLoc (off + 18)), (22, FrameLoc (off + 14)), (23, FrameLoc (off + 24))]
      else [])"

lemma grows_arp:
  assumes "laid P lay" "fst ` set lay \<subseteq> {0, 3, 4, 5, 6}" "off + len = length (frame P)"
  shows "grows off (off + len) good (arp_fields (frame P) off len) lay P (parse_arp off len P)"
proof (cases "28 \<le> len")
  case False
  then show ?thesis using assms(1) by (simp add: parse_arp_def arp_fields_def grows_none)
next
  case True
  have k: "i \<notin> fst ` set lay" if "i \<notin> {0, 3, 4, 5, 6}" for i using that assms(2) by blast
  let ?new = "[(21, FrameLoc (off + 6)), (24, FrameLoc (off + 8)), (25, FrameLoc (off + 18)), (22, FrameLoc (off + 14)), (23, FrameLoc (off + 24))]"
  have "grows off (off + len) good ?new lay P (bind ?new P)"
    using k True by (intro bind_grows [OF assms(1)]) simp_all
  then show ?thesis using True assms(3) grows_none [OF assms(1)]
    by (simp add: parse_arp_def arp_fields_def u16_at_frame byte_at_def)
qed

definition l3_fields :: "u16 \<Rightarrow> u8 list \<Rightarrow> nat \<Rightarrow> nat \<Rightarrow> layout" where
  "l3_fields ethertype bytes off len =
     (if ethertype = 0x0800 then ipv4_fields bytes off len
      else if ethertype = 0x0806 then arp_fields bytes off len
      else if ethertype = 0x86dd then ipv6_fields bytes off len
      else [])"

lemma grows_l3:
  assumes "laid P lay" "fst ` set lay \<subseteq> {0, 3, 4, 5, 6}" "off + len = length (frame P)"
  shows "if ethertype = 0x86dd \<and> len < 40 then parse_l3 ethertype off len P = Inl nullptr_dereference
         else grows off (off + len) (ihl_good ethertype off P) (l3_fields ethertype (frame P) off len) lay P (parse_l3 ethertype off len P)"
  using grows_ipv4 [OF assms] grows_ipv6 [OF assms] grows_arp [OF assms] grows_none [OF assms(1)]
  by (auto simp: parse_l3_def l3_fields_def) (auto simp: parse_ipv6_def)


subsection \<open>The constructor\<close>

definition vlan_tagged :: "u8 list \<Rightarrow> bool" where
  "vlan_tagged bytes \<longleftrightarrow> be16 bytes 12 = 0x8100"

definition l3_offset :: "u8 list \<Rightarrow> nat" where
  "l3_offset bytes = (if vlan_tagged bytes then 18 else 14)"

definition ether_type :: "u8 list \<Rightarrow> u16" where
  "ether_type bytes = be16 bytes (l3_offset bytes - 2)"

definition short_ipv6 :: "u8 list \<Rightarrow> bool" where
  "short_ipv6 bytes \<longleftrightarrow> l3_offset bytes \<le> length bytes \<and> ether_type bytes = 0x86dd \<and> length bytes < l3_offset bytes + 40"

definition short_ihl :: "u8 list \<Rightarrow> bool" where
  "short_ihl bytes \<longleftrightarrow> l3_offset bytes + 20 \<le> length bytes \<and> ether_type bytes = 0x0800 \<and> ihl (bytes ! l3_offset bytes) < 5"

definition l2_fields :: "u8 list \<Rightarrow> layout" where
  "l2_fields bytes =
     (if vlan_tagged bytes then [(5, FrameLoc 16), (4, FrameLoc 6), (3, FrameLoc 0), (6, FrameLoc 14)]
      else [(5, FrameLoc 12), (4, FrameLoc 6), (3, FrameLoc 0)])"

lemma parse_l2_eq:
  assumes "l3_offset (frame P) \<le> length (frame P)"
  shows "parse_l2 (length (frame P)) P = res_bind (bind (l2_fields (frame P)) P) (\<lambda>P1.
           parse_l3 (ether_type (frame P)) (l3_offset (frame P)) (length (frame P) - l3_offset (frame P)) P1)"
  using assms
  by (auto simp: parse_l2_def u16_at_frame l3_offset_def vlan_tagged_def ether_type_def l2_fields_def dest!: bind_frame
      intro!: res_bind_cong split: if_splits)

definition parsed_fields :: "u8 list \<Rightarrow> layout" where
  "parsed_fields bytes =
     (if 14 \<le> length bytes \<and> l3_offset bytes \<le> length bytes
      then l3_fields (ether_type bytes) bytes (l3_offset bytes) (length bytes - l3_offset bytes) @ l2_fields bytes
      else [])"

lemma grows_l2:
  assumes P: "laid P [(0, PortLoc)]" and short: "\<not> (14 \<le> length (frame P) \<and> short_ipv6 (frame P))"
  shows "grows 0 (length (frame P)) (\<not> short_ihl (frame P)) (parsed_fields (frame P)) [(0, PortLoc)] P (parse_l2 (length (frame P)) P)"
proof (cases "14 \<le> length (frame P)")
  case False
  then show ?thesis using P by (simp add: parse_l2_def parsed_fields_def grows_none)
next
  case len: True
  let ?n = "length (frame P)" and ?new = "l2_fields (frame P)"
  let ?off = "l3_offset (frame P)" and ?good = "\<not> short_ihl (frame P)"
  show ?thesis
  proof (cases "?off \<le> ?n")
    case False
    then have "parse_l2 ?n P = Inr P"
      using len by (auto simp: parse_l2_def u16_at_frame l3_offset_def vlan_tagged_def parse_l3_def split: if_splits)
    then show ?thesis using P False by (simp add: parsed_fields_def grows_none)
  next
    case True
    let ?l3 = "l3_fields (ether_type (frame P)) (frame P) ?off (?n - ?off)"
    have "grows 0 ?n ?good (?l3 @ ?new) [(0, PortLoc)] P (res_bind (bind ?new P) (\<lambda>P1. parse_l3 (ether_type (frame P)) ?off (?n - ?off) P1))"
    proof (rule grows_seq [OF P, where mid = ?off and low = ?off])
      fix P1 assume P1: "laid P1 (?new @ [(0, PortLoc)])" "frame P1 = frame P"
      then have "grows ?off ?n (ihl_good (ether_type (frame P)) ?off P1) ?l3 (?new @ [(0, PortLoc)]) P1
          (parse_l3 (ether_type (frame P)) ?off (?n - ?off) P1)"
        using grows_l3 [OF P1(1), of ?off "?n - ?off" "ether_type (frame P)"] True short len
        by (auto simp: short_ipv6_def l2_fields_def split: if_splits)
      moreover have "ihl_good (ether_type (frame P)) ?off P1 = ?good" if "ether_type (frame P) = 0x0800"
        using that True P1(2) by (auto simp: ihl_good_def short_ihl_def)
      moreover have ?good "ihl_good (ether_type (frame P)) ?off P1" if "ether_type (frame P) \<noteq> 0x0800"
        using that by (auto simp: ihl_good_def short_ihl_def)
      ultimately show "grows ?off ?n ?good ?l3 (?new @ [(0, PortLoc)]) P1 (parse_l3 (ether_type (frame P)) ?off (?n - ?off) P1)"
        by (cases "ether_type (frame P) = 0x0800") auto
    qed (use True in \<open>simp_all add: l3_offset_def l2_fields_def\<close>)
    then show ?thesis using parse_l2_eq [OF True] True len by (simp add: parsed_fields_def)
  qed
qed


lemma l2_short_ipv6:
  assumes P: "laid P [(0, PortLoc)]" and short: "short_ipv6 (frame P)"
  shows "parse_l2 (length (frame P)) P = Inl nullptr_dereference"
proof -
  have off: "l3_offset (frame P) \<le> length (frame P)" using short by (simp add: short_ipv6_def)
  obtain P1 where "bind (l2_fields (frame P)) P = Inr P1"
    using bind_grows [OF P, of "l2_fields (frame P)" 0 18 True]
    by (cases "vlan_tagged (frame P)") (auto simp: grows_def l2_fields_def)
  moreover have "\<not> 40 \<le> length (frame P) - l3_offset (frame P)" using short unfolding short_ipv6_def by linarith
  ultimately show ?thesis using short parse_l2_eq [OF off] by (simp add: short_ipv6_def parse_l3_def parse_ipv6_def)
qed

lemma apart_sym: "apart x y \<Longrightarrow> apart y x"
  by (cases x rule: prod.exhaust; cases y rule: prod.exhaust; cases "fst x"; cases "fst y") auto

lemma separate_entries:
  assumes "separate lay" "(i, l) \<in> set lay" "(j, k) \<in> set lay" "i \<noteq> j"
  shows "apart (l, fsize i) (k, fsize j)"
proof -
  obtain a b where ab: "a < length lay" "b < length lay" "lay ! a = (i, l)" "lay ! b = (j, k)"
    using assms(2,3) by (metis in_set_conv_nth)
  then have "a \<noteq> b" using assms(4) by auto
  then consider "a < b" | "b < a" by linarith
  then show ?thesis
    using assms(1) ab apart_sym unfolding separate_def sorted_wrt_iff_nth_less by cases fastforce+
qed

lemma basic_distinct: "wf_type t \<Longrightarrow> wf_type t' \<Longrightarrow> t \<noteq> t' \<Longrightarrow> unat (tid t) \<noteq> unat (tid t')"
  using type_eq_basic [of t t'] basic_ids by (auto simp: type_eq_def word_unat_eq_iff)

lemma laid_bound: "laid P lay \<Longrightarrow> wf_type t \<Longrightarrow> bound P t = Some l \<Longrightarrow> (unat (tid t), l) \<in> set lay"
  using basic_ids [of t] map_of_SomeD [of lay "unat (tid t)" l] by (simp add: laid_def bound_def)

lemma laid_ok:
  assumes "laid P (ext @ [(0, PortLoc)])" "inside 0 (length (frame P)) ext" "length (in_port_bytes P) = 4"
  shows "range_ok P" "separate ext \<Longrightarrow> layout_ok P"
proof -
  have e: "(unat (tid t), l) \<in> set ext \<or> unat (tid t) = 0 \<and> l = PortLoc" if "wf_type t" "bound P t = Some l" for t l
    using laid_bound [OF assms(1) that] by auto
  show r: "range_ok P"
    unfolding range_ok_def
  proof (intro conjI allI impI)
    show "length (bindings P) = 40" using assms(1) by (simp add: laid_def)
    fix t l assume t: "wf_type t" "bound P t = Some l"
    from e [OF t] show "in_range l (nbytes t) P"
      using assms(2,3) fsize_type [OF t(1)] by (fastforce simp: in_range_def inside_def)
  qed
  assume sep: "separate ext"
  then have sep: "separate (ext @ [(0, PortLoc)])" using assms(2) separate_port by blast
  show "layout_ok P"
    unfolding layout_ok_def
    using r separate_entries [OF sep laid_bound [OF assms(1)] laid_bound [OF assms(1)]] fsize_type basic_distinct by metis
qed

lemma new_PacketParser_ok:
  "\<not> (14 \<le> length bytes \<and> short_ipv6 bytes) \<Longrightarrow>
     \<exists>P. new_PacketParser (Some bytes) pp fp port = Inr P \<and> frame P = bytes \<and> range_ok P \<and> (\<not> short_ihl bytes \<longrightarrow> layout_ok P) \<and>
       laid P (parsed_fields bytes @ [(0, PortLoc)]) \<and> in_port_bytes P = big_endian port"
  "14 \<le> length bytes \<Longrightarrow> short_ipv6 bytes \<Longrightarrow> new_PacketParser (Some bytes) pp fp port = Inl nullptr_dereference"
proof -
  let ?P = "\<lparr>data = Some bytes, in_port_bytes = big_endian port, port_prev = pp, frame_prev = fp, bindings = replicate 40 None\<rparr>"
  have "laid ?P []" by (simp add: laid_def)
  then obtain P where P: "bind [(0, PortLoc)] ?P = Inr P" "laid P [(0, PortLoc)]" "frame P = bytes"
      "in_port_bytes P = big_endian port"
    using bind_laid [of ?P "[]" "[(0, PortLoc)]"] by (auto simp: frame_def)
  have new: "new_PacketParser (Some bytes) pp fp port = parse_l2 (length bytes) P"
    using P(1) by (simp add: new_PacketParser_def)
  show "14 \<le> length bytes \<Longrightarrow> short_ipv6 bytes \<Longrightarrow> new_PacketParser (Some bytes) pp fp port = Inl nullptr_dereference"
    using l2_short_ipv6 [OF P(2)] P(3) new by simp
  assume "\<not> (14 \<le> length bytes \<and> short_ipv6 bytes)"
  then obtain P' where P': "parse_l2 (length bytes) P = Inr P'" "laid P' (parsed_fields bytes @ [(0, PortLoc)])" "frame P' = bytes"
      "in_port_bytes P' = big_endian port" "inside 0 (length bytes) (parsed_fields bytes)" "\<not> short_ihl bytes \<longrightarrow> separate (parsed_fields bytes)"
    using grows_l2 [OF P(2)] P(3,4) unfolding grows_def by auto
  then show "\<exists>P. new_PacketParser (Some bytes) pp fp port = Inr P \<and> frame P = bytes \<and> range_ok P \<and> (\<not> short_ihl bytes \<longrightarrow> layout_ok P) \<and>
      laid P (parsed_fields bytes @ [(0, PortLoc)]) \<and> in_port_bytes P = big_endian port"
    using laid_ok [OF P'(2)] new by (auto simp: big_endian_def)
qed

subsection \<open>The header fields of a frame\<close>

text \<open>
  The layout of the protocol headers, without the parser: the offset of each field of the frame. A tagged Ethernet header has its
  type after the tag; the transport header follows an IPv4 header of the stated length or an IPv6 fixed header. A header
  that is cut off has no fields.
\<close>

definition transport_fields :: "int \<Rightarrow> nat \<Rightarrow> nat \<Rightarrow> (oxm_type \<times> nat) list" where
  "transport_fields protocol off len =
     (if protocol = 6 \<and> off + 20 \<le> len then [(tcp_src, off), (tcp_dst, off + 2)] else []) @
     (if protocol = 17 \<and> off + 8 \<le> len then [(udp_src, off), (udp_dst, off + 2)] else []) @
     (if protocol = 1 \<and> off + 4 \<le> len then [(icmp_type, off), (icmp_code, off + 1)] else [])"

definition network_fields :: "u8 list \<Rightarrow> int \<Rightarrow> nat \<Rightarrow> (oxm_type \<times> nat) list" where
  "network_fields bytes type off =
     (if type = 0x0800 \<and> off + 20 \<le> length bytes then
        [(ip_proto, off + 9), (ipv4_src, off + 12), (ipv4_dst, off + 16)] @
        transport_fields (uint (bytes ! (off + 9))) (off + 4 * (unat (bytes ! off) mod 16)) (length bytes)
      else if type = 0x86dd \<and> off + 40 \<le> length bytes then
        [(ip_proto, off + 6), (ipv6_src, off + 8), (ipv6_dst, off + 24)] @
        transport_fields (uint (bytes ! (off + 6))) (off + 40) (length bytes)
      else if type = 0x0806 \<and> off + 28 \<le> length bytes \<and> take 6 (drop off bytes) = [0, 1, 8, 0, 6, 4] then
        [(arp_op, off + 6), (arp_sha, off + 8), (arp_spa, off + 14), (arp_tha, off + 18), (arp_tpa, off + 24)]
      else [])"

text \<open>The number in the bytes from an offset on, the most significant byte first.\<close>

definition number_at :: "u8 list \<Rightarrow> nat \<Rightarrow> nat \<Rightarrow> int" where
  "number_at bytes off n = foldl (\<lambda>v b. 256 * v + uint b) 0 (take n (drop off bytes))"

definition header_fields :: "u8 list \<Rightarrow> (oxm_type \<times> nat) list" where
  "header_fields bytes =
     (if 18 \<le> length bytes \<and> number_at bytes 12 2 = 0x8100 then
        [(eth_dst, 0), (eth_src, 6), (vlan_vid, 14), (eth_type, 16)] @ network_fields bytes (number_at bytes 16 2) 18
      else if 14 \<le> length bytes \<and> number_at bytes 12 2 \<noteq> 0x8100 then
        [(eth_dst, 0), (eth_src, 6), (eth_type, 12)] @ network_fields bytes (number_at bytes 12 2) 14
      else [])"

text \<open>The packet in a frame: each field has the number in its bytes, up to its width in bits.\<close>

definition header_view :: "u8 list \<Rightarrow> u32 \<Rightarrow> packet" where
  "header_view bytes port t =
     (if t = in_port then Some (uint port)
      else map_option (\<lambda>off. number_at bytes off (nbytes t) mod 2 ^ nbits t) (map_of (header_fields bytes) t))"

lemma of_blocks_number: "of_blocks (rev bs) = foldl (\<lambda>v b. 256 * v + uint b) 0 bs"
proof (induction bs rule: rev_induct)
  case (snoc b bs)
  have "uint b OR push_bit 8 x = uint b + push_bit 8 x" for x :: int
  proof (rule disjunctive_add [symmetric])
    show "\<not> bit (uint b) i \<or> \<not> bit (push_bit 8 x) i" for i
      using bit_imp_le_length [of b i] by (auto simp: bit_uint_iff bit_push_bit_iff)
  qed
  then show ?case using snoc by (simp add: push_bit_eq_mult)
qed simp

lemma uint_be16: "uint (be16 bytes i) = 256 * uint (bytes ! i) + uint (bytes ! (i + 1))"
proof -
  have "uint (word_cat a b :: u16) = 256 * uint a + uint b" for a b :: u8
  proof -
    have "uint (word_cat a b :: u16) = (256 * uint a + uint b) mod 65536"
      unfolding word_cat_eq' concat_bit_eq uint_word_of_int using uint_lt2p [of b] by (simp add: push_bit_eq_mult take_bit_eq_mod add.commute mult.commute)
    also have "\<dots> = 256 * uint a + uint b"
    proof (rule mod_pos_pos_trivial)
      have "uint a < 256" "uint b < 256" using uint_lt2p [of a] uint_lt2p [of b] by simp_all
      then show "256 * uint a + uint b < 65536" by linarith
    qed simp
    finally show ?thesis .
  qed
  then show ?thesis by (simp add: be16_def)
qed

lemma number_two: "i + 1 < length bytes \<Longrightarrow> number_at bytes i 2 = uint (be16 bytes i)"
proof -
  assume i: "i + 1 < length bytes"
  have "take 2 (drop i bytes) = [bytes ! i, bytes ! (i + 1)]"
    using i by (simp add: numeral_2_eq_2 take_Suc_conv_app_nth)
  then show ?thesis by (simp add: number_at_def uint_be16)
qed

abbreviation place :: "oxm_type \<times> nat \<Rightarrow> nat \<times> loc" where
  "place \<equiv> \<lambda>(t, off). (unat (tid t), FrameLoc off)"

lemma field_ids [simp]:
  "unat (tid in_port) = 0" "unat (tid eth_dst) = 3" "unat (tid eth_src) = 4" "unat (tid eth_type) = 5" "unat (tid vlan_vid) = 6"
  "unat (tid ip_proto) = 10" "unat (tid ipv4_src) = 11" "unat (tid ipv4_dst) = 12" "unat (tid tcp_src) = 13" "unat (tid tcp_dst) = 14"
  "unat (tid udp_src) = 15" "unat (tid udp_dst) = 16" "unat (tid icmp_type) = 19" "unat (tid icmp_code) = 20" "unat (tid arp_op) = 21"
  "unat (tid arp_spa) = 22" "unat (tid arp_tpa) = 23" "unat (tid arp_sha) = 24" "unat (tid arp_tha) = 25" "unat (tid ipv6_src) = 26"
  "unat (tid ipv6_dst) = 27"
  by code_simp+

lemma transport_places: "l4_fields protocol off len = map place (transport_fields (uint protocol) off (off + len))"
proof -
  have "protocol = 6 \<longleftrightarrow> uint protocol = 6" "protocol = 17 \<longleftrightarrow> uint protocol = 17" "protocol = 1 \<longleftrightarrow> uint protocol = 1"
    by (simp_all add: word_uint_eq_iff)
  then show ?thesis unfolding l4_fields_def transport_fields_def by simp
qed

text \<open>What the parser binds is the header layout.\<close>

lemma arp_prefix:
  assumes "off + 28 \<le> length bytes"
  shows "take 6 (drop off bytes) = [0, 1, 8, 0, 6, 4] \<longleftrightarrow>
     be16 bytes off = 1 \<and> be16 bytes (off + 2) = 0x0800 \<and> bytes ! (off + 4) = 6 \<and> bytes ! (off + 5) = 4"
proof -
  have six: "take 6 (drop off bytes) = [bytes ! off, bytes ! (off + 1), bytes ! (off + 2), bytes ! (off + 3), bytes ! (off + 4), bytes ! (off + 5)]"
    using assms by (simp add: numeral_eq_Suc take_Suc_conv_app_nth)
  have be: "be16 bytes i = w \<longleftrightarrow> 256 * uint (bytes ! i) + uint (bytes ! (i + 1)) = uint w" for i w
    unfolding word_uint_eq_iff uint_be16 ..
  have lt: "0 \<le> uint x" "uint x < 256" for x :: u8 using uint_lt2p [of x] by simp_all
  have pair: "256 * a + b = 1 \<longleftrightarrow> a = 0 \<and> b = 1" "256 * a + b = 2048 \<longleftrightarrow> a = 8 \<and> b = 0" if "0 \<le> a" "0 \<le> b" "b < 256" for a b :: int
    using that by presburger+
  have "be16 bytes off = 1 \<longleftrightarrow> uint (bytes ! off) = 0 \<and> uint (bytes ! (off + 1)) = 1"
    unfolding be using pair(1) [OF lt(1) lt(1,2)] by simp
  moreover have "be16 bytes (off + 2) = 0x0800 \<longleftrightarrow> uint (bytes ! (off + 2)) = 8 \<and> uint (bytes ! (off + 3)) = 0"
    unfolding be using pair(2) [OF lt(1) lt(1,2)] by (simp add: numeral_3_eq_3)
  ultimately show ?thesis unfolding six by (simp add: word_uint_eq_iff [of "bytes ! _"])
qed

lemma network_places:
  assumes "off + len = length bytes" "ethertype = 0x86dd \<Longrightarrow> 40 \<le> len"
  shows "set (l3_fields ethertype bytes off len) = set (map place (network_fields bytes (uint ethertype) off))"
proof -
  have t: "ethertype = 0x0800 \<longleftrightarrow> uint ethertype = 0x0800" "ethertype = 0x0806 \<longleftrightarrow> uint ethertype = 0x0806" "ethertype = 0x86dd \<longleftrightarrow> uint ethertype = 0x86dd"
    by (simp_all add: word_uint_eq_iff)
  consider "uint ethertype = 0x0800" | "uint ethertype = 0x0806" | "uint ethertype = 0x86dd" | "uint ethertype \<notin> {0x0800, 0x0806, 0x86dd}" by auto
  then show ?thesis
  proof cases
    case 1
    let ?h = "ihl (bytes ! off) * 4"
    have "bytes ! off AND 0x0f = take_bit 4 (bytes ! off)" by (simp add: take_bit_eq_mask mask_eq_exp_minus_1)
    then have h: "?h = 4 * (unat (bytes ! off) mod 16)" by (simp add: ihl_def take_bit_eq_mod unat_mod)
    have l4: "(if ?h < len then l4_fields pr (off + ?h) (len - ?h) else []) =
        map place (transport_fields (uint pr) (off + 4 * (unat (bytes ! off) mod 16)) (length bytes))" for pr
      unfolding h [symmetric] using assms(1) by (auto simp: transport_places) (simp add: transport_fields_def)
    have e: "ethertype = 0x0800" "20 \<le> len \<longleftrightarrow> off + 20 \<le> length bytes" using 1 t assms(1) by auto
    show ?thesis using 1 by (cases "off + 20 \<le> length bytes") (simp_all add: l3_fields_def ipv4_fields_def l4 e network_fields_def insert_commute)
  next
    case 2
    have e: "ethertype = 0x0806" "28 \<le> len \<longleftrightarrow> off + 28 \<le> length bytes" using 2 t assms(1) by auto
    show ?thesis
    proof (cases "off + 28 \<le> length bytes \<and> take 6 (drop off bytes) = [0, 1, 8, 0, 6, 4]")
      case True
      then show ?thesis using 2 arp_prefix [of off bytes] by (simp add: l3_fields_def arp_fields_def network_fields_def e insert_commute)
    next
      case False
      then have "arp_fields bytes off len = []" using e(2) arp_prefix [of off bytes] unfolding arp_fields_def by presburger
      moreover have "network_fields bytes (uint ethertype) off = []" using 2 False unfolding network_fields_def by auto
      ultimately show ?thesis by (simp add: l3_fields_def e(1))
    qed
  next
    case 3
    have l4: "(if 40 < len then l4_fields pr (off + 40) (len - 40) else []) = map place (transport_fields (uint pr) (off + 40) (length bytes))" for pr
      using assms(1) by (auto simp: transport_places) (simp add: transport_fields_def)
    have e: "ethertype = 0x86dd" "off + 40 \<le> length bytes" using 3 t assms by auto
    show ?thesis using 3 by (simp add: l3_fields_def ipv6_fields_def l4 e network_fields_def insert_commute)
  qed (use t in \<open>simp add: l3_fields_def network_fields_def\<close>)
qed

lemma header_places:
  assumes "\<not> (14 \<le> length bytes \<and> short_ipv6 bytes)"
  shows "set (parsed_fields bytes) = set (map place (header_fields bytes))"
proof (cases "14 \<le> length bytes \<and> l3_offset bytes \<le> length bytes")
  case False
  then show ?thesis
    using number_two [of 12 bytes] by (auto simp: parsed_fields_def header_fields_def l3_offset_def vlan_tagged_def word_uint_eq_iff split: if_splits)
next
  case True
  have len: "ether_type bytes = 0x86dd \<Longrightarrow> 40 \<le> length bytes - l3_offset bytes" using assms True by (auto simp: short_ipv6_def)
  have vl: "vlan_tagged bytes \<longleftrightarrow> number_at bytes 12 2 = 0x8100" using True by (simp add: vlan_tagged_def number_two word_uint_eq_iff)
  have ty: "uint (ether_type bytes) = number_at bytes (l3_offset bytes - 2) 2"
    using True number_two [of 16 bytes] number_two [of 12 bytes] by (auto simp: ether_type_def l3_offset_def split: if_splits)
  have net: "set (l3_fields (ether_type bytes) bytes (l3_offset bytes) (length bytes - l3_offset bytes)) =
      set (map place (network_fields bytes (number_at bytes (l3_offset bytes - 2) 2) (l3_offset bytes)))"
    unfolding ty [symmetric] using True len by (intro network_places) auto
  show ?thesis
  proof (cases "vlan_tagged bytes")
    case v: True
    then show ?thesis using True net vl by (auto simp: parsed_fields_def header_fields_def l2_fields_def l3_offset_def)
  next
    case v: False
    then show ?thesis using True net vl by (auto simp: parsed_fields_def header_fields_def l2_fields_def l3_offset_def)
  qed
qed

lemma transport_ids [simp]:
  "distinct (map fst (l4_fields protocol off len))" "distinct (map (\<lambda>x. fst (place x)) (transport_fields pr off len))"
  "fst ` set (transport_fields pr off len) \<subseteq> set basic_types"
  "n \<notin> {13, 14, 15, 16, 19, 20} \<Longrightarrow> n \<notin> fst ` set (l4_fields protocol off len)"
  "n \<notin> {13, 14, 15, 16, 19, 20} \<Longrightarrow> n \<notin> (\<lambda>x. fst (place x)) ` set (transport_fields pr off len)"
  by (auto simp: l4_fields_def transport_fields_def basic_types_def split: if_splits)

lemma network_ids [simp]:
  "distinct (map fst (l3_fields type bytes off len))" "distinct (map (\<lambda>x. fst (place x)) (network_fields bytes ty off))"
  "fst ` set (network_fields bytes ty off) \<subseteq> set basic_types"
  "n < 10 \<Longrightarrow> n \<notin> fst ` set (l3_fields type bytes off len)"
  "n < 10 \<Longrightarrow> n \<notin> (\<lambda>x. fst (place x)) ` set (network_fields bytes ty off)"
proof -
  have b: "{ip_proto, ipv4_src, ipv4_dst, ipv6_src, ipv6_dst, arp_op, arp_sha, arp_spa, arp_tha, arp_tpa} \<subseteq> set basic_types"
    by (simp add: basic_types_def)
  show "distinct (map fst (l3_fields type bytes off len))"
    by (simp add: l3_fields_def ipv4_fields_def ipv6_fields_def arp_fields_def)
  show "distinct (map (\<lambda>x. fst (place x)) (network_fields bytes ty off))"
    by (simp add: network_fields_def)
  show "fst ` set (network_fields bytes ty off) \<subseteq> set basic_types"
    using b transport_ids(3) unfolding image_subset_iff by (auto simp: network_fields_def split: if_splits)
  show "n \<notin> fst ` set (l3_fields type bytes off len)" if n: "n < 10"
  proof -
    have "list_all (\<lambda>x. fst x \<noteq> n) (l4_fields pr o3 k)" for pr o3 k
    proof -
      have "n \<notin> {13, 14, 15, 16, 19, 20}" using n by auto
      then show ?thesis unfolding list_all_iff using transport_ids(4) by blast
    qed
    then have "list_all (\<lambda>x. fst x \<noteq> n) (l3_fields type bytes off len)"
      using n by (simp add: l3_fields_def ipv4_fields_def ipv6_fields_def arp_fields_def)
    then show ?thesis by (auto simp: list_all_iff)
  qed
  show "n \<notin> (\<lambda>x. fst (place x)) ` set (network_fields bytes ty off)" if n: "n < 10"
  proof -
    have "list_all (\<lambda>x. fst (place x) \<noteq> n) (transport_fields pr o3 k)" for pr o3 k
    proof -
      have "n \<notin> {13, 14, 15, 16, 19, 20}" using n by auto
      then show ?thesis unfolding list_all_iff using transport_ids(5) by blast
    qed
    then have "list_all (\<lambda>x. fst (place x) \<noteq> n) (network_fields bytes ty off)" using n by (simp add: network_fields_def)
    then show ?thesis by (auto simp: list_all_iff)
  qed
qed

lemma layout_distinct:
  "distinct (map fst (parsed_fields bytes))" "distinct (map fst (map place (header_fields bytes)))"
  "set (map fst (header_fields bytes)) \<subseteq> set basic_types" "in_port \<notin> set (map fst (header_fields bytes))"
proof -
  show "distinct (map fst (parsed_fields bytes))" by (simp add: parsed_fields_def l2_fields_def)
  show "distinct (map fst (map place (header_fields bytes)))" by (simp add: header_fields_def comp_def)
  have "{eth_dst, eth_src, vlan_vid, eth_type} \<subseteq> set basic_types" by (simp add: basic_types_def)
  moreover have "list_all (\<lambda>x. fst x \<in> set basic_types) (network_fields bytes ty off)" for ty off
    using network_ids(3) unfolding image_subset_iff list_all_iff .
  ultimately have "list_all (\<lambda>x. fst x \<in> set basic_types) (header_fields bytes)" by (simp add: header_fields_def)
  then show "set (map fst (header_fields bytes)) \<subseteq> set basic_types" by (auto simp: list_all_iff)
  have "list_all (\<lambda>x. fst (place x) \<noteq> 0) (network_fields bytes ty off)" for ty off
  proof -
    have "(0 :: nat) < 10" by simp
    then show ?thesis unfolding list_all_iff using network_ids(5) by (metis imageI)
  qed
  then have "list_all (\<lambda>x. fst (place x) \<noteq> 0) (header_fields bytes)" by (simp add: header_fields_def)
  then have "0 \<notin> (\<lambda>x. fst (place x)) ` set (header_fields bytes)" by (auto simp: list_all_iff)
  then show "in_port \<notin> set (map fst (header_fields bytes))" by force
qed

lemma map_of_place:
  assumes "set (map fst xs) \<subseteq> set basic_types" "wf_type t"
  shows "map_of (map place xs) (unat (tid t)) = map_option FrameLoc (map_of xs t)"
  using assms(1)
proof (induction xs)
  case (Cons x xs)
  obtain u off where x: "x = (u, off)" by fastforce
  have "unat (tid u) = unat (tid t) \<longleftrightarrow> u = t" using Cons.prems assms(2) basic_distinct [of u t] x by (auto simp: wf_type_def)
  then show ?case using Cons x by auto
qed simp

lemma header_bound:
  assumes "\<not> (14 \<le> length bytes \<and> short_ipv6 bytes)" "laid P (parsed_fields bytes @ [(0, PortLoc)])" "wf_type t"
  shows "bound P t = (if t = in_port then Some PortLoc else map_option FrameLoc (map_of (header_fields bytes) t))"
proof -
  have "map_of (parsed_fields bytes) = map_of (map place (header_fields bytes))"
    using header_places [OF assms(1)] layout_distinct(1,2) map_of_inject_set by blast
  then have m: "map_of (parsed_fields bytes) (unat (tid t)) = map_option FrameLoc (map_of (header_fields bytes) t)"
    using map_of_place [OF layout_distinct(3) assms(3)] by simp
  have "wf_type in_port" by (simp add: wf_type_def basic_types_def)
  then have "unat (tid t) = 0 \<longleftrightarrow> t = in_port" using basic_distinct [OF assms(3), of in_port] field_ids(1) by metis
  moreover have "map_of (header_fields bytes) in_port = None" using layout_distinct(4) by (simp add: map_of_eq_None_iff)
  ultimately show ?thesis using assms(2) basic_ids [OF assms(3)] m
    by (auto simp: bound_def laid_def map_add_def split: option.splits)
qed

lemma big_endian_number: "of_blocks (rev (big_endian w)) = uint w"
proof -
  have "bit (of_blocks (rev (big_endian w))) i \<longleftrightarrow> bit (uint w) i" for i
  proof (cases "i < 32")
    case True
    then have "i div 8 \<in> {0, 1, 2, 3}" by auto
    then have k: "rev (big_endian w) ! (i div 8) = ucast (drop_bit (8 * (i div 8)) w)" by (auto simp: big_endian_def)
    have "i div 8 < length (rev (big_endian w))" using True by (simp add: big_endian_def less_mult_imp_div_less)
    then have "bit (of_blocks (rev (big_endian w))) i \<longleftrightarrow> bit (rev (big_endian w) ! (i div 8)) (i mod 8)"
      unfolding bit_of_blocks by blast
    also have "\<dots> \<longleftrightarrow> bit w (8 * (i div 8) + i mod 8)" unfolding k using True by (simp add: bit_simps)
    finally show ?thesis using True by (simp add: bit_uint_iff)
  next
    case False
    then have "\<not> i div 8 < 4" by linarith
    then have "\<not> i div 8 < length (rev (big_endian w))" by (simp add: big_endian_def)
    then show ?thesis unfolding bit_of_blocks using False by (simp add: bit_uint_iff)
  qed
  then show ?thesis by (rule bit_eqI)
qed

text \<open>The parser shows the header fields of its frame.\<close>

lemma parser_header_view:
  assumes "\<not> (14 \<le> length bytes \<and> short_ipv6 bytes)" "laid P (parsed_fields bytes @ [(0, PortLoc)])" "frame P = bytes"
    "in_port_bytes P = big_endian port"
  shows "parser_view P = header_view bytes port"
proof
  fix t
  show "parser_view P t = header_view bytes port t"
  proof (cases "wf_type t")
    case False
    then have "t \<noteq> in_port" "map_of (header_fields bytes) t = None"
      using layout_distinct(3) [of bytes] by (auto simp: wf_type_def basic_types_def map_of_eq_None_iff)
    then show ?thesis using False by (simp add: parser_view_def header_view_def)
  next
    case True
    have port: "field_bits in_port PortLoc P = uint port"
    proof -
      have "take_bit 32 (uint port) = uint port" using uint_lt2p [of port] by (simp add: take_bit_int_eq_self)
      moreover have "take 4 (big_endian port) = big_endian port" by (simp add: big_endian_def)
      ultimately show ?thesis
        using assms(4) big_endian_number [of port] by (simp add: field_bits_def loc_bytes_def in_port_def ofb_type_def nbytes_def)
    qed
    have "field_bits t (FrameLoc off) P = number_at bytes off (nbytes t) mod 2 ^ nbits t" for off
      by (simp add: field_bits_def loc_bytes_def assms(3) of_blocks_number number_at_def take_bit_eq_mod)
    then show ?thesis using True port header_bound [OF assms(1,2) True]
      by (auto simp: parser_view_def header_view_def option.map_comp comp_def)
  qed
qed

text \<open>The bytes a read of a field touches, as positions in the copy of the input port or in the frame.\<close>

definition touched :: "loc \<Rightarrow> nat \<Rightarrow> int set" where
  "touched l n = (\<lambda>k. (case l of PortLoc \<Rightarrow> 0 | FrameLoc i \<Rightarrow> int i) + k) ` set (buffer_reads n)"

lemma touched_range:
  "touched l n = {(case l of PortLoc \<Rightarrow> 0 | FrameLoc i \<Rightarrow> int i) - 1 ..< (case l of PortLoc \<Rightarrow> 0 | FrameLoc i \<Rightarrow> int i) + int (num_blocks n)}"
proof -
  have "set (buffer_reads n) = {- 1 ..< int (num_blocks n)}"
  proof (intro equalityI subsetI)
    fix k assume "k \<in> {- 1 ..< int (num_blocks n)}"
    then have k: "k = int (nat (k + 1)) - 1" "nat (k + 1) \<in> {0 ..< num_blocks n + 1}" by auto
    then show "k \<in> set (buffer_reads n)" unfolding buffer_reads_def set_rev set_map set_upt by (rule image_eqI)
  qed (auto simp: buffer_reads_def)
  then show ?thesis unfolding touched_def by (simp add: add.commute [of _ "int _"] image_add_atLeastLessThan')
qed

lemma header_offsets: "map_of (header_fields bytes) t = Some off \<Longrightarrow> off = 0 \<longleftrightarrow> t = eth_dst"
proof -
  assume "map_of (header_fields bytes) t = Some off"
  then have m: "(t, off) \<in> set (header_fields bytes)" by (rule map_of_SomeD)
  have d: "eth_dst \<notin> {eth_src, eth_type, vlan_vid, ip_proto, ipv4_src, ipv4_dst, tcp_src, tcp_dst, udp_src, udp_dst, icmp_type, icmp_code,
      arp_op, arp_spa, arp_tpa, arp_sha, arp_tha, ipv6_src, ipv6_dst}"
    by code_simp
  have "list_all (\<lambda>(t, off). off \<noteq> 0 \<and> t \<noteq> eth_dst) (transport_fields pr o4 k)" if "0 < o4" for pr o4 k
    using d that by (auto simp: transport_fields_def)
  then have "list_all (\<lambda>(t, off). off \<noteq> 0 \<and> t \<noteq> eth_dst) (network_fields bytes ty o3)" if "0 < o3" for ty o3
    using d that by (simp add: network_fields_def) metis
  then have "list_all (\<lambda>(t, off). off = 0 \<longleftrightarrow> t = eth_dst) (network_fields bytes ty o3)" if "0 < o3" for ty o3
    by (rule list.pred_mono_strong [OF _ _ ]) (use that in auto)
  then have "list_all (\<lambda>(t, off). off = 0 \<longleftrightarrow> t = eth_dst) (header_fields bytes)"
    using d by (simp add: header_fields_def) metis
  then show "off = 0 \<longleftrightarrow> t = eth_dst" using m by (auto simp: list_all_iff)
qed


text \<open>
  C14: the parser implements the packet that policies are written against. Running a policy on a parsed
  frame, with its reads and writes of bytes, decides exactly as running it on the header fields of the frame: the numbers at the
  offsets the protocols give them (\<open>header_fields\<close>, stated without the parser), and the input port. An
  IPv4 header, if there is one, is at least as long as its fixed part.
\<close>

theorem parser_refines_packet:
  assumes "new_PacketParser (Some bytes) pp fp port = Inr P" "\<not> short_ihl bytes" "wf_policy p"
  shows "run_on pp_load pp_modify p P = run_plain p (header_view bytes port)"
proof -
  have ok: "\<not> (14 \<le> length bytes \<and> short_ipv6 bytes)" using new_PacketParser_ok(2) [of bytes pp fp port] assms(1) by auto
  then have P: "layout_ok P" "parser_view P = header_view bytes port"
    using new_PacketParser_ok(1) [OF ok, of pp fp port] assms(1,2) parser_header_view [OF ok] by auto
  show ?thesis using parsed.run_view [OF assms(3) P(1)] P(2) by simp
qed

text \<open>A VLAN-tagged frame with priority 5 and VLAN id 1, and an IPv4/TCP frame with a header length of 3 words.\<close>

definition tagged_frame :: "u8 list" where
  "tagged_frame = [0, 0, 0, 0, 0, 2, 0, 0, 0, 0, 0, 1, 0x81, 0, 0xa0, 1, 0x12, 0x34]"

definition short_ihl_frame :: "u8 list" where
  "short_ihl_frame = [0, 0, 0, 0, 0, 2, 0, 0, 0, 0, 0, 1, 8, 0, 0x43, 0, 0, 0, 0, 0, 0, 0, 0, 6, 0, 0, 10, 0, 0, 1, 10, 0, 0, 2] @ replicate 20 0"

lemma tagged_frame_parses: "\<exists>P. new_PacketParser (Some tagged_frame) 0 0 7 = Inr P"
proof -
  have "\<not> (14 \<le> length tagged_frame \<and> short_ipv6 tagged_frame)" by code_simp
  then show ?thesis using new_PacketParser_ok(1) by blast
qed

lemma tagged_fields: "header_fields tagged_frame = [(eth_dst, 0), (eth_src, 6), (vlan_vid, 14), (eth_type, 16)]"
  by (simp add: header_fields_def number_at_def network_fields_def tagged_frame_def)

lemma tagged_view:
  "map (header_view tagged_frame 7) [eth_dst, eth_src, vlan_vid, eth_type, in_port, ip_proto] = [Some 2, Some 1, Some 1, Some 0x1234, Some 7, None]"
proof -
  have "distinct [eth_dst, eth_src, vlan_vid, eth_type, in_port, ip_proto]" by code_simp
  moreover have "nbytes eth_dst = 6" "nbytes eth_src = 6" "nbytes vlan_vid = 2" "nbytes eth_type = 2"
    "nbits eth_dst = 48" "nbits eth_src = 48" "nbits vlan_vid = 12" "nbits eth_type = 16" by code_simp+
  ultimately show ?thesis unfolding header_view_def tagged_fields by (auto simp: number_at_def tagged_frame_def)
qed

theorem parser_refines_packet_witness:
  "\<exists>P. new_PacketParser (Some tagged_frame) 0 0 7 = Inr P \<and>
     run_on pp_load pp_modify demo_policy P = run_plain demo_policy (header_view tagged_frame 7) \<and>
     map (header_view tagged_frame 7) [eth_dst, eth_src, vlan_vid, eth_type, in_port, ip_proto] =
       [Some 2, Some 1, Some 1, Some 0x1234, Some 7, None]"
proof -
  obtain P where P: "new_PacketParser (Some tagged_frame) 0 0 7 = Inr P" using tagged_frame_parses by blast
  have short: "\<not> short_ihl tagged_frame" by code_simp
  show ?thesis by (intro exI [of _ P] conjI P parser_refines_packet [OF P short demo_wf] tagged_view)
qed


text \<open>
  Writing a VLAN id clears the priority and the drop-eligible bit of the tag, because the 12 bits of the id are written
  as two whole bytes.
\<close>

theorem vlan_write_clears_priority:
  "map_sum id (\<lambda>P. take 2 (drop 14 (frame P)))
     (res_bind (new_PacketParser (Some tagged_frame) 0 0 7)
        (pp_modify \<lparr>f_type = vlan_vid, f_value = 2, f_mask = 0xfff\<rparr>)) = Inr [0, 2] \<and>
   take 2 (drop 14 tagged_frame) = [0xa0, 1]"
  by code_simp

text \<open>
  The length field of an IPv4 header is not checked against the fixed part of the header. With a length of
  three words the TCP source port is taken from the source address, and rewriting the address changes the port.
\<close>

theorem short_ihl_overlaps:
  "map_sum id f_value (res_bind (new_PacketParser (Some short_ihl_frame) 0 0 7) (pp_load (exact_mask tcp_src))) = Inr 0x0a00 \<and>
   map_sum id f_value (res_bind (res_bind (new_PacketParser (Some short_ihl_frame) 0 0 7)
      (pp_modify \<lparr>f_type = ipv4_src, f_value = 0xc0a80001, f_mask = 0xffffffff\<rparr>)) (pp_load (exact_mask tcp_src))) = Inr 0xc0a8"
  by code_simp

end
