(* ===== verification/Link_Discovery.thy ===== *)
theory Link_Discovery
  imports Packet_Parser
begin

text \<open>
  Link discovery: \<open>src/LinkDiscovery.cc\<close>, with the types of \<open>src/ILinkDiscovery.hh\<close>. The
  controller sends LLDP beacons out of every port; a beacon that comes back in on another switch names a link.
  The known links are a \<open>std::set\<close> ordered by their expiry alone, and for each end of a link there is an iterator
  into that set.

  The set is the list of its nodes in order, each with the number its iterators carry; an iterator whose node has
  been erased is dangling, and using it is the fault \<open>OutOfRange\<close>. Times are nanoseconds. Whether
  assertions are compiled in is a parameter, because the code has side effects inside them. What an operation emits
  or sends is the list it returns.
\<close>

subsection \<open>Ends of links\<close>

record switch_and_port =
  dpid :: u64
  port :: u32

definition sap_less :: "switch_and_port \<Rightarrow> switch_and_port \<Rightarrow> bool" where
  "sap_less a b \<longleftrightarrow> dpid a < dpid b \<or> dpid a = dpid b \<and> port a < port b"

subsection \<open>Beacons\<close>

definition be :: "nat \<Rightarrow> int \<Rightarrow> u8 list" where
  "be n v = rev (to_blocks n v)"

definition of_be :: "u8 list \<Rightarrow> int" where
  "of_be bs = of_blocks (rev bs)"

definition lldp_tlv_header :: "u16 \<Rightarrow> u16 \<Rightarrow> u16" where
  "lldp_tlv_header ty len = or (push_bit 9 ty) len"

record lldp_packet =
  src_mac :: "48 word"
  chassis_id_sub_mac :: "48 word"
  port_id_sub_component :: u32
  ttl_seconds :: u16
  dpid_data :: u64

definition lldp_bytes :: "lldp_packet \<Rightarrow> u8 list" where
  "lldp_bytes p =
     be 6 0x0180c200000e @ be 6 (uint (src_mac p)) @ be 2 0x88cc @
     be 2 (uint (lldp_tlv_header 1 7)) @ be 1 4 @ be 6 (uint (chassis_id_sub_mac p)) @
     be 2 (uint (lldp_tlv_header 2 5)) @ be 1 2 @ be 4 (uint (port_id_sub_component p)) @
     be 2 (uint (lldp_tlv_header 3 2)) @ be 2 (uint (ttl_seconds p)) @
     be 2 (uint (lldp_tlv_header 127 12)) @ be 3 0x0026e1 @ be 1 0 @ be 8 (uint (dpid_data p)) @
     be 2 0"

definition beacon_source :: "u8 list \<Rightarrow> switch_and_port" where
  "beacon_source bytes =
     \<lparr>dpid = word_of_int (of_be (take 8 (drop 40 bytes))), port = word_of_int (of_be (take 4 (drop 26 bytes)))\<rparr>"

text \<open>
  The packet handler: \<open>is_lldp\<close> is the outcome of the test of the Ethernet type, \<open>bytes\<close> what
  \<open>serialize_to\<close> copied. It returns the call of \<open>handleBeacon\<close> it queues, if any, and the decision.
\<close>

definition lldp_handler :: "bool \<Rightarrow> u8 list \<Rightarrow> u64 \<Rightarrow> u32 \<Rightarrow> Decision \<Rightarrow> (switch_and_port \<times> switch_and_port) option \<times> Decision" where
  "lldp_handler is_lldp bytes conn_dpid in_port_no d =
     (if \<not> is_lldp then (None, d)
      else
        let done = return_now (drop_packet (set_idle_timeout 0 d))
        in if length bytes < 50 then (None, done)
           else
             let source = beacon_source bytes; target = \<lparr>dpid = conn_dpid, port = in_port_no\<rparr>
             in (Some (if sap_less target source then (target, source) else (source, target)), done))"

subsection \<open>The set of links\<close>

record DiscoveredLink =
  source :: switch_and_port
  target :: switch_and_port
  valid_through :: int

type_synonym link_set = "(nat \<times> DiscoveredLink) list"

text \<open>Insertion returns the node that carries the key, the new one or an old one of the same expiry.\<close>

fun set_insert :: "nat \<Rightarrow> DiscoveredLink \<Rightarrow> link_set \<Rightarrow> nat \<times> link_set" where
  "set_insert n l [] = (n, [(n, l)])"
| "set_insert n l ((m, k) # xs) =
     (if valid_through k < valid_through l then
        let (i, ys) = set_insert n l xs in (i, (m, k) # ys)
      else if valid_through l < valid_through k then (n, (n, l) # (m, k) # xs)
      else (m, (m, k) # xs))"

definition set_erase :: "nat \<Rightarrow> link_set \<Rightarrow> link_set res" where
  "set_erase i xs = (if map_of xs i = None then Inl OutOfRange else Inr (filter (\<lambda>(j, l). j \<noteq> i) xs))"

definition deref :: "nat \<Rightarrow> link_set \<Rightarrow> DiscoveredLink res" where
  "deref i xs = (case map_of xs i of None \<Rightarrow> Inl OutOfRange | Some l \<Rightarrow> Inr l)"

record LinkDiscovery =
  c_poll_interval :: u32
  m_links :: link_set
  m_out_edges :: "switch_and_port \<rightharpoonup> nat"
  next_node :: nat

definition new_LinkDiscovery :: "u32 \<Rightarrow> LinkDiscovery" where
  "new_LinkDiscovery poll = \<lparr>c_poll_interval = poll, m_links = [], m_out_edges = Map.empty, next_node = 0\<rparr>"

record PortDesc =
  port_no :: u32
  hw_addr :: "48 word"
  link_down :: bool

datatype ld_out =
    LinkDiscovered switch_and_port switch_and_port
  | LinkBroken switch_and_port switch_and_port
  | InvalidateTraceTree
  | SendLLDP u64 u32 "u8 list"

definition sendLLDP :: "u64 \<Rightarrow> PortDesc \<Rightarrow> LinkDiscovery \<Rightarrow> ld_out list" where
  "sendLLDP dp p s =
     replicate 3 (SendLLDP dp (port_no p)
       (lldp_bytes \<lparr>src_mac = hw_addr p, chassis_id_sub_mac = ucast dp, port_id_sub_component = port_no p,
                    ttl_seconds = ucast (c_poll_interval s), dpid_data = dp\<rparr>))"

definition expiry :: "int \<Rightarrow> LinkDiscovery \<Rightarrow> int" where
  "expiry now s = now + 1000000000 * uint (c_poll_interval s * 2)"

definition handleBeacon :: "int \<Rightarrow> switch_and_port \<Rightarrow> switch_and_port \<Rightarrow> LinkDiscovery \<Rightarrow> (LinkDiscovery \<times> ld_out list) res" where
  "handleBeacon now a b s =
     (let link = \<lparr>source = a, target = b, valid_through = expiry now s\<rparr>
      in res_bind
           (case m_out_edges s a of
              None \<Rightarrow> Inr (s, True)
            | Some it \<Rightarrow>
                res_bind (set_erase it (m_links s)) (\<lambda>ls.
                  Inr (s\<lparr>m_links := ls, m_out_edges := (m_out_edges s)(a := None, b := None)\<rparr>, False)))
           (\<lambda>(s1, isNew).
              let (it, ls) = set_insert (next_node s1) link (m_links s1)
              in Inr (s1\<lparr>m_links := ls, m_out_edges := (m_out_edges s1)(a \<mapsto> it, b \<mapsto> it),
                         next_node := Suc (next_node s1)\<rparr>,
                      if isNew then [LinkDiscovered a b] else [])))"

text \<open>\<open>CHECK(m_out_edges.erase(p) == 1)\<close> ends the process when there is no such edge.\<close>

definition check_erase :: "switch_and_port \<Rightarrow> LinkDiscovery \<Rightarrow> LinkDiscovery res" where
  "check_erase p s =
     (if m_out_edges s p = None then Inl ExitProcess else Inr (s\<lparr>m_out_edges := (m_out_edges s)(p := None)\<rparr>))"

definition clearLinkAt :: "bool \<Rightarrow> switch_and_port \<Rightarrow> LinkDiscovery \<Rightarrow> (LinkDiscovery \<times> ld_out list) res" where
  "clearLinkAt ndebug src s =
     (case m_out_edges s src of
        None \<Rightarrow> Inr (s, [])
      | Some it \<Rightarrow>
          res_bind (deref it (m_links s)) (\<lambda>edge.
          res_bind
            (if source edge = src then Inr (target edge)
             else if target edge \<noteq> src \<and> \<not> ndebug then Inl AssertionFailed
             else Inr (source edge)) (\<lambda>tgt.
          res_bind (set_erase it (m_links s)) (\<lambda>ls.
          res_bind (check_erase src (s\<lparr>m_links := ls\<rparr>)) (\<lambda>s1.
          res_bind (check_erase tgt s1) (\<lambda>s2.
            Inr (s2, [if sap_less src tgt then LinkBroken src tgt else LinkBroken tgt src, InvalidateTraceTree])))))))"

text \<open>An assertion around an erasure: compiled out, nothing is erased.\<close>

definition assert_erase :: "bool \<Rightarrow> switch_and_port \<Rightarrow> (switch_and_port \<rightharpoonup> nat) \<Rightarrow> (switch_and_port \<rightharpoonup> nat) res" where
  "assert_erase ndebug p m =
     (if ndebug then Inr m else if m p = None then Inl AssertionFailed else Inr (m(p := None)))"

fun expire :: "bool \<Rightarrow> int \<Rightarrow> link_set \<Rightarrow> (switch_and_port \<rightharpoonup> nat) \<Rightarrow> (link_set \<times> (switch_and_port \<rightharpoonup> nat) \<times> ld_out list) res" where
  "expire ndebug now [] m = Inr ([], m, [])"
| "expire ndebug now ((i, first) # rest) m =
     (if valid_through first < now then
        res_bind (assert_erase ndebug (source first) m) (\<lambda>m1.
        res_bind (assert_erase ndebug (target first) m1) (\<lambda>m2.
        res_bind (expire ndebug now rest m2) (\<lambda>(ls, m3, out). Inr (ls, m3, LinkBroken (source first) (target first) # out))))
      else Inr ((i, first) # rest, m, []))"

definition ofpp_max :: u32 where "ofpp_max = 0xffffff00"

definition timerEvent :: "bool \<Rightarrow> int \<Rightarrow> (u64 \<times> PortDesc list) list \<Rightarrow> LinkDiscovery \<Rightarrow> (LinkDiscovery \<times> ld_out list) res" where
  "timerEvent ndebug now switches s =
     res_bind (expire ndebug now (m_links s) (m_out_edges s)) (\<lambda>(ls, m, out).
       let s' = s\<lparr>m_links := ls, m_out_edges := m\<rparr>
       in Inr (s', out @ concat (map (\<lambda>(dp, ports).
            concat (map (\<lambda>p. if port_no p > ofpp_max then [] else sendLLDP dp p s') ports)) switches)))"

definition portUp :: "u64 \<Rightarrow> PortDesc \<Rightarrow> LinkDiscovery \<Rightarrow> ld_out list" where
  "portUp dp p s = (if port_no p > ofpp_max then [] else if \<not> link_down p then sendLLDP dp p s else [])"

definition portModified :: "bool \<Rightarrow> u64 \<Rightarrow> PortDesc \<Rightarrow> PortDesc \<Rightarrow> LinkDiscovery \<Rightarrow> (LinkDiscovery \<times> ld_out list) res" where
  "portModified ndebug dp p old_p s =
     (if \<not> link_down p \<and> link_down old_p then Inr (s, sendLLDP dp p s)
      else if link_down p \<and> \<not> link_down old_p then clearLinkAt ndebug \<lparr>dpid = dp, port = port_no p\<rparr> s
      else Inr (s, []))"

definition portDown :: "bool \<Rightarrow> u64 \<Rightarrow> u32 \<Rightarrow> LinkDiscovery \<Rightarrow> (LinkDiscovery \<times> ld_out list) res" where
  "portDown ndebug dp no s = clearLinkAt ndebug \<lparr>dpid = dp, port = no\<rparr> s"


subsection \<open>The invariant\<close>

definition edges_of :: "link_set \<Rightarrow> (switch_and_port \<rightharpoonup> nat) \<Rightarrow> bool" where
  "edges_of ls m \<longleftrightarrow>
     (\<forall>p i. m p = Some i \<longleftrightarrow> (\<exists>l. (i, l) \<in> set ls \<and> (p = source l \<or> p = target l)))"

definition links_ok :: "link_set \<Rightarrow> bool" where
  "links_ok ls \<longleftrightarrow> sorted_wrt (\<lambda>a b. valid_through (snd a) < valid_through (snd b)) ls \<and> distinct (map fst ls) \<and>
     (\<forall>(i, l) \<in> set ls. sap_less (source l) (target l))"

definition link_inv :: "LinkDiscovery \<Rightarrow> bool" where
  "link_inv s \<longleftrightarrow> links_ok (m_links s) \<and> edges_of (m_links s) (m_out_edges s) \<and> (\<forall>i \<in> fst ` set (m_links s). i < next_node s)"

definition ends :: "link_set \<Rightarrow> (switch_and_port \<times> switch_and_port) set" where
  "ends ls = (\<lambda>(i, l). (source l, target l)) ` set ls"

lemma sap_less_irrefl [simp]: "\<not> sap_less a a"
  by (simp add: sap_less_def)

lemma sap_less_asym: "sap_less a b \<Longrightarrow> \<not> sap_less b a"
  by (auto simp: sap_less_def)

lemma edges_unique:
  assumes "edges_of ls m" "(i, l) \<in> set ls" "(j, k) \<in> set ls" "p = source l \<or> p = target l" "p = source k \<or> p = target k"
  shows "i = j"
  using assms unfolding edges_of_def by (metis option.inject)

lemma links_key: "links_ok ls \<Longrightarrow> (i, l) \<in> set ls \<Longrightarrow> map_of ls i = Some l"
  by (simp add: links_ok_def)

lemma set_insert_last:
  "(\<And>k. k \<in> snd ` set ls \<Longrightarrow> valid_through k < valid_through l) \<Longrightarrow> set_insert n l ls = (n, ls @ [(n, l)])"
proof (induction ls)
  case (Cons x ls)
  then show ?case by (cases x) force
qed simp

lemma links_ok_filter: "links_ok ls \<Longrightarrow> links_ok (filter P ls)"
  by (auto simp: links_ok_def sorted_wrt_filter distinct_map_filter)

text \<open>Erasing a node and the two edges to it.\<close>

lemma erase_link:
  assumes ok: "links_ok ls" and e: "edges_of ls m" and l: "(i, l) \<in> set ls"
  defines "ls' \<equiv> filter (\<lambda>(j, k). j \<noteq> i) ls"
  shows "edges_of ls' (m(source l := None, target l := None))" "links_ok ls'"
    and "ends ls' = ends ls - {(source l, target l)}"
    and "x \<in> ends ls \<Longrightarrow> fst x \<in> {source l, target l} \<or> snd x \<in> {source l, target l} \<Longrightarrow> x = (source l, target l)"
proof -
  have u: "j = i \<and> k = l" if "(j, k) \<in> set ls" "p \<in> {source l, target l}" "p = source k \<or> p = target k" for j k p
  proof -
    have "j = i" using edges_unique [OF e that(1) l, of p] that(2,3) by auto
    then show ?thesis using links_key [OF ok that(1)] links_key [OF ok l] by simp
  qed
  show "links_ok ls'" using ok unfolding ls'_def by (rule links_ok_filter)
  have in': "(j, k) \<in> set ls' \<longleftrightarrow> (j, k) \<in> set ls \<and> j \<noteq> i" for j k by (auto simp: ls'_def)
  show "edges_of ls' (m(source l := None, target l := None))"
    unfolding edges_of_def
  proof (intro allI)
    fix p j
    show "(m(source l := None, target l := None)) p = Some j \<longleftrightarrow> (\<exists>k. (j, k) \<in> set ls' \<and> (p = source k \<or> p = target k))"
    proof (cases "p \<in> {source l, target l}")
      case True
      then show ?thesis using u in' by auto
    next
      case False
      have "j \<noteq> i" if "(j, k) \<in> set ls" "p = source k \<or> p = target k" for k
        using False that links_key [OF ok that(1)] links_key [OF ok l] by auto
      then show ?thesis using False e in' by (auto simp: edges_of_def)
    qed
  qed
  have "(source k, target k) \<noteq> (source l, target l)" if "(j, k) \<in> set ls" "j \<noteq> i" for j k
    using u [OF that(1), of "source l"] that(2) by auto
  moreover have "k = l" if "(i, k) \<in> set ls" for k using links_key [OF ok that] links_key [OF ok l] by simp
  ultimately show "ends ls' = ends ls - {(source l, target l)}"
    by (auto simp: ends_def ls'_def image_iff)
  show "x = (source l, target l)" if "x \<in> ends ls" "fst x \<in> {source l, target l} \<or> snd x \<in> {source l, target l}"
    using that u by (fastforce simp: ends_def)
qed


text \<open>The links the emitted signals describe; a contradictory signal is \<open>None\<close>.\<close>

fun track :: "(switch_and_port \<times> switch_and_port) set \<Rightarrow> ld_out list \<Rightarrow> (switch_and_port \<times> switch_and_port) set option" where
  "track K [] = Some K"
| "track K (LinkDiscovered a b # out) = (if (a, b) \<in> K then None else track (insert (a, b) K) out)"
| "track K (LinkBroken a b # out) = (if (a, b) \<in> K then track (K - {(a, b)}) out else None)"
| "track K (InvalidateTraceTree # out) = track K out"
| "track K (SendLLDP dp no bytes # out) = track K out"

lemma track_append: "track K (xs @ ys) = Option.bind (track K xs) (\<lambda>K'. track K' ys)"
  by (induction K xs rule: track.induct) auto

lemma add_link:
  assumes "links_ok ls" "edges_of ls m" "sap_less a b" "m a = None" "m b = None"
    "\<forall>i \<in> fst ` set ls. i < n" "\<And>k. k \<in> snd ` set ls \<Longrightarrow> valid_through k < v"
  defines "ls' \<equiv> ls @ [(n, \<lparr>source = a, target = b, valid_through = v\<rparr>)]"
  shows "links_ok ls'" "edges_of ls' (m(a \<mapsto> n, b \<mapsto> n))" "ends ls' = insert (a, b) (ends ls)"
proof -
  have "n \<notin> fst ` set ls" using assms(6) by auto
  then show "links_ok ls'" using assms(1,3,7) by (fastforce simp: links_ok_def ls'_def sorted_wrt_append)
  show "ends ls' = insert (a, b) (ends ls)" by (auto simp: ends_def ls'_def)
  have none: "\<not> (\<exists>i l. (i, l) \<in> set ls \<and> (p = source l \<or> p = target l))" if "p = a \<or> p = b" for p
    using that assms(2,4,5) unfolding edges_of_def by (metis option.distinct(1))
  show "edges_of ls' (m(a \<mapsto> n, b \<mapsto> n))"
    unfolding edges_of_def
  proof (intro allI)
    fix p j
    show "(m(a \<mapsto> n, b \<mapsto> n)) p = Some j \<longleftrightarrow> (\<exists>l. (j, l) \<in> set ls' \<and> (p = source l \<or> p = target l))"
      using none assms(2) by (cases "p = a \<or> p = b") (auto simp: ls'_def edges_of_def)
  qed
qed

definition wired :: "(switch_and_port \<rightharpoonup> switch_and_port) \<Rightarrow> (switch_and_port \<times> switch_and_port) set \<Rightarrow> bool" where
  "wired W K \<longleftrightarrow> (\<forall>(a, b) \<in> K. W a = Some b \<and> W b = Some a)"

lemma handleBeacon_ok:
  assumes inv: "link_inv s" and ab: "sap_less a b" and W: "wired W (insert (a, b) (ends (m_links s)))"
    and late: "\<And>k. k \<in> snd ` set (m_links s) \<Longrightarrow> valid_through k < expiry now s"
  shows "\<exists>s' out. handleBeacon now a b s = Inr (s', out) \<and> link_inv s' \<and> c_poll_interval s' = c_poll_interval s \<and>
           track (ends (m_links s)) out = Some (ends (m_links s')) \<and> ends (m_links s') = insert (a, b) (ends (m_links s)) \<and>
           (\<forall>k \<in> snd ` set (m_links s'). valid_through k \<le> expiry now s)"
proof -
  have ok: "links_ok (m_links s)" "edges_of (m_links s) (m_out_edges s)" "\<forall>i \<in> fst ` set (m_links s). i < next_node s"
    using inv by (auto simp: link_inv_def)
  have peer: "(source l, target l) = (a, b)" if "(i, l) \<in> set (m_links s)" "p = source l \<or> p = target l" "p \<in> {a, b}" for i l p
  proof -
    have "W (source l) = Some (target l)" "W (target l) = Some (source l)" "sap_less (source l) (target l)"
      using that(1) W ok(1) by (fastforce simp: wired_def ends_def links_ok_def)+
    moreover have "W a = Some b" "W b = Some a" using W by (auto simp: wired_def)
    ultimately show ?thesis using that(2,3) ab sap_less_asym by auto
  qed
  show ?thesis
  proof (cases "m_out_edges s a")
    case None
    have "m_out_edges s b = None"
    proof (rule ccontr)
      assume "m_out_edges s b \<noteq> None"
      then obtain i l where "(i, l) \<in> set (m_links s)" "b = source l \<or> b = target l" using ok(2) by (auto simp: edges_of_def)
      then show False using peer [of i l b] None ok(2) unfolding edges_of_def by (metis insertCI option.distinct(1) prod.inject)
    qed
    note add = add_link [OF ok(1,2) ab None this ok(3) late]
    have "(a, b) \<notin> ends (m_links s)" using None ok(2) by (force simp: ends_def edges_of_def)
    moreover have "\<forall>k \<in> snd ` set (m_links s). valid_through k \<le> expiry now s" using late by (simp add: less_imp_le)
    ultimately show ?thesis using None add ok(3) late
      by (auto simp: handleBeacon_def Let_def set_insert_last link_inv_def less_Suc_eq)
  next
    case (Some it)
    then obtain l where l: "(it, l) \<in> set (m_links s)" "a = source l \<or> a = target l" using ok(2) by (auto simp: edges_of_def)
    then have ends: "source l = a" "target l = b" using peer [of it l a] by auto
    let ?ls = "filter (\<lambda>(j, k). j \<noteq> it) (m_links s)" and ?m = "(m_out_edges s)(a := None, b := None)"
    let ?new = "\<lparr>source = a, target = b, valid_through = expiry now s\<rparr>"
    note er = erase_link [OF ok(1,2) l(1), unfolded ends]
    have k: "map_of (m_links s) it = Some l" by (rule links_key [OF ok(1) l(1)])
    have known: "(a, b) \<in> ends (m_links s)" using l(1) ends by (force simp: ends_def)
    have late': "valid_through k < expiry now s" if "k \<in> snd ` set ?ls" for k using that late by auto
    have "a \<noteq> b" using ab by auto
    moreover have "\<forall>i \<in> fst ` set ?ls. i < next_node s" using ok(3) by auto
    ultimately have add: "links_ok (?ls @ [(next_node s, ?new)])"
        "edges_of (?ls @ [(next_node s, ?new)]) (?m(a \<mapsto> next_node s, b \<mapsto> next_node s))"
        "ends (?ls @ [(next_node s, ?new)]) = insert (a, b) (ends ?ls)"
      using add_link [OF er(2,1) ab _ _ _ late'] by auto
    have "set_insert (next_node s) ?new ?ls = (next_node s, ?ls @ [(next_node s, ?new)])"
      by (rule set_insert_last) (use late' in simp)
    then have "handleBeacon now a b s = Inr (s\<lparr>m_links := ?ls @ [(next_node s, ?new)],
        m_out_edges := ?m(a \<mapsto> next_node s, b \<mapsto> next_node s), next_node := Suc (next_node s)\<rparr>, [])"
      using Some k by (simp add: handleBeacon_def Let_def set_erase_def)
    moreover have "\<forall>x \<in> snd ` set (?ls @ [(next_node s, ?new)]). valid_through x \<le> expiry now s"
      using late by (fastforce intro: less_imp_le)
    ultimately show ?thesis using add er(3) ok(3) known by (auto simp: link_inv_def less_Suc_eq insert_absorb)
  qed
qed


lemma clearLinkAt_ok:
  assumes inv: "link_inv s"
  shows "\<exists>s' out. clearLinkAt ndebug p s = Inr (s', out) \<and> link_inv s' \<and> c_poll_interval s' = c_poll_interval s \<and>
           set (m_links s') \<subseteq> set (m_links s) \<and> track (ends (m_links s)) out = Some (ends (m_links s')) \<and>
           ends (m_links s') = {(a, b) \<in> ends (m_links s). p \<noteq> a \<and> p \<noteq> b}"
proof -
  have ok: "links_ok (m_links s)" "edges_of (m_links s) (m_out_edges s)" "\<forall>i \<in> fst ` set (m_links s). i < next_node s"
    using inv by (auto simp: link_inv_def)
  show ?thesis
  proof (cases "m_out_edges s p")
    case None
    then have "p \<noteq> a \<and> p \<noteq> b" if "(a, b) \<in> ends (m_links s)" for a b
      using that ok(2) by (force simp: ends_def edges_of_def)
    then show ?thesis using None inv by (auto simp: clearLinkAt_def)
  next
    case (Some it)
    then obtain l where l: "(it, l) \<in> set (m_links s)" "p = source l \<or> p = target l" using ok(2) by (auto simp: edges_of_def)
    let ?ls = "filter (\<lambda>(j, k). j \<noteq> it) (m_links s)" and ?m = "(m_out_edges s)(source l := None, target l := None)"
    have k: "map_of (m_links s) it = Some l" by (rule links_key [OF ok(1) l(1)])
    have less: "sap_less (source l) (target l)" using ok(1) l(1) by (auto simp: links_ok_def)
    then have ne: "source l \<noteq> target l" by auto
    have e: "m_out_edges s (source l) = Some it" "m_out_edges s (target l) = Some it"
      using ok(2) l(1) unfolding edges_of_def by blast+
    note er = erase_link [OF ok(1,2) l(1)]
    have "clearLinkAt ndebug p s = Inr (s\<lparr>m_links := ?ls, m_out_edges := ?m\<rparr>, [LinkBroken (source l) (target l), InvalidateTraceTree])"
      using Some k e ne l(2) less sap_less_asym [OF less]
      by (auto simp: clearLinkAt_def deref_def set_erase_def check_erase_def fun_upd_twist)
    moreover have "link_inv (s\<lparr>m_links := ?ls, m_out_edges := ?m\<rparr>)" using er(1,2) ok(3) by (auto simp: link_inv_def)
    moreover have "(source l, target l) \<in> ends (m_links s)" using l(1) by (force simp: ends_def)
    moreover have "(a, b) \<in> ends ?ls \<longleftrightarrow> (a, b) \<in> ends (m_links s) \<and> p \<noteq> a \<and> p \<noteq> b" for a b
      using er(3) er(4) [of "(a, b)"] l(2) ne by auto
    then have "ends ?ls = {(a, b) \<in> ends (m_links s). p \<noteq> a \<and> p \<noteq> b}" by auto
    ultimately show ?thesis using er(3) by auto
  qed
qed

lemma expire_ok:
  "links_ok ls \<Longrightarrow> edges_of ls m \<Longrightarrow>
     \<exists>ls' m' out. expire False now ls m = Inr (ls', m', out) \<and> links_ok ls' \<and> edges_of ls' m' \<and>
       ls' = filter (\<lambda>(i, l). \<not> valid_through l < now) ls \<and> track (ends ls) out = Some (ends ls')"
proof (induction ls arbitrary: m)
  case (Cons x ls)
  obtain i l where x: "x = (i, l)" by fastforce
  have later: "valid_through l < valid_through k" if "(j, k) \<in> set ls" for j k
    using Cons.prems(1) that x by (force simp: links_ok_def)
  show ?case
  proof (cases "valid_through l < now")
    case False
    then have "filter (\<lambda>(i, l). \<not> valid_through l < now) (x # ls) = x # ls"
      using later x by (auto intro!: filter_True) (meson less_trans not_less)
    then show ?thesis using False Cons.prems x by simp
  next
    case True
    let ?m = "m(source l := None, target l := None)"
    have l: "(i, l) \<in> set (x # ls)" using x by simp
    have "sap_less (source l) (target l)" using Cons.prems(1) x by (auto simp: links_ok_def)
    then have ne: "source l \<noteq> target l" by auto
    have e: "m (source l) = Some i" "m (target l) = Some i" using Cons.prems(2) l unfolding edges_of_def by blast+
    have f: "filter (\<lambda>(j, k). j \<noteq> i) (x # ls) = ls"
      using Cons.prems(1) x by (auto simp: links_ok_def intro!: filter_True) force
    note er = erase_link [OF Cons.prems l, unfolded f]
    obtain ls' m' out where IH: "expire False now ls ?m = Inr (ls', m', out)" "links_ok ls'" "edges_of ls' m'"
        "ls' = filter (\<lambda>(i, l). \<not> valid_through l < now) ls" "track (ends ls) out = Some (ends ls')"
      using Cons.IH [OF er(2,1)] by blast
    have "(source l, target l) \<in> ends (x # ls)" using x by (simp add: ends_def)
    then show ?thesis using True x e ne IH er(3) by (auto simp: assert_erase_def)
  qed
qed simp

lemma track_SendLLDP [simp]: "track K (sendLLDP dp p s) = Some K"
  by (simp add: sendLLDP_def numeral_3_eq_3)

lemma track_concat: "(\<And>x. x \<in> set xs \<Longrightarrow> track K (f x) = Some K) \<Longrightarrow> track K (concat (map f xs)) = Some K"
  by (induction xs) (auto simp: track_append)

lemma timerEvent_ok:
  assumes "link_inv s"
  shows "\<exists>s' out. timerEvent False now sws s = Inr (s', out) \<and> link_inv s' \<and> c_poll_interval s' = c_poll_interval s \<and>
           m_links s' = filter (\<lambda>(i, l). \<not> valid_through l < now) (m_links s) \<and>
           track (ends (m_links s)) out = Some (ends (m_links s'))"
proof -
  obtain ls m out where e: "expire False now (m_links s) (m_out_edges s) = Inr (ls, m, out)" "links_ok ls" "edges_of ls m"
      "ls = filter (\<lambda>(i, l). \<not> valid_through l < now) (m_links s)" "track (ends (m_links s)) out = Some (ends ls)"
    using expire_ok [of "m_links s" "m_out_edges s" now] assms by (auto simp: link_inv_def)
  define s' where "s' = s\<lparr>m_links := ls, m_out_edges := m\<rparr>"
  define sent where "sent = concat (map (\<lambda>(dp, ports). concat (map (\<lambda>p. if port_no p > ofpp_max then []
      else sendLLDP dp p s') ports)) sws)"
  have "timerEvent False now sws s = Inr (s', out @ sent)"
    using e(1) unfolding timerEvent_def Let_def sent_def s'_def by simp
  moreover have "track (ends ls) sent = Some (ends ls)"
    unfolding sent_def by (intro track_concat) (auto intro!: track_concat)
  then have "track (ends (m_links s)) (out @ sent) = Some (ends ls)" using e(5) by (simp add: track_append)
  moreover have "link_inv s'" using assms e(2-4) by (auto simp: link_inv_def s'_def)
  ultimately show ?thesis using e(4) by (intro exI [of _ s'] exI [of _ "out @ sent"]) (simp add: s'_def)
qed


subsection \<open>Runs\<close>

datatype ld_event =
    Beacon int switch_and_port switch_and_port
  | PortGone u64 u32
  | PortChanged u64 PortDesc PortDesc
  | Timer int "(u64 \<times> PortDesc list) list"

fun ld_step :: "bool \<Rightarrow> ld_event \<Rightarrow> LinkDiscovery \<Rightarrow> (LinkDiscovery \<times> ld_out list) res" where
  "ld_step ndebug (Beacon now a b) s = handleBeacon now a b s"
| "ld_step ndebug (PortGone dp no) s = portDown ndebug dp no s"
| "ld_step ndebug (PortChanged dp p old_p) s = portModified ndebug dp p old_p s"
| "ld_step ndebug (Timer now sws) s = timerEvent ndebug now sws s"

fun ld_run :: "bool \<Rightarrow> ld_event list \<Rightarrow> LinkDiscovery \<Rightarrow> (LinkDiscovery \<times> ld_out list) res" where
  "ld_run ndebug [] s = Inr (s, [])"
| "ld_run ndebug (e # es) s =
     res_bind (ld_step ndebug e s) (\<lambda>(s1, out1). res_bind (ld_run ndebug es s1) (\<lambda>(s2, out2). Inr (s2, out1 @ out2)))"

text \<open>
  Beacons as a fixed wiring produces them: each port has one peer, the ends come in order, and the clock has
  advanced since the last one.
\<close>

fun beacons_ok :: "(switch_and_port \<rightharpoonup> switch_and_port) \<Rightarrow> int \<Rightarrow> ld_event list \<Rightarrow> bool" where
  "beacons_ok W since [] = True"
| "beacons_ok W since (Beacon now a b # es) =
     (since < now \<and> sap_less a b \<and> W a = Some b \<and> W b = Some a \<and> beacons_ok W now es)"
| "beacons_ok W since (_ # es) = beacons_ok W since es"

definition run_inv :: "(switch_and_port \<rightharpoonup> switch_and_port) \<Rightarrow> int \<Rightarrow> LinkDiscovery \<Rightarrow> bool" where
  "run_inv W since s \<longleftrightarrow> link_inv s \<and> wired W (ends (m_links s)) \<and> (\<forall>k \<in> snd ` set (m_links s). valid_through k \<le> expiry since s)"

lemma run_inv_less:
  assumes "run_inv W since s" "link_inv s'" "set (m_links s') \<subseteq> set (m_links s)" "c_poll_interval s' = c_poll_interval s"
  shows "run_inv W since s'"
proof -
  have "ends (m_links s') \<subseteq> ends (m_links s)" using assms(3) by (auto simp: ends_def)
  then show ?thesis using assms by (fastforce simp: run_inv_def wired_def expiry_def)
qed

lemma portDown_step:
  assumes "run_inv W since s"
  shows "\<exists>s' out. clearLinkAt ndebug p s = Inr (s', out) \<and> run_inv W since s' \<and> track (ends (m_links s)) out = Some (ends (m_links s'))"
proof -
  obtain s' out where c: "clearLinkAt ndebug p s = Inr (s', out)" "link_inv s'" "c_poll_interval s' = c_poll_interval s"
      "set (m_links s') \<subseteq> set (m_links s)" "track (ends (m_links s)) out = Some (ends (m_links s'))"
    using clearLinkAt_ok [of s ndebug p] assms by (auto simp: run_inv_def)
  then show ?thesis using run_inv_less [OF assms c(2,4,3)] by blast
qed

lemma beacon_step:
  assumes "run_inv W since s" "since < now" "sap_less a b" "W a = Some b" "W b = Some a"
  shows "\<exists>s' out. handleBeacon now a b s = Inr (s', out) \<and> run_inv W now s' \<and> track (ends (m_links s)) out = Some (ends (m_links s'))"
proof -
  have w: "wired W (insert (a, b) (ends (m_links s)))" using assms by (auto simp: run_inv_def wired_def)
  have late: "valid_through k < expiry now s" if "k \<in> snd ` set (m_links s)" for k
    using assms(1,2) that by (fastforce simp: run_inv_def expiry_def)
  obtain s' out where h: "handleBeacon now a b s = Inr (s', out)" "link_inv s'" "c_poll_interval s' = c_poll_interval s"
      "track (ends (m_links s)) out = Some (ends (m_links s'))" "ends (m_links s') = insert (a, b) (ends (m_links s))"
      "\<forall>k \<in> snd ` set (m_links s'). valid_through k \<le> expiry now s"
    using handleBeacon_ok [OF _ assms(3) w late] assms(1) by (auto simp: run_inv_def)
  then have "run_inv W now s'" using w by (simp add: run_inv_def expiry_def)
  then show ?thesis using h by blast
qed

lemma timer_step:
  assumes "run_inv W since s"
  shows "\<exists>s' out. timerEvent False now sws s = Inr (s', out) \<and> run_inv W since s' \<and> track (ends (m_links s)) out = Some (ends (m_links s'))"
proof -
  obtain s' out where t: "timerEvent False now sws s = Inr (s', out)" "link_inv s'" "c_poll_interval s' = c_poll_interval s"
      "m_links s' = filter (\<lambda>(i, l). \<not> valid_through l < now) (m_links s)" "track (ends (m_links s)) out = Some (ends (m_links s'))"
    using timerEvent_ok [of s now sws] assms by (auto simp: run_inv_def)
  then have "set (m_links s') \<subseteq> set (m_links s)" by auto
  then show ?thesis using run_inv_less [OF assms t(2) _ t(3)] t(1,5) by blast
qed

lemma ld_run_ok:
  "beacons_ok W since es \<Longrightarrow> run_inv W since s \<Longrightarrow>
     \<exists>s' out. ld_run False es s = Inr (s', out) \<and> link_inv s' \<and> track (ends (m_links s)) out = Some (ends (m_links s'))"
proof (induction es arbitrary: since s)
  case Nil
  then show ?case by (simp add: run_inv_def)
next
  case (Cons e es)
  have "\<exists>s' out since2. ld_step False e s = Inr (s', out) \<and> run_inv W since2 s' \<and> beacons_ok W since2 es \<and>
      track (ends (m_links s)) out = Some (ends (m_links s'))"
  proof (cases e)
    case (Beacon now a b)
    then show ?thesis using Cons.prems beacon_step [OF Cons.prems(2), of now a b] by auto
  next
    case (PortGone dp no)
    then show ?thesis using Cons.prems portDown_step [OF Cons.prems(2)] by (fastforce simp: portDown_def)
  next
    case (PortChanged dp p old_p)
    have "track K (sendLLDP dp p s) = Some K" for K by simp
    then show ?thesis using Cons.prems PortChanged portDown_step [OF Cons.prems(2)]
      by (simp add: portModified_def) (metis track.simps(1))
  next
    case (Timer now sws)
    then show ?thesis using Cons.prems timer_step [OF Cons.prems(2)] by fastforce
  qed
  then obtain s1 out1 since2 where s1: "ld_step False e s = Inr (s1, out1)" "run_inv W since2 s1" "beacons_ok W since2 es"
      "track (ends (m_links s)) out1 = Some (ends (m_links s1))" by blast
  then show ?case using Cons.IH [OF s1(3,2)] by (auto simp: track_append)
qed


text \<open>
  C11: link discovery reports the links it knows. Along any sequence of beacons, port changes and timer ticks
  in which the ports are wired one to one and no two beacons are handled at the same instant, no operation faults
  (with assertions compiled in), every end of a known link leads to its entry and back, and the signals sent so far
  describe exactly the set of known links: no link is announced twice, none is reported broken that was not announced.
\<close>

theorem link_discovery_tracks:
  assumes "beacons_ok W since es"
  shows "\<exists>s out. ld_run False es (new_LinkDiscovery poll) = Inr (s, out) \<and> link_inv s \<and>
           track {} out = Some (ends (m_links s))"
proof -
  have "run_inv W since (new_LinkDiscovery poll)"
    by (simp add: run_inv_def link_inv_def links_ok_def edges_of_def wired_def ends_def new_LinkDiscovery_def)
  then show ?thesis using ld_run_ok [OF assms] by (fastforce simp: new_LinkDiscovery_def ends_def)
qed

definition sap :: "u64 \<Rightarrow> u32 \<Rightarrow> switch_and_port" where
  "sap d p = \<lparr>dpid = d, port = p\<rparr>"

definition demo_events :: "ld_event list" where
  "demo_events = [Beacon 1 (sap 1 1) (sap 2 1), Beacon 2 (sap 1 1) (sap 2 1), PortGone 2 1, Timer 5 []]"

theorem link_discovery_tracks_witness:
  "\<exists>s out. ld_run False demo_events (new_LinkDiscovery 120) = Inr (s, out) \<and> link_inv s \<and>
     track {} out = Some (ends (m_links s))"
proof -
  have "beacons_ok [sap 1 1 \<mapsto> sap 2 1, sap 2 1 \<mapsto> sap 1 1] 0 demo_events" by code_simp
  then show ?thesis by (rule link_discovery_tracks)
qed

text \<open>
  A port that is rewired leaves a dangling iterator. After the beacons of two different links at one port, the
  old peer's entry still refers to the erased link, and the next change of that port uses it.
\<close>

theorem rewired_port_dangles:
  "map_sum id snd (ld_run False [Beacon 1 (sap 1 1) (sap 2 1), Beacon 2 (sap 1 1) (sap 3 1), PortGone 2 1]
     (new_LinkDiscovery 120)) = Inl OutOfRange"
  by code_simp

text \<open>
  Links are told apart by their expiry alone. Two beacons handled at the same instant share one entry, and losing a port of
  the second link trips an assertion; in a build without assertions the first link is removed instead.
\<close>

theorem same_instant_shares_entry:
  "map_sum id snd (ld_run False [Beacon 1 (sap 1 1) (sap 2 1), Beacon 1 (sap 3 1) (sap 4 1), PortGone 4 1]
     (new_LinkDiscovery 120)) = Inl AssertionFailed \<and>
   map_sum id (\<lambda>(s, out). (m_links s, out)) (ld_run True [Beacon 1 (sap 1 1) (sap 2 1), Beacon 1 (sap 3 1) (sap 4 1), PortGone 4 1]
     (new_LinkDiscovery 120)) =
     Inr ([], [LinkDiscovered (sap 1 1) (sap 2 1), LinkDiscovered (sap 3 1) (sap 4 1), LinkBroken (sap 1 1) (sap 4 1), InvalidateTraceTree])"
  by code_simp

text \<open>
  The expiry of links relies on side effects inside assertions. Without assertions the edges of an expired link stay, and
  the next beacon of the link uses a dangling iterator.
\<close>

theorem ndebug_expiry_dangles:
  "map_sum id snd (ld_run True [Beacon 1 (sap 1 1) (sap 2 1), Timer 999999999999 [], Beacon 999999999999 (sap 1 1) (sap 2 1)]
     (new_LinkDiscovery 120)) = Inl OutOfRange \<and>
   \<not> isl (ld_run False [Beacon 1 (sap 1 1) (sap 2 1), Timer 999999999999 [], Beacon 999999999999 (sap 1 1) (sap 2 1)]
     (new_LinkDiscovery 120))"
  by code_simp

subsection \<open>Beacons arrive as they were sent\<close>

lemma length_be [simp]: "length (be n v) = n"
  by (simp add: be_def)

lemma of_be_be: "of_be (be n v) = take_bit (8 * n) v"
  by (simp add: of_be_def be_def of_blocks_to_blocks)

text \<open>
  A beacon names the port it was sent from. When the 50 bytes sent for a port of one switch come in on a port of another,
  the handler queues the link between exactly these two ports, smaller end first, and drops the packet without a rule
  that would outlive it.
\<close>

theorem beacon_roundtrip:
  "case sendLLDP dp p s of
     SendLLDP dp' no bytes # _ \<Rightarrow> dp' = dp \<and> no = port_no p \<and>
       (case lldp_handler True bytes conn inp d of
          (Some (a, b), d') \<Rightarrow> {a, b} = {sap dp (port_no p), sap conn inp} \<and> \<not> sap_less b a \<and>
             kind d' = DropPacket \<and> idle_timeout d' = 0
        | _ \<Rightarrow> False)
   | _ \<Rightarrow> False"
proof -
  let ?bytes = "lldp_bytes \<lparr>src_mac = hw_addr p, chassis_id_sub_mac = ucast dp, port_id_sub_component = port_no p,
                    ttl_seconds = ucast (c_poll_interval s), dpid_data = dp\<rparr>"
  have len: "length ?bytes = 50" by (simp add: lldp_bytes_def)
  have "take 8 (drop 40 ?bytes) = be 8 (uint dp)" "take 4 (drop 26 ?bytes) = be 4 (uint (port_no p))"
    by (simp_all add: lldp_bytes_def)
  moreover have "word_of_int (take_bit 64 (uint dp)) = dp" "word_of_int (take_bit 32 (uint (port_no p))) = port_no p"
    by (rule bit_word_eqI; simp add: bit_simps)+
  ultimately have "beacon_source ?bytes = sap dp (port_no p)" by (simp add: beacon_source_def of_be_be sap_def)
  then show ?thesis using len sap_less_asym
    by (auto simp: sendLLDP_def lldp_handler_def Let_def numeral_3_eq_3 sap_def return_now_def drop_packet_def
        set_idle_timeout_def idle_timeout_def)
qed

end
