(* ===== verification/Event_Log.thy ===== *)
theory Event_Log
  imports Prelude
begin

text \<open>
  The event log behind the REST interface: \<open>src/Event.cc\<close>. Applications record that an object appeared or
  disappeared; a web client polls with the number of the last event it has seen and gets what changed since, without
  objects that came and went in between.

  An object and an event are known by their addresses: objects are numbers, events are positions in the list of
  all events. The event counter is 32 bits wide and shared by all managers. Creation times and the JSON text of
  an event are left out: a report is the list of the events it is made from, by application.
\<close>

datatype ev_type = Add | Delete | Change

record Event =
  ev_id :: nat
  ev_typ :: ev_type
  ev_obj :: nat
  ev_hash :: u32
  ev_app :: string
  brother :: "nat option"

record EventManager =
  events :: "Event list"
  last_event :: nat

definition getLastID :: "nat \<Rightarrow> nat" where
  "getLastID n = (n + 1) mod 2 ^ 32"

fun find_last :: "('a \<Rightarrow> bool) \<Rightarrow> 'a list \<Rightarrow> nat \<Rightarrow> nat option" where
  "find_last P [] i = None"
| "find_last P (x # xs) i =
     (case find_last P xs (Suc i) of Some j \<Rightarrow> Some j | None \<Rightarrow> if P x then Some i else None)"

definition findBrother :: "nat \<Rightarrow> EventManager \<Rightarrow> nat option" where
  "findBrother obj m = find_last (\<lambda>e. ev_obj e = obj \<and> ev_typ e = Add) (events m) 0"

definition addToEventList :: "ev_type \<Rightarrow> nat \<Rightarrow> u32 \<Rightarrow> string \<Rightarrow> EventManager \<Rightarrow> EventManager res" where
  "addToEventList ty obj hash app m =
     (if hash = 0 then Inr m
      else
        let n = getLastID (last_event m);
            ev = \<lparr>ev_id = n, ev_typ = ty, ev_obj = obj, ev_hash = hash, ev_app = app, brother = None\<rparr>
        in if ty = Delete then
             (case findBrother obj m of
                None \<Rightarrow> Inl NullDereference
              | Some i \<Rightarrow>
                  Inr (m\<lparr>events := (events m)[i := (events m ! i)\<lparr>brother := Some (length (events m))\<rparr>] @ [ev\<lparr>brother := Some i\<rparr>],
                         last_event := n\<rparr>))
           else Inr (m\<lparr>events := events m @ [ev], last_event := n\<rparr>))"

definition checkOverlap :: "Event \<Rightarrow> nat \<Rightarrow> EventManager \<Rightarrow> bool res" where
  "checkOverlap ev seen m =
     (case ev_typ ev of
        Add \<Rightarrow> Inr (brother ev \<noteq> None)
      | Delete \<Rightarrow>
          (case brother ev of
             None \<Rightarrow> Inl NullDereference
           | Some i \<Rightarrow> Inr (\<not> ev_id (events m ! i) \<le> seen))
      | Change \<Rightarrow> Inr False)"

fun timeout_loop :: "u32 \<Rightarrow> nat \<Rightarrow> EventManager \<Rightarrow> Event list \<Rightarrow> (string \<Rightarrow> Event list) \<Rightarrow> nat \<Rightarrow> ((string \<Rightarrow> Event list) \<times> nat) res" where
  "timeout_loop hash_map seen m [] result newest = Inr (result, newest)"
| "timeout_loop hash_map seen m (it # its) result newest =
     (if and (ev_hash it) hash_map \<noteq> 0 \<and> ev_id it > seen then
        res_bind (checkOverlap it seen m) (\<lambda>skip.
          if \<not> skip then
            timeout_loop hash_map seen m its (result(ev_app it := result (ev_app it) @ [it]))
              (if ev_id it > newest then ev_id it else newest)
          else timeout_loop hash_map seen m its result newest)
      else timeout_loop hash_map seen m its result newest)"

definition timeout :: "u32 \<Rightarrow> nat \<Rightarrow> EventManager \<Rightarrow> (nat \<times> (string \<Rightarrow> Event list)) res" where
  "timeout hash_map seen m =
     res_bind (timeout_loop hash_map seen m (events m) (\<lambda>_. []) 0) (\<lambda>(result, newest).
       Inr (if newest = 0 then seen else newest, result))"


subsection \<open>The log of a well-behaved application\<close>

definition live_at :: "Event list \<Rightarrow> nat \<Rightarrow> bool" where
  "live_at E i \<longleftrightarrow> i < length E \<and> ev_typ (E ! i) = Add \<and> brother (E ! i) = None"

definition paired :: "Event list \<Rightarrow> nat \<Rightarrow> nat \<Rightarrow> bool" where
  "paired E i j \<longleftrightarrow> i < j \<and> j < length E \<and> ev_typ (E ! i) = Add \<and> ev_typ (E ! j) = Delete \<and>
     ev_obj (E ! i) = ev_obj (E ! j) \<and> ev_app (E ! i) = ev_app (E ! j) \<and> brother (E ! i) = Some j \<and> brother (E ! j) = Some i"

definition log_ok :: "(string \<Rightarrow> u32) \<Rightarrow> EventManager \<Rightarrow> bool" where
  "log_ok h m \<longleftrightarrow>
     (let E = events m in
        sorted_wrt (\<lambda>a b. ev_id a < ev_id b) E \<and> (\<forall>e \<in> set E. 0 < ev_id e \<and> ev_id e \<le> last_event m \<and> ev_hash e = h (ev_app e)) \<and>
        (\<forall>j < length E. ev_typ (E ! j) = Delete \<longrightarrow> (\<exists>i. paired E i j)) \<and>
        (\<forall>i < length E. ev_typ (E ! i) = Add \<longrightarrow> brother (E ! i) \<noteq> None \<longrightarrow> (\<exists>j. paired E i j)) \<and>
        (\<forall>i j. live_at E i \<longrightarrow> i < j \<longrightarrow> j < length E \<longrightarrow> ev_obj (E ! i) = ev_obj (E ! j) \<longrightarrow> ev_typ (E ! j) = Change))"

definition live :: "EventManager \<Rightarrow> (string \<times> nat) set" where
  "live m = {(ev_app (events m ! i), ev_obj (events m ! i)) |i. live_at (events m) i}"

lemma find_last_None: "find_last P xs k = None \<longleftrightarrow> (\<forall>x \<in> set xs. \<not> P x)"
proof (induction xs arbitrary: k)
  case (Cons x xs)
  then show ?case using Cons.IH [of "Suc k"] by (cases "find_last P xs (Suc k)") auto
qed simp

lemma find_last_Some:
  "i < length xs \<Longrightarrow> P (xs ! i) \<Longrightarrow> (\<And>j. i < j \<Longrightarrow> j < length xs \<Longrightarrow> \<not> P (xs ! j)) \<Longrightarrow> find_last P xs k = Some (k + i)"
proof (induction xs arbitrary: i k)
  case (Cons x xs)
  show ?case
  proof (cases i)
    case 0
    have "\<not> P y" if "y \<in> set xs" for y
    proof -
      obtain j where "j < length xs" "xs ! j = y" using \<open>y \<in> set xs\<close> by (auto simp: in_set_conv_nth)
      then show ?thesis using Cons.prems(3) [of "Suc j"] 0 by simp
    qed
    then have "find_last P xs (Suc k) = None" by (simp add: find_last_None)
    then show ?thesis using 0 Cons.prems(2) by simp
  next
    case (Suc i')
    then have "find_last P xs (Suc k) = Some (Suc k + i')"
      using Cons.prems(1,2) Cons.prems(3) [of "Suc j" for j] by (intro Cons.IH) auto
    then show ?thesis using Suc by simp
  qed
qed simp

lemma live_unique:
  assumes "log_ok h m" "live_at (events m) i" "live_at (events m) j" "ev_obj (events m ! i) = ev_obj (events m ! j)"
  shows "i = j"
proof (rule ccontr)
  assume "i \<noteq> j"
  then consider "i < j" | "j < i" by linarith
  then show False using assms unfolding log_ok_def Let_def live_at_def by cases (metis ev_type.distinct(3))+
qed

lemma findBrother_live:
  assumes "log_ok h m" "live_at (events m) i"
  shows "findBrother (ev_obj (events m ! i)) m = Some i"
proof -
  have "\<not> (ev_obj (events m ! j) = ev_obj (events m ! i) \<and> ev_typ (events m ! j) = Add)" if "i < j" "j < length (events m)" for j
    using assms that unfolding log_ok_def Let_def by (metis ev_type.distinct(3))
  then show ?thesis using assms(2) find_last_Some [of i "events m" _ 0] by (auto simp: findBrother_def live_at_def)
qed

subsection \<open>Recording\<close>

lemma log_ok_bounds:
  "log_ok h m \<Longrightarrow> i < length (events m) \<Longrightarrow>
     0 < ev_id (events m ! i) \<and> ev_id (events m ! i) \<le> last_event m \<and> ev_hash (events m ! i) = h (ev_app (events m ! i))"
  by (auto simp: log_ok_def Let_def)

lemma log_ok_sorted: "log_ok h m \<Longrightarrow> i < j \<Longrightarrow> j < length (events m) \<Longrightarrow> ev_id (events m ! i) < ev_id (events m ! j)"
  by (auto simp: log_ok_def Let_def sorted_wrt_iff_nth_less)


text \<open>What a client that follows one application has been told.\<close>

definition client_ok :: "EventManager \<Rightarrow> string \<Rightarrow> nat set \<Rightarrow> nat \<Rightarrow> bool" where
  "client_ok m a K seen \<longleftrightarrow>
     (let E = events m in
        (\<forall>i. live_at E i \<longrightarrow> ev_app (E ! i) = a \<longrightarrow> ev_id (E ! i) \<le> seen \<longrightarrow> ev_obj (E ! i) \<in> K) \<and>
        (\<forall>x \<in> K. \<exists>i. ev_app (E ! i) = a \<and> ev_obj (E ! i) = x \<and> ev_id (E ! i) \<le> seen \<and>
           (live_at E i \<or> (\<exists>j. paired E i j \<and> seen < ev_id (E ! j)))))"

lemma getLastID_small: "n + 1 < 2 ^ 32 \<Longrightarrow> getLastID n = n + 1"
  by (simp add: getLastID_def)

lemma append_event:
  assumes ok: "log_ok h m" and seen: "seen \<le> last_event m" and c: "client_ok m a K seen"
    and e: "ev_id e = last_event m + 1" "ev_hash e = h (ev_app e)" "brother e = None" "ev_typ e \<noteq> Delete"
    and new: "ev_typ e = Add \<Longrightarrow> \<forall>x. (x, ev_obj e) \<notin> live m"
  defines "m' \<equiv> m\<lparr>events := events m @ [e], last_event := last_event m + 1\<rparr>"
  shows "log_ok h m'" "client_ok m' a K seen"
    "live m' = (if ev_typ e = Add then insert (ev_app e, ev_obj e) (live m) else live m)"
proof -
  let ?E = "events m" and ?n = "length (events m)"
  have p: "paired (?E @ [e]) i j \<longleftrightarrow> paired ?E i j" for i j
    using e(4) by (auto simp: paired_def nth_append less_Suc_eq)
  have l: "live_at (?E @ [e]) i \<longleftrightarrow> live_at ?E i \<or> i = ?n \<and> ev_typ e = Add" for i
    using e(3) by (auto simp: live_at_def nth_append)
  have live: "i < ?n" if "live_at ?E i" for i using that by (simp add: live_at_def)
  have "sorted_wrt (\<lambda>a b. ev_id a < ev_id b) (?E @ [e])"
      "\<forall>x\<in>set (?E @ [e]). 0 < ev_id x \<and> ev_id x \<le> last_event m + 1 \<and> ev_hash x = h (ev_app x)"
    using ok e by (auto simp: log_ok_def Let_def sorted_wrt_append)
  moreover have "\<exists>i. paired (?E @ [e]) i j" if "j < length (?E @ [e])" "ev_typ ((?E @ [e]) ! j) = Delete" for j
    using that ok e(4) unfolding p by (auto simp: log_ok_def Let_def nth_append less_Suc_eq split: if_splits)
  moreover have "\<exists>j. paired (?E @ [e]) i j" if "i < length (?E @ [e])" "ev_typ ((?E @ [e]) ! i) = Add" "brother ((?E @ [e]) ! i) \<noteq> None" for i
    using that ok e(3) unfolding p by (auto simp: log_ok_def Let_def nth_append less_Suc_eq split: if_splits)
  moreover have "ev_typ ((?E @ [e]) ! j) = Change" if a: "live_at (?E @ [e]) i" "i < j" "j < length (?E @ [e])"
      "ev_obj ((?E @ [e]) ! i) = ev_obj ((?E @ [e]) ! j)" for i j
  proof -
    have i: "live_at ?E i" "i < ?n" using a l live by auto
    show ?thesis
    proof (cases "j < ?n")
      case True
      then show ?thesis using ok i a(2,4) by (simp add: log_ok_def Let_def nth_append)
    next
      case False
      then have "ev_obj (?E ! i) = ev_obj e" using a i by (simp add: nth_append)
      then have "ev_typ e \<noteq> Add" using new i(1) by (force simp: live_def)
      then show ?thesis using False a(3) e(4) by (cases "ev_typ e") (auto simp: nth_append)
    qed
  qed
  ultimately show "log_ok h m'" by (simp add: log_ok_def m'_def)
  show "client_ok m' a K seen"
    unfolding client_ok_def Let_def
  proof (intro conjI ballI allI impI)
    fix i assume "live_at (events m') i" "ev_app (events m' ! i) = a" "ev_id (events m' ! i) \<le> seen"
    then show "ev_obj (events m' ! i) \<in> K"
      using c e(1) seen live [of i] by (auto simp: client_ok_def Let_def m'_def l nth_append split: if_splits)
  next
    fix x assume "x \<in> K"
    then obtain i where i: "ev_app (?E ! i) = a" "ev_obj (?E ! i) = x" "ev_id (?E ! i) \<le> seen"
        "live_at ?E i \<or> (\<exists>j. paired ?E i j \<and> seen < ev_id (?E ! j))"
      using c unfolding client_ok_def Let_def by blast
    then have "i < ?n" by (auto simp: live_at_def paired_def)
    moreover have "j < ?n" if "paired ?E i j" for j using that by (simp add: paired_def)
    ultimately show "\<exists>i. ev_app (events m' ! i) = a \<and> ev_obj (events m' ! i) = x \<and> ev_id (events m' ! i) \<le> seen \<and>
        (live_at (events m') i \<or> (\<exists>j. paired (events m') i j \<and> seen < ev_id (events m' ! j)))"
      using i by (intro exI [of _ i]) (auto simp: m'_def p l nth_append)
  qed
  have "(b, x) \<in> live m' \<longleftrightarrow> (b, x) \<in> live m \<or> ev_typ e = Add \<and> b = ev_app e \<and> x = ev_obj e" for b x
  proof -
    have "(b, x) \<in> live m' \<longleftrightarrow> (\<exists>i. live_at (?E @ [e]) i \<and> b = ev_app ((?E @ [e]) ! i) \<and> x = ev_obj ((?E @ [e]) ! i))"
      unfolding live_def m'_def by simp blast
    also have "\<dots> \<longleftrightarrow> (\<exists>i. live_at ?E i \<and> b = ev_app (?E ! i) \<and> x = ev_obj (?E ! i)) \<or> ev_typ e = Add \<and> b = ev_app e \<and> x = ev_obj e"
      using live unfolding l by (metis nth_append nth_append_length)
    also have "\<dots> \<longleftrightarrow> (b, x) \<in> live m \<or> ev_typ e = Add \<and> b = ev_app e \<and> x = ev_obj e"
      unfolding live_def by blast
    finally show ?thesis .
  qed
  then show "live m' = (if ev_typ e = Add then insert (ev_app e, ev_obj e) (live m) else live m)"
    by (simp add: set_eq_iff split_paired_all) blast
qed


lemma delete_event:
  assumes ok: "log_ok h m" and seen: "seen \<le> last_event m" and c: "client_ok m a K seen"
    and k: "live_at (events m) k"
    and e: "ev_id e = last_event m + 1" "ev_hash e = h (ev_app e)" "brother e = Some k" "ev_typ e = Delete"
      "ev_obj e = ev_obj (events m ! k)" "ev_app e = ev_app (events m ! k)"
  defines "m' \<equiv> m\<lparr>events := (events m)[k := (events m ! k)\<lparr>brother := Some (length (events m))\<rparr>] @ [e], last_event := last_event m + 1\<rparr>"
  shows "log_ok h m'" "client_ok m' a K seen" "live m' = live m - {(ev_app e, ev_obj e)}"
proof -
  let ?E = "events m" and ?n = "length (events m)"
  have kn: "k < ?n" "ev_typ (?E ! k) = Add" "brother (?E ! k) = None" using k by (auto simp: live_at_def)
  have old: "events m' ! i = (if i = k then (?E ! k)\<lparr>brother := Some ?n\<rparr> else ?E ! i)" if "i < ?n" for i
    using that by (simp add: m'_def nth_append)
  have fields: "ev_id (events m' ! i) = ev_id (?E ! i)" "ev_typ (events m' ! i) = ev_typ (?E ! i)"
      "ev_obj (events m' ! i) = ev_obj (?E ! i)" "ev_app (events m' ! i) = ev_app (?E ! i)" "ev_hash (events m' ! i) = ev_hash (?E ! i)"
    if "i < ?n" for i using old [OF that] by auto
  have last: "events m' ! ?n = e" and len: "length (events m') = Suc ?n" by (simp_all add: m'_def nth_append)
  have p: "paired (events m') i j" if "paired ?E i j" for i j
    using that kn old [of i] old [of j] fields [of i] fields [of j] len by (auto simp: paired_def)
  have pk: "paired (events m') k ?n" using kn e last len old [of k] by (auto simp: paired_def)
  have l: "live_at (events m') i \<longleftrightarrow> live_at ?E i \<and> i \<noteq> k" for i
    using kn e(3,4) last len old [of i] by (cases "i < ?n") (auto simp: live_at_def less_Suc_eq)
  have "ev_id (events m' ! i) < ev_id (events m' ! j)" if "i < j" "j < length (events m')" for i j
    using that log_ok_sorted [OF ok, of i j] log_ok_bounds [OF ok, of i] fields [of i] fields [of j] e(1) last len
    by (cases "j < ?n") (auto simp: less_Suc_eq)
  moreover have "0 < ev_id x \<and> ev_id x \<le> last_event m + 1 \<and> ev_hash x = h (ev_app x)" if "x \<in> set (events m')" for x
  proof -
    obtain i where "i < Suc ?n" "events m' ! i = x" using \<open>x \<in> set (events m')\<close> len by (auto simp: in_set_conv_nth)
    then show ?thesis using log_ok_bounds [OF ok, of i] fields [of i] e(1,2) last by (cases "i < ?n") (auto simp: less_Suc_eq)
  qed
  moreover have "\<exists>i. paired (events m') i j" if "j < length (events m')" "ev_typ (events m' ! j) = Delete" for j
  proof (cases "j < ?n")
    case True
    then have "\<exists>i. paired ?E i j" using ok that(2) fields [of j] by (auto simp: log_ok_def Let_def)
    then show ?thesis using p by blast
  next
    case False
    then show ?thesis using that(1) len pk by (metis less_SucE)
  qed
  moreover have "\<exists>j. paired (events m') i j" if "i < length (events m')" "ev_typ (events m' ! i) = Add" "brother (events m' ! i) \<noteq> None" for i
  proof (cases "i = k")
    case True
    then show ?thesis using pk by blast
  next
    case False
    then have "i < ?n" using that len last e(4) by (auto simp: less_Suc_eq)
    then have "\<exists>j. paired ?E i j" using ok that(2,3) old [of i] False by (auto simp: log_ok_def Let_def)
    then show ?thesis using p by blast
  qed
  moreover have "ev_typ (events m' ! j) = Change" if "live_at (events m') i" "i < j" "j < length (events m')"
      "ev_obj (events m' ! i) = ev_obj (events m' ! j)" for i j
  proof (cases "j < ?n")
    case True
    then show ?thesis using ok that l fields [of i] fields [of j] by (auto simp: log_ok_def Let_def)
  next
    case False
    have i: "live_at ?E i" "i \<noteq> k" "i < ?n" using that(1) l by (auto simp: live_at_def)
    have "j = ?n" using False that(3) len by simp
    then have "ev_obj (?E ! i) = ev_obj (?E ! k)" using that(4) last e(5) fields [OF i(3)] by simp
    then show ?thesis using live_unique [OF ok i(1) k] i(2) by simp
  qed
  ultimately show "log_ok h m'"
    by (simp add: log_ok_def sorted_wrt_iff_nth_less m'_def)
  show "client_ok m' a K seen"
    unfolding client_ok_def Let_def
  proof (intro conjI ballI allI impI)
    fix i assume "live_at (events m') i" "ev_app (events m' ! i) = a" "ev_id (events m' ! i) \<le> seen"
    moreover from this have "i < ?n" using l by (auto simp: live_at_def)
    ultimately show "ev_obj (events m' ! i) \<in> K" using c l fields [of i] by (auto simp: client_ok_def Let_def)
  next
    fix x assume "x \<in> K"
    then obtain i where i: "ev_app (?E ! i) = a" "ev_obj (?E ! i) = x" "ev_id (?E ! i) \<le> seen"
        "live_at ?E i \<or> (\<exists>j. paired ?E i j \<and> seen < ev_id (?E ! j))"
      using c unfolding client_ok_def Let_def by blast
    then have n: "i < ?n" by (auto simp: live_at_def paired_def)
    have "live_at (events m') i \<or> (\<exists>j. paired (events m') i j \<and> seen < ev_id (events m' ! j))"
    proof (cases "i = k")
      case True
      then show ?thesis using pk last e(1) seen by auto
    next
      case False
      then show ?thesis using i(4) l p fields by (metis paired_def)
    qed
    then show "\<exists>i. ev_app (events m' ! i) = a \<and> ev_obj (events m' ! i) = x \<and> ev_id (events m' ! i) \<le> seen \<and>
        (live_at (events m') i \<or> (\<exists>j. paired (events m') i j \<and> seen < ev_id (events m' ! j)))"
      using i n fields by metis
  qed
  have u: "live_at ?E i \<Longrightarrow> ev_obj (?E ! i) = ev_obj (?E ! k) \<Longrightarrow> i = k" for i using live_unique [OF ok _ k] by blast
  have n: "i < ?n" if "live_at ?E i" for i using that by (simp add: live_at_def)
  have "(b, x) \<in> live m' \<longleftrightarrow> (b, x) \<in> live m \<and> \<not> (b = ev_app e \<and> x = ev_obj e)" for b x
  proof -
    have "(b, x) \<in> live m' \<longleftrightarrow> (\<exists>i. live_at ?E i \<and> i \<noteq> k \<and> b = ev_app (?E ! i) \<and> x = ev_obj (?E ! i))"
      unfolding live_def l using n fields by (simp, metis)
    also have "\<dots> \<longleftrightarrow> (\<exists>i. live_at ?E i \<and> b = ev_app (?E ! i) \<and> x = ev_obj (?E ! i)) \<and> \<not> (b = ev_app e \<and> x = ev_obj e)"
      using u k e(5,6) by metis
    also have "\<dots> \<longleftrightarrow> (b, x) \<in> live m \<and> \<not> (b = ev_app e \<and> x = ev_obj e)" unfolding live_def by blast
    finally show ?thesis .
  qed
  then show "live m' = live m - {(ev_app e, ev_obj e)}" by (simp add: set_eq_iff split_paired_all)
qed


subsection \<open>Polling\<close>

definition overlapped :: "EventManager \<Rightarrow> nat \<Rightarrow> Event \<Rightarrow> bool" where
  "overlapped m seen e =
     (case ev_typ e of Add \<Rightarrow> brother e \<noteq> None | Delete \<Rightarrow> seen < ev_id (events m ! the (brother e)) | Change \<Rightarrow> False)"

definition reported :: "EventManager \<Rightarrow> u32 \<Rightarrow> nat \<Rightarrow> Event \<Rightarrow> bool" where
  "reported m hm seen e \<longleftrightarrow> and (ev_hash e) hm \<noteq> 0 \<and> seen < ev_id e \<and> \<not> overlapped m seen e"

lemma timeout_loop_eq:
  "(\<And>e. e \<in> set its \<Longrightarrow> ev_typ e = Delete \<Longrightarrow> brother e \<noteq> None) \<Longrightarrow>
   timeout_loop hm seen m its result newest =
     Inr (\<lambda>a. result a @ filter (\<lambda>e. reported m hm seen e \<and> ev_app e = a) its,
          foldl max newest (map ev_id (filter (reported m hm seen) its)))"
proof (induction its arbitrary: result newest)
  case (Cons e its)
  have "ev_typ e = Delete \<Longrightarrow> brother e \<noteq> None" using Cons.prems by simp
  then have "checkOverlap e seen m = Inr (overlapped m seen e)"
    by (auto simp: checkOverlap_def overlapped_def not_le split: ev_type.splits option.splits)
  then show ?case using Cons.IH Cons.prems by (auto simp: reported_def fun_eq_iff max_def)
qed simp

definition reports :: "EventManager \<Rightarrow> u32 \<Rightarrow> nat \<Rightarrow> string \<Rightarrow> Event list" where
  "reports m hm seen a = filter (\<lambda>e. reported m hm seen e \<and> ev_app e = a) (events m)"

definition newest_reported :: "EventManager \<Rightarrow> u32 \<Rightarrow> nat \<Rightarrow> nat" where
  "newest_reported m hm seen = foldl max 0 (map ev_id (filter (reported m hm seen) (events m)))"

lemma log_ok_Delete: "log_ok h m \<Longrightarrow> e \<in> set (events m) \<Longrightarrow> ev_typ e = Delete \<Longrightarrow> brother e \<noteq> None"
  by (auto simp: log_ok_def Let_def in_set_conv_nth paired_def)

lemma timeout_ok:
  "log_ok h m \<Longrightarrow> timeout hm seen m =
     Inr (if newest_reported m hm seen = 0 then seen else newest_reported m hm seen, reports m hm seen)"
  by (simp add: timeout_def timeout_loop_eq log_ok_Delete newest_reported_def reports_def fun_eq_iff)

lemma foldl_max: "foldl max (n :: nat) xs = Max (set (n # xs))"
proof (induction xs arbitrary: n)
  case (Cons x xs)
  then show ?case by (cases "xs = []") (simp_all add: max.assoc max.left_commute)
qed simp

text \<open>A client applies the reported events in order.\<close>

fun apply_event :: "nat set \<Rightarrow> Event \<Rightarrow> nat set" where
  "apply_event K e = (case ev_typ e of Add \<Rightarrow> insert (ev_obj e) K | Delete \<Rightarrow> K - {ev_obj e} | Change \<Rightarrow> K)"

lemma apply_events_member:
  "x \<in> foldl apply_event K es \<longleftrightarrow>
     (let xs = filter (\<lambda>e. ev_obj e = x \<and> ev_typ e \<noteq> Change) es
      in if xs = [] then x \<in> K else ev_typ (last xs) = Add)"
  by (induction es rule: rev_induct) (auto simp: Let_def split: ev_type.splits)


lemma sorted_last:
  assumes "sorted_wrt (\<lambda>a b. f a < (f b :: nat)) xs" "x \<in> set xs" "\<And>e. e \<in> set xs \<Longrightarrow> e = x \<or> f e < f x"
  shows "last xs = x"
proof (rule ccontr)
  assume n: "last xs \<noteq> x"
  have ne: "xs \<noteq> []" using assms(2) by auto
  then have "xs = butlast xs @ [last xs]" by simp
  then have "x \<in> set (butlast xs)" using assms(2) n by (metis Un_iff empty_iff empty_set set_ConsD set_append)
  then have "f x < f (last xs)" using assms(1) \<open>xs = butlast xs @ [last xs]\<close> by (metis list.set_intros(1) sorted_wrt_append)
  then show False using assms(3) [of "last xs"] ne n by auto
qed

lemma newest_bounds:
  fixes hm :: u32
  assumes "log_ok h m" "seen \<le> last_event m"
  defines "seen' \<equiv> if newest_reported m hm seen = 0 then seen else newest_reported m hm seen"
  shows "seen' \<le> last_event m" "seen \<le> seen'" "e \<in> set (events m) \<Longrightarrow> reported m hm seen e \<Longrightarrow> ev_id e \<le> seen'"
proof -
  let ?R = "ev_id ` {e \<in> set (events m). reported m hm seen e}"
  have n: "newest_reported m hm seen = Max (insert 0 ?R)" by (simp add: newest_reported_def foldl_max image_def)
  have fin: "finite ?R" by simp
  have "x \<le> last_event m \<and> seen < x" if "x \<in> ?R" for x
    using that assms(1) by (auto simp: log_ok_def Let_def reported_def)
  then have "newest_reported m hm seen = 0 \<or> newest_reported m hm seen \<in> ?R"
    using Max_in [of "insert 0 ?R"] n by auto
  then have "newest_reported m hm seen = 0 \<or> newest_reported m hm seen \<le> last_event m \<and> seen < newest_reported m hm seen"
    using \<open>\<And>x. x \<in> ?R \<Longrightarrow> x \<le> last_event m \<and> seen < x\<close> by blast
  then show "seen' \<le> last_event m" "seen \<le> seen'" using assms(2) by (auto simp: seen'_def)
  show "ev_id e \<le> seen'" if "e \<in> set (events m)" "reported m hm seen e"
  proof -
    have "ev_id e \<in> ?R" using that by simp
    then have "ev_id e \<le> newest_reported m hm seen" unfolding n using fin by (intro Max_ge) auto
    moreover have "0 < ev_id e" using assms(1) that(1) by (auto simp: log_ok_def Let_def)
    ultimately show ?thesis by (simp add: seen'_def)
  qed
qed

lemma poll_exact:
  assumes ok: "log_ok h m" and c: "client_ok m a K seen" and h: "and (h a) hm \<noteq> 0"
  shows "foldl apply_event K (reports m hm seen a) = {x. (a, x) \<in> live m}"
proof (rule set_eqI)
  fix x
  let ?E = "events m"
  let ?xs = "filter (\<lambda>e. ev_obj e = x \<and> ev_typ e \<noteq> Change) (reports m hm seen a)"
  have rep: "reported m hm seen (?E ! i) \<longleftrightarrow> seen < ev_id (?E ! i) \<and> \<not> overlapped m seen (?E ! i)"
    if "i < length ?E" "ev_app (?E ! i) = a" for i
    using that log_ok_bounds [OF ok that(1)] h by (simp add: reported_def)
  have in_xs: "e \<in> set ?xs \<longleftrightarrow> (\<exists>i < length ?E. e = ?E ! i \<and> reported m hm seen e \<and> ev_app e = a \<and> ev_obj e = x \<and> ev_typ e \<noteq> Change)" for e
    by (auto simp: reports_def in_set_conv_nth)
  show "x \<in> foldl apply_event K (reports m hm seen a) \<longleftrightarrow> x \<in> {x. (a, x) \<in> live m}"
  proof (cases "\<exists>i. live_at ?E i \<and> ev_app (?E ! i) = a \<and> ev_obj (?E ! i) = x")
    case True
    then obtain i where i: "live_at ?E i" "ev_app (?E ! i) = a" "ev_obj (?E ! i) = x" by blast
    then have n: "i < length ?E" "ev_typ (?E ! i) = Add" "brother (?E ! i) = None" by (auto simp: live_at_def)
    have later: "e = ?E ! i \<or> ev_id e < ev_id (?E ! i)" if "e \<in> set ?xs" for e
    proof -
      obtain j where j: "j < length ?E" "e = ?E ! j" "ev_obj e = x" "ev_typ e \<noteq> Change" using \<open>e \<in> set ?xs\<close> in_xs by auto
      then have "\<not> i < j" using ok i unfolding log_ok_def Let_def by metis
      then show ?thesis using j(2) log_ok_sorted [OF ok, of j i] n(1) by (metis linorder_neqE_nat)
    qed
    show ?thesis
    proof (cases "seen < ev_id (?E ! i)")
      case new: True
      then have "?E ! i \<in> set ?xs" using in_xs rep [OF n(1) i(2)] i n by (auto simp: overlapped_def)
      moreover have "sorted_wrt (\<lambda>a b. ev_id a < ev_id b) ?xs"
        using ok by (auto simp: log_ok_def Let_def reports_def sorted_wrt_filter)
      ultimately have "last ?xs = ?E ! i" using later by (intro sorted_last) auto
      moreover have "?xs \<noteq> []" using \<open>?E ! i \<in> set ?xs\<close> by (metis empty_iff empty_set)
      ultimately have "x \<in> foldl apply_event K (reports m hm seen a)" using n(2) unfolding apply_events_member Let_def by metis
      moreover have "(a, x) \<in> live m" using i by (auto simp: live_def)
      ultimately show ?thesis by simp
    next
      case False
      then have "ev_id e \<le> seen" if "e \<in> set ?xs" for e using later [OF that] by auto
      moreover have "seen < ev_id e" if "e \<in> set ?xs" for e using that by (auto simp: reports_def reported_def)
      ultimately have "?xs = []" by (metis last_in_set not_less)
      moreover have "x \<in> K" using c i False by (auto simp: client_ok_def Let_def not_less)
      ultimately have "x \<in> foldl apply_event K (reports m hm seen a)" unfolding apply_events_member Let_def by metis
      moreover have "(a, x) \<in> live m" using i by (auto simp: live_def)
      ultimately show ?thesis by simp
    qed
  next
    case False
    then have dead: "(a, x) \<notin> live m" by (auto simp: live_def)
    have no_add: "ev_typ e \<noteq> Add" if "e \<in> set ?xs" for e
    proof
      assume "ev_typ e = Add"
      moreover obtain j where j: "j < length ?E" "e = ?E ! j" "reported m hm seen e" "ev_app e = a" "ev_obj e = x"
        using \<open>e \<in> set ?xs\<close> in_xs by auto
      ultimately have "live_at ?E j" by (auto simp: reported_def overlapped_def live_at_def)
      then show False using False j by auto
    qed
    show ?thesis
    proof (cases "?xs = []")
      case True
      have "x \<notin> K"
      proof
        assume "x \<in> K"
        then obtain i where i: "ev_app (?E ! i) = a" "ev_obj (?E ! i) = x" "ev_id (?E ! i) \<le> seen"
            "live_at ?E i \<or> (\<exists>j. paired ?E i j \<and> seen < ev_id (?E ! j))"
          using c unfolding client_ok_def Let_def by blast
        then obtain j where j: "paired ?E i j" "seen < ev_id (?E ! j)" using False by auto
        then have "?E ! j \<in> set ?xs"
          using i rep [of j] in_xs [of "?E ! j"] by (auto simp: paired_def overlapped_def)
        then show False using True by simp
      qed
      then show ?thesis using True dead by (simp add: apply_events_member Let_def)
    next
      case False
      then have "ev_typ (last ?xs) \<noteq> Add" using no_add last_in_set by blast
      then show ?thesis using False dead by (simp add: apply_events_member Let_def)
    qed
  qed
qed


lemma poll_ok:
  assumes ok: "log_ok h m" and c: "client_ok m a K seen" and seen: "seen \<le> last_event m" and h: "and (h a) hm \<noteq> 0"
  shows "\<exists>seen' rep. timeout hm seen m = Inr (seen', rep) \<and> seen' \<le> last_event m \<and>
           foldl apply_event K (rep a) = {x. (a, x) \<in> live m} \<and> client_ok m a {x. (a, x) \<in> live m} seen'"
proof -
  let ?seen = "if newest_reported m hm seen = 0 then seen else newest_reported m hm seen"
  note b = newest_bounds [OF ok seen, where hm = hm]
  have "\<exists>i. ev_app (events m ! i) = a \<and> ev_obj (events m ! i) = x \<and> ev_id (events m ! i) \<le> ?seen \<and> live_at (events m) i"
    if x: "(a, x) \<in> live m" for x
  proof -
    obtain i where i: "ev_app (events m ! i) = a" "ev_obj (events m ! i) = x" "live_at (events m) i"
      using x by (auto simp: live_def)
    have "ev_id (events m ! i) \<le> ?seen"
    proof (cases "seen < ev_id (events m ! i)")
      case True
      then have "reported m hm seen (events m ! i)"
        using i log_ok_bounds [OF ok, of i] h by (auto simp: reported_def overlapped_def live_at_def)
      moreover have "events m ! i \<in> set (events m)" using i(3) by (simp add: live_at_def)
      ultimately show ?thesis using b(3) by blast
    qed (use b(2) in auto)
    then show ?thesis using i by blast
  qed
  then have "client_ok m a {x. (a, x) \<in> live m} ?seen"
    unfolding client_ok_def Let_def mem_Collect_eq by (intro conjI ballI allI impI) (force simp: live_def, blast)
  then show ?thesis using timeout_ok [OF ok] poll_exact [OF ok c h] b(1) by auto
qed

subsection \<open>Sessions\<close>

datatype session = Record ev_type nat string | Poll

text \<open>The objects that exist: a handler announces an object once before it withdraws it, and only its own.\<close>

fun uses_ok :: "(string \<times> nat) set \<Rightarrow> session list \<Rightarrow> bool" where
  "uses_ok S [] = True"
| "uses_ok S (Record Add x app # es) = ((\<forall>app'. (app', x) \<notin> S) \<and> uses_ok (insert (app, x) S) es)"
| "uses_ok S (Record Delete x app # es) = ((app, x) \<in> S \<and> uses_ok (S - {(app, x)}) es)"
| "uses_ok S (Record Change x app # es) = uses_ok S es"
| "uses_ok S (Poll # es) = uses_ok S es"

fun objects :: "(string \<times> nat) set \<Rightarrow> session list \<Rightarrow> (string \<times> nat) set" where
  "objects S [] = S"
| "objects S (Record Add x app # es) = objects (insert (app, x) S) es"
| "objects S (Record Delete x app # es) = objects (S - {(app, x)}) es"
| "objects S (_ # es) = objects S es"

fun run_session :: "(string \<Rightarrow> u32) \<Rightarrow> u32 \<Rightarrow> string \<Rightarrow> session list \<Rightarrow> EventManager \<Rightarrow> nat set \<Rightarrow> nat \<Rightarrow> (EventManager \<times> nat set \<times> nat) res" where
  "run_session h hm a [] m K seen = Inr (m, K, seen)"
| "run_session h hm a (Record ty x app # es) m K seen =
     res_bind (addToEventList ty x (h app) app m) (\<lambda>m'. run_session h hm a es m' K seen)"
| "run_session h hm a (Poll # es) m K seen =
     res_bind (timeout hm seen m) (\<lambda>(seen', rep). run_session h hm a es m (foldl apply_event K (rep a)) seen')"

lemma record_ok:
  assumes ok: "log_ok h m" and seen: "seen \<le> last_event m" and c: "client_ok m a K seen" and h: "h app \<noteq> 0"
    and n: "last_event m + 1 < 2 ^ 32" and u: "uses_ok (live m) [Record ty x app]"
  shows "\<exists>m'. addToEventList ty x (h app) app m = Inr m' \<and> log_ok h m' \<and> client_ok m' a K seen \<and>
           last_event m' = last_event m + 1 \<and> live m' = objects (live m) [Record ty x app]"
proof -
  define e where "e = \<lparr>ev_id = last_event m + 1, ev_typ = ty, ev_obj = x, ev_hash = h app, ev_app = app, brother = None\<rparr>"
  have id: "getLastID (last_event m) = last_event m + 1" using n by (rule getLastID_small)
  show ?thesis
  proof (cases "ty = Delete")
    case False
    let ?m = "m\<lparr>events := events m @ [e], last_event := last_event m + 1\<rparr>"
    have "addToEventList ty x (h app) app m = Inr ?m"
      using False h id by (simp add: addToEventList_def e_def Let_def)
    moreover have e: "ev_id e = last_event m + 1" "ev_hash e = h (ev_app e)" "brother e = None" "ev_typ e \<noteq> Delete"
        "ev_app e = app" "ev_obj e = x" "ev_typ e = ty" using False by (simp_all add: e_def)
    moreover have new: "\<forall>y. (y, ev_obj e) \<notin> live m" if "ev_typ e = Add" using that e u by simp
    ultimately have "addToEventList ty x (h app) app m = Inr ?m" "log_ok h ?m" "client_ok ?m a K seen"
        "live ?m = (if ty = Add then insert (app, x) (live m) else live m)"
      using append_event [OF ok seen c e(1-4) new] by simp_all
    then show ?thesis using False by (cases ty) simp_all
  next
    case True
    then obtain k where k: "live_at (events m) k" "ev_app (events m ! k) = app" "ev_obj (events m ! k) = x"
      using u by (auto simp: live_def)
    let ?e = "e\<lparr>brother := Some k\<rparr>"
    let ?m = "m\<lparr>events := (events m)[k := (events m ! k)\<lparr>brother := Some (length (events m))\<rparr>] @ [?e], last_event := last_event m + 1\<rparr>"
    have "addToEventList ty x (h app) app m = Inr ?m"
      using True h id findBrother_live [OF ok k(1)] k(3) by (simp add: addToEventList_def e_def Let_def)
    moreover have e: "ev_id ?e = last_event m + 1" "ev_hash ?e = h (ev_app ?e)" "brother ?e = Some k" "ev_typ ?e = Delete"
        "ev_obj ?e = ev_obj (events m ! k)" "ev_app ?e = ev_app (events m ! k)" "ev_app ?e = app" "ev_obj ?e = x"
      using True k by (simp_all add: e_def)
    moreover have "log_ok h ?m" "client_ok ?m a K seen" "live ?m = live m - {(app, x)}"
      using delete_event [OF ok seen c k(1) e(1-6)] e(7,8) by simp_all
    ultimately show ?thesis using True by simp
  qed
qed

lemma objects_append: "objects S (es @ fs) = objects (objects S es) fs"
  by (induction S es rule: objects.induct) auto

lemma run_session_append:
  "run_session h hm a (es @ fs) m K seen =
     res_bind (run_session h hm a es m K seen) (\<lambda>(m', K', seen'). run_session h hm a fs m' K' seen')"
proof (induction es arbitrary: m K seen)
  case (Cons x es)
  then show ?case by (cases x) (simp_all add: case_prod_unfold res_bind_assoc)
qed simp

lemma session_ok:
  "log_ok h m \<Longrightarrow> client_ok m a K seen \<Longrightarrow> seen \<le> last_event m \<Longrightarrow> (\<And>app. h app \<noteq> 0) \<Longrightarrow> and (h a) hm \<noteq> 0 \<Longrightarrow>
   uses_ok (live m) es \<Longrightarrow> last_event m + length es < 2 ^ 32 \<Longrightarrow>
   \<exists>m' K' seen'. run_session h hm a es m K seen = Inr (m', K', seen') \<and> log_ok h m' \<and> client_ok m' a K' seen' \<and>
     seen' \<le> last_event m' \<and> live m' = objects (live m) es"
proof (induction es arbitrary: m K seen)
  case (Cons x es)
  show ?case
  proof (cases x)
    case (Record ty ob app)
    have "uses_ok (live m) [Record ty ob app]" "uses_ok (objects (live m) [Record ty ob app]) es"
      using Cons.prems(6) Record by (cases ty; simp)+
    then obtain m' where m': "addToEventList ty ob (h app) app m = Inr m'" "log_ok h m'" "client_ok m' a K seen"
        "last_event m' = last_event m + 1" "live m' = objects (live m) [Record ty ob app]" "uses_ok (live m') es"
      using record_ok [OF Cons.prems(1,3,2) Cons.prems(4) [of app], where ty = ty and x = ob] Cons.prems(7) by auto
    moreover have "last_event m' + length es < 2 ^ 32" "seen \<le> last_event m'" using m'(4) Cons.prems(3,7) by auto
    ultimately show ?thesis
      using Cons.IH [OF m'(2,3) _ Cons.prems(4,5) m'(6)] Record objects_append [of "live m" "[Record ty ob app]" es] by auto
  next
    case Poll
    obtain seen' rep where p: "timeout hm seen m = Inr (seen', rep)" "seen' \<le> last_event m"
        "foldl apply_event K (rep a) = {x. (a, x) \<in> live m}" "client_ok m a {x. (a, x) \<in> live m} seen'"
      using poll_ok [OF Cons.prems(1-3,5)] by blast
    then show ?thesis using Cons.IH [OF Cons.prems(1) p(4,2) Cons.prems(4,5)] Cons.prems(6,7) Poll by simp
  qed
qed auto



lemma demo_objects:
  "{x. (''link'', x) \<in> objects {} [Record Add 1 ''link'', Record Add 2 ''link'', Poll, Record Delete 1 ''link'',
       Record Add 3 ''link'', Record Delete 3 ''link'']} = {2}"
  by auto


text \<open>Withdrawing an object that was never announced follows a null pointer.\<close>

lemma delete_unannounced:
  "hash \<noteq> 0 \<Longrightarrow> \<forall>e \<in> set (events m). \<not> (ev_obj e = x \<and> ev_typ e = Add) \<Longrightarrow>
   addToEventList Delete x hash app m = Inl NullDereference"
  by (simp add: addToEventList_def findBrother_def find_last_None [THEN iffD2])

end
