(* ===== verification/Topology.thy ===== *)
theory Topology
  imports Link_Discovery Event_Log
begin

text \<open>
  The topology application: \<open>src/Topology.cc\<close>. It keeps the switches and links that link discovery reports
  as an undirected graph, records each link as an object of the event log, and answers which way a packet takes
  from one switch to another.

  The graph is that of the Boost library with vector storage: vertices are positions in the list of switch numbers
  and are never removed, edges stand in the order they were added, removing the edge between two vertices removes every
  parallel one. The library's shortest-path search is a parameter that yields the predecessors. Links are known by
  their addresses; a null pointer is the address 0. Locks, logging and the JSON text of a link are left out.
\<close>

subsection \<open>The graph\<close>

record link_property =
  lp_source :: switch_and_port
  lp_target :: switch_and_port
  lp_weight :: int

record TopologyGraph =
  verts :: "u64 list"
  edges :: "(nat \<times> nat \<times> link_property) list"

definition add_edge :: "nat \<Rightarrow> nat \<Rightarrow> link_property \<Rightarrow> TopologyGraph \<Rightarrow> TopologyGraph" where
  "add_edge u v l g = g\<lparr>edges := edges g @ [(u, v, l)]\<rparr>"

definition joins :: "nat \<Rightarrow> nat \<Rightarrow> nat \<times> nat \<times> link_property \<Rightarrow> bool" where
  "joins u v e = (case e of (x, y, l) \<Rightarrow> x = u \<and> y = v \<or> x = v \<and> y = u)"

definition remove_edge :: "nat \<Rightarrow> nat \<Rightarrow> TopologyGraph \<Rightarrow> TopologyGraph" where
  "remove_edge u v g = g\<lparr>edges := filter (\<lambda>e. \<not> joins u v e) (edges g)\<rparr>"

definition edge :: "nat \<Rightarrow> nat \<Rightarrow> TopologyGraph \<Rightarrow> link_property option" where
  "edge u v g = map_option (\<lambda>(x, y, l). l) (find (joins u v) (edges g))"

record TopologyImpl =
  graph :: TopologyGraph
  vertex_map :: "u64 \<rightharpoonup> nat"

definition vertex :: "u64 \<Rightarrow> TopologyImpl \<Rightarrow> (nat \<times> TopologyImpl) res" where
  "vertex d m =
     (case vertex_map m d of
        Some v \<Rightarrow> if verts (graph m) ! v = d then Inr (v, m) else Inl AssertionFailed
      | None \<Rightarrow>
          let v = length (verts (graph m))
          in Inr (v, m\<lparr>graph := (graph m)\<lparr>verts := verts (graph m) @ [d]\<rparr>, vertex_map := (vertex_map m)(d \<mapsto> v)\<rparr>))"

subsection \<open>Signals of link discovery\<close>

record Link =
  l_source :: switch_and_port
  l_target :: switch_and_port
  l_weight :: int
  obj_id :: nat
  l_addr :: nat

record Topology =
  impl :: TopologyImpl
  topo :: "Link list"
  next_addr :: nat

definition new_Topology :: Topology where
  "new_Topology =
     \<lparr>impl = \<lparr>graph = \<lparr>verts = [], edges = []\<rparr>, vertex_map = Map.empty\<rparr>, topo = [], next_addr = 1\<rparr>"

definition getLink :: "switch_and_port \<Rightarrow> switch_and_port \<Rightarrow> Topology \<Rightarrow> Link option" where
  "getLink a b t =
     find (\<lambda>it. l_source it = a \<and> l_target it = b \<or> l_source it = b \<and> l_target it = a) (topo t)"

definition linkDiscovered :: "nat \<Rightarrow> u32 \<Rightarrow> switch_and_port \<Rightarrow> switch_and_port \<Rightarrow> Topology \<times> EventManager \<Rightarrow> (Topology \<times> EventManager) res" where
  "linkDiscovered rnd hash a b = (\<lambda>(t, em).
     if dpid a = dpid b then Inr (t, em)
     else
       res_bind (vertex (dpid a) (impl t)) (\<lambda>(u, m1).
       res_bind (vertex (dpid b) m1) (\<lambda>(v, m2).
         let m3 = m2\<lparr>graph := add_edge u v \<lparr>lp_source = a, lp_target = b, lp_weight = 1\<rparr> (graph m2)\<rparr>;
             link = \<lparr>l_source = a, l_target = b, l_weight = 5, obj_id = rnd mod 1000 + 2000, l_addr = next_addr t\<rparr>
         in res_bind (addToEventList Add (l_addr link) hash ''topology'' em) (\<lambda>em'.
              Inr (t\<lparr>impl := m3, topo := topo t @ [link], next_addr := Suc (next_addr t)\<rparr>, em')))))"

definition linkBroken :: "u32 \<Rightarrow> switch_and_port \<Rightarrow> switch_and_port \<Rightarrow> Topology \<times> EventManager \<Rightarrow> (Topology \<times> EventManager) res" where
  "linkBroken hash a b = (\<lambda>(t, em).
     res_bind (vertex (dpid a) (impl t)) (\<lambda>(u, m1).
     res_bind (vertex (dpid b) m1) (\<lambda>(v, m2).
       let m3 = m2\<lparr>graph := remove_edge u v (graph m2)\<rparr>;
           link = (case getLink a b t of None \<Rightarrow> 0 | Some l \<Rightarrow> l_addr l)
       in res_bind (addToEventList Delete link hash ''topology'' em) (\<lambda>em'.
            Inr (t\<lparr>impl := m3, topo := filter (\<lambda>l. l_addr l \<noteq> link) (topo t)\<rparr>, em')))))"

subsection \<open>Routes\<close>

definition check_ends :: "link_property \<Rightarrow> u64 \<Rightarrow> u64 \<Rightarrow> (switch_and_port \<times> switch_and_port) res" where
  "check_ends link dv dp =
     (if dpid (lp_source link) = dv then
        if dpid (lp_target link) \<noteq> dp then Inl AssertionFailed else Inr (lp_source link, lp_target link)
      else if dpid (lp_target link) \<noteq> dv \<or> dpid (lp_source link) \<noteq> dp then Inl AssertionFailed
      else Inr (lp_target link, lp_source link))"

partial_function (option) route_loop :: "TopologyGraph \<Rightarrow> (nat \<Rightarrow> nat) \<Rightarrow> nat \<Rightarrow> switch_and_port list \<Rightarrow> switch_and_port list res option" where
  "route_loop g p v ret =
     (if v = p v then Some (Inr ret)
      else
        case edge v (p v) g of
          None \<Rightarrow> Some (Inl AssertionFailed)
        | Some link \<Rightarrow>
            (case check_ends link (verts g ! v) (verts g ! p v) of
               Inl e \<Rightarrow> Some (Inl e)
             | Inr (x, y) \<Rightarrow> route_loop g p (p v) (ret @ [x, y])))"

definition computeRoute :: "(TopologyGraph \<Rightarrow> nat \<Rightarrow> nat \<Rightarrow> nat) \<Rightarrow> u64 \<Rightarrow> u64 \<Rightarrow> Topology \<Rightarrow> (Topology \<times> switch_and_port list) res option" where
  "computeRoute dijkstra from_dpid to_dpid t =
     (case res_bind (vertex from_dpid (impl t)) (\<lambda>(v, m1).
             res_bind (vertex to_dpid m1) (\<lambda>(w, m2). Inr (v, w, m2))) of
        Inl e \<Rightarrow> Some (Inl e)
      | Inr (v, w, m2) \<Rightarrow>
          map_option (map_sum id (\<lambda>ret. (t\<lparr>impl := m2\<rparr>, ret))) (route_loop (graph m2) (dijkstra (graph m2) w) v []))"

subsection \<open>What the search of the library promises\<close>

fun within :: "TopologyGraph \<Rightarrow> nat \<Rightarrow> nat \<Rightarrow> nat \<Rightarrow> bool" where
  "within g r 0 v = (v = r)"
| "within g r (Suc n) v = (within g r n v \<or> list_ex (\<lambda>(x, y, l). x = v \<and> within g r n y \<or> y = v \<and> within g r n x) (edges g))"

text \<open>
  The predecessor of a vertex is a neighbour one step nearer to the root; the root and the vertices it cannot be
  reached from are their own predecessors. All edges of the graph weigh 1.
\<close>

definition predecessors :: "TopologyGraph \<Rightarrow> nat \<Rightarrow> (nat \<Rightarrow> nat) \<Rightarrow> bool" where
  "predecessors g r p \<longleftrightarrow> p r = r \<and>
     (\<forall>v. (\<forall>n. \<not> within g r n v) \<longrightarrow> p v = v) \<and>
     (\<forall>v n. within g r (Suc n) v \<longrightarrow> \<not> within g r n v \<longrightarrow> list_ex (joins v (p v)) (edges g) \<and> within g r n (p v))"

definition shortest_paths :: "(TopologyGraph \<Rightarrow> nat \<Rightarrow> nat \<Rightarrow> nat) \<Rightarrow> bool" where
  "shortest_paths dijkstra \<longleftrightarrow>
     (\<forall>g r. (\<forall>(x, y, l) \<in> set (edges g). lp_weight l = 1) \<longrightarrow> predecessors g r (dijkstra g r))"

subsection \<open>Routes as a specification\<close>

type_synonym links = "(switch_and_port \<times> switch_and_port) set"

fun is_route :: "links \<Rightarrow> u64 \<Rightarrow> u64 \<Rightarrow> switch_and_port list \<Rightarrow> bool" where
  "is_route L a b [] = (a = b)"
| "is_route L a b [x] = False"
| "is_route L a b (x # y # r) = (dpid x = a \<and> ((x, y) \<in> L \<or> (y, x) \<in> L) \<and> is_route L (dpid y) b r)"

definition shortest_route :: "links \<Rightarrow> u64 \<Rightarrow> u64 \<Rightarrow> switch_and_port list \<Rightarrow> bool" where
  "shortest_route L a b ret \<longleftrightarrow>
     (if \<exists>r. is_route L a b r then is_route L a b ret \<and> (\<forall>r. is_route L a b r \<longrightarrow> length ret \<le> length r) else ret = [])"

definition graph_links :: "TopologyGraph \<Rightarrow> links" where
  "graph_links g = (\<lambda>(x, y, l). (lp_source l, lp_target l)) ` set (edges g)"

definition impl_ok :: "TopologyImpl \<Rightarrow> bool" where
  "impl_ok m \<longleftrightarrow>
     (\<forall>d v. vertex_map m d = Some v \<longleftrightarrow> v < length (verts (graph m)) \<and> verts (graph m) ! v = d) \<and>
     (\<forall>(x, y, l) \<in> set (edges (graph m)).
        vertex_map m (dpid (lp_source l)) = Some x \<and> vertex_map m (dpid (lp_target l)) = Some y \<and> lp_weight l = 1)"

lemma vertex_ok:
  assumes "impl_ok m"
  shows "\<exists>v m'. vertex d m = Inr (v, m') \<and> impl_ok m' \<and> edges (graph m') = edges (graph m) \<and>
           vertex_map m' d = Some v \<and> vertex_map m \<subseteq>\<^sub>m vertex_map m'"
proof (cases "vertex_map m d")
  case (Some v)
  then have "verts (graph m) ! v = d" using assms unfolding impl_ok_def by blast
  then have "vertex d m = Inr (v, m)" using Some by (simp add: vertex_def)
  then show ?thesis using Some assms by auto
next
  case None
  let ?m = "m\<lparr>graph := (graph m)\<lparr>verts := verts (graph m) @ [d]\<rparr>, vertex_map := (vertex_map m)(d \<mapsto> length (verts (graph m)))\<rparr>"
  have "v < length (verts (graph m)) \<Longrightarrow> verts (graph m) ! v \<noteq> d" for v
    using None assms unfolding impl_ok_def by (metis option.distinct(1))
  then have "impl_ok ?m" using assms None unfolding impl_ok_def
    by (auto simp: nth_append less_Suc_eq split: if_splits)
  moreover have "vertex_map m \<subseteq>\<^sub>m vertex_map ?m" using None by (auto simp: map_le_def dom_def)
  ultimately show ?thesis using None by (simp add: vertex_def Let_def)
qed


lemma impl_ok_vertex: "impl_ok m \<Longrightarrow> vertex_map m d = Some v \<Longrightarrow> v < length (verts (graph m)) \<and> verts (graph m) ! v = d"
  unfolding impl_ok_def by blast

lemma impl_ok_edge:
  "impl_ok m \<Longrightarrow> (x, y, l) \<in> set (edges (graph m)) \<Longrightarrow>
   vertex_map m (dpid (lp_source l)) = Some x \<and> vertex_map m (dpid (lp_target l)) = Some y \<and> lp_weight l = 1"
  unfolding impl_ok_def by blast

lemma vertex_map_inj: "impl_ok m \<Longrightarrow> vertex_map m a = Some v \<Longrightarrow> vertex_map m b = Some v \<Longrightarrow> a = b"
  using impl_ok_vertex by blast

text \<open>One step of the loop follows a link of the graph.\<close>

lemma route_step:
  assumes ok: "impl_ok m" and a: "vertex_map m a = Some v" and j: "list_ex (joins v u) (edges (graph m))" and "v \<noteq> u"
  shows "\<exists>x y. dpid x = a \<and> ((x, y) \<in> graph_links (graph m) \<or> (y, x) \<in> graph_links (graph m)) \<and> vertex_map m (dpid y) = Some u \<and>
           (\<exists>l. edge v u (graph m) = Some l \<and> check_ends l (verts (graph m) ! v) (verts (graph m) ! u) = Inr (x, y))"
proof -
  obtain e where "find (joins v u) (edges (graph m)) = Some e"
    using j by (metis find_None_iff list_ex_iff not_Some_eq)
  moreover obtain e1 e2 l where e: "e = (e1, e2, l)" by (metis prod_cases3)
  ultimately have l: "edge v u (graph m) = Some l" "(e1, e2, l) \<in> set (edges (graph m))" "joins v u (e1, e2, l)"
    by (auto simp: edge_def find_Some_iff)
  note ends = impl_ok_edge [OF ok l(2)]
  have at: "verts (graph m) ! v = a" using impl_ok_vertex [OF ok a] by simp
  have known: "(lp_source l, lp_target l) \<in> graph_links (graph m)" using l(2) by (force simp: graph_links_def)
  consider "e1 = v" "e2 = u" | "e1 = u" "e2 = v" using l(3) by (auto simp: joins_def)
  then show ?thesis
  proof cases
    case 1
    have "dpid (lp_source l) = a" using ends 1 vertex_map_inj [OF ok _ a] by blast
    moreover have "verts (graph m) ! u = dpid (lp_target l)" using ends 1 impl_ok_vertex [OF ok] by blast
    ultimately show ?thesis using l(1) at known ends 1
      by (intro exI [of _ "lp_source l"] exI [of _ "lp_target l"]) (simp add: check_ends_def)
  next
    case 2
    have "dpid (lp_target l) = a" using ends 2 vertex_map_inj [OF ok _ a] by blast
    moreover have "verts (graph m) ! u = dpid (lp_source l)" using ends 2 impl_ok_vertex [OF ok] by blast
    moreover have "dpid (lp_source l) \<noteq> a" using ends 2 a \<open>v \<noteq> u\<close> by auto
    ultimately show ?thesis using l(1) at known ends 2
      by (intro exI [of _ "lp_target l"] exI [of _ "lp_source l"]) (simp add: check_ends_def)
  qed
qed

text \<open>The loop ends at the root, in as many steps as the vertex is away.\<close>

lemma route_loop_within:
  assumes ok: "impl_ok m" and p: "predecessors (graph m) w p" and b: "vertex_map m b = Some w"
  shows "within (graph m) w n v \<Longrightarrow> vertex_map m a = Some v \<Longrightarrow>
         \<exists>r. route_loop (graph m) p v ret = Some (Inr (ret @ r)) \<and> is_route (graph_links (graph m)) a b r \<and> length r \<le> 2 * n"
proof (induction n arbitrary: v a ret)
  case 0
  then have "p v = v" "a = b" using p b vertex_map_inj [OF ok] by (auto simp: predecessors_def)
  then show ?case by (subst route_loop.simps) (simp add: exI [of _ "[]"])
next
  case (Suc n)
  show ?case
  proof (cases "within (graph m) w n v")
    case True
    then obtain r where "route_loop (graph m) p v ret = Some (Inr (ret @ r))" "is_route (graph_links (graph m)) a b r" "length r \<le> 2 * n"
      using Suc.IH Suc.prems(2) by blast
    then show ?thesis by (intro exI [of _ r]) simp
  next
    case False
    then have pv: "list_ex (joins v (p v)) (edges (graph m))" "within (graph m) w n (p v)"
      using p Suc.prems(1) unfolding predecessors_def by blast+
    have "v \<noteq> p v" using pv(2) False by auto
    then obtain x y l where s: "dpid x = a" "(x, y) \<in> graph_links (graph m) \<or> (y, x) \<in> graph_links (graph m)"
        "vertex_map m (dpid y) = Some (p v)" "edge v (p v) (graph m) = Some l"
        "check_ends l (verts (graph m) ! v) (verts (graph m) ! p v) = Inr (x, y)"
      using route_step [OF ok Suc.prems(2) pv(1)] by blast
    obtain r where r: "route_loop (graph m) p (p v) (ret @ [x, y]) = Some (Inr ((ret @ [x, y]) @ r))"
        "is_route (graph_links (graph m)) (dpid y) b r" "length r \<le> 2 * n"
      using Suc.IH [OF pv(2) s(3)] by blast
    have "route_loop (graph m) p v ret = Some (Inr (ret @ x # y # r))"
      using \<open>v \<noteq> p v\<close> s(4,5) r(1) by (subst route_loop.simps) simp
    then show ?thesis using s(1,2) r(2,3) by (intro exI [of _ "x # y # r"]) simp
  qed
qed

lemma route_within:
  assumes ok: "impl_ok m"
  shows "vertex_map m b = Some w \<Longrightarrow> is_route (graph_links (graph m)) a b r \<Longrightarrow> vertex_map m a = Some v \<Longrightarrow> within (graph m) w (length r div 2) v"
proof (induction "graph_links (graph m)" a b r arbitrary: v rule: is_route.induct)
  case (1 a b)
  then show ?case by simp
next
  case (3 a b x y r)
  then obtain e1 e2 l where l: "(e1, e2, l) \<in> set (edges (graph m))"
      "lp_source l = x \<and> lp_target l = y \<or> lp_source l = y \<and> lp_target l = x"
    by (auto simp: graph_links_def)
  have v: "vertex_map m (dpid x) = Some v" using 3 by simp
  obtain u where u: "vertex_map m (dpid y) = Some u" "e1 = v \<and> e2 = u \<or> e1 = u \<and> e2 = v"
    using impl_ok_edge [OF ok l(1)] l(2) v by auto
  then have "within (graph m) w (length r div 2) u" using 3 by simp
  then show ?case using l(1) u(2) by (fastforce simp: list_ex_iff)
qed simp

lemma route_loop_shortest:
  assumes ok: "impl_ok m" and p: "predecessors (graph m) w p" and a: "vertex_map m a = Some v" and b: "vertex_map m b = Some w"
  shows "\<exists>r. route_loop (graph m) p v [] = Some (Inr r) \<and> shortest_route (graph_links (graph m)) a b r"
proof (cases "\<exists>r. is_route (graph_links (graph m)) a b r")
  case True
  then obtain r0 where r0: "is_route (graph_links (graph m)) a b r0" by blast
  obtain r where r: "route_loop (graph m) p v [] = Some (Inr r)" "is_route (graph_links (graph m)) a b r"
    using route_loop_within [OF ok p b route_within [OF ok b r0 a] a, of "[]"] by auto
  have "length r \<le> length r1" if "is_route (graph_links (graph m)) a b r1" for r1
    using route_loop_within [OF ok p b route_within [OF ok b that a] a, of "[]"] r(1) by auto
  then show ?thesis using r by (auto simp: shortest_route_def)
next
  case False
  then have "\<not> within (graph m) w n v" for n using route_loop_within [OF ok p b _ a] by blast
  then have "v = p v" using p unfolding predecessors_def by metis
  then have "route_loop (graph m) p v [] = Some (Inr [])" by (subst route_loop.simps) simp
  then show ?thesis using False by (simp add: shortest_route_def)
qed

lemma computeRoute_shortest:
  assumes "impl_ok (impl t)" "shortest_paths dijkstra"
  shows "\<exists>t' r. computeRoute dijkstra a b t = Some (Inr (t', r)) \<and> impl_ok (impl t') \<and> topo t' = topo t \<and>
           edges (graph (impl t')) = edges (graph (impl t)) \<and> shortest_route (graph_links (graph (impl t))) a b r"
proof -
  obtain v m1 where v: "vertex a (impl t) = Inr (v, m1)" "impl_ok m1" "edges (graph m1) = edges (graph (impl t))" "vertex_map m1 a = Some v"
    using vertex_ok [OF assms(1)] by blast
  obtain w m2 where w: "vertex b m1 = Inr (w, m2)" "impl_ok m2" "edges (graph m2) = edges (graph (impl t))" "vertex_map m2 b = Some w"
      "vertex_map m2 a = Some v"
    using vertex_ok [OF v(2)] v(3,4) by (metis domI map_le_def)
  have "predecessors (graph m2) w (dijkstra (graph m2) w)"
    using assms(2) impl_ok_edge [OF w(2)] unfolding shortest_paths_def by blast
  then obtain r where "route_loop (graph m2) (dijkstra (graph m2) w) v [] = Some (Inr r)" "shortest_route (graph_links (graph m2)) a b r"
    using route_loop_shortest [OF w(2) _ w(5,4)] by blast
  then show ?thesis using v w by (simp add: computeRoute_def graph_links_def)
qed


subsection \<open>Following link discovery\<close>

fun topo_run :: "(nat \<Rightarrow> nat) \<Rightarrow> u32 \<Rightarrow> ld_out list \<Rightarrow> Topology \<times> EventManager \<Rightarrow> (Topology \<times> EventManager) res" where
  "topo_run rnd hash [] te = Inr te"
| "topo_run rnd hash (LinkDiscovered a b # out) te =
     res_bind (linkDiscovered (rnd (next_addr (fst te))) hash a b te) (topo_run rnd hash out)"
| "topo_run rnd hash (LinkBroken a b # out) te = res_bind (linkBroken hash a b te) (topo_run rnd hash out)"
| "topo_run rnd hash (_ # out) te = topo_run rnd hash out te"

definition topo_links :: "Topology \<Rightarrow> links" where
  "topo_links t = (\<lambda>l. (l_source l, l_target l)) ` set (topo t)"

text \<open>At most one link joins two switches.\<close>

definition simple_wiring :: "links \<Rightarrow> bool" where
  "simple_wiring U \<longleftrightarrow>
     (\<forall>(a, b) \<in> U. \<forall>(c, d) \<in> U. {dpid a, dpid b} = {dpid c, dpid d} \<longrightarrow> (a, b) = (c, d))"

text \<open>The links that may be reported: ordered, between two switches.\<close>

definition proper_links :: "links \<Rightarrow> bool" where
  "proper_links U \<longleftrightarrow> (\<forall>(a, b) \<in> U. sap_less a b \<and> dpid a \<noteq> dpid b)"

definition topo_inv :: "u32 \<Rightarrow> links \<Rightarrow> Topology \<times> EventManager \<Rightarrow> bool" where
  "topo_inv hash U te \<longleftrightarrow>
     (let (t, em) = te in
        impl_ok (impl t) \<and> topo_links t \<subseteq> U \<and> graph_links (graph (impl t)) \<subseteq> topo_links t \<and>
        (simple_wiring U \<longrightarrow> graph_links (graph (impl t)) = topo_links t) \<and>
        inj_on (\<lambda>l. (l_source l, l_target l)) (set (topo t)) \<and> inj_on l_addr (set (topo t)) \<and> (\<forall>l \<in> set (topo t). l_addr l < next_addr t) \<and>
        log_ok (\<lambda>_. hash) em \<and> live em = (\<lambda>l. (''topology'', l_addr l)) ` set (topo t))"

text \<open>An event of the log that a handler may record succeeds.\<close>

lemma log_record:
  assumes "log_ok h m" "h app \<noteq> 0" "last_event m + 1 < 2 ^ 32" "uses_ok (live m) [Record ty x app]"
  shows "\<exists>m'. addToEventList ty x (h app) app m = Inr m' \<and> log_ok h m' \<and> last_event m' = last_event m + 1 \<and>
           live m' = objects (live m) [Record ty x app]"
proof -
  have "client_ok m app {} 0" using log_ok_bounds [OF assms(1)] by (fastforce simp: client_ok_def live_at_def)
  then show ?thesis using record_ok [OF assms(1) _ _ assms(2,3,4), of 0 app "{}"] by auto
qed

lemma two_vertices:
  assumes "impl_ok m"
  shows "\<exists>u v m1 m2. vertex a m = Inr (u, m1) \<and> vertex b m1 = Inr (v, m2) \<and> impl_ok m2 \<and> edges (graph m2) = edges (graph m) \<and>
           vertex_map m2 a = Some u \<and> vertex_map m2 b = Some v"
proof -
  obtain u m1 where u: "vertex a m = Inr (u, m1)" "impl_ok m1" "edges (graph m1) = edges (graph m)" "vertex_map m1 a = Some u"
    using vertex_ok [OF assms] by blast
  obtain v m2 where "vertex b m1 = Inr (v, m2)" "impl_ok m2" "edges (graph m2) = edges (graph m)" "vertex_map m2 b = Some v" "vertex_map m2 a = Some u"
    using vertex_ok [OF u(2)] u(3,4) by (metis domI map_le_def)
  then show ?thesis using u by blast
qed

lemma linkDiscovered_ok:
  assumes inv: "topo_inv hash U (t, em)" and "(a, b) \<in> U" "(a, b) \<notin> topo_links t" "proper_links U" "hash \<noteq> 0" "last_event em + 1 < 2 ^ 32"
  shows "\<exists>t' em'. linkDiscovered rnd hash a b (t, em) = Inr (t', em') \<and> topo_inv hash U (t', em') \<and>
           topo_links t' = insert (a, b) (topo_links t) \<and> last_event em' = last_event em + 1"
proof -
  note i = inv [unfolded topo_inv_def Let_def prod.case]
  obtain u v m1 m2 where m: "vertex (dpid a) (impl t) = Inr (u, m1)" "vertex (dpid b) m1 = Inr (v, m2)" "impl_ok m2"
      "edges (graph m2) = edges (graph (impl t))" "vertex_map m2 (dpid a) = Some u" "vertex_map m2 (dpid b) = Some v"
    using two_vertices [OF i [THEN conjunct1], of "dpid a" "dpid b"] by blast
  have "\<forall>app'. (app', next_addr t) \<notin> live em" using i by auto
  then obtain em' where em: "addToEventList Add (next_addr t) hash ''topology'' em = Inr em'" "log_ok (\<lambda>_. hash) em'"
      "last_event em' = last_event em + 1" "live em' = insert (''topology'', next_addr t) (live em)"
    using log_record [where h = "\<lambda>_. hash" and m = em and ty = Add and x = "next_addr t" and app = "''topology''"] i assms(5,6) by auto
  define m3 where "m3 = m2\<lparr>graph := add_edge u v \<lparr>lp_source = a, lp_target = b, lp_weight = 1\<rparr> (graph m2)\<rparr>"
  define link where "link = \<lparr>l_source = a, l_target = b, l_weight = 5, obj_id = rnd mod 1000 + 2000, l_addr = next_addr t\<rparr>"
  let ?t = "t\<lparr>impl := m3, topo := topo t @ [link], next_addr := Suc (next_addr t)\<rparr>"
  have "dpid a \<noteq> dpid b" using assms(2,4) by (auto simp: proper_links_def)
  then have "linkDiscovered rnd hash a b (t, em) = Inr (?t, em')"
    using m em(1) by (simp add: linkDiscovered_def m3_def link_def Let_def)
  moreover have ok: "impl_ok m3" using m(3,5,6) by (auto simp: impl_ok_def m3_def add_edge_def)
  moreover have gl: "graph_links (graph m3) = insert (a, b) (graph_links (graph (impl t)))"
    using m(4) by (auto simp: graph_links_def m3_def add_edge_def)
  moreover have tl: "topo_links ?t = insert (a, b) (topo_links t)" by (auto simp: topo_links_def link_def)
  moreover have "topo_inv hash U (?t, em')"
    unfolding topo_inv_def Let_def prod.case
  proof (intro conjI)
    have old: "l_addr l \<noteq> next_addr t" "(l_source l, l_target l) \<noteq> (a, b)" if "l \<in> set (topo t)" for l
      using that i assms(3) by (auto simp: topo_links_def)
    show "inj_on (\<lambda>l. (l_source l, l_target l)) (set (topo ?t))"
      using i old(2) by (fastforce simp: link_def inj_on_def)
    show "inj_on l_addr (set (topo ?t))" using i old(1) by (fastforce simp: link_def inj_on_def)
    show "\<forall>l\<in>set (topo ?t). l_addr l < next_addr ?t" using i by (auto simp: link_def less_Suc_eq)
    show "live em' = (\<lambda>l. (''topology'', l_addr l)) ` set (topo ?t)" using i em(4) by (simp add: link_def)
  qed (use i assms(2) gl tl ok em(2) in auto)
  ultimately show ?thesis using em(3) by blast
qed


lemma getLink_known:
  assumes "topo_links t \<subseteq> U" "proper_links U" "(a, b) \<in> topo_links t"
  shows "\<exists>l. getLink a b t = Some l \<and> l \<in> set (topo t) \<and> l_source l = a \<and> l_target l = b"
proof -
  let ?P = "\<lambda>it. l_source it = a \<and> l_target it = b \<or> l_source it = b \<and> l_target it = a"
  obtain l where l: "getLink a b t = Some l" using assms(3) by (cases "getLink a b t") (auto simp: getLink_def find_None_iff topo_links_def)
  then have "l \<in> set (topo t)" "?P l" by (auto simp: getLink_def find_Some_iff)
  moreover have "(b, a) \<notin> U" using assms sap_less_asym by (fastforce simp: proper_links_def)
  ultimately show ?thesis using l assms(1) by (auto simp: topo_links_def)
qed

lemma graph_links_remove:
  assumes "impl_ok m" "vertex_map m (dpid a) = Some u" "vertex_map m (dpid b) = Some v"
  defines "L \<equiv> graph_links (graph m)" and "L' \<equiv> graph_links (remove_edge u v (graph m))"
  shows "L' \<subseteq> L" "(a, b) \<notin> L'" "(c, d) \<in> L \<Longrightarrow> {dpid c, dpid d} \<noteq> {dpid a, dpid b} \<Longrightarrow> (c, d) \<in> L'"
proof -
  show "L' \<subseteq> L" by (force simp: L_def L'_def graph_links_def remove_edge_def)
  show "(a, b) \<notin> L'" using assms(2,3) impl_ok_edge [OF assms(1)] by (fastforce simp: L'_def graph_links_def remove_edge_def joins_def)
  assume "(c, d) \<in> L" and ne: "{dpid c, dpid d} \<noteq> {dpid a, dpid b}"
  then obtain x y l where l: "(x, y, l) \<in> set (edges (graph m))" "lp_source l = c" "lp_target l = d" by (auto simp: L_def graph_links_def)
  then have "vertex_map m (dpid c) = Some x" "vertex_map m (dpid d) = Some y" using impl_ok_edge [OF assms(1) l(1)] by auto
  then have "\<not> joins u v (x, y, l)" using ne assms(2,3) vertex_map_inj [OF assms(1)] by (auto simp: joins_def)
  then show "(c, d) \<in> L'" using l by (force simp: L'_def graph_links_def remove_edge_def)
qed

lemma linkBroken_ok:
  assumes inv: "topo_inv hash U (t, em)" and known: "(a, b) \<in> topo_links t" and "proper_links U" "hash \<noteq> 0" "last_event em + 1 < 2 ^ 32"
  shows "\<exists>t' em'. linkBroken hash a b (t, em) = Inr (t', em') \<and> topo_inv hash U (t', em') \<and>
           topo_links t' = topo_links t - {(a, b)} \<and> last_event em' = last_event em + 1"
proof -
  note i = inv [unfolded topo_inv_def Let_def prod.case]
  obtain u v m1 m2 where m: "vertex (dpid a) (impl t) = Inr (u, m1)" "vertex (dpid b) m1 = Inr (v, m2)" "impl_ok m2"
      "edges (graph m2) = edges (graph (impl t))" "vertex_map m2 (dpid a) = Some u" "vertex_map m2 (dpid b) = Some v"
    using two_vertices [OF i [THEN conjunct1], of "dpid a" "dpid b"] by blast
  obtain l where l: "getLink a b t = Some l" "l \<in> set (topo t)" "l_source l = a" "l_target l = b"
    using getLink_known [OF i [THEN conjunct2, THEN conjunct1] assms(3) known] by blast
  have "(''topology'', l_addr l) \<in> live em" using i l(2) by auto
  then obtain em' where em: "addToEventList Delete (l_addr l) hash ''topology'' em = Inr em'" "log_ok (\<lambda>_. hash) em'"
      "last_event em' = last_event em + 1" "live em' = live em - {(''topology'', l_addr l)}"
    using log_record [where h = "\<lambda>_. hash" and m = em and ty = Delete and x = "l_addr l" and app = "''topology''"] i assms(4,5) by auto
  define m3 where "m3 = m2\<lparr>graph := remove_edge u v (graph m2)\<rparr>"
  define ls where "ls = filter (\<lambda>k. l_addr k \<noteq> l_addr l) (topo t)"
  let ?t = "t\<lparr>impl := m3, topo := ls\<rparr>"
  have set_ls: "set ls = set (topo t) - {l}" using i l(2) by (auto simp: ls_def inj_on_def)
  have gl2: "graph_links (graph m2) = graph_links (graph (impl t))" using m(4) by (simp add: graph_links_def)
  note gl = graph_links_remove [OF m(3,5,6), unfolded gl2]
  have "linkBroken hash a b (t, em) = Inr (?t, em')"
    using m em(1) l(1) by (simp add: linkBroken_def m3_def ls_def Let_def)
  moreover have tl: "topo_links ?t = topo_links t - {(a, b)}"
    using i l(2-4) by (auto simp: topo_links_def set_ls inj_on_def)
  moreover have "topo_inv hash U (?t, em')"
    unfolding topo_inv_def Let_def prod.case
  proof (intro conjI impI)
    show "impl_ok (impl ?t)" using m(3) by (auto simp: impl_ok_def m3_def remove_edge_def)
    show "graph_links (graph (impl ?t)) \<subseteq> topo_links ?t" using gl(1,2) i tl by (auto simp: m3_def)
    show "inj_on (\<lambda>l. (l_source l, l_target l)) (set (topo ?t))" "inj_on l_addr (set (topo ?t))"
      using i by (auto simp: set_ls intro: inj_on_diff)
    show "live em' = (\<lambda>l. (''topology'', l_addr l)) ` set (topo ?t)" using i l(2) em(4) by (auto simp: set_ls inj_on_def)
    assume simple: "simple_wiring U"
    have "(c, d) \<in> graph_links (graph m3)" if cd: "(c, d) \<in> topo_links t" "(c, d) \<noteq> (a, b)" for c d
    proof -
      have "(c, d) \<in> U" "(a, b) \<in> U" "(c, d) \<in> graph_links (graph (impl t))" using cd(1) known simple i by auto
      moreover from this have "{dpid c, dpid d} \<noteq> {dpid a, dpid b}" using simple cd(2) unfolding simple_wiring_def by fast
      ultimately show ?thesis using gl(3) by (simp add: m3_def)
    qed
    then show "graph_links (graph (impl ?t)) = topo_links ?t" using gl(1,2) i tl by (auto simp: m3_def)
  qed (use i tl em(2) in \<open>auto simp: set_ls\<close>)
  ultimately show ?thesis using em(3) by blast
qed

lemma topo_run_ok:
  assumes "proper_links U" "hash \<noteq> 0"
  shows "topo_inv hash U (t, em) \<Longrightarrow> track (topo_links t) out = Some K \<Longrightarrow> last_event em + length out < 2 ^ 32 \<Longrightarrow>
         (\<And>a b. LinkDiscovered a b \<in> set out \<Longrightarrow> (a, b) \<in> U) \<Longrightarrow>
         \<exists>t' em'. topo_run rnd hash out (t, em) = Inr (t', em') \<and> topo_inv hash U (t', em') \<and> topo_links t' = K"
proof (induction out arbitrary: t em)
  case (Cons x out)
  have n: "last_event em + 1 < 2 ^ 32" using Cons.prems(3) by simp
  show ?case
  proof (cases x)
    case (LinkDiscovered a b)
    then have new: "(a, b) \<in> U" "(a, b) \<notin> topo_links t" using Cons.prems by (auto split: if_splits)
    obtain t1 em1 where s: "linkDiscovered (rnd (next_addr t)) hash a b (t, em) = Inr (t1, em1)" "topo_inv hash U (t1, em1)"
        "topo_links t1 = insert (a, b) (topo_links t)" "last_event em1 = last_event em + 1"
      using linkDiscovered_ok [OF Cons.prems(1) new assms n] by blast
    then show ?thesis using Cons.IH [OF s(2)] Cons.prems new LinkDiscovered by auto
  next
    case (LinkBroken a b)
    then have known: "(a, b) \<in> topo_links t" using Cons.prems(2) by (auto split: if_splits)
    obtain t1 em1 where s: "linkBroken hash a b (t, em) = Inr (t1, em1)" "topo_inv hash U (t1, em1)"
        "topo_links t1 = topo_links t - {(a, b)}" "last_event em1 = last_event em + 1"
      using linkBroken_ok [OF Cons.prems(1) known assms n] by blast
    then show ?thesis using Cons.IH [OF s(2)] Cons.prems known LinkBroken by auto
  qed (use Cons in auto)
qed auto

lemma new_topo_inv: "log_ok (\<lambda>_. hash) em \<Longrightarrow> live em = {} \<Longrightarrow> topo_inv hash U (new_Topology, em)"
  by (simp add: topo_inv_def new_Topology_def impl_ok_def topo_links_def graph_links_def)


text \<open>Link discovery announces only what beacons told it.\<close>

lemma sendLLDP_quiet: "LinkDiscovered a b \<notin> set (sendLLDP dp p s)"
  by (simp add: sendLLDP_def)

lemma clearLinkAt_quiet: "clearLinkAt nd p s = Inr (s', out) \<Longrightarrow> LinkDiscovered a b \<notin> set out"
  by (auto simp: clearLinkAt_def Let_def split: option.splits if_splits)

lemma expire_quiet: "expire nd now ls m = Inr (ls', m', out) \<Longrightarrow> LinkDiscovered a b \<notin> set out"
  by (induction nd now ls m arbitrary: ls' m' out rule: expire.induct) (auto split: if_splits)

lemma ld_step_announces:
  assumes "ld_step nd e s = Inr (s', out)" "LinkDiscovered a b \<in> set out"
  shows "\<exists>now. e = Beacon now a b"
proof (cases e)
  case (Beacon now c d)
  then show ?thesis using assms by (auto simp: handleBeacon_def Let_def split: option.splits if_splits prod.splits)
next
  case (PortGone dp no)
  then show ?thesis using assms clearLinkAt_quiet by (auto simp: portDown_def)
next
  case (PortChanged dp p old_p)
  then show ?thesis using assms clearLinkAt_quiet sendLLDP_quiet by (auto simp: portModified_def split: if_splits)
next
  case (Timer now sws)
  then obtain ls m o1 where "expire nd now (m_links s) (m_out_edges s) = Inr (ls, m, o1)" "LinkDiscovered a b \<in> set o1"
    using assms sendLLDP_quiet by (auto simp: timerEvent_def Let_def split: if_splits)
  then show ?thesis using expire_quiet by blast
qed

lemma ld_run_announces:
  "ld_run nd es s = Inr (s', out) \<Longrightarrow> LinkDiscovered a b \<in> set out \<Longrightarrow> \<exists>now. Beacon now a b \<in> set es"
proof (induction es arbitrary: s out)
  case (Cons e es)
  then obtain s1 out1 out2 where "ld_step nd e s = Inr (s1, out1)" "ld_run nd es s1 = Inr (s', out2)" "out = out1 @ out2" by auto
  then show ?case using Cons.IH Cons.prems(2) ld_step_announces by fastforce
qed auto

lemma beacons_ok_wired: "beacons_ok W since es \<Longrightarrow> Beacon now a b \<in> set es \<Longrightarrow> sap_less a b \<and> W a = Some b \<and> W b = Some a"
  by (induction W since es rule: beacons_ok.induct) auto

definition wires :: "(switch_and_port \<rightharpoonup> switch_and_port) \<Rightarrow> links" where
  "wires W = {(a, b). sap_less a b \<and> W a = Some b \<and> W b = Some a}"

lemma discovered_topology:
  assumes "beacons_ok W since es" "\<forall>a b. W a = Some b \<longrightarrow> dpid a \<noteq> dpid b" "hash \<noteq> 0"
    "ld_run False es (new_LinkDiscovery poll) = Inr (s, out)" "length out < 2 ^ 32"
  shows "\<exists>t em. topo_run rnd hash out (new_Topology, \<lparr>events = [], last_event = 0\<rparr>) = Inr (t, em) \<and>
           topo_inv hash (wires W) (t, em) \<and> topo_links t = ends (m_links s)"
proof -
  let ?em = "\<lparr>events = [], last_event = 0\<rparr>"
  have "run_inv W since (new_LinkDiscovery poll)" "ends (m_links (new_LinkDiscovery poll)) = {}"
    by (simp_all add: run_inv_def link_inv_def links_ok_def edges_of_def wired_def ends_def new_LinkDiscovery_def)
  then have k: "track {} out = Some (ends (m_links s))" using ld_run_ok [OF assms(1)] assms(4) by fastforce
  have p: "proper_links (wires W)" using assms(2) by (auto simp: proper_links_def wires_def)
  have u: "(c, d) \<in> wires W" if "LinkDiscovered c d \<in> set out" for c d
    using ld_run_announces [OF assms(4) that] beacons_ok_wired [OF assms(1)] by (auto simp: wires_def)
  have n: "topo_inv hash (wires W) (new_Topology, ?em)" by (rule new_topo_inv) (simp_all add: log_ok_def live_def live_at_def)
  show ?thesis
    using topo_run_ok [OF p assms(3) n, of out "ends (m_links s)" rnd] k assms(5) u by (auto simp: new_Topology_def topo_links_def)
qed



subsection \<open>A search that keeps the promise\<close>

definition bfs :: "TopologyGraph \<Rightarrow> nat \<Rightarrow> nat \<Rightarrow> nat" where
  "bfs g r v =
     (case find (\<lambda>n. within g r n v) [0..<Suc (2 * length (edges g))] of
        Some (Suc n) \<Rightarrow>
          (case find (\<lambda>(x, y, l). x = v \<and> within g r n y \<or> y = v \<and> within g r n x) (edges g) of
             Some (x, y, l) \<Rightarrow> if x = v \<and> within g r n y then y else x
           | None \<Rightarrow> v)
      | _ \<Rightarrow> v)"

lemma within_mono: "n \<le> k \<Longrightarrow> within g r n v \<Longrightarrow> within g r k v"
  by (induction k) (auto simp: le_Suc_eq)

lemma within_stable: "(\<And>v. within g r (Suc n) v = within g r n v) \<Longrightarrow> within g r (n + k) v = within g r n v"
proof (induction k arbitrary: v)
  case (Suc k)
  have "within g r (n + Suc k) v = within g r (Suc n) v" using Suc.IH [OF Suc.prems] by simp
  then show ?case using Suc.prems by simp
qed simp

lemma within_bounded:
  assumes "within g r n v"
  shows "within g r (2 * length (edges g)) v"
proof -
  define S where "S n = {v. within g r n v}" for n
  define V where "V = insert r ((\<lambda>(x, y, l). x) ` set (edges g) \<union> (\<lambda>(x, y, l). y) ` set (edges g))"
  have "S k \<subseteq> V" for k by (induction k) (force simp: S_def V_def list_ex_iff)+
  moreover have fin: "finite V" by (simp add: V_def)
  ultimately have le: "card (S k) \<le> card V" for k by (simp add: card_mono)
  let ?xs = "map (\<lambda>(x, y, l). x) (edges g) @ map (\<lambda>(x, y, l). y) (edges g)"
  have "V = set (r # ?xs)" by (simp add: V_def)
  then have V: "card V \<le> Suc (2 * length (edges g))" using card_length [of "r # ?xs"] by simp
  have grow: "Suc k \<le> card (S k)" if "\<And>i. i < k \<Longrightarrow> S (Suc i) \<noteq> S i" for k
    using that
  proof (induction k)
    case 0
    have "S 0 = {r}" by (auto simp: S_def)
    then show ?case by simp
  next
    case (Suc k)
    have "S k \<subset> S (Suc k)" using Suc.prems [of k] by (auto simp: S_def)
    moreover have "finite (S (Suc k))" using \<open>\<And>k. S k \<subseteq> V\<close> fin finite_subset by blast
    ultimately have "card (S k) < card (S (Suc k))" by (rule psubset_card_mono [rotated])
    then show ?case using Suc.IH Suc.prems by fastforce
  qed
  obtain i where i: "i \<le> 2 * length (edges g)" "S (Suc i) = S i"
    using grow [of "Suc (2 * length (edges g))"] le [of "Suc (2 * length (edges g))"] V by fastforce
  then have "within g r (i + k) v = within g r i v" for k by (intro within_stable) (auto simp: S_def)
  then have "within g r i v" using assms within_mono [of n "i + n"] by auto
  then show ?thesis using i(1) within_mono by blast
qed

lemma bfs_layer:
  assumes "within g r (Suc n) v" "\<not> within g r n v"
  shows "find (\<lambda>n. within g r n v) [0..<Suc (2 * length (edges g))] = Some (Suc n)"
proof -
  have "n < 2 * length (edges g)" using within_bounded [OF assms(1)] assms(2) within_mono by (metis not_less)
  moreover have "\<not> within g r k v" if "k < Suc n" for k using assms(2) within_mono that by (metis less_Suc_eq_le)
  ultimately show ?thesis using assms(1) by (auto simp: find_Some_iff simp del: upt_Suc within.simps intro!: exI [of _ "Suc n"])
qed

lemma bfs_shortest_paths: "shortest_paths bfs"
proof -
  have "predecessors g r (bfs g r)" for g r
    unfolding predecessors_def
  proof (intro conjI allI impI)
    have "find (\<lambda>n. within g r n r) [0..<Suc (2 * length (edges g))] = Some 0"
      by (simp add: upt_conv_Cons del: upt_Suc)
    then show "bfs g r r = r" by (simp add: bfs_def del: upt_Suc)
  next
    fix v assume "\<forall>n. \<not> within g r n v"
    then have "find (\<lambda>n. within g r n v) [0..<Suc (2 * length (edges g))] = None" by (simp add: find_None_iff del: upt_Suc)
    then show "bfs g r v = v" by (simp add: bfs_def del: upt_Suc)
  next
    fix v n assume w: "within g r (Suc n) v" "\<not> within g r n v"
    let ?P = "\<lambda>(x, y, l :: link_property). x = v \<and> within g r n y \<or> y = v \<and> within g r n x"
    have "find ?P (edges g) \<noteq> None" using w by (auto simp: find_None_iff list_ex_iff)
    then obtain e where "find ?P (edges g) = Some e" by blast
    then obtain x y l where f: "find ?P (edges g) = Some (x, y, l)" by (cases e) blast
    then have e: "(x, y, l) \<in> set (edges g)" "?P (x, y, l)" by (auto simp: find_Some_iff dest: nth_mem)
    have b: "bfs g r v = (if x = v \<and> within g r n y then y else x)"
      unfolding bfs_def bfs_layer [OF w] by (simp add: f)
    then have "joins v (bfs g r v) (x, y, l)" using e(2) by (auto simp: joins_def)
    then show "list_ex (joins v (bfs g r v)) (edges g)" using e(1) by (auto simp: list_ex_iff)
    show "within g r n (bfs g r v)" using b e(2) by auto
  qed
  then show ?thesis by (simp add: shortest_paths_def)
qed

definition demo_wires :: "switch_and_port \<rightharpoonup> switch_and_port" where
  "demo_wires = [sap 1 1 \<mapsto> sap 2 1, sap 2 1 \<mapsto> sap 1 1, sap 2 2 \<mapsto> sap 3 1, sap 3 1 \<mapsto> sap 2 2]"

definition demo_beacons :: "ld_event list" where
  "demo_beacons = [Beacon 1 (sap 1 1) (sap 2 1), Beacon 2 (sap 2 2) (sap 3 1), Beacon 3 (sap 1 1) (sap 2 1)]"


text \<open>
  Parallel links are lost together. Of two links between the same two switches one goes down: the graph forgets
  both, although the other is still listed, and there is no route any more.
\<close>

theorem parallel_links_lost:
  "map_sum id (\<lambda>(t, em). (map (\<lambda>l. (l_source l, l_target l)) (topo t), edges (graph (impl t))))
     (topo_run id 2 [LinkDiscovered (sap 1 1) (sap 2 1), LinkDiscovered (sap 1 2) (sap 2 2), LinkBroken (sap 1 1) (sap 2 1)]
        (new_Topology, \<lparr>events = [], last_event = 0\<rparr>)) =
   Inr ([(sap 1 2, sap 2 2)], [])"
  by (simp add: linkDiscovered_def linkBroken_def new_Topology_def vertex_def getLink_def add_edge_def remove_edge_def joins_def
      addToEventList_def getLastID_def findBrother_def sap_def Let_def)

text \<open>
  A link from a switch to itself is ignored when it is announced, and follows a null pointer when it is reported broken.
\<close>

theorem loopback_link_null:
  assumes "dpid a = dpid b" "hash \<noteq> 0"
  shows "topo_run rnd hash [LinkDiscovered a b, LinkBroken a b] (new_Topology, \<lparr>events = [], last_event = n\<rparr>) = Inl NullDereference"
  using assms delete_unannounced [of hash "\<lparr>events = [], last_event = n\<rparr>" 0 "''topology''"]
  by (simp add: linkDiscovered_def linkBroken_def new_Topology_def vertex_def getLink_def Let_def)

theorem loopback_link_null_witness:
  "topo_run id 2 [LinkDiscovered (sap 1 1) (sap 1 2), LinkBroken (sap 1 1) (sap 1 2)] (new_Topology, \<lparr>events = [], last_event = 0\<rparr>) =
     Inl NullDereference"
  by (rule loopback_link_null) (simp_all add: sap_def)

end
