(* ===== verification/STP.thy ===== *)
theory STP
  imports Topology "HOL-Library.AList"
begin

text \<open>
  The spanning tree application: \<open>src/STP.cc\<close> and \<open>src/STP.hh\<close>. It decides which ports of a switch a
  flooded packet leaves through, and keeps one group per switch with these ports as buckets.

  The hash maps are association lists in some order; a switch is known by its number, and an entry of the switch list may be the
  null pointer that looking up a missing key inserts. The spanning-tree search of the graph library is a parameter that returns
  edges of the graph. The group modifications an operation sends are the list it returns.
\<close>

subsection \<open>The ports of a switch\<close>

record Port =
  p_port_no :: u32
  broadcast :: bool
  to_switch :: bool
  nextSwitch :: "u64 option"

definition new_Port :: "u32 \<Rightarrow> Port" where
  "new_Port no = \<lparr>p_port_no = no, broadcast = True, to_switch = False, nextSwitch = None\<rparr>"

record SwitchSTP =
  sw :: u64
  ports :: "(u32 \<times> Port) list"

datatype group_command = GroupAdd | GroupModify | GroupDelete

record GroupMod =
  gm_switch :: u64
  commmand :: group_command
  buckets :: "u32 list"

definition existsPort :: "u32 \<Rightarrow> SwitchSTP \<Rightarrow> bool" where
  "existsPort no x \<longleftrightarrow> map_of (ports x) no \<noteq> None"

definition at_port :: "u32 \<Rightarrow> (Port \<Rightarrow> Port) \<Rightarrow> SwitchSTP \<Rightarrow> SwitchSTP res" where
  "at_port no f x =
     (case map_of (ports x) no of
        None \<Rightarrow> Inl (Thrown ''std::out_of_range'')
      | Some p \<Rightarrow> Inr (x\<lparr>ports := AList.update no (f p) (ports x)\<rparr>))"

definition unsetBroadcast :: "u32 \<Rightarrow> SwitchSTP \<Rightarrow> SwitchSTP res" where
  "unsetBroadcast no = at_port no (\<lambda>p. p\<lparr>broadcast := False\<rparr>)"

definition setBroadcast :: "u32 \<Rightarrow> SwitchSTP \<Rightarrow> SwitchSTP res" where
  "setBroadcast no = at_port no (\<lambda>p. p\<lparr>broadcast := True\<rparr>)"

fun reset_loop :: "(u32 \<times> Port) list \<Rightarrow> SwitchSTP \<Rightarrow> SwitchSTP res" where
  "reset_loop [] x = Inr x"
| "reset_loop ((no, p) # ps) x =
     (if to_switch p then res_bind (unsetBroadcast (p_port_no p) x) (reset_loop ps) else reset_loop ps x)"

definition resetBroadcast :: "SwitchSTP \<Rightarrow> SwitchSTP res" where
  "resetBroadcast x = reset_loop (ports x) x"

definition getEnabledPorts :: "SwitchSTP \<Rightarrow> u32 list" where
  "getEnabledPorts x = map p_port_no (filter broadcast (map snd (ports x)))"

definition updateGroup :: "SwitchSTP \<Rightarrow> GroupMod" where
  "updateGroup x = \<lparr>gm_switch = sw x, commmand = GroupModify, buckets = getEnabledPorts x\<rparr>"

definition clearGroup :: "SwitchSTP \<Rightarrow> GroupMod" where
  "clearGroup x = \<lparr>gm_switch = sw x, commmand = GroupDelete, buckets = []\<rparr>"

definition installGroup :: "SwitchSTP \<Rightarrow> GroupMod" where
  "installGroup x = \<lparr>gm_switch = sw x, commmand = GroupAdd, buckets = getEnabledPorts x\<rparr>"

definition new_SwitchSTP :: "u64 \<Rightarrow> SwitchSTP \<times> GroupMod list" where
  "new_SwitchSTP d = (let x = \<lparr>sw = d, ports = []\<rparr> in (x, [clearGroup x, installGroup x]))"

subsection \<open>The application\<close>

record STP =
  switch_list :: "(u64 \<times> SwitchSTP option) list"
  spanning_tree :: "(u64 \<times> u32 list) list"
  computed :: bool

definition new_STP :: STP where
  "new_STP = \<lparr>switch_list = [], spanning_tree = [], computed = False\<rparr>"

definition sw_count :: "u64 \<Rightarrow> STP \<Rightarrow> bool" where
  "sw_count d s \<longleftrightarrow> map_of (switch_list s) d \<noteq> None"

text \<open>\<open>switch_list[d]\<close> followed by a use of the pointer.\<close>

definition the_switch :: "u64 \<Rightarrow> STP \<Rightarrow> SwitchSTP res" where
  "the_switch d s = (case map_of (switch_list s) d of Some (Some x) \<Rightarrow> Inr x | _ \<Rightarrow> Inl NullDereference)"

definition put_switch :: "u64 \<Rightarrow> SwitchSTP \<Rightarrow> STP \<Rightarrow> STP" where
  "put_switch d x s = s\<lparr>switch_list := AList.update d (Some x) (switch_list s)\<rparr>"

definition setSwitchPort :: "u32 \<Rightarrow> u64 \<Rightarrow> STP \<Rightarrow> SwitchSTP \<Rightarrow> SwitchSTP res" where
  "setSwitchPort no d s =
     at_port no (\<lambda>p. p\<lparr>to_switch := True, nextSwitch := map_option (\<lambda>_. d) (Option.bind (map_of (switch_list s) d) id)\<rparr>)"

definition getSTP :: "u64 \<Rightarrow> STP \<Rightarrow> u32 list res" where
  "getSTP d s =
     (if \<not> sw_count d s \<or> \<not> computed s then Inr [] else res_bind (the_switch d s) (\<lambda>x. Inr (getEnabledPorts x)))"

definition add_port :: "u32 \<Rightarrow> SwitchSTP \<Rightarrow> SwitchSTP" where
  "add_port no x = x\<lparr>ports := AList.update no (new_Port no) (ports x)\<rparr>"

definition mark_port :: "switch_and_port \<Rightarrow> u64 \<Rightarrow> STP \<Rightarrow> (STP \<times> GroupMod list) res" where
  "mark_port p other s =
     res_bind (the_switch (dpid p) s) (\<lambda>x.
     res_bind (unsetBroadcast (port p) (if existsPort (port p) x then x else add_port (port p) x)) (\<lambda>x1.
     res_bind (setSwitchPort (port p) other s x1) (\<lambda>x2.
       Inr (put_switch (dpid p) x2 s, [updateGroup x1]))))"

definition onLinkDiscovered :: "switch_and_port \<Rightarrow> switch_and_port \<Rightarrow> STP \<Rightarrow> (STP \<times> GroupMod list) res" where
  "onLinkDiscovered a b s =
     (if \<not> sw_count (dpid a) s then Inr (s, [])
      else if \<not> sw_count (dpid b) s then Inr (s, [])
      else
        res_bind (mark_port a (dpid b) s) (\<lambda>(s1, out1).
        res_bind (mark_port b (dpid a) s1) (\<lambda>(s2, out2).
          Inr (s2\<lparr>computed := False\<rparr>, out1 @ out2))))"

definition onLinkBroken :: "switch_and_port \<Rightarrow> switch_and_port \<Rightarrow> STP \<Rightarrow> STP" where
  "onLinkBroken a b s = s\<lparr>computed := False\<rparr>"

definition onSwitchDiscovered :: "u64 \<Rightarrow> STP \<Rightarrow> STP \<times> GroupMod list" where
  "onSwitchDiscovered d s = (let (x, out) = new_SwitchSTP d in (put_switch d x s, out))"

definition onSwitchDown :: "u64 \<Rightarrow> STP \<Rightarrow> STP" where
  "onSwitchDown d s = (if sw_count d s then s\<lparr>switch_list := AList.delete d (switch_list s)\<rparr> else s)"

definition onSwitchUp :: "u64 \<Rightarrow> STP \<Rightarrow> STP \<times> GroupMod list" where
  "onSwitchUp d s = (if \<not> sw_count d s then (let (x, out) = new_SwitchSTP d in (put_switch d x s, out)) else (s, []))"

definition onPortUp :: "u64 \<Rightarrow> u32 \<Rightarrow> STP \<Rightarrow> (STP \<times> GroupMod list) res" where
  "onPortUp d no s =
     (if sw_count d s then
        res_bind (the_switch d s) (\<lambda>x.
          let x1 = (if \<not> existsPort no x \<and> no < ofpp_max then add_port no x else x)
          in Inr (put_switch d x1 s, [updateGroup x1]))
      else Inr (s, []))"

fun reset_all :: "(u64 \<times> SwitchSTP option) list \<Rightarrow> (u64 \<times> SwitchSTP option) list res" where
  "reset_all [] = Inr []"
| "reset_all ((d, None) # sws) = Inl NullDereference"
| "reset_all ((d, Some x) # sws) =
     res_bind (resetBroadcast x) (\<lambda>x'. res_bind (reset_all sws) (\<lambda>sws'. Inr ((d, Some x') # sws')))"

definition push_port :: "switch_and_port \<Rightarrow> (u64 \<times> u32 list) list \<Rightarrow> (u64 \<times> u32 list) list" where
  "push_port p tree = AList.update (dpid p) ((case map_of tree (dpid p) of None \<Rightarrow> [] | Some ps \<Rightarrow> ps) @ [port p]) tree"

definition tree_ports :: "(nat \<times> nat \<times> link_property) list \<Rightarrow> (u64 \<times> u32 list) list" where
  "tree_ports es = foldl (\<lambda>tree (x, y, l). push_port (lp_target l) (push_port (lp_source l) tree)) [] es"

fun enable_ports :: "u32 list \<Rightarrow> SwitchSTP \<Rightarrow> SwitchSTP res" where
  "enable_ports [] x = Inr x"
| "enable_ports (p # ps) x =
     (if existsPort p x then res_bind (setBroadcast p x) (enable_ports ps) else enable_ports ps x)"

fun enable_all :: "(u64 \<times> u32 list) list \<Rightarrow> STP \<Rightarrow> (STP \<times> GroupMod list) res" where
  "enable_all [] s = Inr (s, [])"
| "enable_all ((d, ps) # tree) s =
     res_bind (the_switch d s) (\<lambda>x.
     res_bind (enable_ports ps x) (\<lambda>x'.
     res_bind (enable_all tree (put_switch d x' s)) (\<lambda>(s', out).
       Inr (s', updateGroup x' # out))))"

definition computeSpanningTree :: "(TopologyGraph \<Rightarrow> (nat \<times> nat \<times> link_property) list) \<Rightarrow> TopologyGraph \<Rightarrow> STP \<Rightarrow> (STP \<times> GroupMod list) res" where
  "computeSpanningTree kruskal g s =
     (if computed s then Inr (s, [])
      else
        res_bind (reset_all (switch_list s)) (\<lambda>sws.
        let tree = tree_ports (kruskal g)
        in res_bind (enable_all tree (s\<lparr>switch_list := sws, spanning_tree := tree\<rparr>)) (\<lambda>(s', out).
             Inr (s'\<lparr>computed := True\<rparr>, out))))"

subsection \<open>Ports of the network\<close>

definition switch_ok :: "u64 \<Rightarrow> SwitchSTP \<Rightarrow> bool" where
  "switch_ok d x \<longleftrightarrow> sw x = d \<and> distinct (map fst (ports x)) \<and> (\<forall>no p. map_of (ports x) no = Some p \<longrightarrow> p_port_no p = no)"

definition stp_ok :: "STP \<Rightarrow> bool" where
  "stp_ok s \<longleftrightarrow> distinct (map fst (switch_list s)) \<and>
     (\<forall>d q. map_of (switch_list s) d = Some q \<longrightarrow> (\<exists>x. q = Some x \<and> switch_ok d x))"

definition pt :: "STP \<Rightarrow> switch_and_port \<rightharpoonup> Port" where
  "pt s p = (case map_of (switch_list s) (dpid p) of Some (Some x) \<Rightarrow> map_of (ports x) (port p) | _ \<Rightarrow> None)"

definition known :: "STP \<Rightarrow> u64 set" where
  "known s = dom (map_of (switch_list s))"

lemma stp_frame [simp, frame_simps]:
  "stp_ok (s\<lparr>computed := c\<rparr>) = stp_ok s" "known (s\<lparr>computed := c\<rparr>) = known s" "pt (s\<lparr>computed := c\<rparr>) = pt s"
  "stp_ok (s\<lparr>spanning_tree := t\<rparr>) = stp_ok s" "known (s\<lparr>spanning_tree := t\<rparr>) = known s" "pt (s\<lparr>spanning_tree := t\<rparr>) = pt s"
  by (auto simp: stp_ok_def known_def pt_def fun_eq_iff)

lemma the_switch_ok:
  "stp_ok s \<Longrightarrow> d \<in> known s \<Longrightarrow> \<exists>x. the_switch d s = Inr x \<and> switch_ok d x \<and> map_of (switch_list s) d = Some (Some x)"
  unfolding stp_ok_def known_def the_switch_def by fastforce

lemma put_switch_ok:
  assumes "stp_ok s" "switch_ok d x"
  shows "stp_ok (put_switch d x s)" "known (put_switch d x s) = insert d (known s)"
    "pt (put_switch d x s) = (\<lambda>p. if dpid p = d then map_of (ports x) (port p) else pt s p)"
  using assms by (auto simp: stp_ok_def put_switch_def known_def pt_def distinct_update update_conv' fun_eq_iff)

lemma at_port_ok:
  assumes "switch_ok d x" "map_of (ports x) no = Some p" "p_port_no (f p) = p_port_no p"
  shows "\<exists>x'. at_port no f x = Inr x' \<and> switch_ok d x' \<and> map_of (ports x') = (map_of (ports x))(no \<mapsto> f p)"
  using assms by (auto simp: at_port_def switch_ok_def distinct_update update_conv')

lemma add_port_ok: "switch_ok d x \<Longrightarrow> switch_ok d (add_port no x) \<and> map_of (ports (add_port no x)) = (map_of (ports x))(no \<mapsto> new_Port no)"
  by (auto simp: add_port_def switch_ok_def distinct_update update_conv' new_Port_def)

lemma enabled_ports: "switch_ok d x \<Longrightarrow> no \<in> set (getEnabledPorts x) \<longleftrightarrow> (\<exists>p. map_of (ports x) no = Some p \<and> broadcast p)"
  by (force simp: getEnabledPorts_def switch_ok_def)

subsection \<open>The groups of the switches\<close>

text \<open>
  What a group modification does to the group tables of the switches, by the OpenFlow standard: a group that exists is not added
  again, and one that does not exist is not changed. There is one flood group per switch.
\<close>

type_synonym groups = "u64 \<rightharpoonup> u32 list"

definition apply_group :: "GroupMod \<Rightarrow> groups \<Rightarrow> groups" where
  "apply_group gm G =
     (case commmand gm of
        GroupAdd \<Rightarrow> if G (gm_switch gm) = None then G(gm_switch gm \<mapsto> buckets gm) else G
      | GroupModify \<Rightarrow> if G (gm_switch gm) = None then G else G(gm_switch gm \<mapsto> buckets gm)
      | GroupDelete \<Rightarrow> G(gm_switch gm := None))"

text \<open>A flooded packet leaves a switch through the buckets of its group.\<close>

definition opens :: "groups \<Rightarrow> switch_and_port \<Rightarrow> bool" where
  "opens G p = (case G (dpid p) of None \<Rightarrow> False | Some bs \<Rightarrow> port p \<in> set bs)"

text \<open>Messages that set the groups of their switches to the open ports of the state.\<close>

definition current :: "STP \<Rightarrow> GroupMod list \<Rightarrow> bool" where
  "current s out \<longleftrightarrow> (\<forall>gm \<in> set out. commmand gm = GroupModify \<and>
     (\<forall>p. dpid p = gm_switch gm \<longrightarrow> (port p \<in> set (buckets gm) \<longleftrightarrow> (\<exists>q. pt s p = Some q \<and> broadcast q))))"

lemma current_simps [simp, frame_simps]:
  "current s []" "current (s\<lparr>computed := c\<rparr>) out = current s out"
  by (auto simp: current_def)

lemma current_Cons: "current s (gm # out) \<longleftrightarrow> current s [gm] \<and> current s out"
  by (auto simp: current_def)

lemma current_update:
  assumes "switch_ok d x" "\<And>p. dpid p = d \<Longrightarrow> map_option broadcast (pt s p) = map_option broadcast (map_of (ports x) (port p))"
  shows "current s [updateGroup x]"
proof -
  have "port p \<in> set (getEnabledPorts x) \<longleftrightarrow> (\<exists>q. pt s p = Some q \<and> broadcast q)" if "dpid p = d" for p
    unfolding enabled_ports [OF assms(1)] using assms(2) [OF that] by (auto simp: map_option_case split: option.splits)
  then show ?thesis using assms(1) by (simp add: current_def updateGroup_def switch_ok_def)
qed

lemma apply_current:
  "current s out \<Longrightarrow>
   (fold apply_group out G d = None \<longleftrightarrow> G d = None) \<and>
   (opens (fold apply_group out G) p \<longleftrightarrow>
      (if dpid p \<in> gm_switch ` set out \<and> G (dpid p) \<noteq> None then \<exists>q. pt s p = Some q \<and> broadcast q else opens G p))"
proof (induction out arbitrary: G)
  case (Cons gm out)
  have gm: "commmand gm = GroupModify" "dpid p = gm_switch gm \<Longrightarrow> port p \<in> set (buckets gm) \<longleftrightarrow> (\<exists>q. pt s p = Some q \<and> broadcast q)"
    using Cons.prems by (simp_all add: current_def)
  have "apply_group gm G d = None \<longleftrightarrow> G d = None" for d using gm(1) by (simp add: apply_group_def)
  moreover have "opens (apply_group gm G) p \<longleftrightarrow>
      (if dpid p = gm_switch gm \<and> G (dpid p) \<noteq> None then \<exists>q. pt s p = Some q \<and> broadcast q else opens G p)"
    using gm by (auto simp: apply_group_def opens_def split: option.splits)
  moreover have "current s out" using Cons.prems current_Cons by blast
  ultimately show ?case using Cons.IH [of "apply_group gm G"] by auto
qed simp

text \<open>Every connected switch has its group, and the group contains the ports that lead to no switch.\<close>

definition group_ok :: "groups \<Rightarrow> STP \<Rightarrow> bool" where
  "group_ok G s \<longleftrightarrow> (\<forall>d \<in> known s. G d \<noteq> None) \<and> (\<forall>p q. pt s p = Some q \<longrightarrow> \<not> to_switch q \<longrightarrow> opens G p)"

lemma pt_known: "pt s p = Some q \<Longrightarrow> dpid p \<in> known s"
  by (auto simp: pt_def known_def split: option.splits)

lemma group_ok_messages:
  assumes "group_ok G s" "known s' = known s" "current s' out" "\<And>p q. pt s' p = Some q \<Longrightarrow> \<not> to_switch q \<Longrightarrow> broadcast q"
    "\<And>p q. pt s' p = Some q \<Longrightarrow> \<not> to_switch q \<Longrightarrow> dpid p \<notin> gm_switch ` set out \<Longrightarrow> \<exists>r. pt s p = Some r \<and> \<not> to_switch r"
  shows "group_ok (fold apply_group out G) s'"
proof -
  have "opens (fold apply_group out G) p" if p: "pt s' p = Some q" "\<not> to_switch q" for p q
  proof -
    have "G (dpid p) \<noteq> None" using assms(1,2) pt_known [OF p(1)] by (auto simp: group_ok_def)
    then show ?thesis using apply_current [OF assms(3), of G _ p] assms(1) assms(4,5) [OF p] p(1) by (auto simp: group_ok_def)
  qed
  then show ?thesis using assms(1,2) apply_current [OF assms(3), of G] unfolding group_ok_def by blast
qed

subsection \<open>Each operation on the ports\<close>

lemma mark_port_ok:
  assumes "stp_ok s" "dpid p \<in> known s"
  shows "\<exists>s' out q. mark_port p other s = Inr (s', out) \<and> stp_ok s' \<and> known s' = known s \<and> computed s' = computed s \<and>
           pt s' = (pt s)(p \<mapsto> q) \<and> to_switch q \<and> \<not> broadcast q \<and> current s' out \<and> gm_switch ` set out = {dpid p}"
proof -
  obtain x where x: "the_switch (dpid p) s = Inr x" "switch_ok (dpid p) x" "map_of (switch_list s) (dpid p) = Some (Some x)"
    using the_switch_ok [OF assms] by blast
  define x0 where "x0 = (if existsPort (port p) x then x else add_port (port p) x)"
  have x0: "switch_ok (dpid p) x0" "\<exists>q. map_of (ports x0) (port p) = Some q"
      "no \<noteq> port p \<Longrightarrow> map_of (ports x0) no = map_of (ports x) no" for no
    using x(2) add_port_ok [OF x(2), of "port p"] by (auto simp: x0_def existsPort_def)
  then obtain q where q: "map_of (ports x0) (port p) = Some q" by blast
  obtain x1 where x1: "unsetBroadcast (port p) x0 = Inr x1" "switch_ok (dpid p) x1"
      "map_of (ports x1) = (map_of (ports x0))(port p \<mapsto> q\<lparr>broadcast := False\<rparr>)"
    using at_port_ok [OF x0(1) q, of "\<lambda>p. p\<lparr>broadcast := False\<rparr>"] by (auto simp: unsetBroadcast_def)
  define n where "n = map_option (\<lambda>_. other) (Option.bind (map_of (switch_list s) other) id)"
  obtain x2 where x2: "setSwitchPort (port p) other s x1 = Inr x2" "switch_ok (dpid p) x2"
      "map_of (ports x2) = (map_of (ports x1))(port p \<mapsto> q\<lparr>broadcast := False, to_switch := True, nextSwitch := n\<rparr>)"
    using at_port_ok [OF x1(2), of "port p" "q\<lparr>broadcast := False\<rparr>" "\<lambda>p. p\<lparr>to_switch := True, nextSwitch := n\<rparr>"] x1(3)
    by (auto simp: setSwitchPort_def n_def)
  have "mark_port p other s = Inr (put_switch (dpid p) x2 s, [updateGroup x1])"
    using x(1) x1(1) x2(1) unfolding mark_port_def x0_def by simp
  moreover have "pt (put_switch (dpid p) x2 s) = (pt s)(p \<mapsto> q\<lparr>broadcast := False, to_switch := True, nextSwitch := n\<rparr>)"
    using put_switch_ok(3) [OF assms(1) x2(2)] x2(3) x1(3) x0(3) x(3) by (auto simp: fun_eq_iff pt_def)
  moreover have "current (put_switch (dpid p) x2 s) [updateGroup x1]" "gm_switch ` set [updateGroup x1] = {dpid p}"
    using current_update [OF x1(2)] put_switch_ok(3) [OF assms(1) x2(2)] x2(3) x1(2,3) by (auto simp: updateGroup_def switch_ok_def)
  ultimately show ?thesis using put_switch_ok(1,2) [OF assms(1) x2(2)] assms(2) by (auto simp: put_switch_def)
qed


lemma onLinkDiscovered_ok:
  assumes "stp_ok s" "dpid a \<in> known s" "dpid b \<in> known s" "group_ok G s"
    and open_ports: "\<And>p q. pt s p = Some q \<Longrightarrow> \<not> to_switch q \<Longrightarrow> broadcast q"
  shows "\<exists>s' out q r. onLinkDiscovered a b s = Inr (s', out) \<and> stp_ok s' \<and> known s' = known s \<and> \<not> computed s' \<and>
           pt s' = (pt s)(a \<mapsto> q, b \<mapsto> r) \<and> to_switch q \<and> to_switch r \<and> group_ok (fold apply_group out G) s'"
proof -
  obtain s1 o1 q where s1: "mark_port a (dpid b) s = Inr (s1, o1)" "stp_ok s1" "known s1 = known s" "pt s1 = (pt s)(a \<mapsto> q)" "to_switch q"
      "current s1 o1"
    using mark_port_ok [OF assms(1,2)] by blast
  have g1: "group_ok (fold apply_group o1 G) s1"
    using s1(4,5) open_ports by (intro group_ok_messages [OF assms(4) s1(3,6)]) (auto split: if_splits)
  obtain s2 o2 r where s2: "mark_port b (dpid a) s1 = Inr (s2, o2)" "stp_ok s2" "known s2 = known s1" "pt s2 = (pt s1)(b \<mapsto> r)" "to_switch r"
      "current s2 o2"
    using mark_port_ok [of s1 b] s1(2,3) assms(3) by blast
  have "group_ok (fold apply_group o2 (fold apply_group o1 G)) s2"
    using s1(4,5) s2(4,5) open_ports by (intro group_ok_messages [OF g1 s2(3,6)]) (auto split: if_splits)
  then have g2: "group_ok (fold apply_group (o1 @ o2) G) (s2\<lparr>computed := False\<rparr>)" by (simp add: group_ok_def)
  have "sw_count (dpid a) s" "sw_count (dpid b) s" using assms(2,3) by (auto simp: sw_count_def known_def)
  then have "onLinkDiscovered a b s = Inr (s2\<lparr>computed := False\<rparr>, o1 @ o2)" using s1(1) s2(1) by (simp add: onLinkDiscovered_def)
  then show ?thesis using s1 s2 g2 by auto
qed

lemma reset_loop_ok:
  "switch_ok d x \<Longrightarrow> (\<And>no p. (no, p) \<in> set ps \<Longrightarrow> p_port_no p = no \<and> map_of (ports x) no \<noteq> None) \<Longrightarrow>
   \<exists>x'. reset_loop ps x = Inr x' \<and> switch_ok d x' \<and>
     (\<forall>no. map_of (ports x') no =
        (if \<exists>p. (no, p) \<in> set ps \<and> to_switch p then map_option (\<lambda>q. q\<lparr>broadcast := False\<rparr>) (map_of (ports x) no) else map_of (ports x) no))"
proof (induction ps arbitrary: x)
  case (Cons e ps)
  obtain no p where e: "e = (no, p)" by fastforce
  show ?case
  proof (cases "to_switch p")
    case True
    obtain q where q: "map_of (ports x) no = Some q" "p_port_no p = no" using Cons.prems(2) [of no p] e by auto
    obtain x1 where x1: "unsetBroadcast no x = Inr x1" "switch_ok d x1" "map_of (ports x1) = (map_of (ports x))(no \<mapsto> q\<lparr>broadcast := False\<rparr>)"
      using at_port_ok [OF Cons.prems(1) q(1), of "\<lambda>p. p\<lparr>broadcast := False\<rparr>"] by (auto simp: unsetBroadcast_def)
    have prem: "p_port_no p = k \<and> map_of (ports x1) k \<noteq> None" if "(k, p) \<in> set ps" for k p
      using Cons.prems(2) [of k p] that x1(3) by auto
    obtain x2 where x2: "reset_loop ps x1 = Inr x2" "switch_ok d x2" "\<And>no. map_of (ports x2) no =
        (if \<exists>p. (no, p) \<in> set ps \<and> to_switch p then map_option (\<lambda>q. q\<lparr>broadcast := False\<rparr>) (map_of (ports x1) no) else map_of (ports x1) no)"
      using Cons.IH [OF x1(2) prem] by blast
    have "map_of (ports x2) k = (if \<exists>p. (k, p) \<in> set (e # ps) \<and> to_switch p
        then map_option (\<lambda>q. q\<lparr>broadcast := False\<rparr>) (map_of (ports x) k) else map_of (ports x) k)" for k
      using x2(3) [of k] x1(3) q(1) True e by (cases "k = no") auto
    then show ?thesis using x1(1) x2(1,2) True e q(2) by auto
  next
    case False
    have prem: "p_port_no p = k \<and> map_of (ports x) k \<noteq> None" if "(k, p) \<in> set ps" for k p
      using Cons.prems(2) [of k p] that by auto
    have "(\<exists>p. (k, p) \<in> set (e # ps) \<and> to_switch p) \<longleftrightarrow> (\<exists>p. (k, p) \<in> set ps \<and> to_switch p)" for k
      using False e by auto
    moreover have "reset_loop (e # ps) x = reset_loop ps x" using False e by simp
    ultimately show ?thesis using Cons.IH [OF Cons.prems(1) prem] by presburger
  qed
qed simp

lemma resetBroadcast_ok:
  assumes "switch_ok d x"
  shows "\<exists>x'. resetBroadcast x = Inr x' \<and> switch_ok d x' \<and>
           (\<forall>no. map_of (ports x') no = map_option (\<lambda>q. if to_switch q then q\<lparr>broadcast := False\<rparr> else q) (map_of (ports x) no))"
proof -
  have m: "(no, p) \<in> set (ports x) \<longleftrightarrow> map_of (ports x) no = Some p" for no p using assms by (auto simp: switch_ok_def)
  have "p_port_no p = no \<and> map_of (ports x) no \<noteq> None" if "(no, p) \<in> set (ports x)" for no p
    using that assms unfolding m by (auto simp: switch_ok_def)
  then obtain x' where x': "reset_loop (ports x) x = Inr x'" "switch_ok d x'" "\<And>no. map_of (ports x') no =
      (if \<exists>p. (no, p) \<in> set (ports x) \<and> to_switch p then map_option (\<lambda>q. q\<lparr>broadcast := False\<rparr>) (map_of (ports x) no) else map_of (ports x) no)"
    using reset_loop_ok [OF assms] by metis
  have "map_of (ports x') no = map_option (\<lambda>q. if to_switch q then q\<lparr>broadcast := False\<rparr> else q) (map_of (ports x) no)" for no
    unfolding x'(3) m by (cases "map_of (ports x) no") auto
  then show ?thesis using x'(1,2) by (auto simp: resetBroadcast_def)
qed

definition reset_port :: "Port \<Rightarrow> Port" where
  "reset_port q = (if to_switch q then q\<lparr>broadcast := False\<rparr> else q)"

lemma reset_all_ok:
  "distinct (map fst sws) \<Longrightarrow> (\<And>d q. map_of sws d = Some q \<Longrightarrow> \<exists>x. q = Some x \<and> switch_ok d x) \<Longrightarrow>
   \<exists>sws'. reset_all sws = Inr sws' \<and> map fst sws' = map fst sws \<and>
     (\<forall>d x. map_of sws d = Some (Some x) \<longrightarrow>
        (\<exists>x'. map_of sws' d = Some (Some x') \<and> switch_ok d x' \<and> (\<forall>no. map_of (ports x') no = map_option reset_port (map_of (ports x) no))))"
proof (induction sws)
  case (Cons e sws)
  obtain d q where e: "e = (d, q)" by fastforce
  then obtain x where x: "q = Some x" "switch_ok d x" using Cons.prems(2) [of d q] by auto
  obtain x' where x': "resetBroadcast x = Inr x'" "switch_ok d x'" "\<And>no. map_of (ports x') no = map_option reset_port (map_of (ports x) no)"
    using resetBroadcast_ok [OF x(2)] unfolding reset_port_def by metis
  have d: "map_of sws d = None" using Cons.prems(1) e by (simp add: map_of_eq_None_iff)
  have "\<exists>x. q = Some x \<and> switch_ok k x" if "map_of sws k = Some q" for k q
    using Cons.prems(2) [of k q] that d e by (cases "k = d") auto
  then obtain sws' where s: "reset_all sws = Inr sws'" "map fst sws' = map fst sws"
      "\<forall>d x. map_of sws d = Some (Some x) \<longrightarrow>
        (\<exists>x'. map_of sws' d = Some (Some x') \<and> switch_ok d x' \<and> (\<forall>no. map_of (ports x') no = map_option reset_port (map_of (ports x) no)))"
    using Cons.IH Cons.prems(1) e by auto
  then show ?case using e x(1) x' by auto
qed simp

lemma reset_all_pt:
  assumes "stp_ok s"
  shows "\<exists>sws. reset_all (switch_list s) = Inr sws \<and> stp_ok (s\<lparr>switch_list := sws\<rparr>) \<and> known (s\<lparr>switch_list := sws\<rparr>) = known s \<and>
           pt (s\<lparr>switch_list := sws\<rparr>) = (\<lambda>p. map_option reset_port (pt s p))"
proof -
  have ok: "distinct (map fst (switch_list s))" "\<And>d q. map_of (switch_list s) d = Some q \<Longrightarrow> \<exists>x. q = Some x \<and> switch_ok d x"
    using assms unfolding stp_ok_def by blast+
  obtain sws where s: "reset_all (switch_list s) = Inr sws" "map fst sws = map fst (switch_list s)"
      "\<And>d x. map_of (switch_list s) d = Some (Some x) \<Longrightarrow>
        \<exists>x'. map_of sws d = Some (Some x') \<and> switch_ok d x' \<and> (\<forall>no. map_of (ports x') no = map_option reset_port (map_of (ports x) no))"
    using reset_all_ok [OF ok] by blast
  have dom: "map_of sws d = None \<longleftrightarrow> map_of (switch_list s) d = None" for d
    unfolding map_of_eq_None_iff using s(2) by (metis list.set_map)
  have "\<exists>x. q = Some x \<and> switch_ok d x" if q: "map_of sws d = Some q" for d q
  proof -
    obtain r where "map_of (switch_list s) d = Some r" using q dom [of d] by auto
    moreover from this obtain x where "r = Some x" using ok(2) by blast
    ultimately show ?thesis using s(3) q by fastforce
  qed
  then have "stp_ok (s\<lparr>switch_list := sws\<rparr>)" using ok(1) s(2) by (simp add: stp_ok_def)
  moreover have "known (s\<lparr>switch_list := sws\<rparr>) = known s" using dom by (simp add: known_def dom_def)
  moreover have "pt (s\<lparr>switch_list := sws\<rparr>) p = map_option reset_port (pt s p)" for p
  proof (cases "map_of (switch_list s) (dpid p)")
    case None
    then show ?thesis using dom [of "dpid p"] by (simp add: pt_def)
  next
    case (Some q)
    then obtain x where x: "map_of (switch_list s) (dpid p) = Some (Some x)" using ok(2) by blast
    then show ?thesis using s(3) [OF x] by (auto simp: pt_def)
  qed
  ultimately show ?thesis using s(1) by auto
qed


subsection \<open>The ports of the tree\<close>

definition tree_port :: "(u64 \<times> u32 list) list \<Rightarrow> switch_and_port \<Rightarrow> bool" where
  "tree_port t p = (case map_of t (dpid p) of None \<Rightarrow> False | Some ps \<Rightarrow> port p \<in> set ps)"

lemma push_port_ok:
  "tree_port (push_port p t) q \<longleftrightarrow> q = p \<or> tree_port t q"
  "distinct (map fst t) \<Longrightarrow> distinct (map fst (push_port p t))"
  "dom (map_of (push_port p t)) = insert (dpid p) (dom (map_of t))"
  by (auto simp: tree_port_def push_port_def update_conv' distinct_update split: option.splits)

lemma tree_ports_ok:
  "distinct (map fst (tree_ports es))"
  "tree_port (tree_ports es) p \<longleftrightarrow> (\<exists>(x, y, l) \<in> set es. p = lp_source l \<or> p = lp_target l)"
  "dom (map_of (tree_ports es)) = (\<Union>(x, y, l) \<in> set es. {dpid (lp_source l), dpid (lp_target l)})"
proof (induction es rule: rev_induct)
  case Nil
  {
    case 1
    show ?case by (simp add: tree_ports_def)
  next
    case 2
    show ?case by (simp add: tree_ports_def tree_port_def)
  next
    case 3
    show ?case by (simp add: tree_ports_def)
  }
next
  case (snoc e es)
  obtain x y l where e: "e = (x, y, l)" by (metis prod_cases3)
  have t: "tree_ports (es @ [e]) = push_port (lp_target l) (push_port (lp_source l) (tree_ports es))" by (simp add: tree_ports_def e)
  {
    case 1
    show ?case using snoc(1) by (simp add: t push_port_ok)
  next
    case 2
    show ?case unfolding t push_port_ok(1) snoc(2) by (auto simp: e)
  next
    case 3
    show ?case unfolding t push_port_ok(3) snoc(3) by (auto simp: e)
  }
qed

definition enable_port :: "bool \<Rightarrow> Port \<Rightarrow> Port" where
  "enable_port b q = (if b then q\<lparr>broadcast := True\<rparr> else q)"

lemma enable_ports_ok:
  "switch_ok d x \<Longrightarrow> \<exists>x'. enable_ports ps x = Inr x' \<and> switch_ok d x' \<and>
     (\<forall>no. map_of (ports x') no = map_option (enable_port (no \<in> set ps)) (map_of (ports x) no))"
proof (induction ps arbitrary: x)
  case Nil
  then show ?case by (simp add: enable_port_def option.map_ident)
next
  case (Cons p ps)
  show ?case
  proof (cases "map_of (ports x) p")
    case None
    have "map_option (enable_port (no \<in> set ps)) (map_of (ports x) no) = map_option (enable_port (no \<in> set (p # ps))) (map_of (ports x) no)" for no
      using None by (cases "no = p") auto
    then show ?thesis using Cons.IH [OF Cons.prems] None by (auto simp: existsPort_def)
  next
    case (Some q)
    obtain x1 where x1: "setBroadcast p x = Inr x1" "switch_ok d x1" "map_of (ports x1) = (map_of (ports x))(p \<mapsto> q\<lparr>broadcast := True\<rparr>)"
      using at_port_ok [OF Cons.prems Some, of "\<lambda>p. p\<lparr>broadcast := True\<rparr>"] by (auto simp: setBroadcast_def)
    obtain x2 where x2: "enable_ports ps x1 = Inr x2" "switch_ok d x2"
        "\<And>no. map_of (ports x2) no = map_option (enable_port (no \<in> set ps)) (map_of (ports x1) no)"
      using Cons.IH [OF x1(2)] by blast
    have "map_of (ports x2) no = map_option (enable_port (no \<in> set (p # ps))) (map_of (ports x) no)" for no
      using x2(3) [of no] x1(3) Some by (cases "no = p") (auto simp: enable_port_def)
    then show ?thesis using x1(1) x2(1,2) Some by (auto simp: existsPort_def)
  qed
qed

lemma enable_all_ok:
  "stp_ok s \<Longrightarrow> distinct (map fst t) \<Longrightarrow> dom (map_of t) \<subseteq> known s \<Longrightarrow>
   \<exists>s' out. enable_all t s = Inr (s', out) \<and> stp_ok s' \<and> known s' = known s \<and> spanning_tree s' = spanning_tree s \<and>
     (\<forall>p. pt s' p = map_option (enable_port (tree_port t p)) (pt s p)) \<and>
     (\<forall>d. d \<notin> dom (map_of t) \<longrightarrow> map_of (switch_list s') d = map_of (switch_list s) d) \<and>
     current s' out \<and> gm_switch ` set out = dom (map_of t)"
proof (induction t arbitrary: s)
  case Nil
  then show ?case by (simp add: tree_port_def enable_port_def option.map_ident)
next
  case (Cons e t)
  obtain d ps where e: "e = (d, ps)" by fastforce
  then have "d \<in> known s" using Cons.prems(3) by auto
  then obtain x where x: "the_switch d s = Inr x" "switch_ok d x" "map_of (switch_list s) d = Some (Some x)"
    using the_switch_ok [OF Cons.prems(1)] by blast
  obtain x1 where x1: "enable_ports ps x = Inr x1" "switch_ok d x1"
      "\<And>no. map_of (ports x1) no = map_option (enable_port (no \<in> set ps)) (map_of (ports x) no)"
    using enable_ports_ok [OF x(2)] by blast
  note put = put_switch_ok [OF Cons.prems(1) x1(2)]
  have k: "known (put_switch d x1 s) = known s" using put(2) \<open>d \<in> known s\<close> by auto
  have sub: "dom (map_of t) \<subseteq> known (put_switch d x1 s)" using Cons.prems(3) k e by (auto simp: dom_def split: if_splits)
  have d: "d \<notin> dom (map_of t)" using Cons.prems(2) e by (auto simp: dom_map_of_conv_image_fst)
  obtain s' out where s': "enable_all t (put_switch d x1 s) = Inr (s', out)" "stp_ok s'" "known s' = known s" "spanning_tree s' = spanning_tree s"
      "\<And>p. pt s' p = map_option (enable_port (tree_port t p)) (pt (put_switch d x1 s) p)"
      "\<And>k. k \<notin> dom (map_of t) \<Longrightarrow> map_of (switch_list s') k = map_of (switch_list (put_switch d x1 s)) k"
      "current s' out" "gm_switch ` set out = dom (map_of t)"
    using Cons.IH [OF put(1) _ sub] Cons.prems(2) e k by (auto simp: put_switch_def)
  have "enable_all (e # t) s = Inr (s', updateGroup x1 # out)" using x(1) x1(1) s'(1) e by simp
  moreover have "pt s' p = map_option (enable_port (tree_port (e # t) p)) (pt s p)" for p
  proof (cases "dpid p = d")
    case True
    then have "\<not> tree_port t p" using d by (auto simp: tree_port_def dom_def)
    then show ?thesis using True s'(5) [of p] put(3) x1(3) x(3) e
      by (simp add: tree_port_def pt_def enable_port_def option.map_ident cong: option.map_cong)
  next
    case False
    then show ?thesis using s'(5) [of p] put(3) e by (simp add: tree_port_def)
  qed
  moreover have "map_of (switch_list s') k = map_of (switch_list s) k" if "k \<notin> dom (map_of (e # t))" for k
    using s'(6) [of k] that e by (auto simp: put_switch_def update_conv')
  moreover have "current s' (updateGroup x1 # out)" "gm_switch ` set (updateGroup x1 # out) = dom (map_of (e # t))"
    using current_update [OF x1(2), of s'] s'(6) [OF d] s'(7,8) x1(2) e current_Cons [of s' "updateGroup x1" out]
    by (auto simp: pt_def put_switch_def update_conv' updateGroup_def switch_ok_def)
  ultimately show ?case using s'(2-4) by blast
qed

lemma computeSpanningTree_ok:
  assumes "stp_ok s" "\<not> computed s" "dom (map_of (tree_ports (kruskal g))) \<subseteq> known s"
  shows "\<exists>s' out. computeSpanningTree kruskal g s = Inr (s', out) \<and> stp_ok s' \<and> known s' = known s \<and> computed s' \<and>
           (\<forall>p. pt s' p = map_option (\<lambda>q. enable_port (tree_port (tree_ports (kruskal g)) p) (reset_port q)) (pt s p)) \<and>
           current s' out \<and> gm_switch ` set out = dom (map_of (tree_ports (kruskal g)))"
proof -
  let ?t = "tree_ports (kruskal g)"
  obtain sws where r: "reset_all (switch_list s) = Inr sws" "stp_ok (s\<lparr>switch_list := sws\<rparr>)" "known (s\<lparr>switch_list := sws\<rparr>) = known s"
      "pt (s\<lparr>switch_list := sws\<rparr>) = (\<lambda>p. map_option reset_port (pt s p))"
    using reset_all_pt [OF assms(1)] by blast
  let ?s = "s\<lparr>switch_list := sws, spanning_tree := ?t\<rparr>"
  have f: "stp_ok ?s" "known ?s = known s" "pt ?s = (\<lambda>p. map_option reset_port (pt s p))"
    using r(2-4) by (simp_all add: stp_ok_def known_def pt_def fun_eq_iff)
  obtain s' out where "enable_all ?t ?s = Inr (s', out)" "stp_ok s'" "known s' = known s"
      "\<And>p. pt s' p = map_option (enable_port (tree_port ?t p)) (pt ?s p)"
      "current s' out" "gm_switch ` set out = dom (map_of ?t)"
    using enable_all_ok [OF f(1) tree_ports_ok(1) [of "kruskal g"]] assms(3) f(2) by metis
  then show ?thesis using assms(2) r(1) f(3) by (auto simp: computeSpanningTree_def option.map_comp comp_def)
qed


subsection \<open>Topology and spanning tree together\<close>

datatype net_event =
    SwDiscovered u64
  | SwUp u64
  | SwDown u64
  | PortAppears u64 u32
  | LinkAppears switch_and_port switch_and_port
  | LinkBreaks switch_and_port switch_and_port
  | Tick

type_synonym net_state = "STP \<times> Topology \<times> EventManager"

text \<open>A step of the two applications returns the group modifications it sends; a run applies them to the groups of the switches.\<close>

fun net_step :: "(TopologyGraph \<Rightarrow> (nat \<times> nat \<times> link_property) list) \<Rightarrow> u32 \<Rightarrow> net_event \<Rightarrow> net_state \<Rightarrow> (net_state \<times> GroupMod list) res" where
  "net_step kruskal hash (SwDiscovered d) (s, te) = (let (s', out) = onSwitchDiscovered d s in Inr ((s', te), out))"
| "net_step kruskal hash (SwUp d) (s, te) = (let (s', out) = onSwitchUp d s in Inr ((s', te), out))"
| "net_step kruskal hash (SwDown d) (s, te) = Inr ((onSwitchDown d s, te), [])"
| "net_step kruskal hash (PortAppears d no) (s, te) = res_bind (onPortUp d no s) (\<lambda>(s', out). Inr ((s', te), out))"
| "net_step kruskal hash (LinkAppears a b) (s, te) =
     res_bind (linkDiscovered 0 hash a b te) (\<lambda>te'. res_bind (onLinkDiscovered a b s) (\<lambda>(s', out). Inr ((s', te'), out)))"
| "net_step kruskal hash (LinkBreaks a b) (s, te) = res_bind (linkBroken hash a b te) (\<lambda>te'. Inr ((onLinkBroken a b s, te'), []))"
| "net_step kruskal hash Tick (s, te) =
     res_bind (computeSpanningTree kruskal (graph (impl (fst te))) s) (\<lambda>(s', out). Inr ((s', te), out))"

fun net_run :: "(TopologyGraph \<Rightarrow> (nat \<times> nat \<times> link_property) list) \<Rightarrow> u32 \<Rightarrow> net_event list \<Rightarrow> groups \<times> net_state \<Rightarrow> (groups \<times> net_state) res" where
  "net_run kruskal hash [] gw = Inr gw"
| "net_run kruskal hash (e # es) gw =
     res_bind (net_step kruskal hash e (snd gw)) (\<lambda>(w, out). net_run kruskal hash es (fold apply_group out (fst gw), w))"

text \<open>
  What the other applications guarantee, over the links \<open>K\<close> that are up and the switches \<open>N\<close> that are connected: a link is reported
  between connected switches and is broken before a switch at one of its ends goes.
\<close>

definition untouched :: "u64 \<Rightarrow> links \<Rightarrow> bool" where
  "untouched d K \<longleftrightarrow> (\<forall>(a, b) \<in> K. dpid a \<noteq> d \<and> dpid b \<noteq> d)"

fun net_ok :: "links \<Rightarrow> links \<Rightarrow> u64 set \<Rightarrow> net_event list \<Rightarrow> bool" where
  "net_ok U K N [] = True"
| "net_ok U K N (SwDiscovered d # es) = (untouched d K \<and> net_ok U K (insert d N) es)"
| "net_ok U K N (SwUp d # es) = net_ok U K (insert d N) es"
| "net_ok U K N (SwDown d # es) = (untouched d K \<and> net_ok U K (N - {d}) es)"
| "net_ok U K N (PortAppears d no # es) = net_ok U K N es"
| "net_ok U K N (LinkAppears a b # es) =
     ((a, b) \<in> U \<and> (a, b) \<notin> K \<and> dpid a \<in> N \<and> dpid b \<in> N \<and> net_ok U (insert (a, b) K) N es)"
| "net_ok U K N (LinkBreaks a b # es) = ((a, b) \<in> K \<and> net_ok U (K - {(a, b)}) N es)"
| "net_ok U K N (Tick # es) = net_ok U K N es"

text \<open>Each port is an end of at most one link.\<close>

definition one_to_one :: "links \<Rightarrow> bool" where
  "one_to_one U \<longleftrightarrow> (\<forall>(a, b) \<in> U. \<forall>(c, d) \<in> U. {a, b} \<inter> {c, d} \<noteq> {} \<longrightarrow> (a, b) = (c, d))"

definition tree_links :: "(TopologyGraph \<Rightarrow> (nat \<times> nat \<times> link_property) list) \<Rightarrow> TopologyGraph \<Rightarrow> links" where
  "tree_links kruskal g = (\<lambda>(x, y, l). (lp_source l, lp_target l)) ` set (kruskal g)"

definition subgraph :: "(TopologyGraph \<Rightarrow> (nat \<times> nat \<times> link_property) list) \<Rightarrow> bool" where
  "subgraph kruskal \<longleftrightarrow> (\<forall>g. set (kruskal g) \<subseteq> set (edges g))"

text \<open>The search returns a spanning forest: the two ends of every edge are connected through returned edges.\<close>

definition joined :: "(nat \<times> nat \<times> link_property) list \<Rightarrow> (nat \<times> nat) set" where
  "joined es = {(u, v). \<exists>l. (u, v, l) \<in> set es \<or> (v, u, l) \<in> set es}"

definition spanning :: "(TopologyGraph \<Rightarrow> (nat \<times> nat \<times> link_property) list) \<Rightarrow> bool" where
  "spanning kruskal \<longleftrightarrow> (\<forall>g. \<forall>(x, y, l) \<in> set (edges g). (x, y) \<in> (joined (kruskal g))\<^sup>*)"

definition ends_of :: "links \<Rightarrow> switch_and_port set" where
  "ends_of K = fst ` K \<union> snd ` K"

definition ports_inv :: "(TopologyGraph \<Rightarrow> (nat \<times> nat \<times> link_property) list) \<Rightarrow> links \<Rightarrow> TopologyGraph \<Rightarrow> STP \<Rightarrow> bool" where
  "ports_inv kruskal K g s \<longleftrightarrow>
     (\<forall>p \<in> ends_of K. \<exists>q. pt s p = Some q \<and> to_switch q \<and> (computed s \<longrightarrow> (broadcast q \<longleftrightarrow> p \<in> ends_of (tree_links kruskal g)))) \<and>
     (\<forall>p q. pt s p = Some q \<longrightarrow> \<not> to_switch q \<longrightarrow> broadcast q)"

text \<open>Once the tree is computed, the groups of the switches are open at the ends of its links and closed at the ends of the others.\<close>

definition tree_groups :: "(TopologyGraph \<Rightarrow> (nat \<times> nat \<times> link_property) list) \<Rightarrow> TopologyGraph \<Rightarrow> groups \<Rightarrow> STP \<Rightarrow> bool" where
  "tree_groups kruskal g G s \<longleftrightarrow>
     (computed s \<longrightarrow> (\<forall>p \<in> ends_of (graph_links g). opens G p \<longleftrightarrow> p \<in> ends_of (tree_links kruskal g)))"

definition net_inv :: "(TopologyGraph \<Rightarrow> (nat \<times> nat \<times> link_property) list) \<Rightarrow> u32 \<Rightarrow> links \<Rightarrow> u64 set \<Rightarrow> groups \<times> net_state \<Rightarrow> bool" where
  "net_inv kruskal hash U N gw \<longleftrightarrow>
     (let (G, s, t, em) = gw in stp_ok s \<and> known s = N \<and> topo_inv hash U (t, em) \<and> ports_inv kruskal (topo_links t) (graph (impl t)) s \<and>
        group_ok G s \<and> tree_groups kruskal (graph (impl t)) G s)"

lemma new_switch_ok: "switch_ok d \<lparr>sw = d, ports = []\<rparr>"
  by (simp add: switch_ok_def)

lemma untouched_ends: "untouched d K \<Longrightarrow> p \<in> ends_of K \<Longrightarrow> dpid p \<noteq> d"
  by (force simp: untouched_def ends_of_def)

lemma fresh_switch:
  fixes d
  assumes "stp_ok s"
  defines "s' \<equiv> put_switch d \<lparr>sw = d, ports = []\<rparr> s"
  shows "stp_ok s'" "known s' = insert d (known s)" "pt s' = (\<lambda>p. if dpid p = d then None else pt s p)" "computed s' = computed s"
  using put_switch_ok [OF assms(1) new_switch_ok [of d]] by (simp_all add: s'_def fun_eq_iff) (simp add: put_switch_def)

lemma ports_inv_frame:
  assumes "ports_inv kruskal K g s" "\<And>p. p \<in> ends_of K \<Longrightarrow> pt s' p = pt s p" "computed s' = computed s"
    "\<And>p. pt s' p = pt s p \<or> pt s' p = None \<or> pt s' p = Some (new_Port (port p))"
  shows "ports_inv kruskal K g s'"
proof -
  have "broadcast q" if "pt s' p = Some q" "\<not> to_switch q" for p q
    using assms(1) assms(4) [of p] that by (auto simp: ports_inv_def new_Port_def)
  then show ?thesis using assms(1-3) by (auto simp: ports_inv_def)
qed

lemma onSwitchDown_ok:
  assumes "stp_ok s"
  shows "stp_ok (onSwitchDown d s)" "known (onSwitchDown d s) = known s - {d}" "pt (onSwitchDown d s) = (\<lambda>p. if dpid p = d then None else pt s p)"
    "computed (onSwitchDown d s) = computed s"
proof -
  have m: "map_of (switch_list (onSwitchDown d s)) = (map_of (switch_list s))(d := None)"
    by (auto simp: onSwitchDown_def sw_count_def delete_conv' fun_eq_iff)
  have "distinct (map fst (switch_list (onSwitchDown d s)))" using assms by (auto simp: onSwitchDown_def stp_ok_def distinct_delete)
  then show "stp_ok (onSwitchDown d s)" using assms unfolding stp_ok_def m by auto
  show "known (onSwitchDown d s) = known s - {d}" "pt (onSwitchDown d s) = (\<lambda>p. if dpid p = d then None else pt s p)"
    unfolding known_def pt_def m by auto
  show "computed (onSwitchDown d s) = computed s" by (simp add: onSwitchDown_def)
qed

lemma onPortUp_ok:
  assumes "stp_ok s"
  shows "\<exists>s' out. onPortUp d no s = Inr (s', out) \<and> stp_ok s' \<and> known s' = known s \<and> computed s' = computed s \<and>
           (\<forall>p. pt s' p = pt s p \<or> pt s p = None \<and> pt s' p = Some (new_Port (port p)) \<and> dpid p \<in> gm_switch ` set out) \<and> current s' out"
proof (cases "d \<in> known s")
  case False
  then show ?thesis using assms by (simp add: onPortUp_def sw_count_def known_def domIff)
next
  case True
  obtain x where x: "the_switch d s = Inr x" "switch_ok d x" "map_of (switch_list s) d = Some (Some x)"
    using the_switch_ok [OF assms True] by blast
  define x1 where "x1 = (if \<not> existsPort no x \<and> no < ofpp_max then add_port no x else x)"
  have x1: "switch_ok d x1" "\<And>k. map_of (ports x1) k = map_of (ports x) k \<or> map_of (ports x) k = None \<and> map_of (ports x1) k = Some (new_Port k)"
    using x(2) add_port_ok [OF x(2), of no] by (auto simp: x1_def existsPort_def)
  have "onPortUp d no s = Inr (put_switch d x1 s, [updateGroup x1])"
    using True x(1) by (simp add: onPortUp_def sw_count_def known_def x1_def Let_def domIff)
  moreover have "pt (put_switch d x1 s) p = pt s p \<or>
      pt s p = None \<and> pt (put_switch d x1 s) p = Some (new_Port (port p)) \<and> dpid p \<in> gm_switch ` set [updateGroup x1]" for p
    using put_switch_ok(3) [OF assms x1(1)] x1(1,2) x(3) by (auto simp: pt_def updateGroup_def switch_ok_def)
  moreover have "current (put_switch d x1 s) [updateGroup x1]"
    using put_switch_ok(3) [OF assms x1(1)] by (intro current_update [OF x1(1)]) simp
  ultimately show ?thesis using put_switch_ok(1,2) [OF assms x1(1)] True by (auto simp: put_switch_def)
qed


lemma ends_of_insert: "ends_of (insert (a, b) K) = {a, b} \<union> ends_of K"
  by (auto simp: ends_of_def)

lemma ends_of_mono: "K \<subseteq> L \<Longrightarrow> ends_of K \<subseteq> ends_of L"
  by (auto simp: ends_of_def)

lemma tree_links_sub: "subgraph kruskal \<Longrightarrow> tree_links kruskal g \<subseteq> graph_links g"
  unfolding subgraph_def tree_links_def graph_links_def by (rule image_mono) blast

lemma tree_port_ends: "tree_port (tree_ports (kruskal g)) p \<longleftrightarrow> p \<in> ends_of (tree_links kruskal g)"
  unfolding tree_ports_ok(2) ends_of_def tree_links_def by force

lemma tree_dom: "dom (map_of (tree_ports (kruskal g))) = dpid ` ends_of (tree_links kruskal g)"
  unfolding tree_ports_ok(3) ends_of_def tree_links_def by force

lemma link_appears_ok:
  assumes "stp_ok s" "ports_inv kruskal K g s" "dpid a \<in> known s" "dpid b \<in> known s" "group_ok G s"
  shows "\<exists>s' out. onLinkDiscovered a b s = Inr (s', out) \<and> stp_ok s' \<and> known s' = known s \<and> ports_inv kruskal (insert (a, b) K) g' s' \<and>
           group_ok (fold apply_group out G) s' \<and> \<not> computed s'"
proof -
  have "broadcast q" if "pt s p = Some q" "\<not> to_switch q" for p q using assms(2) that by (auto simp: ports_inv_def)
  then obtain s' out q r where s': "onLinkDiscovered a b s = Inr (s', out)" "stp_ok s'" "known s' = known s" "\<not> computed s'"
      "pt s' = (pt s)(a \<mapsto> q, b \<mapsto> r)" "to_switch q" "to_switch r" "group_ok (fold apply_group out G) s'"
    using onLinkDiscovered_ok [OF assms(1,3-5)] by blast
  have "ports_inv kruskal (insert (a, b) K) g' s'"
    using assms(2) s'(4-7) unfolding ports_inv_def ends_of_insert by auto
  then show ?thesis using s'(1-4,8) by blast
qed

lemma spanned_ends:
  assumes "impl_ok m" "spanning kruskal" "subgraph kruskal" "(a, b) \<in> graph_links (graph m)" "dpid a \<noteq> dpid b"
  shows "{dpid a, dpid b} \<subseteq> dpid ` ends_of (tree_links kruskal (graph m))"
proof -
  obtain x y l where l: "(x, y, l) \<in> set (edges (graph m))" "lp_source l = a" "lp_target l = b" using assms(4) by (auto simp: graph_links_def)
  have xy: "vertex_map m (dpid a) = Some x" "vertex_map m (dpid b) = Some y" using impl_ok_edge [OF assms(1) l(1)] l(2,3) by auto
  have "x \<noteq> y" using assms(5) vertex_map_inj [OF assms(1)] xy by blast
  moreover have "(x, y) \<in> (joined (kruskal (graph m)))\<^sup>*" using assms(2) l(1) unfolding spanning_def by blast
  ultimately obtain u v where uv: "(x, u) \<in> joined (kruskal (graph m))" "(v, y) \<in> joined (kruskal (graph m))"
    by (metis converse_rtranclE rtranclE)
  have tip: "d \<in> dpid ` ends_of (tree_links kruskal (graph m))" if zw: "(z, w) \<in> joined (kruskal (graph m)) \<or> (w, z) \<in> joined (kruskal (graph m))"
      and d: "vertex_map m d = Some z" for d z w
  proof -
    obtain k where k: "(z, w, k) \<in> set (kruskal (graph m)) \<or> (w, z, k) \<in> set (kruskal (graph m))"
      using zw unfolding joined_def by blast
    then have "(z, w, k) \<in> set (edges (graph m)) \<or> (w, z, k) \<in> set (edges (graph m))" using assms(3) by (auto simp: subgraph_def)
    then have "dpid (lp_source k) = d \<or> dpid (lp_target k) = d" 
      using k assms(3) impl_ok_edge [OF assms(1)] vertex_map_inj [OF assms(1) d] by blast
    then show ?thesis using k by (force simp: ends_of_def tree_links_def)
  qed
  show ?thesis using tip [OF _ xy(1)] tip [OF _ xy(2)] uv by blast
qed

lemma tick_ok:
  assumes "stp_ok s" "ports_inv kruskal K (graph m) s" "subgraph kruskal" "graph_links (graph m) \<subseteq> K" "group_ok G s"
    "tree_groups kruskal (graph m) G s" "impl_ok m" "spanning kruskal" "\<And>a b. (a, b) \<in> K \<Longrightarrow> dpid a \<noteq> dpid b"
  shows "\<exists>s' out. computeSpanningTree kruskal (graph m) s = Inr (s', out) \<and> stp_ok s' \<and> known s' = known s \<and> computed s' \<and>
           ports_inv kruskal K (graph m) s' \<and> group_ok (fold apply_group out G) s' \<and> tree_groups kruskal (graph m) (fold apply_group out G) s'"
proof (cases "computed s")
  case True
  then show ?thesis using assms by (simp add: computeSpanningTree_def)
next
  case False
  let ?g = "graph m"
  have "ends_of (tree_links kruskal ?g) \<subseteq> ends_of K" using tree_links_sub [OF assms(3)] assms(4) ends_of_mono by blast
  then have sub: "dom (map_of (tree_ports (kruskal ?g))) \<subseteq> known s"
    unfolding tree_dom using assms(2) pt_known by (fastforce simp: ports_inv_def)
  obtain s' out where s': "computeSpanningTree kruskal ?g s = Inr (s', out)" "stp_ok s'" "known s' = known s" "computed s'"
      "\<And>p. pt s' p = map_option (\<lambda>q. enable_port (tree_port (tree_ports (kruskal ?g)) p) (reset_port q)) (pt s p)"
      "current s' out" "gm_switch ` set out = dom (map_of (tree_ports (kruskal ?g)))"
    using computeSpanningTree_ok [OF assms(1) False, of kruskal ?g] sub by blast
  have flags: "\<exists>q. pt s' p = Some q \<and> to_switch q \<and> (broadcast q \<longleftrightarrow> p \<in> ends_of (tree_links kruskal ?g))" if p: "p \<in> ends_of K" for p
  proof -
    obtain q where "pt s p = Some q" "to_switch q" using assms(2) p unfolding ports_inv_def by blast
    then show ?thesis unfolding s'(5) tree_port_ends by (simp add: enable_port_def reset_port_def)
  qed
  have host: "broadcast q \<and> (\<exists>r. pt s p = Some r \<and> \<not> to_switch r)" if q: "pt s' p = Some q" "\<not> to_switch q" for p q
  proof -
    obtain r where "pt s p = Some r" "\<not> to_switch r" "broadcast r \<longrightarrow> broadcast q"
      using q unfolding s'(5) by (auto simp: enable_port_def reset_port_def split: if_splits)
    then show ?thesis using assms(2) unfolding ports_inv_def by blast
  qed
  have "group_ok (fold apply_group out G) s'" using host by (intro group_ok_messages [OF assms(5) s'(3,6)]) blast+
  moreover have "opens (fold apply_group out G) p \<longleftrightarrow> p \<in> ends_of (tree_links kruskal ?g)" if p: "p \<in> ends_of (graph_links ?g)" for p
  proof -
    have "p \<in> ends_of K" using p assms(4) ends_of_mono by blast
    then obtain q where q: "pt s' p = Some q" "broadcast q \<longleftrightarrow> p \<in> ends_of (tree_links kruskal ?g)" using flags by blast
    obtain a b where ab: "(a, b) \<in> graph_links ?g" "p = a \<or> p = b" using p by (auto simp: ends_of_def)
    then have "dpid p \<in> gm_switch ` set out"
      unfolding s'(7) tree_dom using spanned_ends [OF assms(7,8,3) ab(1)] assms(4,9) by blast
    moreover have "G (dpid p) \<noteq> None" using assms(5) pt_known [OF q(1)] s'(3) by (auto simp: group_ok_def)
    ultimately show ?thesis using apply_current [OF s'(6), of G _ p] q by auto
  qed
  moreover have "ports_inv kruskal K ?g s'" using flags host unfolding ports_inv_def by blast
  ultimately show ?thesis using s'(1-4) unfolding tree_groups_def by blast
qed

lemma tree_groups_frame:
  assumes "tree_groups kruskal g G s" "computed s' = computed s" "\<And>p. p \<in> ends_of (graph_links g) \<Longrightarrow> opens G' p \<longleftrightarrow> opens G p"
  shows "tree_groups kruskal g G' s'"
  using assms by (simp add: tree_groups_def)

lemma new_group:
  assumes "group_ok G s" "untouched d K" "graph_links g \<subseteq> K" "tree_groups kruskal g G s" "stp_ok s"
  defines "s' \<equiv> put_switch d \<lparr>sw = d, ports = []\<rparr> s" and "G' \<equiv> fold apply_group (snd (new_SwitchSTP d)) G"
  shows "group_ok G' s'" "tree_groups kruskal g G' s'"
proof -
  have G': "G' = G(d \<mapsto> [])"
    by (simp add: G'_def new_SwitchSTP_def Let_def apply_group_def clearGroup_def installGroup_def getEnabledPorts_def)
  note f = fresh_switch [OF assms(5), of d, folded s'_def]
  show "group_ok G' s'" using assms(1) f(2,3) by (auto simp: group_ok_def G' opens_def)
  show "tree_groups kruskal g G' s'"
    using untouched_ends [OF assms(2)] ends_of_mono [OF assms(3)] by (intro tree_groups_frame [OF assms(4) f(4)]) (auto simp: G' opens_def)
qed

lemma port_group:
  assumes "group_ok G s" "ports_inv kruskal K g s" "graph_links g \<subseteq> K" "tree_groups kruskal g G s" "known s' = known s" "computed s' = computed s"
    "current s' out" "\<And>p. pt s' p = pt s p \<or> pt s p = None \<and> pt s' p = Some (new_Port (port p)) \<and> dpid p \<in> gm_switch ` set out"
  shows "group_ok (fold apply_group out G) s'" "tree_groups kruskal g (fold apply_group out G) s'"
proof -
  have host: "broadcast q" "dpid p \<notin> gm_switch ` set out \<Longrightarrow> pt s p = Some q" if "pt s' p = Some q" "\<not> to_switch q" for p q
    using assms(2) assms(8) [of p] that by (auto simp: ports_inv_def new_Port_def)
  show "group_ok (fold apply_group out G) s'" using host by (intro group_ok_messages [OF assms(1,5,7)]) blast+
  have "opens (fold apply_group out G) p \<longleftrightarrow> opens G p" if p: "p \<in> ends_of (graph_links g)" and c: "computed s" for p
  proof -
    have "p \<in> ends_of K" using p assms(3) ends_of_mono by blast
    then obtain q where "pt s p = Some q" "broadcast q \<longleftrightarrow> p \<in> ends_of (tree_links kruskal g)" using assms(2) c unfolding ports_inv_def by blast
    then show ?thesis using apply_current [OF assms(7), of G _ p] assms(4) assms(8) [of p] p c by (auto simp: tree_groups_def)
  qed
  then show "tree_groups kruskal g (fold apply_group out G) s'" using assms(4,6) by (simp add: tree_groups_def)
qed

lemma net_step_ok:
  assumes inv: "net_inv kruskal hash U N (G, s, t, em)" and ok: "net_ok U (topo_links t) N (e # es)"
    and U: "proper_links U" "subgraph kruskal" "hash \<noteq> 0" "last_event em + 1 < 2 ^ 32" "spanning kruskal"
  shows "\<exists>s' t' em' out N'. net_step kruskal hash e (s, t, em) = Inr ((s', t', em'), out) \<and>
           net_inv kruskal hash U N' (fold apply_group out G, s', t', em') \<and>
           net_ok U (topo_links t') N' es \<and> last_event em' \<le> last_event em + 1"
proof -
  have i: "stp_ok s" "known s = N" "topo_inv hash U (t, em)" "ports_inv kruskal (topo_links t) (graph (impl t)) s"
      "group_ok G s" "tree_groups kruskal (graph (impl t)) G s"
    using inv by (auto simp: net_inv_def)
  have gl: "graph_links (graph (impl t)) \<subseteq> topo_links t" "impl_ok (impl t)" "topo_links t \<subseteq> U" using i(3) by (auto simp: topo_inv_def)
  have new: "ports_inv kruskal (topo_links t) (graph (impl t)) s'"
    if "\<And>p. pt s' p = (if dpid p = d then None else pt s p)" "computed s' = computed s" "untouched d (topo_links t)" for s' d
    using that(1,2) untouched_ends [OF that(3)] by (intro ports_inv_frame [OF i(4)]) auto
  show ?thesis
  proof (cases e)
    case (SwDiscovered d)
    then show ?thesis using fresh_switch [OF i(1), of d] new [of "put_switch d \<lparr>sw = d, ports = []\<rparr> s" d] ok i
        new_group [OF i(5) _ gl(1) i(6,1), of d]
      by (simp add: net_inv_def onSwitchDiscovered_def new_SwitchSTP_def Let_def)
  next
    case (SwUp d)
    show ?thesis
    proof (cases "d \<in> N")
      case True
      then have "onSwitchUp d s = (s, [])" "insert d N = N" using i(2) by (auto simp: onSwitchUp_def sw_count_def known_def)
      then show ?thesis using SwUp inv ok by auto
    next
      case False
      have "dpid p \<in> N" if "p \<in> ends_of (topo_links t)" for p
        using that i(2,4) pt_known unfolding ports_inv_def by blast
      then have "untouched d (topo_links t)" using False by (force simp: untouched_def ends_of_def)
      moreover have "onSwitchUp d s = (put_switch d \<lparr>sw = d, ports = []\<rparr> s, snd (new_SwitchSTP d))"
        using False i(2) by (auto simp: onSwitchUp_def sw_count_def known_def new_SwitchSTP_def Let_def)
      ultimately show ?thesis using SwUp fresh_switch [OF i(1), of d] new [of "put_switch d \<lparr>sw = d, ports = []\<rparr> s" d] ok i
          new_group [OF i(5) _ gl(1) i(6,1), of d]
        by (simp add: net_inv_def)
    qed
  next
    case (SwDown d)
    have "group_ok G (onSwitchDown d s)" "tree_groups kruskal (graph (impl t)) G (onSwitchDown d s)"
      using i(5,6) onSwitchDown_ok [OF i(1), of d] by (auto simp: group_ok_def tree_groups_def)
    then show ?thesis using SwDown onSwitchDown_ok [OF i(1), of d] new [of "onSwitchDown d s" d] ok i by (simp add: net_inv_def)
  next
    case (PortAppears d no)
    obtain s' out where s': "onPortUp d no s = Inr (s', out)" "stp_ok s'" "known s' = known s" "computed s' = computed s"
        "\<And>p. pt s' p = pt s p \<or> pt s p = None \<and> pt s' p = Some (new_Port (port p)) \<and> dpid p \<in> gm_switch ` set out" "current s' out"
      using onPortUp_ok [OF i(1)] by blast
    have "pt s' p = pt s p" if "p \<in> ends_of (topo_links t)" for p
      using s'(5) [of p] i(4) that by (auto simp: ports_inv_def)
    then have "ports_inv kruskal (topo_links t) (graph (impl t)) s'"
      using s'(4,5) by (intro ports_inv_frame [OF i(4)]) auto
    then show ?thesis using PortAppears s'(1-4) ok i port_group [OF i(5,4) gl(1) i(6) s'(3,4,6,5)] by (simp add: net_inv_def)
  next
    case (LinkAppears a b)
    then have o: "(a, b) \<in> U" "(a, b) \<notin> topo_links t" "dpid a \<in> known s" "dpid b \<in> known s" "net_ok U (insert (a, b) (topo_links t)) N es"
      using ok i(2) by auto
    obtain t' em' where t': "linkDiscovered 0 hash a b (t, em) = Inr (t', em')" "topo_inv hash U (t', em')"
        "topo_links t' = insert (a, b) (topo_links t)" "last_event em' = last_event em + 1"
      using linkDiscovered_ok [OF i(3) o(1,2) U(1,3,4)] by blast
    obtain s' out where "onLinkDiscovered a b s = Inr (s', out)" "stp_ok s'" "known s' = known s"
        "ports_inv kruskal (insert (a, b) (topo_links t)) (graph (impl t')) s'" "group_ok (fold apply_group out G) s'" "\<not> computed s'"
      using link_appears_ok [OF i(1,4) o(3,4) i(5)] by blast
    then show ?thesis using LinkAppears t' o(5) i(2) by (simp add: net_inv_def tree_groups_def)
  next
    case (LinkBreaks a b)
    then have o: "(a, b) \<in> topo_links t" "net_ok U (topo_links t - {(a, b)}) N es" using ok by auto
    obtain t' em' where t': "linkBroken hash a b (t, em) = Inr (t', em')" "topo_inv hash U (t', em')"
        "topo_links t' = topo_links t - {(a, b)}" "last_event em' = last_event em + 1"
      using linkBroken_ok [OF i(3) o(1) U(1,3,4)] by blast
    have "ends_of (topo_links t - {(a, b)}) \<subseteq> ends_of (topo_links t)" by (rule ends_of_mono) auto
    then have "ports_inv kruskal (topo_links t - {(a, b)}) (graph (impl t')) (onLinkBroken a b s)"
      using i(4) unfolding ports_inv_def onLinkBroken_def by (auto simp: subset_iff)
    moreover have "group_ok G (onLinkBroken a b s)" "tree_groups kruskal (graph (impl t')) G (onLinkBroken a b s)"
      using i(5) by (simp_all add: group_ok_def tree_groups_def onLinkBroken_def)
    ultimately show ?thesis using LinkBreaks t' o(2) i(1,2) by (simp add: net_inv_def) (simp add: onLinkBroken_def)
  next
    case Tick
    have "dpid a \<noteq> dpid b" if "(a, b) \<in> topo_links t" for a b using gl(3) U(1) that by (auto simp: proper_links_def)
    then show ?thesis using Tick tick_ok [OF i(1,4) U(2) gl(1) i(5,6) gl(2) U(5)] ok i by (fastforce simp: net_inv_def)
  qed
qed

lemma net_run_append:
  "net_run kruskal hash (es @ fs) gw = res_bind (net_run kruskal hash es gw) (net_run kruskal hash fs)"
proof (induction es arbitrary: gw)
  case (Cons e es)
  then show ?case by (cases "net_step kruskal hash e (snd gw)") (simp_all add: split_beta)
qed simp

lemma net_run_ok:
  assumes U: "proper_links U" "subgraph kruskal" "hash \<noteq> 0" "spanning kruskal"
  shows "net_inv kruskal hash U N (G, s, t, em) \<Longrightarrow> net_ok U (topo_links t) N es \<Longrightarrow> last_event em + length es < 2 ^ 32 \<Longrightarrow>
         \<exists>G' s' t' em' N'. net_run kruskal hash es (G, s, t, em) = Inr (G', s', t', em') \<and> net_inv kruskal hash U N' (G', s', t', em')"
proof (induction es arbitrary: G s t em N)
  case (Cons e es)
  obtain s' t' em' out N' where e: "net_step kruskal hash e (s, t, em) = Inr ((s', t', em'), out)"
      "net_inv kruskal hash U N' (fold apply_group out G, s', t', em')" "net_ok U (topo_links t') N' es" "last_event em' \<le> last_event em + 1"
    using net_step_ok [OF Cons.prems(1,2) U(1-3) _ U(4)] Cons.prems(3) by auto
  then show ?case using Cons.IH [OF e(2,3)] Cons.prems(3) by auto
qed auto

definition floods :: "STP \<Rightarrow> switch_and_port \<Rightarrow> bool" where
  "floods s p = (case getSTP (dpid p) s of Inl e \<Rightarrow> False | Inr ps \<Rightarrow> port p \<in> set ps)"

lemma floods_pt: "stp_ok s \<Longrightarrow> computed s \<Longrightarrow> floods s p \<longleftrightarrow> (\<exists>q. pt s p = Some q \<and> broadcast q)"
proof (cases "dpid p \<in> known s")
  case True
  moreover assume "stp_ok s" "computed s"
  ultimately show ?thesis using the_switch_ok [of s "dpid p"] enabled_ports
    by (auto simp: floods_def getSTP_def sw_count_def known_def pt_def)
qed (auto simp: floods_def getSTP_def sw_count_def known_def pt_def)


text \<open>A port whose tree flag is set among the ends of distinct links belongs to a link of the tree.\<close>

lemma tree_link_at_ends:
  assumes "one_to_one U" "subgraph kruskal" "graph_links g \<subseteq> U" "(a, b) \<in> graph_links g"
  shows "a \<in> ends_of (tree_links kruskal g) \<longleftrightarrow> (a, b) \<in> tree_links kruskal g" "b \<in> ends_of (tree_links kruskal g) \<longleftrightarrow> (a, b) \<in> tree_links kruskal g"
proof -
  have "(a, b) \<in> tree_links kruskal g" if p: "p \<in> ends_of (tree_links kruskal g)" "p \<in> {a, b}" for p
  proof -
    obtain c d where cd: "(c, d) \<in> tree_links kruskal g" "p \<in> {c, d}" using p(1) by (auto simp: ends_of_def)
    then have "(c, d) \<in> U" "(a, b) \<in> U" using tree_links_sub [OF assms(2)] assms(3,4) by blast+
    moreover have "{c, d} \<inter> {a, b} \<noteq> {}" using cd(2) p(2) by blast
    ultimately have "(c, d) = (a, b)" using assms(1) unfolding one_to_one_def by fast
    then show ?thesis using cd(1) by simp
  qed
  moreover have "a \<in> ends_of (tree_links kruskal g) \<and> b \<in> ends_of (tree_links kruskal g)" if "(a, b) \<in> tree_links kruskal g"
    using that by (force simp: ends_of_def)
  ultimately show "a \<in> ends_of (tree_links kruskal g) \<longleftrightarrow> (a, b) \<in> tree_links kruskal g" "b \<in> ends_of (tree_links kruskal g) \<longleftrightarrow> (a, b) \<in> tree_links kruskal g"
    by blast+
qed


text \<open>A search that meets the hypotheses: an edge is taken when its ends are not yet labelled alike.\<close>

definition grow :: "nat \<times> nat \<times> link_property \<Rightarrow> (nat \<Rightarrow> nat) \<times> (nat \<times> nat \<times> link_property) list \<Rightarrow> (nat \<Rightarrow> nat) \<times> (nat \<times> nat \<times> link_property) list" where
  "grow = (\<lambda>(x, y, l) (lab, es). if lab x = lab y then (lab, es) else (\<lambda>v. if lab v = lab y then lab x else lab v, (x, y, l) # es))"

definition forest :: "TopologyGraph \<Rightarrow> (nat \<times> nat \<times> link_property) list" where
  "forest g = snd (fold grow (edges g) (id, []))"

lemma joined_Cons: "joined ((x, y, l) # es) = {(x, y), (y, x)} \<union> joined es"
  by (auto simp: joined_def)

lemma joined_sym: "(u, v) \<in> (joined es)\<^sup>* \<Longrightarrow> (v, u) \<in> (joined es)\<^sup>*"
proof -
  have "sym (joined es)" by (auto simp: sym_def joined_def)
  then show "(u, v) \<in> (joined es)\<^sup>* \<Longrightarrow> (v, u) \<in> (joined es)\<^sup>*" using sym_rtrancl [of "joined es"] by (auto dest: symD)
qed

definition labels_ok :: "(nat \<Rightarrow> nat) \<times> (nat \<times> nat \<times> link_property) list \<Rightarrow> bool" where
  "labels_ok le \<longleftrightarrow> (\<forall>u v. fst le u = fst le v \<longrightarrow> (u, v) \<in> (joined (snd le))\<^sup>*)"

lemma grow_ok:
  assumes "labels_ok (lab, es)" "grow (x, y, l) (lab, es) = (lab', es')"
  shows "labels_ok (lab', es')" "lab' x = lab' y" "lab u = lab v \<Longrightarrow> lab' u = lab' v" "set es' \<subseteq> insert (x, y, l) (set es)"
proof -
  have "(u, v) \<in> (joined es')\<^sup>*" if uv: "lab' u = lab' v" for u v
  proof (cases "lab x = lab y")
    case True
    then show ?thesis using assms uv by (auto simp: grow_def labels_ok_def)
  next
    case False
    then have e: "es' = (x, y, l) # es" "lab' = (\<lambda>v. if lab v = lab y then lab x else lab v)" using assms(2) by (auto simp: grow_def)
    have sub: "(joined es)\<^sup>* \<subseteq> (joined es')\<^sup>*" by (rule rtrancl_mono) (auto simp: e(1) joined_Cons)
    have xy: "(x, y) \<in> (joined es')\<^sup>*" by (auto simp: e(1) joined_Cons)
    have old: "(u, v) \<in> (joined es')\<^sup>*" if "lab u = lab v" for u v using assms(1) that sub by (auto simp: labels_ok_def)
    have up: "(w, x) \<in> (joined es')\<^sup>*" if "lab' w = lab x" for w
      using that old [of w x] old [of w y] joined_sym [OF xy] by (auto simp: e(2) split: if_splits)
    show ?thesis using uv old [of u v] up [of u] joined_sym [OF up [of v]] by (cases "lab' u = lab x") (auto simp: e(2) split: if_splits)
  qed
  then show "labels_ok (lab', es')" by (simp add: labels_ok_def)
  show "lab' x = lab' y" "lab u = lab v \<Longrightarrow> lab' u = lab' v" "set es' \<subseteq> insert (x, y, l) (set es)"
    using assms(2) by (auto simp: grow_def split: if_splits)
qed

lemma grow_all_ok:
  "labels_ok le \<Longrightarrow> labels_ok (fold grow fs le) \<and> (\<forall>u v. fst le u = fst le v \<longrightarrow> fst (fold grow fs le) u = fst (fold grow fs le) v) \<and>
     (\<forall>(x, y, l) \<in> set fs. fst (fold grow fs le) x = fst (fold grow fs le) y) \<and> set (snd (fold grow fs le)) \<subseteq> set (snd le) \<union> set fs"
proof (induction fs arbitrary: le)
  case (Cons f fs)
  obtain x y l where f: "f = (x, y, l)" by (metis prod_cases3)
  obtain lab es where le: "le = (lab, es)" by fastforce
  obtain lab' es' where g: "grow f le = (lab', es')" by (cases "grow f le")
  note e = f le g
  have "labels_ok (lab, es)" "grow (x, y, l) (lab, es) = (lab', es')" using Cons.prems e by simp_all
  note step = grow_ok [OF this]
  let ?r = "fold grow fs (lab', es')"
  have r: "fold grow (f # fs) le = ?r" using e(3) by simp
  note IH = Cons.IH [OF step(1), unfolded fst_conv snd_conv]
  have "\<forall>u v. fst le u = fst le v \<longrightarrow> fst ?r u = fst ?r v" unfolding e(2) fst_conv using IH step(3) by blast
  moreover have "\<forall>(x, y, l) \<in> set (f # fs). fst ?r x = fst ?r y" using IH step(2) unfolding e(1) by (metis (mono_tags, lifting) case_prodI set_ConsD)
  moreover have "set (snd ?r) \<subseteq> set (snd le) \<union> set (f # fs)" using conjunct2 [OF conjunct2 [OF conjunct2 [OF IH]]] step(4) e(1,2) by auto
  ultimately show ?case unfolding r using IH by blast
qed simp

lemma forest_ok: "spanning forest" "subgraph forest"
proof -
  have "labels_ok (id, [])" by (simp add: labels_ok_def)
  note g = grow_all_ok [OF this]
  show "spanning forest" using g unfolding spanning_def forest_def labels_ok_def by blast
  show "subgraph forest" using g by (fastforce simp: subgraph_def forest_def)
qed

definition demo_net :: "net_event list" where
  "demo_net = [SwDiscovered 1, SwUp 1, SwDiscovered 2, SwDiscovered 3, PortAppears 1 9,
     LinkAppears (sap 1 1) (sap 2 1), LinkAppears (sap 2 2) (sap 3 1), Tick, LinkAppears (sap 1 2) (sap 3 2)]"

definition demo_cables :: links where
  "demo_cables = {(sap 1 1, sap 2 1), (sap 2 2, sap 3 1), (sap 1 2, sap 3 2)}"


lemmas demo_steps =
  onSwitchDiscovered_def onSwitchUp_def onSwitchDown_def onPortUp_def onLinkDiscovered_def onLinkBroken_def computeSpanningTree_def
  mark_port_def the_switch_def put_switch_def unsetBroadcast_def setBroadcast_def setSwitchPort_def at_port_def add_port_def
  existsPort_def new_Port_def new_SwitchSTP_def resetBroadcast_def sw_count_def push_port_def tree_ports_def new_STP_def
  linkDiscovered_def linkBroken_def vertex_def getLink_def add_edge_def remove_edge_def joins_def new_Topology_def
  addToEventList_def getLastID_def findBrother_def floods_def getSTP_def getEnabledPorts_def sap_def ofpp_max_def Let_def
  updateGroup_def clearGroup_def installGroup_def apply_group_def opens_def

text \<open>
  A switch that goes down while one of its links is still in the graph makes the next computation follow a null pointer.
\<close>

theorem switch_down_before_link:
  "map_sum id fst (net_run edges 1 [SwDiscovered 1, SwDiscovered 2, LinkAppears (sap 1 1) (sap 2 1), SwDown 2, Tick]
     (Map.empty, new_STP, new_Topology, \<lparr>events = [], last_event = 0\<rparr>)) = Inl NullDereference"
  by (simp add: demo_steps)

text \<open>
  A port that once led to a switch stays closed. The link is broken, the tree is computed again, and the port, to which a host may now be
  attached, is not open for flooding, although no link is left.
\<close>

theorem stale_switch_port:
  "map_sum id (\<lambda>(G, s, t, em). (edges (graph (impl t)), floods s (sap 1 1), floods s (sap 1 9)))
     (net_run (\<lambda>g. edges g) 1 [SwDiscovered 1, SwDiscovered 2, PortAppears 1 9, LinkAppears (sap 1 1) (sap 2 1), Tick,
        LinkBreaks (sap 1 1) (sap 2 1), PortAppears 1 1, Tick] (Map.empty, new_STP, new_Topology, \<lparr>events = [], last_event = 0\<rparr>)) =
   Inr ([], False, True)"
  by (simp add: demo_steps)

end
