(* ===== verification/Net_Addr.thy ===== *)
theory Net_Addr
  imports Prelude
begin

text \<open>
  Network addresses: \<open>src/types/ethaddr.cc\<close>, \<open>src/types/IPv4Addr.cc\<close> and the number conversions of
  \<open>src/types/IPv6Addr.cc\<close>. A \<open>bits<N>\<close> is an \<open>N\<close>-bit word. The regular expressions of the parsers
  are matched as \<open>std::regex\<close> does: alternatives from left to right, repetitions from long to short, the
  first complete match wins, and an unescaped dot is any character but a line terminator.
\<close>

unbundle bit_operations_syntax

type_synonym mac = "48 word"

definition bad_representation :: fault where
  "bad_representation = Thrown ''bad_representation''"

text \<open>An exception that leaves a \<open>noexcept\<close> function ends the process.\<close>

definition terminate :: fault where
  "terminate = Thrown ''std::terminate''"

subsection \<open>Characters\<close>

definition is_xdigit :: "char \<Rightarrow> bool" where
  "is_xdigit c \<longleftrightarrow> is_digit c \<or> 97 \<le> (of_char c :: nat) \<and> (of_char c :: nat) \<le> 102 \<or>
     65 \<le> (of_char c :: nat) \<and> (of_char c :: nat) \<le> 70"

definition xdigit_val :: "char \<Rightarrow> nat" where
  "xdigit_val c =
     (if is_digit c then of_char c - 48
      else if 97 \<le> (of_char c :: nat) then of_char c - 87 else of_char c - 55)"

definition xdigit_char :: "nat \<Rightarrow> char" where
  "xdigit_char d = (if d < 10 then char_of (48 + d) else char_of (87 + d))"

definition line_terminator :: "char \<Rightarrow> bool" where
  "line_terminator c \<longleftrightarrow> c = CHR 0x0A \<or> c = CHR 0x0D"

subsection \<open>Ethernet addresses\<close>

datatype pattern_item = XDigit | Exactly char | AnyChar

text \<open>A pattern of fixed length against the whole string; the result is the hexadecimal digits.\<close>

fun match_fixed :: "pattern_item list \<Rightarrow> string \<Rightarrow> string option" where
  "match_fixed [] [] = Some []"
| "match_fixed (XDigit # ps) (c # s) = (if is_xdigit c then map_option (Cons c) (match_fixed ps s) else None)"
| "match_fixed (Exactly d # ps) (c # s) = (if c = d then match_fixed ps s else None)"
| "match_fixed (AnyChar # ps) (c # s) = (if line_terminator c then None else match_fixed ps s)"
| "match_fixed _ _ = None"

definition mac_pattern_colon :: "pattern_item list" where
  "mac_pattern_colon =
     [XDigit, XDigit, Exactly CHR '':'', XDigit, XDigit, Exactly CHR '':'', XDigit, XDigit, Exactly CHR '':'',
      XDigit, XDigit, Exactly CHR '':'', XDigit, XDigit, Exactly CHR '':'', XDigit, XDigit]"

definition mac_pattern_dash :: "pattern_item list" where
  "mac_pattern_dash =
     [XDigit, XDigit, Exactly CHR ''-'', XDigit, XDigit, Exactly CHR ''-'', XDigit, XDigit, Exactly CHR ''-'',
      XDigit, XDigit, Exactly CHR ''-'', XDigit, XDigit, Exactly CHR ''-'', XDigit, XDigit]"

definition mac_pattern_dots :: "pattern_item list" where
  "mac_pattern_dots =
     [XDigit, XDigit, XDigit, XDigit, AnyChar, XDigit, XDigit, XDigit, XDigit, AnyChar,
      XDigit, XDigit, XDigit, XDigit]"

fun hex_octets :: "string \<Rightarrow> nat list" where
  "hex_octets (a # b # s) = (16 * xdigit_val a + xdigit_val b) # hex_octets s"
| "hex_octets _ = []"

definition shift_in :: "u64 \<Rightarrow> nat \<Rightarrow> u64" where
  "shift_in res oct = push_bit 8 res OR ucast (of_nat oct :: u8)"

definition parseMAC :: "string \<Rightarrow> u64 res" where
  "parseMAC str =
     (case match_fixed mac_pattern_colon str of
        Some ds \<Rightarrow> Inr (foldl shift_in 0 (hex_octets ds))
      | None \<Rightarrow>
          (case match_fixed mac_pattern_dash str of
             Some ds \<Rightarrow> Inr (foldl shift_in 0 (hex_octets ds))
           | None \<Rightarrow>
               (case match_fixed mac_pattern_dots str of
                  Some ds \<Rightarrow> Inr (foldl shift_in 0 (hex_octets ds))
                | None \<Rightarrow> Inl bad_representation)))"

definition ethaddr_of_string :: "string \<Rightarrow> mac res" where
  "ethaddr_of_string str = res_bind (parseMAC str) (\<lambda>n. Inr (ucast n))"

definition ethaddr_of_number :: "u64 \<Rightarrow> mac res" where
  "ethaddr_of_number num =
     (if num AND 0xffff000000000000 \<noteq> 0 then Inl bad_representation else Inr (ucast num))"

definition ethaddr_of_octets :: "u8 list \<Rightarrow> mac" where
  "ethaddr_of_octets o' =
     ucast (push_bit 40 (ucast (o' ! 0) :: u64) OR push_bit 32 (ucast (o' ! 1)) OR push_bit 24 (ucast (o' ! 2)) OR
            push_bit 16 (ucast (o' ! 3)) OR push_bit 8 (ucast (o' ! 4)) OR ucast (o' ! 5))"

definition ethaddr_to_number :: "mac \<Rightarrow> u64" where
  "ethaddr_to_number a = ucast a"

definition ethaddr_to_octets :: "mac \<Rightarrow> u8 list" where
  "ethaddr_to_octets a =
     (let num = ethaddr_to_number a in
      [ucast (drop_bit 40 (num AND 0xff0000000000)), ucast (drop_bit 32 (num AND 0xff00000000)),
       ucast (drop_bit 24 (num AND 0xff000000)), ucast (drop_bit 16 (num AND 0xff0000)),
       ucast (drop_bit 8 (num AND 0xff00)), ucast (num AND 0xff)])"

definition eth_is_broadcast :: "mac \<Rightarrow> bool" where
  "eth_is_broadcast a \<longleftrightarrow> a = - 1"

definition eth_is_multicast :: "mac \<Rightarrow> bool" where
  "eth_is_multicast a \<longleftrightarrow> bit a (48 - 8)"

definition eth_is_unicast :: "mac \<Rightarrow> bool" where
  "eth_is_unicast a \<longleftrightarrow> \<not> bit a (48 - 8)"

definition is_locally_administered :: "mac \<Rightarrow> bool" where
  "is_locally_administered a \<longleftrightarrow> bit a (48 - 7)"

definition hex2 :: "u8 \<Rightarrow> string" where
  "hex2 b = [xdigit_char (unat b div 16), xdigit_char (unat b mod 16)]"

definition print_ethaddr :: "mac \<Rightarrow> string" where
  "print_ethaddr a =
     (let d = ethaddr_to_octets a in
      hex2 (d ! 0) @ '':'' @ hex2 (d ! 1) @ '':'' @ hex2 (d ! 2) @ '':'' @
      hex2 (d ! 3) @ '':'' @ hex2 (d ! 4) @ '':'' @ hex2 (d ! 5))"

subsection \<open>IPv4 addresses\<close>

text \<open>Up to three digits and any character, as often as groups are left; longest digits first.\<close>

fun match_octets :: "nat \<Rightarrow> string \<Rightarrow> string list option" where
  "match_octets 0 s = (if 1 \<le> length s \<and> length s \<le> 3 \<and> list_all is_digit s then Some [s] else None)"
| "match_octets (Suc n) s =
     (let try_len = (\<lambda>k. if k < length s \<and> list_all is_digit (take k s) \<and> \<not> line_terminator (s ! k)
                         then map_option (Cons (take k s)) (match_octets n (drop (k + 1) s)) else None)
      in case try_len 3 of Some r \<Rightarrow> Some r | None \<Rightarrow>
           (case try_len 2 of Some r \<Rightarrow> Some r | None \<Rightarrow> try_len 1))"

definition parseIPv4Address :: "string \<Rightarrow> u64 res" where
  "parseIPv4Address str =
     (case match_octets 3 str of
        None \<Rightarrow> Inl bad_representation
      | Some gs \<Rightarrow> Inr (foldl shift_in 0 (map (dec_value 0) gs)))"

definition ipv4_of_string :: "string \<Rightarrow> u32 res" where
  "ipv4_of_string str = res_bind (parseIPv4Address str) (\<lambda>n. Inr (ucast n))"

definition ipv4_of_octets :: "u8 list \<Rightarrow> u32" where
  "ipv4_of_octets o' =
     ucast (push_bit 24 (ucast (o' ! 0) :: u64) OR push_bit 16 (ucast (o' ! 1)) OR push_bit 8 (ucast (o' ! 2)) OR
            ucast (o' ! 3))"

definition ipv4_to_octets :: "u32 \<Rightarrow> u8 list" where
  "ipv4_to_octets num =
     [ucast (drop_bit 24 (num AND 0xff000000)), ucast (drop_bit 16 (num AND 0xff0000)),
      ucast (drop_bit 8 (num AND 0xff00)), ucast (num AND 0xff)]"

definition print_ipv4 :: "u32 \<Rightarrow> string" where
  "print_ipv4 a =
     (let d = ipv4_to_octets a in
      dec_word (d ! 0) @ ''.'' @ dec_word (d ! 1) @ ''.'' @ dec_word (d ! 2) @ ''.'' @ dec_word (d ! 3))"

definition compare_prefix :: "string \<Rightarrow> u32 \<Rightarrow> nat \<Rightarrow> bool res" where
  "compare_prefix pat value subnet =
     res_bind (ipv4_of_string pat) (\<lambda>p. Inr (drop_bit (32 - subnet) p = drop_bit (32 - subnet) value))"

definition noexcept :: "'a res \<Rightarrow> 'a res" where
  "noexcept r = (case r of Inl (Thrown _) \<Rightarrow> Inl terminate | _ \<Rightarrow> r)"

definition is_private :: "u32 \<Rightarrow> bool res" where
  "is_private a =
     noexcept (res_bind (compare_prefix ''10.0.0.0'' a 8) (\<lambda>b1. if b1 then Inr True else
       res_bind (compare_prefix ''172.16.0.0'' a 12) (\<lambda>b2. if b2 then Inr True else
         compare_prefix ''192.168.0.0.'' a 16)))"

definition is_loopback :: "u32 \<Rightarrow> bool res" where
  "is_loopback a = noexcept (compare_prefix ''127.0.0.0'' a 8)"

definition ipv4_is_multicast :: "u32 \<Rightarrow> bool res" where
  "ipv4_is_multicast a = noexcept (compare_prefix ''224.0.0.0'' a 4)"

definition ipv4_is_broadcast :: "u32 \<Rightarrow> bool" where
  "ipv4_is_broadcast a \<longleftrightarrow> a = - 1"

subsection \<open>IPv6 addresses\<close>

type_synonym u128 = "128 word"

definition ipv6_of_number :: "u64 \<times> u64 \<Rightarrow> u128" where
  "ipv6_of_number num = push_bit 64 (ucast (fst num)) OR ucast (snd num)"

text \<open>\<open>bitset::to_ullong\<close> throws when a bit above the 64th is set.\<close>

definition to_ullong :: "u128 \<Rightarrow> u64 res" where
  "to_ullong d = (if drop_bit 64 d \<noteq> 0 then Inl (Thrown ''overflow_error'') else Inr (ucast d))"

definition ipv6_to_number :: "u128 \<Rightarrow> (u64 \<times> u64) res" where
  "ipv6_to_number d =
     noexcept (res_bind (to_ullong d) (\<lambda>one. res_bind (to_ullong (drop_bit 64 d)) (\<lambda>two. Inr (one, two))))"

definition half_hextets :: "u64 \<Rightarrow> u16 list" where
  "half_hextets n =
     [ucast (drop_bit 48 (n AND 0xffff000000000000)), ucast (drop_bit 32 (n AND 0xffff00000000)),
      ucast (drop_bit 16 (n AND 0xffff0000)), ucast (n AND 0xffff)]"

definition ipv6_to_hextets :: "u128 \<Rightarrow> (u16 list) res" where
  "ipv6_to_hextets d = res_bind (ipv6_to_number d) (\<lambda>(one, two). Inr (half_hextets one @ half_hextets two))"

text \<open>The first octet of each half is shifted by 54, not 56.\<close>

definition half_octets :: "u64 \<Rightarrow> u8 list" where
  "half_octets n =
     [ucast (drop_bit 54 (n AND 0xff00000000000000)), ucast (drop_bit 48 (n AND 0xff000000000000)),
      ucast (drop_bit 40 (n AND 0xff0000000000)), ucast (drop_bit 32 (n AND 0xff00000000)),
      ucast (drop_bit 24 (n AND 0xff000000)), ucast (drop_bit 16 (n AND 0xff0000)),
      ucast (drop_bit 8 (n AND 0xff00)), ucast (n AND 0xff)]"

definition ipv6_to_octets :: "u128 \<Rightarrow> (u8 list) res" where
  "ipv6_to_octets d = res_bind (ipv6_to_number d) (\<lambda>(one, two). Inr (half_octets one @ half_octets two))"


subsection \<open>Octets\<close>

lemma octet_of_64:
  "k + 8 \<le> 64 \<Longrightarrow> (ucast (drop_bit k (x AND push_bit k (mask 8))) :: u8) = ucast (drop_bit k (x :: u64))"
  by (rule bit_word_eqI) (auto simp: bit_simps)

lemma octet_of_32:
  "k + 8 \<le> 32 \<Longrightarrow> (ucast (drop_bit k (x AND push_bit k (mask 8))) :: u8) = ucast (drop_bit k (x :: u32))"
  by (rule bit_word_eqI) (auto simp: bit_simps)

lemma byte_masks_64:
  "(0xff0000000000 :: u64) = push_bit 40 (mask 8)" "(0xff00000000 :: u64) = push_bit 32 (mask 8)"
  "(0xff000000 :: u64) = push_bit 24 (mask 8)" "(0xff0000 :: u64) = push_bit 16 (mask 8)"
  "(0xff00 :: u64) = push_bit 8 (mask 8)" "(0xff :: u64) = push_bit 0 (mask 8)"
  by (simp_all add: mask_eq_exp_minus_1)

lemma byte_masks_32:
  "(0xff000000 :: u32) = push_bit 24 (mask 8)" "(0xff0000 :: u32) = push_bit 16 (mask 8)"
  "(0xff00 :: u32) = push_bit 8 (mask 8)" "(0xff :: u32) = push_bit 0 (mask 8)"
  by (simp_all add: mask_eq_exp_minus_1)

lemma ethaddr_octets:
  "ethaddr_to_octets a = map (\<lambda>k. ucast (drop_bit k (ucast a :: u64))) [40, 32, 24, 16, 8, 0]"
  unfolding ethaddr_to_octets_def Let_def ethaddr_to_number_def byte_masks_64
  using octet_of_64 [of 0 "ucast a"] octet_of_64 [of 8 "ucast a"] octet_of_64 [of 16 "ucast a"]
    octet_of_64 [of 24 "ucast a"] octet_of_64 [of 32 "ucast a"] octet_of_64 [of 40 "ucast a"]
  by (simp del: drop_bit_and)

lemma ipv4_octets: "ipv4_to_octets a = map (\<lambda>k. ucast (drop_bit k a)) [24, 16, 8, 0]"
  unfolding ipv4_to_octets_def byte_masks_32
  using octet_of_32 [of 0 a] octet_of_32 [of 8 a] octet_of_32 [of 16 a] octet_of_32 [of 24 a]
  by (simp del: drop_bit_and)

lemma ucast_octet_64: "(ucast (ucast (x :: u64) :: u8) :: u64) = take_bit 8 x"
  by (rule bit_word_eqI) (auto simp: bit_simps)

lemma ucast_octet_32: "(ucast (ucast (drop_bit k (x :: u32)) :: u8) :: u64) = take_bit 8 (drop_bit k (ucast x))"
  by (rule bit_word_eqI) (auto simp: bit_simps dest: bit_imp_le_length)

lemma take_octet: "take_bit (k + 8) (x :: u64) = push_bit k (take_bit 8 (drop_bit k x)) OR take_bit k x"
  by (rule bit_word_eqI) (auto simp: bit_simps)

lemmas take_octets =
  take_octet [of 40, simplified] take_octet [of 32, simplified] take_octet [of 24, simplified]
  take_octet [of 16, simplified] take_octet [of 8, simplified]

lemma take_48_ucast: "ucast (take_bit 48 (ucast (a :: mac) :: u64)) = a"
  by (rule bit_word_eqI) (auto simp: bit_simps)

lemma take_32_ucast: "ucast (take_bit 32 (ucast (a :: u32) :: u64)) = a"
  by (rule bit_word_eqI) (auto simp: bit_simps)

lemma ethaddr_octets_roundtrip: "ethaddr_of_octets (ethaddr_to_octets a) = a"
proof -
  have "ethaddr_of_octets (ethaddr_to_octets a) = ucast (take_bit 48 (ucast a :: u64))"
    unfolding ethaddr_octets ethaddr_of_octets_def by (simp add: ucast_octet_64 take_octets or.assoc)
  then show ?thesis by (simp add: take_48_ucast)
qed

lemma ipv4_octets_roundtrip: "ipv4_of_octets (ipv4_to_octets a) = a"
proof -
  have "ipv4_of_octets (ipv4_to_octets a) = ucast (take_bit 32 (ucast a :: u64))"
    unfolding ipv4_octets ipv4_of_octets_def
    using ucast_octet_32 [of 0 a] by (simp add: ucast_octet_32 take_octets or.assoc)
  then show ?thesis by (simp add: take_32_ucast)
qed

lemma shift_in_octets:
  "foldl shift_in 0 (map unat [a, b, c, d :: u8]) =
     push_bit 24 (ucast a) OR push_bit 16 (ucast b) OR push_bit 8 (ucast c) OR ucast d"
  "foldl shift_in 0 (map unat [a, b, c, d, e, f :: u8]) =
     push_bit 40 (ucast a) OR push_bit 32 (ucast b) OR push_bit 24 (ucast c) OR push_bit 16 (ucast d) OR
     push_bit 8 (ucast e) OR ucast f"
  by (simp_all add: shift_in_def push_bit_or or.assoc)

subsection \<open>Printing and parsing\<close>

lemma of_xdigit_char: "d < 16 \<Longrightarrow> (of_char (xdigit_char d) :: nat) = (if d < 10 then 48 + d else 87 + d)"
  by (simp add: xdigit_char_def)

lemma xdigit_char_ok [simp]: "d < 16 \<Longrightarrow> is_xdigit (xdigit_char d)" "d < 16 \<Longrightarrow> xdigit_val (xdigit_char d) = d"
  by (auto simp: is_xdigit_def xdigit_val_def is_digit_def of_xdigit_char)

lemma unat_u8: "unat (b :: u8) < 256"
proof -
  have "unat b < 2 ^ LENGTH(8)" by (rule unsigned_less)
  then show ?thesis by simp
qed

lemma hex2_ok [simp]: "unat (b :: u8) div 16 < 16" "unat (b :: u8) mod 16 < 16"
  using unat_u8 [of b] by auto

lemma padding_clear: "(ucast (a :: mac) :: u64) AND 0xffff000000000000 = 0"
proof -
  have m: "(0xffff000000000000 :: u64) = push_bit 48 (mask 16)" by (simp add: mask_eq_exp_minus_1)
  show ?thesis unfolding m
    by (intro bit_word_eqI) (auto simp: bit_simps dest: bit_imp_le_length)
qed

lemma ucast_ucast_mac: "(ucast (ucast (a :: mac) :: u64) :: mac) = a"
  by (rule bit_word_eqI) (auto simp: bit_simps)

lemma ethaddr_text: "ethaddr_of_string (print_ethaddr a) = Inr a"
proof -
  obtain o0 o1 o2 o3 o4 o5 where o: "ethaddr_to_octets a = [o0, o1, o2, o3, o4, o5]"
    by (simp add: ethaddr_octets)
  have "parseMAC (print_ethaddr a) = Inr (foldl shift_in 0 (map unat [o0, o1, o2, o3, o4, o5]))"
    by (simp add: parseMAC_def print_ethaddr_def o hex2_def mac_pattern_colon_def)
  moreover have "ucast (foldl shift_in 0 (map unat [o0, o1, o2, o3, o4, o5])) = ethaddr_of_octets (ethaddr_to_octets a)"
    unfolding shift_in_octets by (simp add: o ethaddr_of_octets_def)
  ultimately show ?thesis
    by (simp add: ethaddr_of_string_def ethaddr_octets_roundtrip del: foldl_Cons list.map)
qed

text \<open>
  An Ethernet address prints to a string that parses back to it, and its octets assemble to it;
  a number is accepted exactly when its upper 16 bits are clear.
\<close>

theorem ethaddr_roundtrip:
  "ethaddr_of_string (print_ethaddr a) = Inr a \<and> ethaddr_of_octets (ethaddr_to_octets a) = a \<and>
   ethaddr_of_number (ethaddr_to_number a) = Inr a"
  using padding_clear [of a]
  by (simp add: ethaddr_text ethaddr_octets_roundtrip ethaddr_of_number_def ethaddr_to_number_def ucast_ucast_mac)


lemma length_dec: "length (dec n) = (if n < 10 then 1 else length (dec (n div 10)) + 1)"
  by (subst dec.simps) simp

lemma dec_length: "n < 1000 \<Longrightarrow> length (dec n) \<le> 3"
  using div_less_iff_less_mult [of 100 n 10] div_mult2_eq [of n 10 10] length_dec [of n] length_dec [of "n div 10"] length_dec [of "n div 10 div 10"]
  by (auto split: if_splits)

lemma list_all_dec: "list_all is_digit (dec n)"
  by (simp add: list_all_iff dec_digits)

lemma match_octets_last: "n < 1000 \<Longrightarrow> match_octets 0 (dec n) = Some [dec n]"
  by (simp add: dec_length list_all_dec Suc_le_eq)

lemma digits_stop:
  assumes "length ds < k"
  shows "\<not> list_all is_digit (take k (ds @ CHR ''.'' # rest))"
  using assms by (simp add: take_Cons' is_digit_def)

lemma match_octets_step:
  assumes n: "n < 1000" and r: "match_octets m rest = Some gs"
  shows "match_octets (Suc m) (dec n @ CHR ''.'' # rest) = Some (dec n # gs)"
proof -
  let ?s = "dec n @ CHR ''.'' # rest"
  let ?t = "\<lambda>k. if k < length ?s \<and> list_all is_digit (take k ?s) \<and> \<not> line_terminator (?s ! k)
                then map_option (Cons (take k ?s)) (match_octets m (drop (k + 1) ?s)) else None"
  have hit: "?t (length (dec n)) = Some (dec n # gs)"
    using r by (simp add: list_all_dec line_terminator_def)
  have miss: "?t k = None" if "length (dec n) < k" for k
    by (rule if_not_P) (use digits_stop [OF that] in blast)
  have "length (dec n) \<noteq> 0" by simp
  then consider "length (dec n) = 3" | "length (dec n) = 2" | "length (dec n) = 1"
    using dec_length [OF n] by linarith
  then have "(case ?t 3 of Some r \<Rightarrow> Some r | None \<Rightarrow> (case ?t 2 of Some r \<Rightarrow> Some r | None \<Rightarrow> ?t 1)) = Some (dec n # gs)"
  proof cases
    case 1
    have "?t 3 = Some (dec n # gs)" using hit unfolding 1 .
    then show ?thesis by (simp only: option.case)
  next
    case 2
    have "?t 3 = None" by (rule miss) (use 2 in simp)
    moreover have "?t 2 = Some (dec n # gs)" using hit unfolding 2 .
    ultimately show ?thesis by (simp only: option.case)
  next
    case 3
    have "?t 3 = None" "?t 2 = None" using 3 by (intro miss; simp)+
    moreover have "?t 1 = Some (dec n # gs)" using hit unfolding 3 .
    ultimately show ?thesis by (simp only: option.case)
  qed
  then show ?thesis by (simp only: match_octets.simps Let_def)
qed

lemma ipv4_text: "ipv4_of_string (print_ipv4 a) = Inr a"
proof -
  obtain o0 o1 o2 o3 where o: "ipv4_to_octets a = [o0, o1, o2, o3]" by (simp add: ipv4_octets)
  have lt: "unat (b :: u8) < 1000" for b using unat_u8 [of b] by simp
  have "match_octets 3 (print_ipv4 a) = Some (map (\<lambda>b. dec (unat b)) [o0, o1, o2, o3])"
    unfolding print_ipv4_def o Let_def dec_word_def numeral_3_eq_3
    using match_octets_step [OF lt match_octets_step [OF lt match_octets_step [OF lt match_octets_last [OF lt]]]]
    by simp
  then have "parseIPv4Address (print_ipv4 a) = Inr (foldl shift_in 0 (map unat [o0, o1, o2, o3]))"
    by (simp add: parseIPv4Address_def dec_value_dec)
  moreover have "ucast (foldl shift_in 0 (map unat [o0, o1, o2, o3])) = ipv4_of_octets (ipv4_to_octets a)"
    unfolding shift_in_octets by (simp add: o ipv4_of_octets_def)
  ultimately show ?thesis
    by (simp add: ipv4_of_string_def ipv4_octets_roundtrip del: foldl_Cons list.map)
qed

lemma print_ipv4_inject [simp]: "print_ipv4 a = print_ipv4 b \<longleftrightarrow> a = b"
  by (metis ipv4_text sum.inject(2))

text \<open>
  An IPv4 address prints to a string that the parser maps back to it, although the parser's
  separators match any character, and its octets assemble to it.
\<close>

theorem ipv4_roundtrip:
  "ipv4_of_string (print_ipv4 a) = Inr a \<and> ipv4_of_octets (ipv4_to_octets a) = a"
  by (simp add: ipv4_text ipv4_octets_roundtrip)

lemma prefix_patterns:
  "ipv4_of_string ''10.0.0.0'' = Inr 0x0a000000" "ipv4_of_string ''172.16.0.0'' = Inr 0xac100000"
  "ipv4_of_string ''192.168.0.0.'' = Inl bad_representation" "ipv4_of_string ''127.0.0.0'' = Inr 0x7f000000"
  "ipv4_of_string ''224.0.0.0'' = Inr 0xe0000000"
  by code_simp+

text \<open>
  \<open>is_private\<close> never returns false. It returns true for the networks 10.0.0.0/8 and
  172.16.0.0/12 and ends the process for every other address, those of 192.168.0.0/16 included, because
  the third pattern has a trailing dot, its parser throws, and the function is \<open>noexcept\<close>.
\<close>

theorem is_private_never_false:
  "is_private a = (if drop_bit 24 a = 10 \<or> drop_bit 20 a = 0xac1 then Inr True else Inl terminate)"
  by (auto simp: is_private_def compare_prefix_def prefix_patterns noexcept_def bad_representation_def)

text \<open>
  The parser of IPv4 addresses takes octets above 255 modulo 256 and any character as a
  separator.
\<close>

theorem ipv4_parser_is_lax:
  "ipv4_of_string ''256.0.0.1'' = Inr 1 \<and> ipv4_of_string ''1a2b3c4'' = Inr 0x01020304"
proof -
  have "match_octets 3 ''256.0.0.1'' = Some [''256'', ''0'', ''0'', ''1'']"
    "match_octets 3 ''1a2b3c4'' = Some [''1'', ''2'', ''3'', ''4'']" by code_simp+
  moreover have "foldl shift_in 0 (map (dec_value 0) [''256'', ''0'', ''0'', ''1'']) = 1"
    "foldl shift_in 0 (map (dec_value 0) [''1'', ''2'', ''3'', ''4'']) = 0x01020304" by code_simp+
  ultimately show ?thesis by (simp add: ipv4_of_string_def parseIPv4Address_def)
qed

text \<open>
  An IPv6 address whose upper 64 bits are not zero cannot be read back: every accessor ends the
  process. For the others the two halves come back in the opposite order of the constructor.
\<close>

theorem ipv6_accessors:
  "ipv6_to_number (ipv6_of_number (hi, lo)) = (if hi = 0 then Inr (lo, 0) else Inl terminate) \<and>
   (hi \<noteq> 0 \<longrightarrow> ipv6_to_hextets (ipv6_of_number (hi, lo)) = Inl terminate \<and>
               ipv6_to_octets (ipv6_of_number (hi, lo)) = Inl terminate)"
proof -
  let ?d = "ipv6_of_number (hi, lo)"
  have h: "drop_bit 64 ?d = ucast hi"
    by (rule bit_word_eqI) (auto simp: ipv6_of_number_def bit_simps dest: bit_imp_le_length)
  have "(ucast (ucast hi :: u128) :: u64) = hi" "(ucast ?d :: u64) = lo"
    by (rule bit_word_eqI; auto simp: ipv6_of_number_def bit_simps)+
  moreover from this(1) have "(ucast hi :: u128) = 0 \<longleftrightarrow> hi = 0" by (metis unsigned_0)
  moreover have "drop_bit 64 (ucast hi :: u128) = 0"
    by (rule bit_word_eqI) (auto simp: bit_simps dest: bit_imp_le_length)
  ultimately show ?thesis
    by (auto simp: ipv6_to_number_def ipv6_to_hextets_def ipv6_to_octets_def to_ullong_def h noexcept_def)
qed

theorem ipv6_accessors_witness:
  "ipv6_to_number (ipv6_of_number (0x20010db800000000, 1)) = Inl terminate \<and>
   ipv6_to_octets (ipv6_of_number (0x20010db800000000, 1)) = Inl terminate"
  using ipv6_accessors [of "0x20010db800000000" 1] by simp

end
