(* ===== verification/Learning_Switch.thy ===== *)
theory Learning_Switch
  imports Topology Net_Addr
begin

text \<open>
  The two forwarding applications: \<open>src/LearningSwitch.cc\<close>, which forwards along routes of the topology to the place where a
  host was seen, and \<open>src/SimpleLearningSwitch.cc\<close>, which learns ports for each switch alone.

  A handler gets the fields of the packet that it loads. The state that its closure captures is passed explicitly.
\<close>

subsection \<open>Learning switch\<close>

type_synonym HostsDatabase = "mac \<rightharpoonup> switch_and_port"

definition learn :: "u64 \<Rightarrow> u32 \<Rightarrow> mac \<Rightarrow> HostsDatabase \<Rightarrow> HostsDatabase" where
  "learn dp in_no a db =
     (if eth_is_broadcast a then db
      else case db a of None \<Rightarrow> db(a \<mapsto> \<lparr>dpid = dp, port = in_no\<rparr>) | Some _ \<Rightarrow> db)"

definition query :: "mac \<Rightarrow> HostsDatabase \<Rightarrow> switch_and_port option" where
  "query a db = db a"

definition forward_to :: "u32 \<Rightarrow> Decision \<Rightarrow> Decision res" where
  "forward_to no d = res_bind (unicast no d) (\<lambda>d. Inr (set_hard_timeout 1800 (set_idle_timeout 60 d)))"

definition send_along :: "u64 \<Rightarrow> switch_and_port \<Rightarrow> switch_and_port list \<Rightarrow> Decision \<Rightarrow> Decision res" where
  "send_along conn tgt route d =
     (case route of
        hop # _ \<Rightarrow> forward_to (port hop) d
      | [] \<Rightarrow>
          if conn = dpid tgt then forward_to (port tgt) d
          else Inr (return_now (set_hard_timeout 60 (set_idle_timeout 30 (drop_packet d)))))"

definition flood :: "mac \<Rightarrow> Decision \<Rightarrow> Decision res" where
  "flood dst d =
     (if \<not> eth_is_broadcast dst then res_bind (broadcast d) (\<lambda>d. Inr (set_idle_timeout 0 d)) else broadcast d)"

definition forwarding :: "(TopologyGraph \<Rightarrow> nat \<Rightarrow> nat \<Rightarrow> nat) \<Rightarrow> u64 \<Rightarrow> u32 \<Rightarrow> mac \<Rightarrow> mac \<Rightarrow> Decision \<Rightarrow> HostsDatabase \<times> Topology \<Rightarrow>
    (Decision \<times> HostsDatabase \<times> Topology) res option" where
  "forwarding dijkstra conn in_no src dst d = (\<lambda>(db, t).
     let db' = learn conn in_no src db
     in case query dst db' of
          Some tgt \<Rightarrow>
            map_option (\<lambda>r. res_bind r (\<lambda>(t', route). res_bind (send_along conn tgt route d) (\<lambda>d'. Inr (d', db', t'))))
              (computeRoute dijkstra conn (dpid tgt) t)
        | None \<Rightarrow> Some (res_bind (flood dst d) (\<lambda>d'. Inr (d', db', t))))"

subsection \<open>Simple learning switch\<close>

type_synonym seen_ports = "mac \<rightharpoonup> u32"

definition simple_forwarding :: "u32 \<Rightarrow> mac \<Rightarrow> mac \<Rightarrow> Decision \<Rightarrow> seen_ports \<Rightarrow> (Decision \<times> seen_ports) res" where
  "simple_forwarding in_no src dst d seen =
     (if eth_is_broadcast src then Inr (return_now (drop_packet d), seen)
      else
        let seen' = seen(src \<mapsto> in_no)
        in case seen' dst of
             Some no \<Rightarrow> res_bind (unicast no d) (\<lambda>d'. Inr (set_hard_timeout 1800 (set_idle_timeout 60 d'), seen'))
           | None \<Rightarrow> res_bind (broadcast d) (\<lambda>ret. Inr (ret, seen')))"

subsection \<open>Delivery\<close>

text \<open>
  What happens to a packet: each switch asks the handler and sends the packet out of the port it decides; a cable brings it to the next
  switch, and a port without a cable between switches leads to a host. At most \<open>n\<close> switches are asked.
\<close>

fun carry :: "(TopologyGraph \<Rightarrow> nat \<Rightarrow> nat \<Rightarrow> nat) \<Rightarrow> (switch_and_port \<rightharpoonup> switch_and_port) \<Rightarrow> nat \<Rightarrow> mac \<Rightarrow> mac \<Rightarrow> switch_and_port \<Rightarrow>
    HostsDatabase \<times> Topology \<Rightarrow> switch_and_port option" where
  "carry dijkstra W 0 src dst at w = None"
| "carry dijkstra W (Suc n) src dst at w =
     (case forwarding dijkstra (dpid at) (port at) src dst new_Decision w of
        Some (Inr (d, w')) \<Rightarrow>
          (case kind d of
             Unicast no \<Rightarrow>
               (let exit = \<lparr>dpid = dpid at, port = no\<rparr>
                in case W exit of None \<Rightarrow> Some exit | Some entry \<Rightarrow> carry dijkstra W n src dst entry w')
           | _ \<Rightarrow> None)
      | _ \<Rightarrow> None)"

lemma learn_known: "db a = Some h \<Longrightarrow> learn dp no b db a = Some h"
  by (auto simp: learn_def split: option.splits)

lemma is_route_even: "is_route L a b r \<Longrightarrow> even (length r)"
  by (induction L a b r rule: is_route.induct) auto

lemma shortest_route_first:
  assumes "shortest_route L a b route" "is_route L a b r"
  shows "route = [] \<and> a = b \<or>
    (\<exists>x y rest. route = x # y # rest \<and> a \<noteq> b \<and> dpid x = a \<and> ((x, y) \<in> L \<or> (y, x) \<in> L) \<and> is_route L (dpid y) b rest \<and> length rest + 2 \<le> length r)"
proof -
  have s: "is_route L a b route" "\<And>r. is_route L a b r \<Longrightarrow> length route \<le> length r"
    using assms unfolding shortest_route_def by metis+
  show ?thesis
  proof (cases "a = b")
    case True
    then show ?thesis using s(2) [of "[]"] by simp
  next
    case False
    then obtain x y rest where r: "route = x # y # rest"
      using s(1) by (metis is_route.simps(1,2) list.exhaust)
    then show ?thesis using s(1) s(2) [OF assms(2)] False by simp
  qed
qed

text \<open>The decision at a switch is the host's port, or a port from which a shorter route leads on.\<close>

definition next_hop :: "links \<Rightarrow> switch_and_port \<Rightarrow> switch_and_port \<Rightarrow> nat \<Rightarrow> Decision \<Rightarrow> bool" where
  "next_hop L at h n d \<longleftrightarrow> dpid at = dpid h \<and> kind d = Unicast (port h) \<or>
     (\<exists>x y rest. kind d = Unicast (port x) \<and> dpid x = dpid at \<and> ((x, y) \<in> L \<or> (y, x) \<in> L) \<and>
        is_route L (dpid y) (dpid h) rest \<and> length rest + 2 \<le> n)"

lemma forwarding_known:
  assumes "impl_ok (impl t)" "shortest_paths dijkstra" "db dst = Some h" "is_route (graph_links (graph (impl t))) (dpid at) (dpid h) r"
  shows "\<exists>d db' t'. forwarding dijkstra (dpid at) (port at) src dst new_Decision (db, t) = Some (Inr (d, db', t')) \<and>
     impl_ok (impl t') \<and> graph_links (graph (impl t')) = graph_links (graph (impl t)) \<and> db' dst = Some h \<and>
     next_hop (graph_links (graph (impl t))) at h (length r) d"
proof -
  let ?db = "learn (dpid at) (port at) src db"
  have db: "?db dst = Some h" using assms(3) by (rule learn_known)
  obtain t' route where c: "computeRoute dijkstra (dpid at) (dpid h) t = Some (Inr (t', route))" "impl_ok (impl t')"
      "edges (graph (impl t')) = edges (graph (impl t))" "shortest_route (graph_links (graph (impl t))) (dpid at) (dpid h) route"
    using computeRoute_shortest [OF assms(1,2)] by blast
  define no where "no = (case route of [] \<Rightarrow> port h | hop # _ \<Rightarrow> port hop)"
  define d where "d = set_hard_timeout 1800 (set_idle_timeout 60 \<lparr>kind = Unicast no, base = base new_Decision\<rparr>)"
  have k: "kind d = Unicast no" by (simp add: d_def set_hard_timeout_def set_idle_timeout_def)
  have step: "route = [] \<and> dpid at = dpid h \<or> (\<exists>x y rest. route = x # y # rest \<and> dpid at \<noteq> dpid h \<and> dpid x = dpid at \<and>
      ((x, y) \<in> graph_links (graph (impl t)) \<or> (y, x) \<in> graph_links (graph (impl t))) \<and>
      is_route (graph_links (graph (impl t))) (dpid y) (dpid h) rest \<and> length rest + 2 \<le> length r)"
    by (rule shortest_route_first [OF c(4) assms(4)])
  then have "send_along (dpid at) h route new_Decision = Inr d"
    by (auto simp: send_along_def forward_to_def unicast_def new_Decision_def d_def no_def)
  then have f: "forwarding dijkstra (dpid at) (port at) src dst new_Decision (db, t) = Some (Inr (d, ?db, t'))"
    using db c(1) by (simp add: forwarding_def query_def Let_def)
  have "next_hop (graph_links (graph (impl t))) at h (length r) d"
  proof (cases route)
    case Nil
    then show ?thesis using k step by (simp add: next_hop_def no_def)
  next
    case (Cons x xs)
    then have "kind d = Unicast (port x)" using k by (simp add: no_def)
    then show ?thesis using step Cons unfolding next_hop_def by blast
  qed
  then show ?thesis using f c(2,3) db by (auto simp: graph_links_def)
qed

lemma carry_delivers:
  assumes "shortest_paths dijkstra" "W h = None" "\<And>a b. (a, b) \<in> L \<Longrightarrow> W a = Some b \<and> W b = Some a"
  shows "impl_ok (impl t) \<Longrightarrow> graph_links (graph (impl t)) = L \<Longrightarrow> db dst = Some h \<Longrightarrow> is_route L (dpid at) (dpid h) r \<Longrightarrow>
         length r < 2 * n \<Longrightarrow> carry dijkstra W n src dst at (db, t) = Some h"
proof (induction n arbitrary: at db t r)
  case (Suc n)
  obtain d db' t' where f: "forwarding dijkstra (dpid at) (port at) src dst new_Decision (db, t) = Some (Inr (d, db', t'))"
      "impl_ok (impl t')" "graph_links (graph (impl t')) = L" "db' dst = Some h"
      "next_hop L at h (length r) d"
    using forwarding_known [where t = t and dijkstra = dijkstra and db = db and dst = dst and h = h and at = at and r = r and src = src]
      Suc.prems(1-4) assms(1) by auto
  consider (here) "dpid at = dpid h" "kind d = Unicast (port h)"
    | (hop) x y rest where "kind d = Unicast (port x)" "dpid x = dpid at" "is_route L (dpid y) (dpid h) rest" "length rest + 2 \<le> length r"
        "(x, y) \<in> L \<or> (y, x) \<in> L"
    using f(5) unfolding next_hop_def by blast
  then show ?case
  proof cases
    case a: here
    have "\<lparr>dpid = dpid at, port = port h\<rparr> = h" using a(1) by (simp add: switch_and_port.equality)
    then show ?thesis using f(1) a(2) assms(2) by (simp add: Let_def del: switch_and_port.equality)
  next
    case a: hop
    then have w: "W \<lparr>dpid = dpid at, port = port x\<rparr> = Some y" using assms(3) a(2) by (metis (full_types) old.unit.exhaust switch_and_port.surjective)
    have "carry dijkstra W n src dst y (db', t') = Some h"
      using Suc.IH [of t' db' y rest] f(2-4) a(3,4) Suc.prems(5) by simp
    then show ?thesis using f(1) a(1) w by (simp add: Let_def)
  qed
qed simp


text \<open>
  C10: packets to a known host arrive. In a network as link discovery and the topology application see it after any run,
  a packet to a host that was seen at a port \<open>h\<close> without a cable to another switch, sent in at any switch from which a
  route over known links leads there, is passed from switch to switch by the forwarding handler and leaves the network at \<open>h\<close>; no more switches
  are asked than lie on that route, whatever is learned on the way.
\<close>

theorem known_host_delivery:
  assumes "beacons_ok W since es" "\<forall>a b. W a = Some b \<longrightarrow> dpid a \<noteq> dpid b" "hash \<noteq> 0" "shortest_paths dijkstra"
    "ld_run False es (new_LinkDiscovery poll) = Inr (s, out)" "length out < 2 ^ 32"
    "topo_run rnd hash out (new_Topology, \<lparr>events = [], last_event = 0\<rparr>) = Inr (t, em)"
    "db dst = Some h" "W h = None" "is_route (graph_links (graph (impl t))) (dpid at) (dpid h) r"
  shows "carry dijkstra W (length r div 2 + 1) src dst at (db, t) = Some h"
proof -
  have i: "topo_inv hash (wires W) (t, em)" using discovered_topology [OF assms(1-3,5,6), of rnd] assms(7) by auto
  then have w: "W a = Some b \<and> W b = Some a" if "(a, b) \<in> graph_links (graph (impl t))" for a b
    using that by (auto simp: topo_inv_def wires_def)
  have "impl_ok (impl t)" using i by (simp add: topo_inv_def)
  moreover have "length r < 2 * (length r div 2 + 1)" by simp
  ultimately show ?thesis using carry_delivers [OF assms(4,9) w] assms(8,10) by blast
qed

theorem known_host_delivery_witness:
  "\<exists>s out t em. ld_run False demo_beacons (new_LinkDiscovery 120) = Inr (s, out) \<and>
     topo_run id 2 out (new_Topology, \<lparr>events = [], last_event = 0\<rparr>) = Inr (t, em) \<and>
     carry bfs demo_wires 3 1 2 (sap 1 7) ([2 \<mapsto> sap 3 7], t) = Some (sap 3 7)"
proof -
  let ?r = "[sap 1 1, sap 2 1, sap 2 2, sap 3 1]"
  have b: "beacons_ok demo_wires 0 demo_beacons" by code_simp
  have "map_sum id snd (ld_run False demo_beacons (new_LinkDiscovery 120)) =
      Inr [LinkDiscovered (sap 1 1) (sap 2 1), LinkDiscovered (sap 2 2) (sap 3 1)]" by code_simp
  then obtain s where o: "ld_run False demo_beacons (new_LinkDiscovery 120) =
      Inr (s, [LinkDiscovered (sap 1 1) (sap 2 1), LinkDiscovered (sap 2 2) (sap 3 1)])"
    by (cases "ld_run False demo_beacons (new_LinkDiscovery 120)") auto
  have w: "\<forall>a b. demo_wires a = Some b \<longrightarrow> dpid a \<noteq> dpid b" by (auto simp: demo_wires_def sap_def split: if_splits)
  have n: "demo_wires (sap 3 7) = None" by (simp add: demo_wires_def sap_def)
  have "map_sum id (\<lambda>(t, em). graph_links (graph (impl t)))
      (topo_run id 2 [LinkDiscovered (sap 1 1) (sap 2 1), LinkDiscovered (sap 2 2) (sap 3 1)] (new_Topology, \<lparr>events = [], last_event = 0\<rparr>)) =
      Inr {(sap 1 1, sap 2 1), (sap 2 2, sap 3 1)}"
    by (simp add: linkDiscovered_def new_Topology_def vertex_def add_edge_def addToEventList_def getLastID_def graph_links_def sap_def insert_commute)
  then obtain t em where t: "topo_run id 2 [LinkDiscovered (sap 1 1) (sap 2 1), LinkDiscovered (sap 2 2) (sap 3 1)]
      (new_Topology, \<lparr>events = [], last_event = 0\<rparr>) = Inr (t, em)" "graph_links (graph (impl t)) = {(sap 1 1, sap 2 1), (sap 2 2, sap 3 1)}"
    by (cases "topo_run id 2 [LinkDiscovered (sap 1 1) (sap 2 1), LinkDiscovered (sap 2 2) (sap 3 1)]
      (new_Topology, \<lparr>events = [], last_event = 0\<rparr>)") auto
  have "is_route (graph_links (graph (impl t))) (dpid (sap 1 7)) (dpid (sap 3 7)) ?r" unfolding t(2) by (simp add: sap_def)
  then have "carry bfs demo_wires (length ?r div 2 + 1) 1 2 (sap 1 7) ([2 \<mapsto> sap 3 7], t) = Some (sap 3 7)"
    by (intro known_host_delivery [OF b w _ bfs_shortest_paths o _ t(1) _ n]) simp_all
  moreover have "length ?r div 2 + 1 = 3" by simp
  ultimately show ?thesis using o t(1) by metis
qed

text \<open>The first place a host was seen at is kept, whether or not it moves.\<close>

lemma learn_first: "\<not> eth_is_broadcast a \<Longrightarrow> query a (learn dp2 no2 a (learn dp1 no1 a Map.empty)) = Some \<lparr>dpid = dp1, port = no1\<rparr>"
  by (simp add: learn_def query_def)

subsection \<open>Learning on one switch\<close>

fun simple_run :: "(u32 \<times> mac \<times> mac) list \<Rightarrow> seen_ports \<Rightarrow> (Decision list \<times> seen_ports) res" where
  "simple_run [] seen = Inr ([], seen)"
| "simple_run ((in_no, src, dst) # ps) seen =
     res_bind (simple_forwarding in_no src dst new_Decision seen) (\<lambda>(d, seen').
     res_bind (simple_run ps seen') (\<lambda>(ds, seen''). Inr (d # ds, seen'')))"

text \<open>The port through which an address was last seen as a source, in a history with the newest packet first.\<close>

fun last_port :: "mac \<Rightarrow> (u32 \<times> mac \<times> mac) list \<Rightarrow> u32 option" where
  "last_port a [] = None"
| "last_port a ((in_no, src, dst) # ps) = (if src = a \<and> \<not> eth_is_broadcast a then Some in_no else last_port a ps)"

fun simple_spec :: "(u32 \<times> mac \<times> mac) list \<Rightarrow> (u32 \<times> mac \<times> mac) list \<Rightarrow> decision_kind list" where
  "simple_spec past [] = []"
| "simple_spec past ((in_no, src, dst) # ps) =
     (if eth_is_broadcast src then DropPacket
      else case last_port dst ((in_no, src, dst) # past) of Some no \<Rightarrow> Unicast no | None \<Rightarrow> Broadcast) #
     simple_spec ((in_no, src, dst) # past) ps"

lemma simple_run_spec:
  "(\<And>a. seen a = last_port a past) \<Longrightarrow>
   \<exists>ds seen'. simple_run ps seen = Inr (ds, seen') \<and> map kind ds = simple_spec past ps"
proof (induction past ps arbitrary: seen rule: simple_spec.induct)
  case (2 past in_no src dst ps)
  define seen' where "seen' = (if eth_is_broadcast src then seen else seen(src \<mapsto> in_no))"
  have s': "seen' a = last_port a ((in_no, src, dst) # past)" for a using 2(2) by (auto simp: seen'_def)
  have "\<exists>d. simple_forwarding in_no src dst new_Decision seen = Inr (d, seen') \<and>
      kind d = (if eth_is_broadcast src then DropPacket
        else case last_port dst ((in_no, src, dst) # past) of Some no \<Rightarrow> Unicast no | None \<Rightarrow> Broadcast)"
  proof (cases "eth_is_broadcast src")
    case True
    then show ?thesis by (simp add: simple_forwarding_def seen'_def drop_packet_def return_now_def)
  next
    case False
    then have "seen' = seen(src \<mapsto> in_no)" by (simp add: seen'_def)
    then show ?thesis using False s' [of dst]
      by (cases "seen' dst") (simp_all del: last_port.simps fun_upd_apply add: simple_forwarding_def Let_def unicast_def broadcast_def new_Decision_def
          set_idle_timeout_def set_hard_timeout_def)
  qed
  then obtain d where d: "simple_forwarding in_no src dst new_Decision seen = Inr (d, seen')"
      "simple_spec past ((in_no, src, dst) # ps) = kind d # simple_spec ((in_no, src, dst) # past) ps" by auto
  obtain ds seen'' where "simple_run ps seen' = Inr (ds, seen'')" "map kind ds = simple_spec ((in_no, src, dst) # past) ps"
    using 2(1) [of seen'] s' by blast
  then show ?case using d by simp
qed simp

text \<open>
  The simple learning switch forwards to the port where the destination was last seen. For every sequence of packets on a
  switch no handler throws, and each packet is dropped if its source is the broadcast address, sent out of the port through which its
  destination last came in as a source if there is one, and flooded otherwise.
\<close>

theorem simple_switch_learns:
  "\<exists>ds seen. simple_run ps Map.empty = Inr (ds, seen) \<and> map kind ds = simple_spec [] ps"
  using simple_run_spec [of Map.empty "[]" ps] by simp

text \<open>The flow that floods packets to an unknown address never expires: the timeout that is set is that of a copy.\<close>

lemma simple_flood_permanent:
  "simple_forwarding 1 2 3 new_Decision Map.empty =
     Inr (\<lparr>kind = Broadcast, base = \<lparr>return_flag = False, base_idle = - 1, base_hard = - 1\<rparr>\<rparr>, [2 \<mapsto> 1])"
  by (simp add: simple_forwarding_def eth_is_broadcast_def broadcast_def new_Decision_def new_Base_def Let_def)

end
