(* ===== verification/Flow_State.thy ===== *)
theory Flow_State
  imports Maple
begin

text \<open>
  One flow of the packet-miss pipeline and the messages it puts on the switch: \<open>src/Flow.hh\<close>,
  \<open>src/Flow.cc\<close>, \<open>src/SwitchConnection.cc\<close> and the classes \<open>FlowImpl\<close> and \<open>MapleBackend\<close> of
  \<open>src/Controller.cc\<close>.

  A message holds the fields the code sets; the match is the field set it is made of. The buffer of a packet-in
  is shared between the flow and the parser, it is seen through its header fields. What an operation does is its new
  flow, the messages handed to a live connection and the signals emitted, in order, and the exception it ends
  with, if any: what was done before a throw stays done. The two members without an initializer start as 0.
\<close>

subsection \<open>Flows and cookies\<close>

datatype flow_state = Egg | Active | Evicted | Idle | Expired

definition COOKIE_BASE :: u64 where
  "COOKIE_BASE = push_bit 63 1"

definition COOKIE_MASK :: u64 where
  "COOKIE_MASK = push_bit 63 1"

definition cookie_space :: "u64 \<times> u64" where
  "cookie_space = (COOKIE_BASE, COOKIE_MASK)"

text \<open>The constructor of \<open>Flow\<close>: the value of \<open>next_cookie\<close> is its argument and its result is the cookie and the next value.\<close>

definition Flow_cookie :: "u64 \<Rightarrow> (u64 \<times> u64) res" where
  "Flow_cookie next = (if next \<ge> COOKIE_BASE then Inr (next, next + 1) else Inl AssertionFailed)"

subsection \<open>Messages\<close>

datatype of_action =
    OutputAction u32 u16
  | SetFieldAction oxm_field
  | GroupAction u32

definition OFPP_CONTROLLER :: u32 where
  "OFPP_CONTROLLER = 0xfffffffd"

definition OFPP_FLOOD :: u32 where
  "OFPP_FLOOD = 0xfffffffb"

definition OFP_NO_BUFFER :: u32 where
  "OFP_NO_BUFFER = 0xffffffff"

datatype instruction =
    ApplyActions "of_action list"
  | GoToTable u8

record flow_add =
  fa_xid :: "u32 option"
  fa_buffer_id :: u32
  fa_table :: u8
  fa_priority :: u16
  fa_cookie :: u64
  fa_match :: field_set
  fa_idle :: u16
  fa_hard :: u16
  fa_instruction :: instruction

record packet_out =
  po_xid :: u32
  po_buffer_id :: u32
  po_actions :: "of_action list"
  po_in_port :: u32
  po_data :: "packet option"

text \<open>A deletion: table, cookie, cookie mask, match and, when it is strict, the priority. An added rule always has
  the flags for overlap checking and for removal messages.\<close>

datatype of_msg =
    PacketOut packet_out
  | FlowAdd flow_add
  | FlowDelete u8 u64 u64 field_set "u16 option"
  | BarrierRequest

datatype effect =
    Sent of_msg
  | StateChanged flow_state u64

definition conn_send :: "bool \<Rightarrow> of_msg \<Rightarrow> effect list" where
  "conn_send live m = (if live then [Sent m] else [])"

subsection \<open>A flow\<close>

record FlowImpl =
  m_cookie :: u64
  m_state :: flow_state
  m_priority :: u16
  m_match :: field_set
  m_table :: u8
  m_in_port :: u32
  m_decision :: Decision
  m_mods :: field_set
  m_packet_in :: bool
  expect_remowed :: int
  m_xid :: u32
  m_buffer_id :: u32
  m_packet_data :: "packet option"
  m_data_len :: nat
  m_flood :: of_action

definition new_FlowImpl :: "u64 \<Rightarrow> u8 \<Rightarrow> of_action \<Rightarrow> FlowImpl" where
  "new_FlowImpl cookie table flood =
     \<lparr>m_cookie = cookie, m_state = Egg, m_priority = 0, m_match = [], m_table = table, m_in_port = 0,
      m_decision = new_Decision, m_mods = [], m_packet_in = False, expect_remowed = 0, m_xid = 0,
      m_buffer_id = OFP_NO_BUFFER, m_packet_data = None, m_data_len = 0, m_flood = flood\<rparr>"

definition unhandled_packet :: fault where
  "unhandled_packet = Thrown ''unhandled_packet''"

definition DecisionCompiler :: "of_action \<Rightarrow> decision_kind \<Rightarrow> (of_action list) res" where
  "DecisionCompiler flood k =
     (case k of
        Undefined \<Rightarrow> Inl unhandled_packet
      | DropPacket \<Rightarrow> Inr []
      | Unicast port \<Rightarrow> Inr [OutputAction port 0]
      | Multicast ports \<Rightarrow> Inr (map (\<lambda>port. OutputAction port 0) ports)
      | Broadcast \<Rightarrow> Inr [flood]
      | Inspect len \<Rightarrow> Inr [OutputAction OFPP_CONTROLLER len])"

definition actions :: "FlowImpl \<Rightarrow> (of_action list) res" where
  "actions f =
     res_bind (DecisionCompiler (m_flood f) (kind (m_decision f))) (\<lambda>out.
       Inr (map SetFieldAction (m_mods f) @ out))"

definition setState :: "flow_state \<Rightarrow> FlowImpl \<Rightarrow> FlowImpl \<times> effect list" where
  "setState s f = (f\<lparr>m_state := s\<rparr>, [StateChanged s (m_cookie f)])"

definition disposable :: "FlowImpl \<Rightarrow> bool" where
  "disposable f \<longleftrightarrow> idle_timeout (m_decision f) \<le> 0"

text \<open>The timeout fields of a message have 16 bits: a longer timeout is cut, an infinite one is 0.\<close>

definition of_timeout :: "duration \<Rightarrow> u16" where
  "of_timeout t = (if t = - 1 then 0 else of_nat (min (unat t) 65535))"

definition flow_packet_out :: "u32 \<Rightarrow> of_action list \<Rightarrow> packet option \<Rightarrow> FlowImpl \<Rightarrow> of_msg" where
  "flow_packet_out buffer as data f =
     PacketOut \<lparr>po_xid = m_xid f, po_buffer_id = buffer, po_actions = as, po_in_port = m_in_port f, po_data = data\<rparr>"

definition flow_rule :: "of_action list \<Rightarrow> FlowImpl \<Rightarrow> flow_add" where
  "flow_rule as f =
     \<lparr>fa_xid = Some (m_xid f), fa_buffer_id = m_buffer_id f, fa_table = m_table f, fa_priority = m_priority f,
      fa_cookie = m_cookie f, fa_match = m_match f, fa_idle = of_timeout (idle_timeout (m_decision f)),
      fa_hard = of_timeout (hard_timeout (m_decision f)), fa_instruction = ApplyActions as\<rparr>"

definition install_msgs :: "FlowImpl \<Rightarrow> (of_msg list) res" where
  "install_msgs f =
     (if disposable f then
        if m_packet_in f then
          res_bind (actions f) (\<lambda>as.
            Inr [flow_packet_out (m_buffer_id f) as (if m_buffer_id f = OFP_NO_BUFFER then m_packet_data f else None) f])
        else Inr []
      else
        res_bind (actions f) (\<lambda>as.
          Inr ((if m_packet_in f \<and> m_buffer_id f = OFP_NO_BUFFER \<and> m_packet_data f \<noteq> None
                then [flow_packet_out OFP_NO_BUFFER as (m_packet_data f) f] else []) @
               [FlowAdd (flow_rule as f)])))"

definition consumed :: "FlowImpl \<Rightarrow> FlowImpl" where
  "consumed f = f\<lparr>m_packet_in := False, m_xid := 0, m_buffer_id := OFP_NO_BUFFER, m_packet_data := None, m_data_len := 0\<rparr>"

definition flow_install :: "bool \<Rightarrow> FlowImpl \<Rightarrow> FlowImpl \<times> effect list \<times> fault option" where
  "flow_install live f =
     (if m_state f = Evicted \<and> \<not> m_packet_in f then (f, [], None)
      else if m_state f \<noteq> Active \<and> \<not> m_packet_in f then (f, [], None)
      else
        let f1 = (if m_state f \<noteq> Egg then f\<lparr>expect_remowed := expect_remowed f + 1\<rparr> else f)
        in case install_msgs f1 of
             Inl e \<Rightarrow> (f1, [], Some e)
           | Inr ms \<Rightarrow>
               let (f2, sig) = (if m_state f1 \<noteq> Active then setState Active (consumed f1) else (consumed f1, []))
               in (f2\<lparr>m_in_port := OFPP_CONTROLLER\<rparr>, concat (map (conn_send live) ms) @ sig, None))"

definition flow_mods :: "field_set \<Rightarrow> FlowImpl \<Rightarrow> FlowImpl res" where
  "flow_mods ms f = (if m_state f = Active then Inl AssertionFailed else Inr (f\<lparr>m_mods := ms\<rparr>))"

definition flow_decision_set :: "Decision \<Rightarrow> FlowImpl \<Rightarrow> FlowImpl" where
  "flow_decision_set d f = f\<lparr>m_decision := d\<rparr>"

datatype pin_reason = OFPR_NO_MATCH | OFPR_ACTION | OFPR_INVALID_TTL

record packet_in =
  pi_xid :: u32
  pi_buffer_id :: u32
  pi_in_port :: u32
  pi_reason :: pin_reason
  pi_cookie :: u64
  pi_data :: "packet option"
  pi_data_len :: nat

definition flow_packet_in :: "packet_in \<Rightarrow> FlowImpl \<Rightarrow> FlowImpl" where
  "flow_packet_in pin f =
     f\<lparr>m_packet_in := True, m_xid := pi_xid pin, m_buffer_id := pi_buffer_id pin, m_in_port := pi_in_port pin,
       m_packet_data := pi_data pin, m_data_len := pi_data_len pin\<rparr>"

datatype removed_reason =
    OFPRR_IDLE_TIMEOUT
  | OFPRR_HARD_TIMEOUT
  | OFPRR_DELETE
  | OFPRR_GROUP_DELETE
  | OFPRR_METER_DELETE

text \<open>The \<open>OFPRR_DELETE\<close> case falls through to the next one when the removal was not expected.\<close>

definition flow_removed :: "removed_reason \<Rightarrow> FlowImpl \<Rightarrow> FlowImpl \<times> effect list" where
  "flow_removed reason f =
     (case reason of
        OFPRR_DELETE \<Rightarrow>
          if expect_remowed f = 1 then (f\<lparr>expect_remowed := expect_remowed f - 1\<rparr>, [])
          else setState Evicted (f\<lparr>expect_remowed := - 1\<rparr>)
      | OFPRR_METER_DELETE \<Rightarrow> setState Evicted f
      | OFPRR_IDLE_TIMEOUT \<Rightarrow> setState Idle f
      | OFPRR_HARD_TIMEOUT \<Rightarrow> setState Expired f
      | OFPRR_GROUP_DELETE \<Rightarrow> (f, []))"

definition flow_packet_out_at :: "bool \<Rightarrow> u16 \<Rightarrow> field_set \<Rightarrow> FlowImpl \<Rightarrow> FlowImpl \<times> effect list \<times> fault option" where
  "flow_packet_out_at live prio fs f = flow_install live (f\<lparr>m_priority := prio, m_match := fs\<rparr>)"

definition wakeup :: "bool \<Rightarrow> FlowImpl \<Rightarrow> FlowImpl \<times> effect list \<times> fault option" where
  "wakeup live f = flow_install live f"

subsection \<open>The backend\<close>

definition backend_remove :: "u8 \<Rightarrow> field_set \<Rightarrow> of_msg" where
  "backend_remove table fs = FlowDelete table (fst cookie_space) (snd cookie_space) fs None"

definition backend_remove_strict :: "u8 \<Rightarrow> u16 \<Rightarrow> field_set \<Rightarrow> of_msg" where
  "backend_remove_strict table prio fs = FlowDelete table (fst cookie_space) (snd cookie_space) fs (Some prio)"

definition backend_remove_flow :: "u8 \<Rightarrow> FlowImpl \<Rightarrow> of_msg" where
  "backend_remove_flow table f = FlowDelete table (m_cookie f) (- 1) [] None"

definition backend_barrier :: of_msg where
  "backend_barrier = BarrierRequest"

subsection \<open>A flow and its rule on the switch\<close>

text \<open>
  The rule of one flow on a switch, as the OpenFlow specification has it, and the removal messages under way.
  \<open>reload\<close> is a commit: all rules are deleted, which is reported for a rule that was there, and the flow is
  offered for installation.
\<close>

record flow_world =
  w_flow :: FlowImpl
  w_rule :: bool
  w_queue :: "removed_reason list"

fun is_add :: "effect \<Rightarrow> bool" where
  "is_add (Sent (FlowAdd fa)) = True"
| "is_add _ = False"

definition reload :: "u16 \<Rightarrow> field_set \<Rightarrow> flow_world \<Rightarrow> flow_world" where
  "reload prio fs w =
     (case flow_packet_out_at True prio fs (w_flow w) of
        (f, es, x) \<Rightarrow> \<lparr>w_flow = f, w_rule = list_ex is_add es,
                       w_queue = w_queue w @ (if w_rule w then [OFPRR_DELETE] else [])\<rparr>)"

definition receive :: "flow_world \<Rightarrow> flow_world" where
  "receive w =
     (case w_queue w of
        [] \<Rightarrow> w
      | r # rs \<Rightarrow> w\<lparr>w_flow := fst (flow_removed r (w_flow w)), w_queue := rs\<rparr>)"

definition new_flow_world :: "u64 \<Rightarrow> u8 \<Rightarrow> of_action \<Rightarrow> packet_in \<Rightarrow> Decision \<Rightarrow> field_set \<Rightarrow> flow_world" where
  "new_flow_world cookie table flood pin d ms =
     \<lparr>w_flow = (flow_decision_set d (flow_packet_in pin (new_FlowImpl cookie table flood)))\<lparr>m_mods := ms\<rparr>,
      w_rule = False, w_queue = []\<rparr>"

inductive flow_run :: "flow_world \<Rightarrow> bool" where
  run_new: "kind d \<noteq> Undefined \<Longrightarrow> idle_timeout d \<noteq> 0 \<Longrightarrow> flow_run (new_flow_world cookie table flood pin d ms)"
| run_reload: "flow_run w \<Longrightarrow> w_queue w = [] \<Longrightarrow> flow_run (reload prio fs w)"
| run_timeout: "flow_run w \<Longrightarrow> w_rule w \<Longrightarrow> r \<in> {OFPRR_IDLE_TIMEOUT, OFPRR_HARD_TIMEOUT} \<Longrightarrow>
     flow_run (w\<lparr>w_rule := False, w_queue := w_queue w @ [r]\<rparr>)"
| run_receive: "flow_run w \<Longrightarrow> flow_run (receive w)"

definition flow_ready :: "FlowImpl \<Rightarrow> bool" where
  "flow_ready f \<longleftrightarrow> kind (m_decision f) \<noteq> Undefined \<and> idle_timeout (m_decision f) \<noteq> 0 \<and> (m_packet_in f \<longleftrightarrow> m_state f = Egg)"

definition world_inv :: "flow_world \<Rightarrow> bool" where
  "world_inv w \<longleftrightarrow> flow_ready (w_flow w) \<and>
     (let st = m_state (w_flow w); e = expect_remowed (w_flow w) in
        w_queue w = [] \<and> e = 0 \<and> (st = Active \<longleftrightarrow> w_rule w) \<or>
        w_queue w = [OFPRR_DELETE] \<and> e = 1 \<and> st = Active \<and> w_rule w \<or>
        (\<exists>r \<in> {OFPRR_IDLE_TIMEOUT, OFPRR_HARD_TIMEOUT}. st = Active \<and> \<not> w_rule w \<and>
           (w_queue w = [r] \<and> e = 0 \<or> w_queue w = [OFPRR_DELETE, r] \<and> e = 1)))"

lemma ready_actions: "kind (m_decision f) \<noteq> Undefined \<Longrightarrow> \<exists>as. actions f = Inr as"
  by (cases "kind (m_decision f)") (auto simp: actions_def DecisionCompiler_def)

lemma install_adds:
  assumes "idle_timeout (m_decision f) \<noteq> 0" "kind (m_decision f) \<noteq> Undefined" "m_state f = Active \<or> m_packet_in f"
  shows "\<exists>es. flow_packet_out_at True prio fs f =
           ((consumed f)\<lparr>m_priority := prio, m_match := fs, m_state := Active, m_in_port := OFPP_CONTROLLER,
              expect_remowed := (if m_state f = Egg then expect_remowed f else expect_remowed f + 1)\<rparr>, es, None) \<and> list_ex is_add es"
proof -
  obtain as where "actions f = Inr as" using ready_actions [OF assms(2)] by blast
  then show ?thesis using assms(1,3)
    by (auto simp: flow_packet_out_at_def flow_install_def install_msgs_def disposable_def actions_def consumed_def setState_def
        conn_send_def Let_def)
qed

lemma world_inv_reload:
  assumes "world_inv w" "w_queue w = []"
  shows "world_inv (reload prio fs w)"
proof (cases "m_state (w_flow w) \<in> {Egg, Active}")
  case True
  have r: "flow_ready (w_flow w)" "expect_remowed (w_flow w) = 0" "m_state (w_flow w) = Active \<longleftrightarrow> w_rule w"
    using assms by (auto simp: world_inv_def Let_def)
  then obtain es where "flow_packet_out_at True prio fs (w_flow w) =
      ((consumed (w_flow w))\<lparr>m_priority := prio, m_match := fs, m_state := Active, m_in_port := OFPP_CONTROLLER,
         expect_remowed := (if m_state (w_flow w) = Egg then 0 else 1)\<rparr>, es, None)" "list_ex is_add es"
    using install_adds [of "w_flow w" prio fs] True by (auto simp: flow_ready_def)
  then show ?thesis using r True assms(2) by (auto simp: reload_def world_inv_def flow_ready_def consumed_def)
next
  case False
  then have "flow_packet_out_at True prio fs (w_flow w) = ((w_flow w)\<lparr>m_priority := prio, m_match := fs\<rparr>, [], None)"
    using assms(1) by (simp add: flow_packet_out_at_def flow_install_def world_inv_def flow_ready_def)
  then show ?thesis using assms False by (auto simp: reload_def world_inv_def flow_ready_def)
qed

lemma world_inv_receive:
  assumes "world_inv w"
  shows "world_inv (receive w)"
proof -
  have f: "flow_ready (w_flow w)" using assms by (simp add: world_inv_def)
  consider "w_queue w = []"
    | rs where "w_queue w = OFPRR_DELETE # rs" "expect_remowed (w_flow w) = 1" "m_state (w_flow w) = Active"
        "rs = [] \<and> w_rule w \<or> rs \<in> {[OFPRR_IDLE_TIMEOUT], [OFPRR_HARD_TIMEOUT]} \<and> \<not> w_rule w"
    | r where "w_queue w = [r]" "r \<in> {OFPRR_IDLE_TIMEOUT, OFPRR_HARD_TIMEOUT}" "expect_remowed (w_flow w) = 0" "\<not> w_rule w"
        "m_state (w_flow w) = Active"
    using assms unfolding world_inv_def Let_def by blast
  then show ?thesis
  proof cases
    case 1
    then show ?thesis using assms by (simp add: receive_def)
  next
    case (2 rs)
    let ?f = "(w_flow w)\<lparr>expect_remowed := 0\<rparr>"
    have "receive w = w\<lparr>w_flow := ?f, w_queue := rs\<rparr>" using 2(1,2) by (simp add: receive_def flow_removed_def)
    moreover have "flow_ready ?f" using f by (simp add: flow_ready_def)
    ultimately show ?thesis using 2(3,4) by (auto simp: world_inv_def Let_def)
  next
    case (3 r)
    let ?f = "(w_flow w)\<lparr>m_state := if r = OFPRR_IDLE_TIMEOUT then Idle else Expired\<rparr>"
    have "receive w = w\<lparr>w_flow := ?f, w_queue := []\<rparr>" using 3(1,2) by (auto simp: receive_def flow_removed_def setState_def)
    moreover have "flow_ready ?f" using f 3(5) by (simp add: flow_ready_def)
    ultimately show ?thesis using 3(3,4) by (auto simp: world_inv_def Let_def)
  qed
qed

lemma flow_run_inv: "flow_run w \<Longrightarrow> world_inv w"
proof (induction rule: flow_run.induct)
  case (run_new d cookie table flood pin ms)
  then show ?case
    by (simp add: new_flow_world_def world_inv_def flow_ready_def flow_decision_set_def flow_packet_in_def new_FlowImpl_def)
next
  case (run_reload w prio fs)
  then show ?case by (simp add: world_inv_reload)
next
  case (run_timeout w r)
  then show ?case by (auto simp: world_inv_def Let_def)
next
  case (run_receive w)
  then show ?case by (simp add: world_inv_receive)
qed


definition demo_world :: flow_world where
  "demo_world = reload 2 [] (receive (reload 3 [] (reload 1 [] (new_flow_world 9 0 (GroupAction 1)
     \<lparr>pi_xid = 1, pi_buffer_id = 5, pi_in_port = 1, pi_reason = OFPR_NO_MATCH, pi_cookie = 0, pi_data = None, pi_data_len = 0\<rparr>
     \<lparr>kind = Broadcast, base = new_Base\<rparr> []))))"

lemma demo_world_queue:
  "w_queue (reload 1 [] (new_flow_world 9 0 (GroupAction 1) pin \<lparr>kind = Broadcast, base = new_Base\<rparr> [])) = []"
  "w_queue (receive (reload 3 [] (reload 1 [] (new_flow_world 9 0 (GroupAction 1) pin \<lparr>kind = Broadcast, base = new_Base\<rparr> [])))) = []"
  by (auto simp: reload_def receive_def new_flow_world_def flow_packet_out_at_def split: prod.splits list.splits)


text \<open>
  A flow that a packet wakes after an idle timeout is lost. Its installation counts a removal to expect
  although its rule was already gone, so the removal message of the next commit is one too many: the flow is marked
  evicted while its rule is on the switch, and later commits no longer install it.
\<close>

theorem reactivated_flow_evicted:
  assumes "m_state f = Idle" "0 \<le> expect_remowed f" "kind (m_decision f) \<noteq> Undefined" "idle_timeout (m_decision f) \<noteq> 0"
    "w = receive (reload p2 m2 (reload p1 m1 \<lparr>w_flow = flow_packet_in pin f, w_rule = False, w_queue = []\<rparr>))"
  shows "w_rule w \<and> w_queue w = [] \<and> m_state (w_flow w) = Evicted \<and>
    (\<forall>p3 m3. \<not> w_rule (reload p3 m3 w))"
proof -
  let ?f0 = "flow_packet_in pin f"
  have f0: "m_state ?f0 = Idle" "m_packet_in ?f0" "m_decision ?f0 = m_decision f" "expect_remowed ?f0 = expect_remowed f"
    using assms(1) by (simp_all add: flow_packet_in_def)
  obtain es1 where 1: "flow_packet_out_at True p1 m1 ?f0 =
      ((consumed ?f0)\<lparr>m_priority := p1, m_match := m1, m_state := Active, m_in_port := OFPP_CONTROLLER, expect_remowed := expect_remowed f + 1\<rparr>, es1, None)"
      "list_ex is_add es1"
    using install_adds [of ?f0 p1 m1] f0 assms(3,4) by auto
  let ?f1 = "(consumed ?f0)\<lparr>m_priority := p1, m_match := m1, m_state := Active, m_in_port := OFPP_CONTROLLER, expect_remowed := expect_remowed f + 1\<rparr>"
  have f1: "m_state ?f1 = Active" "m_decision ?f1 = m_decision f" "expect_remowed ?f1 = expect_remowed f + 1"
    by (simp_all add: consumed_def flow_packet_in_def)
  obtain es2 f2 where 2: "flow_packet_out_at True p2 m2 ?f1 = (f2, es2, None)" "list_ex is_add es2"
      "m_state f2 = Active" "\<not> m_packet_in f2" "expect_remowed f2 = expect_remowed f + 2"
    using install_adds [of ?f1 p2 m2] f1 assms(3,4) by (auto simp: consumed_def)
  have w: "w = \<lparr>w_flow = f2\<lparr>expect_remowed := - 1, m_state := Evicted\<rparr>, w_rule = True, w_queue = []\<rparr>"
    using assms(2,5) 1 2 by (simp add: reload_def receive_def flow_removed_def setState_def)
  then show ?thesis using 2(4) by (simp add: reload_def flow_packet_out_at_def flow_install_def)
qed

theorem reactivated_flow_evicted_witness:
  "\<exists>w :: flow_world. w_rule w \<and> m_state (w_flow w) = Evicted \<and> w_queue w = []"
proof -
  let ?pin = "\<lparr>pi_xid = 1, pi_buffer_id = 5, pi_in_port = 1, pi_reason = OFPR_NO_MATCH, pi_cookie = 0, pi_data = None, pi_data_len = 0\<rparr>"
  let ?f = "(new_FlowImpl 9 0 (GroupAction 1))\<lparr>m_state := Idle, m_decision := \<lparr>kind = Broadcast, base = new_Base\<rparr>\<rparr>"
  have "m_state ?f = Idle" "0 \<le> expect_remowed ?f" "kind (m_decision ?f) \<noteq> Undefined" "idle_timeout (m_decision ?f) \<noteq> 0"
    by (simp_all add: new_FlowImpl_def idle_timeout_def new_Base_def)
  from reactivated_flow_evicted [OF this refl, of 2 "[]" 1 "[]" ?pin] show ?thesis by blast
qed

end
