(* ===== verification/Maple_Compile.thy ===== *)
theory Maple_Compile
  imports Maple_Sound
begin

text \<open>
  Correctness of the compiler of \<open>src/maple/TraceTree.cc\<close>. What a switch does with the rules is the
  OpenFlow specification: of the rules whose match fits the packet, the one with the highest priority decides. Compiling the
  tree of a reachable runtime gives rules for which that is the flow \<open>lookup\<close> returns; packets the tree
  does not know reach no rule or the barrier.
\<close>

unbundle bit_operations_syntax

subsection \<open>Matching\<close>

definition field_holds :: "packet \<Rightarrow> oxm_field \<Rightarrow> bool" where
  "field_holds q f \<longleftrightarrow> (case q (f_type f) of None \<Rightarrow> False | Some v \<Rightarrow> agrees (pick (mask_of f) v) f)"

definition set_matches :: "packet \<Rightarrow> field_set \<Rightarrow> bool" where
  "set_matches q fs \<longleftrightarrow> (\<forall>f \<in> set fs. field_holds q f)"

definition rule_matches :: "packet \<Rightarrow> rule \<Rightarrow> bool" where
  "rule_matches q ru = set_matches q (match ru)"

lemma field_holds_pkt_test: "wf_field f \<Longrightarrow> field_holds q f \<longleftrightarrow> pkt_test f q = Inr True"
  by (simp add: field_holds_def pkt_test_ok split: option.split)

text \<open>On the fields a packet has, this is the code's own matching of a packet against a set.\<close>

lemma fs_match_set_matches:
  "(\<And>f. f \<in> set fs \<Longrightarrow> wf_field f) \<Longrightarrow> fs_match fs q = Inr b \<Longrightarrow> b = set_matches q fs"
  by (induction fs) (auto simp: set_matches_def field_holds_pkt_test split: if_splits)

lemma set_matches_get:
  assumes "wf_set fs"
  shows "set_matches q fs \<longleftrightarrow> (\<forall>t. wf_type t \<longrightarrow> wildcard (fs_get fs t) \<or> field_holds q (fs_get fs t))"
proof
  assume m: "set_matches q fs"
  show "\<forall>t. wf_type t \<longrightarrow> wildcard (fs_get fs t) \<or> field_holds q (fs_get fs t)"
    using m fs_get_not_wildcard [OF assms] by (auto simp: set_matches_def)
next
  assume m: "\<forall>t. wf_type t \<longrightarrow> wildcard (fs_get fs t) \<or> field_holds q (fs_get fs t)"
  show "set_matches q fs" unfolding set_matches_def
  proof
    fix f assume f: "f \<in> set fs"
    then have "wf_type (f_type f)" "\<not> wildcard f" using assms by (auto simp: wf_set_def wf_field_def)
    then show "field_holds q f" using m fs_get_in [OF assms f] by metis
  qed
qed

lemma set_matches_cong:
  "wf_set a \<Longrightarrow> wf_set b \<Longrightarrow> (\<And>t. wf_type t \<Longrightarrow> fs_get a t = fs_get b t) \<Longrightarrow> set_matches q a = set_matches q b"
  by (simp add: set_matches_get)

abbreviation disjoint :: "int \<Rightarrow> int \<Rightarrow> bool" where
  "disjoint a b \<equiv> a AND b = 0"

lemma disjoint_bits: "disjoint a b \<longleftrightarrow> (\<forall>i. \<not> (bit a i \<and> bit b i))"
  by (auto simp: bit_eq_iff bit_and_iff)

lemma field_holds_overwrite:
  assumes "wf_field a" "wf_field p" "f_type a = f_type p" "disjoint (f_mask a) (f_mask p)" "\<not> wildcard p"
  shows "wildcard (overwrite a p) \<or> field_holds q (overwrite a p) \<longleftrightarrow> (wildcard a \<or> field_holds q a) \<and> field_holds q p"
proof (cases "q (f_type p)")
  case None
  then show ?thesis using assms(3,5) overwrite_not_wildcard [OF assms(5), of a] by (auto simp: field_holds_def)
next
  case (Some v)
  have "agrees (pick (mask_of (overwrite a p)) v) (overwrite a p) \<longleftrightarrow>
      agrees (pick (mask_of a) v) a \<and> agrees (pick (mask_of p) v) p"
    using assms(4) wf_value_bit [OF assms(1)] wf_value_bit [OF assms(2)]
    unfolding agrees_bits disjoint_bits by (simp add: mask_of_def) blast
  moreover have "wildcard a \<Longrightarrow> agrees (pick (mask_of a) v) a" by (simp add: agrees_bits wildcard_def mask_of_def)
  ultimately show ?thesis
    using Some assms(3,5) overwrite_not_wildcard [OF assms(5), of a] by (auto simp: field_holds_def)
qed

subsection \<open>Adding a field to the match and taking it away\<close>

lemma restrict_overwrite:
  assumes "wf_field a" "wf_field p" "f_type a = f_type p" "disjoint (f_mask a) (f_mask p)"
  shows "restrict (overwrite a p) (take_bit (nbits (f_type p)) (NOT (f_mask p))) = a"
proof (rule field_eqI [OF _ assms(1)])
  have r: "bit (f_mask a) i \<Longrightarrow> i < nbits (f_type p)" for i
    using assms(1,3) unfolding wf_field_def bits_ok_def all_ones_def by (metis bit_and_iff bit_mask_iff)
  have d: "\<not> (bit (f_mask a) i \<and> bit (f_mask p) i)" for i using assms(4) unfolding disjoint_bits by blast
  show "wf_field (restrict (overwrite a p) (take_bit (nbits (f_type p)) (NOT (f_mask p))))"
    using assms(2,3) by (intro wf_restrict wf_overwrite assms(1,2)) (auto simp: bits_ok_not wf_field_def overwrite_def)
  show "bit (f_mask (restrict (overwrite a p) (take_bit (nbits (f_type p)) (NOT (f_mask p))))) i = bit (f_mask a) i" for i
    using r [of i] d [of i] by (auto simp: bit_simps)
  show "bit (f_value (restrict (overwrite a p) (take_bit (nbits (f_type p)) (NOT (f_mask p))))) i = bit (f_value a) i"
    if "bit (f_mask (restrict (overwrite a p) (take_bit (nbits (f_type p)) (NOT (f_mask p))))) i" for i
    using that r [of i] d [of i] wf_value_bit [OF assms(1), of i] wf_value_bit [OF assms(2), of i] by (auto simp: bit_simps)
qed (use assms in \<open>simp add: restrict_def overwrite_def\<close>)

lemma match_push:
  assumes "wf_set fs" "wf_field p" "\<not> wildcard p" "disjoint (f_mask (fs_get fs (f_type p))) (f_mask p)"
  shows "\<exists>fs'. fs_modify p fs = Inr fs' \<and> wf_set fs' \<and>
           (\<forall>t. wf_type t \<longrightarrow> fs_get fs' t = (if t = f_type p then overwrite (fs_get fs t) p else fs_get fs t)) \<and>
           (set_matches q fs' \<longleftrightarrow> set_matches q fs \<and> field_holds q p)"
proof -
  have t: "wf_type (f_type p)" using assms(2) by (simp add: wf_field_def)
  obtain fs' where fs': "fs_modify p fs = Inr fs'" "wf_set fs'"
    "\<forall>t. wf_type t \<longrightarrow> fs_get fs' t = (if t = f_type p then overwrite (fs_get fs t) p else fs_get fs t)"
    using fs_modify_ok [OF assms(1-3)] by blast
  note h = field_holds_overwrite [of "fs_get fs (f_type p)" p q] fs_get_wf [OF assms(1) t] assms(2-4)
  have "set_matches q fs' \<longleftrightarrow> set_matches q fs \<and> field_holds q p"
    unfolding set_matches_get [OF fs'(2)] set_matches_get [OF assms(1)] using fs'(3) h t by (auto split: if_splits)
  then show ?thesis using fs' by blast
qed

lemma match_pop:
  assumes "wf_set fs" "wf_set fs'" "wf_field p" "disjoint (f_mask (fs_get fs (f_type p))) (f_mask p)"
    "\<And>t. wf_type t \<Longrightarrow> fs_get fs' t = (if t = f_type p then overwrite (fs_get fs t) p else fs_get fs t)"
  shows "\<exists>fs''. fs_erase (mask_of p) fs' = Inr fs'' \<and> wf_set fs'' \<and> (\<forall>t. wf_type t \<longrightarrow> fs_get fs'' t = fs_get fs t)"
proof -
  have t: "wf_type (f_type p)" using assms(3) by (simp add: wf_field_def)
  have "restrict (overwrite (fs_get fs (f_type p)) p) (take_bit (nbits (f_type p)) (NOT (f_mask p))) = fs_get fs (f_type p)"
    using fs_get_wf [OF assms(1) t] assms(3,4) by (intro restrict_overwrite) auto
  then show ?thesis using fs_erase_ok [OF assms(2) wf_mask_of [OF assms(3)]] assms(5) by auto
qed


subsection \<open>What compiling a subtree adds\<close>

definition extends :: "packet \<Rightarrow> compiler \<Rightarrow> compiler \<Rightarrow> rule list \<Rightarrow> bool" where
  "extends q c c' new \<longleftrightarrow>
     c_rules c' = c_rules c @ new \<and> wf_set (c_match c') \<and>
     (\<forall>t. wf_type t \<longrightarrow> fs_get (c_match c') t = fs_get (c_match c) t) \<and>
     c_priority c' = c_priority c + of_nat (length new) \<and>
     (\<forall>i < length new. priority (new ! i) = c_priority c + of_nat i) \<and>
     (\<forall>ru \<in> set new. rule_matches q ru \<longrightarrow> set_matches q (c_match c))"

lemma extends_refl: "wf_set (c_match c) \<Longrightarrow> extends q c c []"
  by (simp add: extends_def)

lemma extends_install:
  "wf_set (c_match c) \<Longrightarrow> extends q c (install f c) [\<lparr>priority = c_priority c, match = c_match c, target = f\<rparr>]"
  by (simp add: extends_def install_def rule_matches_def)

lemma extends_trans:
  assumes "wf_set (c_match c)" "extends q c c1 new1" "extends q c1 c2 new2"
  shows "extends q c c2 (new1 @ new2)"
proof -
  have "set_matches q (c_match c1) = set_matches q (c_match c)"
    using assms by (intro set_matches_cong) (auto simp: extends_def)
  moreover have "priority ((new1 @ new2) ! i) = c_priority c + of_nat i" if "i < length new1 + length new2" for i
    using assms that by (auto simp: extends_def nth_append algebra_simps of_nat_diff)
  ultimately show ?thesis using assms(2,3) by (auto simp: extends_def algebra_simps)
qed

lemma extends_narrow:
  assumes c: "wf_set (c_match c)" and p: "wf_field p" "disjoint (f_mask (fs_get (c_match c) (f_type p))) (f_mask p)"
    and fs: "wf_set fs" "\<And>t. wf_type t \<Longrightarrow> fs_get fs t = (if t = f_type p then overwrite (fs_get (c_match c) t) p else fs_get (c_match c) t)"
      "set_matches q fs \<longleftrightarrow> set_matches q (c_match c) \<and> field_holds q p"
    and ext: "extends q (c\<lparr>c_match := fs\<rparr>) c1 new"
  shows "\<exists>fs'. fs_erase (mask_of p) (c_match c1) = Inr fs' \<and> extends q c (c1\<lparr>c_match := fs'\<rparr>) new"
    and "ru \<in> set new \<Longrightarrow> rule_matches q ru \<Longrightarrow> field_holds q p"
proof -
  show "\<exists>fs'. fs_erase (mask_of p) (c_match c1) = Inr fs' \<and> extends q c (c1\<lparr>c_match := fs'\<rparr>) new"
    using match_pop [OF c, of "c_match c1" p] ext p fs by (auto simp: extends_def)
  show "ru \<in> set new \<Longrightarrow> rule_matches q ru \<Longrightarrow> field_holds q p"
    using ext fs(3) by (auto simp: extends_def)
qed

text \<open>The last of the rules that match: the one with the highest priority.\<close>

definition last_match :: "packet \<Rightarrow> rule list \<Rightarrow> nat option" where
  "last_match q rs = (if filter (rule_matches q) rs = [] then None else Some (target (last (filter (rule_matches q) rs))))"

lemma last_match_Nil [simp]: "last_match q [] = None"
  by (simp add: last_match_def)

lemma last_match_append: "last_match q (a @ b) = (case last_match q b of None \<Rightarrow> last_match q a | Some f \<Rightarrow> Some f)"
  by (simp add: last_match_def)

lemma last_match_none: "(\<And>ru. ru \<in> set rs \<Longrightarrow> \<not> rule_matches q ru) \<Longrightarrow> last_match q rs = None"
  by (simp add: last_match_def filter_empty_conv)

lemma last_match_single: "last_match q [ru] = (if rule_matches q ru then Some (target ru) else None)"
  by (simp add: last_match_def)

definition verdict :: "nat \<Rightarrow> nat option \<Rightarrow> nat option \<Rightarrow> bool" where
  "verdict barrier found installed \<longleftrightarrow>
     (case found of Some f \<Rightarrow> installed = Some f | None \<Rightarrow> installed \<in> {None, Some barrier})"

subsection \<open>Trees without overlapping questions\<close>

type_synonym masks = "oxm_type \<Rightarrow> int"

definition add_mask :: "oxm_mask \<Rightarrow> masks \<Rightarrow> masks" where
  "add_mask m M = M(m_type m := M (m_type m) OR m_bits m)"

definition asks_new :: "masks \<Rightarrow> oxm_mask \<Rightarrow> bool" where
  "asks_new M m \<longleftrightarrow> wf_mask m \<and> m_bits m \<noteq> 0 \<and> disjoint (M (m_type m)) (m_bits m)"

fun tree_wf :: "masks \<Rightarrow> node \<Rightarrow> bool"
  and cases_wf :: "masks \<Rightarrow> oxm_mask \<Rightarrow> (int \<times> node) list \<Rightarrow> bool" where
  "tree_wf M Unexplored = True"
| "tree_wf M (FlowNode f) = True"
| "tree_wf M (TestNode n P N) = (wf_field n \<and> asks_new M (mask_of n) \<and> tree_wf (add_mask (mask_of n) M) P \<and> tree_wf M N)"
| "tree_wf M (LoadNode m cases) = (asks_new M m \<and> distinct (map fst cases) \<and> cases_wf (add_mask m M) m cases)"
| "cases_wf M m [] = True"
| "cases_wf M m ((v, n) # cases) = (v AND m_bits m = v \<and> tree_wf M n \<and> cases_wf M m cases)"

definition tracks :: "masks \<Rightarrow> compiler \<Rightarrow> bool" where
  "tracks M c \<longleftrightarrow> wf_set (c_match c) \<and> (\<forall>t. wf_type t \<longrightarrow> f_mask (fs_get (c_match c) t) = M t)"

lemma tracks_extends: "tracks M c \<Longrightarrow> extends q c c' new \<Longrightarrow> tracks M c'"
  by (simp add: tracks_def extends_def)

lemma tracks_push:
  assumes "tracks M c" "wf_field p" "asks_new M (mask_of p)"
  shows "\<exists>fs. fs_modify p (c_match c) = Inr fs \<and> tracks (add_mask (mask_of p) M) (c\<lparr>c_match := fs\<rparr>) \<and>
           (\<forall>t. wf_type t \<longrightarrow> fs_get fs t = (if t = f_type p then overwrite (fs_get (c_match c) t) p else fs_get (c_match c) t)) \<and>
           (set_matches q fs \<longleftrightarrow> set_matches q (c_match c) \<and> field_holds q p)"
    and "disjoint (f_mask (fs_get (c_match c) (f_type p))) (f_mask p)"
proof -
  have t: "wf_type (f_type p)" using assms(2) by (simp add: wf_field_def)
  show d: "disjoint (f_mask (fs_get (c_match c) (f_type p))) (f_mask p)"
    using assms t by (simp add: tracks_def asks_new_def)
  have "\<not> wildcard p" using assms(3) by (simp add: asks_new_def wildcard_def)
  then show "\<exists>fs. fs_modify p (c_match c) = Inr fs \<and> tracks (add_mask (mask_of p) M) (c\<lparr>c_match := fs\<rparr>) \<and>
           (\<forall>t. wf_type t \<longrightarrow> fs_get fs t = (if t = f_type p then overwrite (fs_get (c_match c) t) p else fs_get (c_match c) t)) \<and>
           (set_matches q fs \<longleftrightarrow> set_matches q (c_match c) \<and> field_holds q p)"
    using match_push [OF _ assms(2) _ d, of q] assms(1)
    by (auto simp: tracks_def add_mask_def overwrite_def)
qed


subsection \<open>The compiler\<close>

lemma f_value_pick [simp]: "f_value (pick m x) = x AND m_bits m"
  by (simp add: pick_def)

lemma case_field:
  assumes "wf_mask m" "v AND m_bits m = v"
  shows "value_mask \<lparr>v_type = m_type m, v_bits = v\<rparr> m = Inr (pick m v)" "wf_field (pick m v)" "mask_of (pick m v) = m"
    and "field_holds q (pick m v) \<longleftrightarrow> (\<exists>r. pkt_load m q = Inr r \<and> f_value r = v)"
proof -
  show "value_mask \<lparr>v_type = m_type m, v_bits = v\<rparr> m = Inr (pick m v)" "wf_field (pick m v)" "mask_of (pick m v) = m"
    using assms(1) by (simp_all add: value_mask_pick wf_pick)
  have "agrees (pick m x) (pick m v) \<longleftrightarrow> x AND m_bits m = v" for x
    using assms(2) by (simp add: agrees_def pick_def and.assoc)
  then show "field_holds q (pick m v) \<longleftrightarrow> (\<exists>r. pkt_load m q = Inr r \<and> f_value r = v)"
    using assms(1) f_value_pick by (simp add: field_holds_def pkt_load_ok split: option.split)
qed

text \<open>The step lemmas: what holds of the subtrees holds of a node over them.\<close>

definition compiles :: "packet \<Rightarrow> nat \<Rightarrow> compiler \<Rightarrow> compiler res \<Rightarrow> (nat option) res \<Rightarrow> bool" where
  "compiles q barrier c result found \<longleftrightarrow>
     (\<exists>c' new. result = Inr c' \<and> extends q c c' new \<and>
        (\<forall>x. set_matches q (c_match c) \<longrightarrow> found = Inr x \<longrightarrow> verdict barrier x (last_match q new)))"

definition compiles_cases :: "packet \<Rightarrow> nat \<Rightarrow> compiler \<Rightarrow> compiler res \<Rightarrow> oxm_mask \<Rightarrow> int set \<Rightarrow> (int \<Rightarrow> (nat option) res) \<Rightarrow> bool" where
  "compiles_cases q barrier c result m keys found \<longleftrightarrow>
     (\<exists>c' new. result = Inr c' \<and> extends q c c' new \<and>
       (\<forall>ru \<in> set new. rule_matches q ru \<longrightarrow> (\<exists>r. pkt_load m q = Inr r \<and> f_value r \<in> keys)) \<and>
       (\<forall>r x. set_matches q (c_match c) \<longrightarrow> pkt_load m q = Inr r \<longrightarrow> found (f_value r) = Inr x \<longrightarrow>
          verdict barrier x (last_match q new)))"

lemma compile_test:
  assumes t: "tracks M c" and w: "wf_field need" "asks_new M (mask_of need)"
    and N: "compiles q barrier c (compile alive barrier N c) (lookup alive q N)"
    and P: "\<And>c. tracks (add_mask (mask_of need) M) c \<Longrightarrow> compiles q barrier c (compile alive barrier P c) (lookup alive q P)"
  shows "compiles q barrier c (compile alive barrier (TestNode need P N) c) (lookup alive q (TestNode need P N))"
proof -
  have c: "wf_set (c_match c)" using t by (simp add: tracks_def)
  obtain c1 new1 where c1: "compile alive barrier N c = Inr c1" "extends q c c1 new1"
      "\<forall>x. set_matches q (c_match c) \<longrightarrow> lookup alive q N = Inr x \<longrightarrow> verdict barrier x (last_match q new1)"
    using N unfolding compiles_def by blast
  have t1: "tracks M c1" by (rule tracks_extends [OF t c1(2)])
  have m1: "set_matches q (c_match c1) = set_matches q (c_match c)"
    using c1(2) c by (intro set_matches_cong) (auto simp: extends_def)
  obtain fs where fs: "fs_modify need (c_match c1) = Inr fs" "tracks (add_mask (mask_of need) M) (c1\<lparr>c_match := fs\<rparr>)"
      "\<And>t. wf_type t \<Longrightarrow> fs_get fs t = (if t = f_type need then overwrite (fs_get (c_match c1) t) need else fs_get (c_match c1) t)"
      "set_matches q fs \<longleftrightarrow> set_matches q (c_match c1) \<and> field_holds q need"
    using tracks_push(1) [OF t1 w, of q] by blast
  let ?c2 = "install barrier (c1\<lparr>c_match := fs\<rparr>)"
  have fsw: "wf_set fs" using fs(2) by (simp add: tracks_def)
  note ins = extends_install [of "c1\<lparr>c_match := fs\<rparr>" q barrier]
  let ?bar = "\<lparr>priority = c_priority c1, match = fs, target = barrier\<rparr>"
  have t2: "tracks (add_mask (mask_of need) M) ?c2" using fs(2) by (simp add: tracks_def install_def)
  obtain c3 new3 where c3: "compile alive barrier P ?c2 = Inr c3" "extends q ?c2 c3 new3"
      "\<forall>x. set_matches q fs \<longrightarrow> lookup alive q P = Inr x \<longrightarrow> verdict barrier x (last_match q new3)"
    using P [OF t2] by (auto simp: compiles_def install_def)
  have e: "extends q (c1\<lparr>c_match := fs\<rparr>) c3 (?bar # new3)"
    using extends_trans [OF _ ins c3(2)] fsw by simp
  note nar = extends_narrow [OF _ w(1) tracks_push(2) [OF t1 w] fsw fs(3,4) e]
  obtain fs' where fs': "fs_erase (mask_of need) (c_match c3) = Inr fs'" "extends q c1 (c3\<lparr>c_match := fs'\<rparr>) (?bar # new3)"
    using nar(1) t1 by (auto simp: tracks_def)
  have "verdict barrier x (last_match q (new1 @ ?bar # new3))"
    if "set_matches q (c_match c)" "lookup alive q (TestNode need P N) = Inr x" for x
  proof (cases "field_holds q need")
    case True
    then have "lookup alive q P = Inr x" "set_matches q fs" using that w(1) fs(4) m1 by (auto simp: field_holds_pkt_test)
    then have "verdict barrier x (last_match q new3)" "rule_matches q ?bar" using c3(3) by (auto simp: rule_matches_def)
    then show ?thesis using last_match_append [of q "new1 @ [?bar]" new3] last_match_append [of q new1 "[?bar]"]
      by (auto simp: verdict_def last_match_single split: option.splits)
  next
    case False
    then have "lookup alive q N = Inr x" using that w(1) by (auto simp: field_holds_pkt_test)
    moreover have "last_match q (?bar # new3) = None" using nar(2) t1 False by (intro last_match_none) (auto simp: tracks_def)
    ultimately show ?thesis using c1(3) that(1) by (simp add: last_match_append)
  qed
  moreover have "compile alive barrier (TestNode need P N) c = Inr (c3\<lparr>c_match := fs'\<rparr>)"
    using c1(1) fs(1) c3(1) fs'(1) by simp
  moreover have "extends q c (c3\<lparr>c_match := fs'\<rparr>) (new1 @ ?bar # new3)" by (rule extends_trans [OF c c1(2) fs'(2)])
  ultimately show ?thesis unfolding compiles_def by blast
qed

lemma compile_case:
  assumes t: "tracks M c" and a: "asks_new M m" and v: "v AND m_bits m = v" "v \<notin> keys"
    and n: "\<And>c. tracks (add_mask m M) c \<Longrightarrow> compiles q barrier c (compile alive barrier n c) (lookup alive q n)"
    and rest: "\<And>c. tracks M c \<Longrightarrow> compiles_cases q barrier c (compile_cases alive barrier m cases c) m keys (\<lambda>w. lookup_case alive q w cases)"
  shows "compiles_cases q barrier c (compile_cases alive barrier m ((v, n) # cases) c) m (insert v keys)
           (\<lambda>w. lookup_case alive q w ((v, n) # cases))"
proof -
  have m: "wf_mask m" using a by (simp add: asks_new_def)
  note f = case_field [OF m v(1)]
  have c: "wf_set (c_match c)" using t by (simp add: tracks_def)
  obtain fs where fs: "fs_modify (pick m v) (c_match c) = Inr fs" "tracks (add_mask m M) (c\<lparr>c_match := fs\<rparr>)"
      "\<And>t. wf_type t \<Longrightarrow> fs_get fs t = (if t = m_type m then overwrite (fs_get (c_match c) t) (pick m v) else fs_get (c_match c) t)"
      "set_matches q fs \<longleftrightarrow> set_matches q (c_match c) \<and> field_holds q (pick m v)"
    using tracks_push(1) [OF t f(2), of q] a by auto
  have fsw: "wf_set fs" using fs(2) by (simp add: tracks_def)
  obtain c1 new1 where c1: "compile alive barrier n (c\<lparr>c_match := fs\<rparr>) = Inr c1" "extends q (c\<lparr>c_match := fs\<rparr>) c1 new1"
      "\<forall>x. set_matches q fs \<longrightarrow> lookup alive q n = Inr x \<longrightarrow> verdict barrier x (last_match q new1)"
    using n [OF fs(2)] by (auto simp: compiles_def)
  have d: "disjoint (f_mask (fs_get (c_match c) (f_type (pick m v)))) (f_mask (pick m v))"
    using tracks_push(2) [OF t f(2)] a by simp
  note nar = extends_narrow [OF c f(2) d fsw _ fs(4) c1(2), simplified, OF fs(3)]
  obtain fs' where fs': "fs_erase m (c_match c1) = Inr fs'" "extends q c (c1\<lparr>c_match := fs'\<rparr>) new1"
    using nar(1) by auto
  let ?c2 = "c1\<lparr>c_match := fs'\<rparr>"
  have t2: "tracks M ?c2" by (rule tracks_extends [OF t fs'(2)])
  have m2: "set_matches q (c_match ?c2) = set_matches q (c_match c)"
    using fs'(2) c by (intro set_matches_cong) (auto simp: extends_def)
  obtain c3 new3 where c3: "compile_cases alive barrier m cases ?c2 = Inr c3" "extends q ?c2 c3 new3"
      "\<forall>ru \<in> set new3. rule_matches q ru \<longrightarrow> (\<exists>r. pkt_load m q = Inr r \<and> f_value r \<in> keys)"
      "\<forall>r x. set_matches q (c_match ?c2) \<longrightarrow> pkt_load m q = Inr r \<longrightarrow> lookup_case alive q (f_value r) cases = Inr x \<longrightarrow>
          verdict barrier x (last_match q new3)"
    using rest [OF t2] unfolding compiles_cases_def by blast
  have "verdict barrier x (last_match q (new1 @ new3))"
    if "set_matches q (c_match c)" "pkt_load m q = Inr r" "lookup_case alive q (f_value r) ((v, n) # cases) = Inr x" for r x
  proof (cases "f_value r = v")
    case True
    then have "last_match q new3 = None" using c3(3) that(2) v(2) by (intro last_match_none) auto
    moreover have "lookup alive q n = Inr x" "set_matches q fs" using True that fs(4) f(4) by auto
    ultimately show ?thesis using c1(3) by (simp add: last_match_append)
  next
    case False
    then have "last_match q new1 = None" using nar(2) f(4) that(2) by (intro last_match_none) auto
    moreover have "lookup_case alive q (f_value r) cases = Inr x" using False that(3) by auto
    ultimately show ?thesis using c3(4) m2 that(1,2) by (cases "last_match q new3") (auto simp: last_match_append)
  qed
  moreover have "\<exists>r. pkt_load m q = Inr r \<and> f_value r \<in> insert v keys"
    if "ru \<in> set (new1 @ new3)" "rule_matches q ru" for ru
    using that nar(2) f(4) c3(3) by auto
  moreover have "compile_cases alive barrier m ((v, n) # cases) c = Inr c3"
    using f(1) fs(1) c1(1) fs'(1) c3(1) by simp
  moreover have "extends q c c3 (new1 @ new3)" by (rule extends_trans [OF c fs'(2) c3(2)])
  ultimately show ?thesis unfolding compiles_cases_def by blast
qed

lemma compile_ok:
  "tree_wf M T \<Longrightarrow> tracks M c \<Longrightarrow> compiles q barrier c (compile alive barrier T c) (lookup alive q T)"
  "cases_wf M' m cases \<Longrightarrow> M' = add_mask m M \<Longrightarrow> distinct (map fst cases) \<Longrightarrow> asks_new M m \<Longrightarrow> tracks M c \<Longrightarrow>
     compiles_cases q barrier c (compile_cases alive barrier m cases c) m (fst ` set cases) (\<lambda>w. lookup_case alive q w cases)"
proof (induction M T and M' m cases arbitrary: c and M c rule: tree_wf_cases_wf.induct)
  case (1 M)
  then have "extends q c c []" by (simp add: tracks_def extends_refl)
  then show ?case by (auto simp: compiles_def verdict_def intro!: exI [of _ "[]"])
next
  case (2 M f)
  then have "wf_set (c_match c)" by (simp add: tracks_def)
  note extends_refl [OF this, of q] extends_install [OF this, of q f]
  then show ?case by (cases "alive f") (fastforce simp: compiles_def verdict_def last_match_single rule_matches_def)+
next
  case (3 M n P N)
  then show ?case by (intro compile_test) auto
next
  case (4 M m cases)
  then have "compiles_cases q barrier c (compile_cases alive barrier m cases c) m (fst ` set cases) (\<lambda>w. lookup_case alive q w cases)"
    by auto
  then show ?case by (fastforce simp: compiles_def compiles_cases_def)
next
  case (5 M' m)
  then have "extends q c c []" by (simp add: tracks_def extends_refl)
  then show ?case by (auto simp: compiles_cases_def verdict_def intro!: exI [of _ "[]"])
next
  case (6 M' m v n cases)
  then show ?case using compile_case [of M c m v "fst ` set cases" q barrier alive n cases] by auto
qed

subsection \<open>Trees of a policy have no overlapping questions\<close>

definition sc_ok :: "masks \<Rightarrow> scache \<Rightarrow> bool" where
  "sc_ok M sc \<longleftrightarrow> (\<forall>t. wf_type t \<longrightarrow> wf_field (sc t) \<and> f_type (sc t) = t \<and> (\<forall>i. bit (M t) i \<longrightarrow> bit (f_mask (sc t)) i))"

definition next_ok :: "masks \<Rightarrow> policy \<times> scache \<Rightarrow> bool" where
  "next_ok M x \<longleftrightarrow> wf_policy (fst x) \<and> sc_ok M (snd x)"

definition head_asks :: "masks \<Rightarrow> head \<Rightarrow> bool" where
  "head_asks M h =
     (case h of
        HDone _ \<Rightarrow> True
      | HLoad m k \<Rightarrow> asks_new M m \<and> (\<forall>v. v AND m_bits m = v \<longrightarrow> next_ok (add_mask m M) (k v))
      | HTest n k \<Rightarrow> wf_field n \<and> asks_new M (mask_of n) \<and> next_ok (add_mask (mask_of n) M) (k True) \<and> next_ok M (k False))"

lemma sc_ok_learn:
  assumes "sc_ok M sc" "wf_field p"
  shows "sc_ok M (learn p sc)" "sc_ok (add_mask (mask_of p) M) (learn p sc)"
  using assms by (auto simp: sc_ok_def learn_def add_mask_def bit_or_iff intro!: wf_overwrite)

lemma unexplored_new:
  assumes "sc_ok M sc" "wf_mask m" "unexplored_bits sc m \<noteq> 0"
  shows "asks_new M \<lparr>m_type = m_type m, m_bits = unexplored_bits sc m\<rparr>"
proof -
  have t: "wf_type (m_type m)" using assms(2) by (simp add: wf_mask_def)
  have "wf_mask \<lparr>m_type = m_type m, m_bits = unexplored_bits sc m\<rparr>"
    using unexplored_ok [OF assms(2)] assms(1) t by (simp add: sc_ok_def wf_mask_def)
  moreover have "disjoint (M (m_type m)) (unexplored_bits sc m)"
    unfolding disjoint_bits using assms(1) t by (auto simp: sc_ok_def)
  ultimately show ?thesis using assms(3) by (simp add: asks_new_def)
qed

lemma advance_asks:
  "wf_policy p \<Longrightarrow> sc_ok M sc \<Longrightarrow> head_asks M (advance p sc)"
proof (induction p arbitrary: sc)
  case (Decide d)
  then show ?case by (simp add: head_asks_def)
next
  case (Load m k)
  have m: "wf_mask m" using Load.prems(1) by simp
  let ?e = "restrict (sc (m_type m)) (m_bits m)"
  have k: "wf_policy (k \<lparr>f_type = m_type m, f_value = f_value ?e OR v, f_mask = m_bits m\<rparr>)"
    if "\<And>i. bit v i \<Longrightarrow> bit (m_bits m) i" for v
  proof -
    have "(f_value ?e OR v) AND m_bits m = f_value ?e OR v"
      using that by (intro bit_eqI) (auto simp: bit_and_iff bit_or_iff)
    then show ?thesis using Load.prems(1) m by (simp add: wf_field_def wf_mask_def)
  qed
  have sub: "bit v i \<Longrightarrow> bit (m_bits m) i" if "v AND unexplored_bits sc m = v" for v i
    using that bit_and_iff [of v "unexplored_bits sc m" i] by simp
  show ?case
  proof (cases "unexplored_bits sc m = 0")
    case True
    then show ?thesis using Load.IH [OF rangeI] k [of 0] Load.prems(2) by (simp add: advance_Load)
  next
    case False
    note n = unexplored_new [OF Load.prems(2) m False]
    have "wf_field \<lparr>f_type = m_type m, f_value = v, f_mask = unexplored_bits sc m\<rparr>" if "v AND unexplored_bits sc m = v" for v
      using that n by (simp add: wf_field_def asks_new_def wf_mask_def)
    then show ?thesis
      using False n k sub sc_ok_learn(2) [OF Load.prems(2)]
      by (fastforce simp: advance_Load head_asks_def next_ok_def mask_of_def)
  qed
next
  case (Test n k)
  let ?u = "restrict n (unexplored_bits sc (mask_of n))"
  have n: "wf_field n" using Test.prems(1) by simp
  have m: "wf_mask (mask_of n)" by (rule wf_mask_of [OF n])
  show ?case
  proof (cases "agrees (restrict (sc (f_type n)) (f_mask n)) n \<and> unexplored_bits sc (mask_of n) \<noteq> 0")
    case True
    have a: "asks_new M (mask_of ?u)"
      using unexplored_new [OF Test.prems(2) m] True restrict_unexplored_mask [of n sc] by (simp add: mask_of_def)
    moreover have "bits_ok (f_type n) (unexplored_bits sc (mask_of n))"
      using a restrict_unexplored_mask [of n sc] by (simp add: asks_new_def wf_mask_def mask_of_def)
    then have "wf_field ?u" using n by (intro wf_restrict) auto
    ultimately show ?thesis using True Test.prems sc_ok_learn(2) [OF Test.prems(2), of ?u]
      by (simp add: advance_Test Let_def head_asks_def next_ok_def)
  next
    case False
    then show ?thesis using Test.IH [OF rangeI] Test.prems by (auto simp: advance_Test Let_def)
  qed
next
  case (Modify f p)
  then show ?case using sc_ok_learn(1) [OF Modify.prems(2), of f] by simp
qed

lemma tree_ok_wf:
  "tree_ok D T h \<Longrightarrow> head_asks M h \<Longrightarrow> tree_wf M T"
  "cases_ok D cases k \<Longrightarrow> (\<And>v. v AND m_bits m = v \<Longrightarrow> next_ok M (k v)) \<Longrightarrow>
     (\<forall>v \<in> fst ` set cases. v AND m_bits m = v) \<Longrightarrow> cases_wf M m cases"
proof (induction D T h and D cases k arbitrary: M and M m rule: tree_ok_cases_ok.induct)
  case (3 D n P N h)
  then obtain k where k: "h = HTest n k" "tree_ok D P (adv (k True))" "tree_ok D N (adv (k False))" by auto
  then have "wf_field n" "asks_new M (mask_of n)" "next_ok (add_mask (mask_of n) M) (k True)" "next_ok M (k False)"
    using "3.prems"(2) by (auto simp: head_asks_def)
  then show ?case using "3.IH"(1) [of k, OF k(2)] "3.IH"(2) [of k, OF k(3)] by (simp add: next_ok_def advance_asks)
next
  case (4 D m cases h)
  then obtain k where k: "h = HLoad m k" "distinct (map fst cases)" "\<forall>v \<in> fst ` set cases. v AND m_bits m = v"
    "cases_ok D cases k" by auto
  then have "cases_wf (add_mask m M) m cases" using "4.IH" [of k m "add_mask m M"] "4.prems"(2) by (simp add: head_asks_def)
  then show ?case using k "4.prems"(2) by (simp add: head_asks_def)
next
  case (6 D v n cases k)
  then show ?case by (auto simp: next_ok_def advance_asks)
qed auto


subsection \<open>Committing\<close>

lemma commit_ok:
  assumes "runtime_ok p r" "wf_policy p"
  shows "\<exists>rules. commit alive barrier r = Inr rules \<and>
           (\<forall>i < length rules. priority (rules ! i) = 1 + of_nat i) \<and>
           (\<forall>x. lookup alive q (trace_tree r) = Inr x \<longrightarrow> verdict barrier x (last_match q rules))"
proof -
  let ?c = "\<lparr>c_match = [], c_priority = 1, c_rules = []\<rparr>"
  have "sc_ok (\<lambda>_. 0) wildcard_field" by (simp add: sc_ok_def wf_wildcard)
  then have "tree_wf (\<lambda>_. 0) (trace_tree r)"
    using tree_ok_wf(1) advance_asks [OF assms(2)] assms(1) unfolding runtime_ok_def by blast
  moreover have "tracks (\<lambda>_. 0) ?c" by (simp add: tracks_def wildcard_field_def)
  ultimately have "compiles q barrier ?c (compile alive barrier (trace_tree r) ?c) (lookup alive q (trace_tree r))"
    by (rule compile_ok(1))
  then show ?thesis by (auto simp: compiles_def commit_def extends_def set_matches_def)
qed

definition top_rule :: "packet \<Rightarrow> rule list \<Rightarrow> rule \<Rightarrow> bool" where
  "top_rule q rules ru \<longleftrightarrow> ru \<in> set rules \<and> rule_matches q ru \<and>
     (\<forall>ru' \<in> set rules. rule_matches q ru' \<longrightarrow> ru' = ru \<or> priority ru' < priority ru)"

lemma last_match_top:
  "sorted_wrt (\<lambda>a b. priority a < priority b) rules \<Longrightarrow> top_rule q rules ru \<Longrightarrow> last_match q rules = Some (target ru)"
  "sorted_wrt (\<lambda>a b. priority a < priority b) rules \<Longrightarrow> last_match q rules = Some f \<Longrightarrow> \<exists>ru. top_rule q rules ru \<and> target ru = f"
proof (induction rules rule: rev_induct)
  case (snoc x rules)
  { case 1
    then have less: "ru' \<in> set rules \<Longrightarrow> priority ru' < priority x" for ru' by (auto simp: sorted_wrt_append)
    show ?case
    proof (cases "rule_matches q x")
      case True
      then have "ru = x" using 1 less [of ru] by (auto simp: top_rule_def dest: order.strict_trans)
      then show ?thesis using True by (simp add: last_match_append last_match_single)
    next
      case False
      then have "top_rule q rules ru" using 1 by (auto simp: top_rule_def)
      then show ?thesis using snoc(1) 1 False by (simp add: last_match_append last_match_single sorted_wrt_append)
    qed
  next
    case 2
    then have less: "ru' \<in> set rules \<Longrightarrow> priority ru' < priority x" for ru' by (auto simp: sorted_wrt_append)
    show ?case
    proof (cases "rule_matches q x")
      case True
      then have "top_rule q (rules @ [x]) x" using less by (auto simp: top_rule_def)
      then show ?thesis using True 2 by (auto simp: last_match_append last_match_single)
    next
      case False
      then obtain ru where "top_rule q rules ru" "target ru = f"
        using snoc(2) 2 by (auto simp: last_match_append last_match_single sorted_wrt_append)
      then show ?thesis using False by (auto simp: top_rule_def)
    qed
  }
qed (simp_all add: top_rule_def)

lemma priorities_sorted:
  assumes "\<And>i. i < length rules \<Longrightarrow> priority (rules ! i) = 1 + of_nat i" "length rules \<le> 65535"
  shows "sorted_wrt (\<lambda>a b. priority a < priority b) rules"
  unfolding sorted_wrt_iff_nth_less
proof (intro allI impI)
  fix i j assume "i < j" "j < length rules"
  moreover from this have "of_nat (Suc i) < (of_nat (Suc j) :: u16)"
    using assms(2) by (subst of_nat_word_less_iff) (simp add: take_bit_nat_eq_self)
  ultimately show "priority (rules ! i) < priority (rules ! j)" using assms(1) [of i] assms(1) [of j] by simp
qed

text \<open>
  C5: the compiled flow tables do what the trace tree does. Committing a reachable runtime never throws. As long
  as the rules fit the 16-bit priorities, then for every packet the policy decides the matching rule of highest
  priority is unique; if the tree finds a flow, that rule sends the packet to this flow, whose decision is the
  policy's; if it finds none, no rule matches or the one of highest priority is the barrier, which sends the packet to the controller.
\<close>

theorem commit_correct:
  assumes "runtime_reach p r" "wf_policy p" "run_plain p q = Inr d"
  shows "\<exists>rules found. commit alive barrier r = Inr rules \<and> lookup alive q (trace_tree r) = Inr found \<and>
           (length rules \<le> 65535 \<longrightarrow>
              (case found of
                 Some f \<Rightarrow> (\<exists>ru. top_rule q rules ru \<and> target ru = f) \<and> flow_decision r f = Some d
               | None \<Rightarrow> (\<forall>ru. top_rule q rules ru \<longrightarrow> target ru = barrier) \<and>
                   ((\<exists>ru \<in> set rules. rule_matches q ru) \<longrightarrow> (\<exists>ru. top_rule q rules ru))))"
proof -
  have ok: "runtime_ok p r" by (rule runtime_reach_ok [OF assms(1,2)])
  obtain found where found: "lookup alive q (trace_tree r) = Inr found"
      "\<And>f. found = Some f \<Longrightarrow> flow_decision r f = Some d"
    using lookup_runtime_ok [OF ok assms(2,3), of alive] by blast
  obtain rules where rules: "commit alive barrier r = Inr rules"
      "\<And>i. i < length rules \<Longrightarrow> priority (rules ! i) = 1 + of_nat i" "verdict barrier found (last_match q rules)"
    using commit_ok [OF ok assms(2), of alive barrier q] found(1) by blast
  have sorted: "sorted_wrt (\<lambda>a b. priority a < priority b) rules" if "length rules \<le> 65535"
    using priorities_sorted [OF _ that] rules(2) by blast
  have "\<exists>ru. top_rule q rules ru" if ru: "ru \<in> set rules" "rule_matches q ru" "length rules \<le> 65535" for ru
  proof -
    have "last_match q rules \<noteq> None" using ru(1,2) by (auto simp: last_match_def filter_empty_conv)
    then show ?thesis using last_match_top(2) [OF sorted [OF ru(3)]] by blast
  qed
  then show ?thesis
    using rules found last_match_top [OF sorted, of q]
    by (intro exI [of _ rules] exI [of _ found]) (fastforce simp: verdict_def split: option.splits)
qed

lemma demo_tree:
  "map_sum id trace_tree (augment demo_policy (\<lambda>_. False) (demo_packet 5) 7 new_Runtime) =
     Inr (TestNode arp_match Unexplored (LoadNode (exact_mask eth_dst) [(5, FlowNode 7)]))"
  by code_simp

lemma demo_rules:
  "map_sum id (\<lambda>c. length (c_rules c)) (compile (\<lambda>_. True) 0
     (TestNode arp_match Unexplored (LoadNode (exact_mask eth_dst) [(5, FlowNode 7)]))
     \<lparr>c_match = [], c_priority = 1, c_rules = []\<rparr>) = Inr 2"
  by code_simp

theorem commit_correct_witness:
  "\<exists>r rules ru. runtime_reach demo_policy r \<and> commit (\<lambda>_. True) 0 r = Inr rules \<and> length rules = 2 \<and>
     top_rule (demo_packet 5) rules ru \<and> target ru = 7"
proof -
  obtain r where r: "augment demo_policy (\<lambda>_. False) (demo_packet 5) 7 new_Runtime = Inr r"
      "lookup (\<lambda>_. True) (demo_packet 5) (trace_tree r) = Inr (Some 7)"
    using augment_ok [OF runtime_reach_ok [OF reach_new demo_wf] demo_wf demo_run, of 7 "\<lambda>_. False" "\<lambda>_. True"] demo_fresh
    by auto
  have reach: "runtime_reach demo_policy r" using reach_augment [OF reach_new demo_run _ r(1)] demo_fresh by simp
  have tree: "trace_tree r = TestNode arp_match Unexplored (LoadNode (exact_mask eth_dst) [(5, FlowNode 7)])"
    using demo_tree r(1) by simp
  have len: "length rules = 2" if c: "commit (\<lambda>_. True) 0 r = Inr rules" for rules
    using demo_rules c by (auto simp del: compile.simps simp: commit_def tree)
  obtain rules where rules: "commit (\<lambda>_. True) 0 r = Inr rules"
      "length rules \<le> 65535 \<longrightarrow> (\<exists>ru. top_rule (demo_packet 5) rules ru \<and> target ru = 7)"
    using commit_correct [OF reach demo_wf demo_run, of "\<lambda>_. True" 0] r(2) by auto
  then show ?thesis using len [OF rules(1)] reach by auto
qed

end
