(* ===== verification/Switch_Scope.thy ===== *)
theory Switch_Scope
  imports Flow_State Maple_Compile
begin

text \<open>
  The part of \<open>src/Controller.cc\<close> that belongs to one switch: \<open>ModTrackingPacket\<close> and \<open>SwitchScope\<close>, with the
  packet-in and flow-removed handlers. The scope's flows are found by cookie and the trace tree's by the number
  \<open>unat\<close> of the cookie; a flow is alive as long as the map (or the member \<open>miss\<close>) holds it. The pipeline's
  handlers are policies that take the decision so far. \<open>PacketParser\<close> has its own theory, here a packet is already
  parsed. Every operation returns the new state, the messages and signals in order, and the exception it ends with.
\<close>

subsection \<open>The pipeline\<close>

primrec then_policy :: "policy \<Rightarrow> (Decision \<Rightarrow> policy) \<Rightarrow> policy" where
  "then_policy (Decide d) k = k d"
| "then_policy (Load m c) k = Load m (\<lambda>r. then_policy (c r) k)"
| "then_policy (Test f c) k = Test f (\<lambda>b. then_policy (c b) k)"
| "then_policy (Modify f p) k = Modify f (then_policy p k)"

type_synonym handler = "Decision \<Rightarrow> policy"

type_synonym pipeline = "(string \<times> handler) list"

fun process_from :: "pipeline \<Rightarrow> Decision \<Rightarrow> policy" where
  "process_from [] ret = Decide ret"
| "process_from ((name, h) # hs) ret =
     then_policy (h ret) (\<lambda>ret'. if return_flag (base ret') then Decide ret' else process_from hs ret')"

definition process :: "pipeline \<Rightarrow> policy" where
  "process hs = process_from hs new_Decision"

text \<open>A run keeps the packet, the tree and the tracked modifications it has reached when it throws.\<close>

primrec run_tracked :: "policy \<Rightarrow> tpacket \<Rightarrow> field_set \<Rightarrow> tpacket \<times> field_set \<times> Decision res" where
  "run_tracked (Decide d) t ms = (t, ms, Inr d)"
| "run_tracked (Load m k) t ms =
     (case tp_load m t of Inl e \<Rightarrow> (t, ms, Inl e) | Inr (r, t') \<Rightarrow> run_tracked (k r) t' ms)"
| "run_tracked (Test f k) t ms =
     (case tp_test f t of Inl e \<Rightarrow> (t, ms, Inl e) | Inr (b, t') \<Rightarrow> run_tracked (k b) t' ms)"
| "run_tracked (Modify f p) t ms =
     (case tp_modify f t of
        Inl e \<Rightarrow> (t, ms, Inl e)
      | Inr t' \<Rightarrow> (case fs_modify f ms of Inl e \<Rightarrow> (t', ms, Inl e) | Inr ms' \<Rightarrow> run_tracked p t' ms'))"

primrec run_bare :: "policy \<Rightarrow> packet \<Rightarrow> packet \<times> Decision res" where
  "run_bare (Decide d) q = (q, Inr d)"
| "run_bare (Load m k) q = (case pkt_load m q of Inl e \<Rightarrow> (q, Inl e) | Inr r \<Rightarrow> run_bare (k r) q)"
| "run_bare (Test f k) q = (case pkt_test f q of Inl e \<Rightarrow> (q, Inl e) | Inr b \<Rightarrow> run_bare (k b) q)"
| "run_bare (Modify f p) q = (case pkt_modify f q of Inl e \<Rightarrow> (q, Inl e) | Inr q' \<Rightarrow> run_bare p q')"

subsection \<open>The scope\<close>

record SwitchScope =
  sc_dpid :: u64
  sc_live :: bool
  sc_miss :: FlowImpl
  sc_tree :: node
  sc_pipeline :: pipeline
  sc_flows :: "u64 \<Rightarrow> FlowImpl option"
  sc_handler_table :: u8
  sc_flood :: of_action

type_synonym outcome = "SwitchScope \<times> effect list \<times> fault option"

definition send :: "of_msg list \<Rightarrow> SwitchScope \<Rightarrow> effect list" where
  "send ms s = concat (map (conn_send (sc_live s)) ms)"

definition miss_number :: "SwitchScope \<Rightarrow> nat" where
  "miss_number s = unat (m_cookie (sc_miss s))"

definition sc_flow :: "nat \<Rightarrow> SwitchScope \<Rightarrow> FlowImpl option" where
  "sc_flow n s = (if n = miss_number s then Some (sc_miss s) else if n < 2 ^ 64 then sc_flows s (of_nat n) else None)"

definition sc_alive :: "SwitchScope \<Rightarrow> nat \<Rightarrow> bool" where
  "sc_alive s n \<longleftrightarrow> sc_flow n s \<noteq> None"

definition put_flow :: "nat \<Rightarrow> FlowImpl \<Rightarrow> SwitchScope \<Rightarrow> SwitchScope" where
  "put_flow n f s =
     (if n = miss_number s then s\<lparr>sc_miss := f\<rparr> else s\<lparr>sc_flows := (sc_flows s)(of_nat n \<mapsto> f)\<rparr>)"

subsection \<open>Tables\<close>

definition clearTables :: "of_msg list" where
  "clearTables = [backend_barrier, FlowDelete 0xff 0 0 [] None]"

definition base_rule :: "u8 \<Rightarrow> instruction \<Rightarrow> of_msg" where
  "base_rule table ins =
     FlowAdd \<lparr>fa_xid = None, fa_buffer_id = OFP_NO_BUFFER, fa_table = table, fa_priority = 0, fa_cookie = 0,
              fa_match = [], fa_idle = 0, fa_hard = 0, fa_instruction = ins\<rparr>"

definition installGoto :: "u8 \<Rightarrow> of_msg list" where
  "installGoto table = [backend_barrier, base_rule table (GoToTable (table + 1))]"

definition installTableMissRule :: "u8 \<Rightarrow> of_msg list" where
  "installTableMissRule table =
     [backend_remove table [], backend_barrier, base_rule table (ApplyActions [OutputAction OFPP_CONTROLLER 128])]"

definition reinit_msgs :: "u8 \<Rightarrow> of_msg list" where
  "reinit_msgs table =
     clearTables @ concat (map (\<lambda>i. installGoto (of_nat i)) [0..<unat table]) @ installTableMissRule table"

definition reinit :: "SwitchScope \<Rightarrow> effect list" where
  "reinit s = send (reinit_msgs (sc_handler_table s)) s"

definition new_SwitchScope :: "pipeline \<Rightarrow> bool \<Rightarrow> u64 \<Rightarrow> u8 \<Rightarrow> (u64 \<Rightarrow> of_action) \<Rightarrow> u64 \<Rightarrow> (SwitchScope \<times> u64 \<times> effect list) res" where
  "new_SwitchScope pl live dpid table flood next =
     res_bind (Flow_cookie next) (\<lambda>(cookie, next').
     res_bind (inspect 128 new_Decision) (\<lambda>d.
       let s = \<lparr>sc_dpid = dpid, sc_live = live,
                sc_miss = flow_decision_set d (new_FlowImpl cookie table (flood 0)), sc_tree = Unexplored,
                sc_pipeline = pl, sc_flows = (\<lambda>_. None), sc_handler_table = table, sc_flood = flood dpid\<rparr>
       in Inr (s, next', reinit s)))"

subsection \<open>Committing the tree\<close>

definition backend_install :: "u16 \<Rightarrow> field_set \<Rightarrow> nat \<Rightarrow> SwitchScope \<Rightarrow> outcome" where
  "backend_install prio fs n s =
     (case sc_flow n s of
        None \<Rightarrow> (s, [], Some AssertionFailed)
      | Some f \<Rightarrow> let (f', es, x) = flow_packet_out_at (sc_live s) prio fs f in (put_flow n f' s, es, x))"

fun install_rules :: "rule list \<Rightarrow> SwitchScope \<Rightarrow> outcome" where
  "install_rules [] s = (s, [], None)"
| "install_rules (ru # rules) s =
     (case backend_install (priority ru) (match ru) (target ru) s of
        (s1, es, Some x) \<Rightarrow> (s1, es, Some x)
      | (s1, es, None) \<Rightarrow> (case install_rules rules s1 of (s2, es', x) \<Rightarrow> (s2, es @ es', x)))"

definition sc_commit :: "SwitchScope \<Rightarrow> outcome" where
  "sc_commit s =
     (let pre = send [backend_remove (sc_handler_table s) [], backend_barrier] s
      in case commit (sc_alive s) (miss_number s) \<lparr>trace_tree = sc_tree s, flow_decision = (\<lambda>_. None)\<rparr> of
           Inl e \<Rightarrow> (s, pre, Some e)
         | Inr rules \<Rightarrow>
             (case install_rules rules s of
                (s', es, None) \<Rightarrow> (s', pre @ es @ send [backend_barrier] s', None)
              | (s', es, Some x) \<Rightarrow> (s', pre @ es, Some x)))"

subsection \<open>Packet-in\<close>

definition isTableMiss :: "packet_in \<Rightarrow> SwitchScope \<Rightarrow> bool" where
  "isTableMiss pin s \<longleftrightarrow>
     pi_reason pin = OFPR_NO_MATCH \<or> pi_reason pin = OFPR_ACTION \<and> pi_cookie pin = m_cookie (sc_miss s)"

text \<open>\<open>runtime.augment\<close> on the tracking packet: the flow gets the decision and, unless it is disposable, its
  place in the tree.\<close>

definition sc_augment :: "packet \<Rightarrow> nat \<Rightarrow> SwitchScope \<Rightarrow> SwitchScope \<times> field_set \<times> fault option" where
  "sc_augment q n s =
     (case run_tracked (process (sc_pipeline s)) \<lparr>pkt = q, cache = [], tr = \<lparr>root = sc_tree s, path = []\<rparr>\<rparr> [] of
        (t, ms, r) \<Rightarrow>
          let seen = (\<lambda>f. f\<lparr>m_packet_data := map_option (\<lambda>_. pkt t) (m_packet_data f)\<rparr>);
              s1 = s\<lparr>sc_tree := root (tr t)\<rparr>
          in case sc_flow n s1 of
               None \<Rightarrow> (s1, ms, Some NullDereference)
             | Some f \<Rightarrow>
                 case r of
                   Inl e \<Rightarrow> (put_flow n (seen f) s1, ms, Some e)
                 | Inr d \<Rightarrow>
                     let f1 = flow_decision_set d (seen f);
                         s2 = put_flow n f1 s1
                     in if disposable f1 then (s2, ms, None)
                        else case tracer_finish n (tr t) of
                               Inl e \<Rightarrow> (s2, ms, Some e)
                             | Inr t' \<Rightarrow> (s2\<lparr>sc_tree := root t'\<rparr>, ms, None))"

definition explore :: "packet \<Rightarrow> nat \<Rightarrow> SwitchScope \<Rightarrow> outcome" where
  "explore q n s =
     (case sc_augment q n s of
        (s1, ms, Some x) \<Rightarrow> (s1, [], Some x)
      | (s1, ms, None) \<Rightarrow>
          case sc_flow n s1 of
            None \<Rightarrow> (s1, [], Some NullDereference)
          | Some f \<Rightarrow>
              case flow_mods ms f of
                Inl e \<Rightarrow> (s1, [], Some e)
              | Inr f1 \<Rightarrow>
                  if disposable f1 then
                    case flow_packet_out_at (sc_live s1) 1 ms f1 of
                      (f2, es, Some x) \<Rightarrow> (put_flow n f2 s1, es, Some x)
                    | (f2, es, None) \<Rightarrow> (s1\<lparr>sc_flows := (sc_flows s1)(m_cookie f2 := None)\<rparr>, es, None)
                  else sc_commit (put_flow n f1 s1))"

definition wake :: "nat \<Rightarrow> FlowImpl \<Rightarrow> SwitchScope \<Rightarrow> outcome" where
  "wake n f s = (let (f', es, x) = wakeup (sc_live s) f in (put_flow n f' s, es, x))"

definition process_flow :: "packet_in \<Rightarrow> packet \<Rightarrow> nat \<Rightarrow> FlowImpl \<Rightarrow> SwitchScope \<Rightarrow> outcome" where
  "process_flow pin q n f0 s0 =
     (let f = flow_packet_in pin f0; s = put_flow n f s0
      in case m_state f of
           Egg \<Rightarrow> explore q n s
         | Idle \<Rightarrow> explore q n s
         | Evicted \<Rightarrow> wake n f s
         | Expired \<Rightarrow> (s, [], Some AssertionFailed)
         | Active \<Rightarrow>
             if isTableMiss pin s then wake n f s
             else case run_bare (process (sc_pipeline s)) q of
                    (q', r) \<Rightarrow>
                      let f1 = f\<lparr>m_packet_data := map_option (\<lambda>_. q') (m_packet_data f)\<rparr>
                      in case r of
                           Inl e \<Rightarrow> (put_flow n f1 s, [], Some e)
                         | Inr d \<Rightarrow> (put_flow n (flow_decision_set d f1) s, [], None))"

definition processPacketIn :: "packet_in \<Rightarrow> packet \<Rightarrow> u64 \<Rightarrow> SwitchScope \<Rightarrow> outcome \<times> u64" where
  "processPacketIn pin q next s =
     (case runtime_lookup (sc_alive s) (miss_number s) q \<lparr>trace_tree = sc_tree s, flow_decision = (\<lambda>_. None)\<rparr> of
        Inl e \<Rightarrow> ((s, [], Some e), next)
      | Inr n \<Rightarrow>
          case sc_flow n s of
            None \<Rightarrow> ((s, [], Some NullDereference), next)
          | Some f \<Rightarrow>
              if n = miss_number s \<or> m_state f = Expired then
                case Flow_cookie next of
                  Inl e \<Rightarrow> ((s, [], Some e), next)
                | Inr (cookie, next') \<Rightarrow>
                    let g = new_FlowImpl cookie (sc_handler_table s) (sc_flood s)
                    in (process_flow pin q (unat cookie) g (s\<lparr>sc_flows := (sc_flows s)(cookie \<mapsto> g)\<rparr>), next')
              else (process_flow pin q n f s, next))"

subsection \<open>Flow-removed\<close>

definition processFlowRemoved :: "u64 \<Rightarrow> removed_reason \<Rightarrow> SwitchScope \<Rightarrow> SwitchScope \<times> effect list" where
  "processFlowRemoved cookie reason s =
     (case sc_flows s cookie of
        None \<Rightarrow> (s, [])
      | Some f \<Rightarrow>
          let (f', es) = flow_removed reason f
          in (s\<lparr>sc_flows := (if m_state f' = Expired then (sc_flows s)(cookie := None) else (sc_flows s)(cookie \<mapsto> f'))\<rparr>, es))"

end
