(* ===== verification/Scope_Sound.thy ===== *)
theory Scope_Sound
  imports Switch_Scope
begin

text \<open>
  What a switch scope keeps: its tree agrees with the pipeline's policy, its flows carry the policy's decisions, and
  the rules a commit sends are those of the compiled tree for the flows that are installed.
\<close>

subsection \<open>The rules in a list of effects\<close>

fun adds :: "effect list \<Rightarrow> flow_add list" where
  "adds [] = []"
| "adds (Sent (FlowAdd fa) # es) = fa # adds es"
| "adds (e # es) = adds es"

lemma adds_append [simp]: "adds (a @ b) = adds a @ adds b"
  by (induction a rule: adds.induct) auto

definition entry :: "flow_add \<Rightarrow> u16 \<times> field_set \<times> u64 \<times> instruction" where
  "entry fa = (fa_priority fa, fa_match fa, fa_cookie fa, fa_instruction fa)"

definition ready :: "FlowImpl \<Rightarrow> bool" where
  "ready f \<longleftrightarrow> m_state f = Active \<or> m_packet_in f"

text \<open>What installing a flow leaves alone.\<close>

definition same_flow :: "FlowImpl \<Rightarrow> FlowImpl \<Rightarrow> bool" where
  "same_flow f g \<longleftrightarrow> m_cookie g = m_cookie f \<and> m_decision g = m_decision f \<and> m_table g = m_table f \<and>
     m_flood g = m_flood f \<and> m_mods g = m_mods f"

lemma same_flow_refl [simp]: "same_flow f f"
  by (simp add: same_flow_def)

lemma same_flow_trans: "same_flow f g \<Longrightarrow> same_flow g h \<Longrightarrow> same_flow f h"
  by (simp add: same_flow_def)

lemma actions_same: "same_flow f g \<Longrightarrow> actions g = actions f"
  by (simp add: same_flow_def actions_def)

lemma flow_packet_out_unready:
  "\<not> ready f \<Longrightarrow> flow_packet_out_at live prio fs f = (f\<lparr>m_priority := prio, m_match := fs\<rparr>, [], None)"
  by (simp add: flow_packet_out_at_def flow_install_def ready_def)

lemma flow_packet_out_ready:
  assumes "ready f" "\<not> disposable f" "actions f = Inr as"
  shows "\<exists>f' es. flow_packet_out_at True prio fs f = (f', es, None) \<and> same_flow f f' \<and> m_state f' = Active \<and>
           \<not> m_packet_in f' \<and> map entry (adds es) = [(prio, fs, m_cookie f, ApplyActions as)]"
  using assms
  by (auto simp: flow_packet_out_at_def flow_install_def ready_def disposable_def install_msgs_def actions_def
      consumed_def setState_def conn_send_def flow_rule_def flow_packet_out_def entry_def same_flow_def Let_def)

subsection \<open>Installing a list of rules\<close>

definition kept :: "FlowImpl \<Rightarrow> FlowImpl \<Rightarrow> bool" where
  "kept f g \<longleftrightarrow> same_flow f g \<and> (ready g \<longleftrightarrow> ready f) \<and> (m_state g = m_state f \<or> m_state g = Active \<and> m_packet_in f)"

lemma kept_refl [simp]: "kept f f"
  by (simp add: kept_def)

definition scope_kept :: "SwitchScope \<Rightarrow> SwitchScope \<Rightarrow> bool" where
  "scope_kept s s' \<longleftrightarrow>
     sc_dpid s' = sc_dpid s \<and> sc_live s' = sc_live s \<and> sc_tree s' = sc_tree s \<and> sc_pipeline s' = sc_pipeline s \<and>
     sc_handler_table s' = sc_handler_table s \<and> sc_flood s' = sc_flood s \<and> miss_number s' = miss_number s \<and>
     (\<forall>n. rel_option kept (sc_flow n s) (sc_flow n s'))"

lemma kept_trans: "kept f g \<Longrightarrow> kept g h \<Longrightarrow> kept f h"
  by (auto simp: kept_def ready_def intro: same_flow_trans)

lemma scope_kept_refl [simp]: "scope_kept s s"
  by (simp add: scope_kept_def option.rel_refl)

lemma scope_kept_trans: "scope_kept a b \<Longrightarrow> scope_kept b c \<Longrightarrow> scope_kept a c"
  unfolding scope_kept_def
  by (elim conjE, intro conjI; (simp only: )?) (metis (mono_tags, lifting) kept_trans option.rel_transp transpD transpI)

lemma unat_of_nat_u64 [simp]: "m < 18446744073709551616 \<Longrightarrow> unat (of_nat m :: u64) = m"
  by (simp add: unat_of_nat take_bit_nat_eq_self)

lemma unat_u64_lt [simp]: "unat (c :: u64) < 18446744073709551616"
  using unat_u64 [of c] by simp

lemma sc_flow_put:
  assumes "sc_flow n s \<noteq> None" "m_cookie f = of_nat n"
  shows "sc_flow m (put_flow n f s) = (if m = n then Some f else sc_flow m s)"
    and "miss_number (put_flow n f s) = miss_number s"
proof -
  have n: "n < 18446744073709551616" using assms(1) by (auto simp: sc_flow_def miss_number_def split: if_splits)
  then have u: "unat (of_nat n :: u64) = n" by simp
  show mn: "miss_number (put_flow n f s) = miss_number s" using assms(2) u by (simp add: put_flow_def miss_number_def)
  have "of_nat m = (of_nat n :: u64) \<longleftrightarrow> m = n" if m: "m < 18446744073709551616"
  proof -
    have "unat (of_nat m :: u64) = m" using m by simp
    then show ?thesis using u by metis
  qed
  then show "sc_flow m (put_flow n f s) = (if m = n then Some f else sc_flow m s)"
    unfolding sc_flow_def mn using n by (simp add: put_flow_def)
qed

lemma put_flow_frame [simp]:
  "sc_dpid (put_flow n f s) = sc_dpid s" "sc_live (put_flow n f s) = sc_live s" "sc_tree (put_flow n f s) = sc_tree s"
  "sc_pipeline (put_flow n f s) = sc_pipeline s" "sc_handler_table (put_flow n f s) = sc_handler_table s"
  "sc_flood (put_flow n f s) = sc_flood s"
  by (simp_all add: put_flow_def)

lemma sc_tree_frame [simp]:
  "miss_number (s\<lparr>sc_tree := T\<rparr>) = miss_number s" "sc_flow n (s\<lparr>sc_tree := T\<rparr>) = sc_flow n s"
  by (simp_all add: miss_number_def sc_flow_def)

definition cookies_ok :: "SwitchScope \<Rightarrow> bool" where
  "cookies_ok s \<longleftrightarrow> (\<forall>n f. sc_flow n s = Some f \<longrightarrow> m_cookie f = of_nat n)"

lemma cookies_okD: "cookies_ok s \<Longrightarrow> sc_flow n s = Some f \<Longrightarrow> m_cookie f = of_nat n"
  by (simp add: cookies_ok_def)

definition installable :: "FlowImpl \<Rightarrow> bool" where
  "installable f \<longleftrightarrow> ready f \<longrightarrow> \<not> disposable f \<and> (\<exists>as. actions f = Inr as)"

definition rule_entries :: "SwitchScope \<Rightarrow> rule \<Rightarrow> (u16 \<times> field_set \<times> u64 \<times> instruction) list" where
  "rule_entries s ru =
     (case sc_flow (target ru) s of
        None \<Rightarrow> []
      | Some f \<Rightarrow> if ready f then (case actions f of Inl _ \<Rightarrow> [] | Inr as \<Rightarrow> [(priority ru, match ru, m_cookie f, ApplyActions as)])
                  else [])"

lemma scope_keptD:
  assumes "scope_kept s s'" "sc_flow n s = Some f"
  obtains g where "sc_flow n s' = Some g" "kept f g"
  using assms unfolding scope_kept_def by (metis option_rel_Some1)

lemma kept_installable: "kept f g \<Longrightarrow> installable f \<Longrightarrow> installable g"
  unfolding kept_def installable_def using actions_same [of f g] by (auto simp: same_flow_def disposable_def)

lemma scope_kept_cookies: "scope_kept s s' \<Longrightarrow> cookies_ok s \<Longrightarrow> cookies_ok s'"
  unfolding scope_kept_def cookies_ok_def by (metis kept_def same_flow_def option_rel_Some2)

lemma rule_entries_kept: "scope_kept s s' \<Longrightarrow> rule_entries s' = rule_entries s"
proof (rule ext)
  fix ru :: rule
  assume k: "scope_kept s s'"
  then have "rel_option kept (sc_flow (target ru) s) (sc_flow (target ru) s')" by (simp add: scope_kept_def)
  then show "rule_entries s' ru = rule_entries s ru"
  proof (cases rule: option.rel_cases)
    case (Some f g)
    then have "actions g = actions f" "m_cookie g = m_cookie f" "ready g = ready f"
      by (auto simp: kept_def same_flow_def actions_def)
    then show ?thesis using Some by (simp add: rule_entries_def split: sum.split)
  qed (simp add: rule_entries_def)
qed

lemma put_flow_kept:
  assumes "cookies_ok s" "sc_flow n s = Some f" "kept f g"
  shows "scope_kept s (put_flow n g s)"
proof -
  have "m_cookie g = of_nat n" using assms by (simp add: kept_def same_flow_def cookies_ok_def)
  then have "sc_flow m (put_flow n g s) = (if m = n then Some g else sc_flow m s)"
      "miss_number (put_flow n g s) = miss_number s" for m
    using sc_flow_put [of n s g] assms(2) by auto
  then show ?thesis using assms by (simp add: scope_kept_def option.rel_refl)
qed

lemma backend_install_ok:
  assumes "sc_live s" "cookies_ok s" "sc_flow (target ru) s = Some f" "installable f"
  shows "\<exists>s' es. backend_install (priority ru) (match ru) (target ru) s = (s', es, None) \<and> scope_kept s s' \<and>
           map entry (adds es) = rule_entries s ru \<and> (ready f \<longrightarrow> (\<exists>g. sc_flow (target ru) s' = Some g \<and> m_state g = Active)) \<and>
           (\<forall>n. n \<noteq> target ru \<longrightarrow> sc_flow n s' = sc_flow n s)"
proof (cases "ready f")
  case False
  let ?g = "f\<lparr>m_priority := priority ru, m_match := match ru\<rparr>"
  have "kept f ?g" by (simp add: kept_def same_flow_def ready_def)
  moreover have "sc_flow n (put_flow (target ru) ?g s) = sc_flow n s" if "n \<noteq> target ru" for n
    using that assms(3) cookies_okD [OF assms(2,3)] by (simp add: sc_flow_put)
  ultimately show ?thesis using assms False put_flow_kept [OF assms(2,3)]
    by (simp add: backend_install_def flow_packet_out_unready rule_entries_def)
next
  case True
  then obtain as where as: "\<not> disposable f" "actions f = Inr as" using assms(4) by (auto simp: installable_def)
  obtain g es where g: "flow_packet_out_at True (priority ru) (match ru) f = (g, es, None)" "same_flow f g"
      "m_state g = Active" "\<not> m_packet_in g" "map entry (adds es) = [(priority ru, match ru, m_cookie f, ApplyActions as)]"
    using flow_packet_out_ready [OF True as, of "priority ru" "match ru"] by auto
  have k: "kept f g" using g True by (auto simp: kept_def ready_def)
  have "m_cookie g = of_nat (target ru)" using g(2) cookies_okD [OF assms(2,3)] by (simp add: same_flow_def)
  then have "sc_flow n (put_flow (target ru) g s) = (if n = target ru then Some g else sc_flow n s)" for n
    using assms(3) by (simp add: sc_flow_put)
  then show ?thesis using assms g as True put_flow_kept [OF assms(2,3) k]
    by (simp add: backend_install_def rule_entries_def)
qed

lemma install_rules_ok:
  assumes "sc_live s" "cookies_ok s" "\<And>ru. ru \<in> set rules \<Longrightarrow> \<exists>f. sc_flow (target ru) s = Some f \<and> installable f"
  shows "\<exists>s' es. install_rules rules s = (s', es, None) \<and> scope_kept s s' \<and>
           map entry (adds es) = concat (map (rule_entries s) rules) \<and>
           (\<forall>ru f. ru \<in> set rules \<longrightarrow> sc_flow (target ru) s = Some f \<longrightarrow> ready f \<longrightarrow>
              (\<exists>g. sc_flow (target ru) s' = Some g \<and> m_state g = Active)) \<and>
           (\<forall>n. n \<notin> target ` set rules \<longrightarrow> sc_flow n s' = sc_flow n s)"
  using assms
proof (induction rules arbitrary: s)
  case (Cons ru rules)
  obtain f where f: "sc_flow (target ru) s = Some f" "installable f" using Cons.prems(3) by auto
  obtain s1 es1 where 1: "backend_install (priority ru) (match ru) (target ru) s = (s1, es1, None)" "scope_kept s s1"
      "map entry (adds es1) = rule_entries s ru" "ready f \<Longrightarrow> \<exists>g. sc_flow (target ru) s1 = Some g \<and> m_state g = Active"
      "\<And>n. n \<noteq> target ru \<Longrightarrow> sc_flow n s1 = sc_flow n s"
    using backend_install_ok [OF Cons.prems(1,2) f] by blast
  have live: "sc_live s1" using 1(2) Cons.prems(1) by (simp add: scope_kept_def)
  have inst: "\<exists>f. sc_flow (target ru') s1 = Some f \<and> installable f" if "ru' \<in> set rules" for ru'
    using Cons.prems(3) [of ru'] that scope_keptD [OF 1(2)] kept_installable by (metis list.set_intros(2))
  obtain s2 es2 where 2: "install_rules rules s1 = (s2, es2, None)" "scope_kept s1 s2"
      "map entry (adds es2) = concat (map (rule_entries s1) rules)"
      "\<And>ru f. ru \<in> set rules \<Longrightarrow> sc_flow (target ru) s1 = Some f \<Longrightarrow> ready f \<Longrightarrow> \<exists>g. sc_flow (target ru) s2 = Some g \<and> m_state g = Active"
      "\<And>n. n \<notin> target ` set rules \<Longrightarrow> sc_flow n s2 = sc_flow n s1"
    using Cons.IH [OF live scope_kept_cookies [OF 1(2) Cons.prems(2)] inst] by blast
  have act: "\<exists>g. sc_flow n s2 = Some g \<and> m_state g = Active" if "sc_flow n s1 = Some g" "m_state g = Active" for n g
    using scope_keptD [OF 2(2) that(1)] that(2) unfolding kept_def by metis
  have "\<exists>g. sc_flow (target ru') s2 = Some g \<and> m_state g = Active"
    if r: "ru' \<in> set (ru # rules)" "sc_flow (target ru') s = Some f'" "ready f'" for ru' f'
  proof (cases "ru' \<in> set rules")
    case True
    obtain g where "sc_flow (target ru') s1 = Some g" "kept f' g" using scope_keptD [OF 1(2) r(2)] .
    then show ?thesis using 2(4) [OF True] r(3) by (auto simp: kept_def)
  next
    case False
    then show ?thesis using r f 1(4) act by auto
  qed
  then show ?case using 1 2 scope_kept_trans [OF 1(2) 2(2)] by (simp add: rule_entries_kept [OF 1(2)])
qed simp

subsection \<open>The flows of a tree\<close>

fun leaves :: "node \<Rightarrow> nat set" and case_leaves :: "(int \<times> node) list \<Rightarrow> nat set" where
  "leaves Unexplored = {}"
| "leaves (FlowNode f) = {f}"
| "leaves (TestNode n P N) = leaves P \<union> leaves N"
| "leaves (LoadNode m cases) = case_leaves cases"
| "case_leaves [] = {}"
| "case_leaves ((v, n) # cases) = leaves n \<union> case_leaves cases"

lemma case_leaves_append [simp]: "case_leaves (a @ b) = case_leaves a \<union> case_leaves b"
  by (induction a) auto

lemma case_leaves_in: "(v, n) \<in> set cases \<Longrightarrow> leaves n \<subseteq> case_leaves cases"
  by (induction cases) auto

lemma put_case_leaves: "case_leaves (put_case v n cases) \<subseteq> case_leaves cases \<union> leaves n"
proof -
  have "case_leaves (map (\<lambda>(w, o'). if w = v then (w, n) else (w, o')) cases) \<subseteq> case_leaves cases \<union> leaves n"
    by (induction cases) (auto split: if_splits)
  then show ?thesis by (simp add: put_case_def split: option.split)
qed

lemma node_at_leaves: "node_at bs T = Some n \<Longrightarrow> leaves n \<subseteq> leaves T"
  by (induction bs T rule: node_at.induct) (fastforce dest: map_of_SomeD case_leaves_in split: option.splits)+

lemma update_at_leaves: "leaves (update_at bs x T) \<subseteq> leaves T \<union> leaves x"
proof (induction bs x T rule: update_at.induct)
  case (4 v bs x m cases)
  show ?case
  proof (cases "map_of cases v")
    case (Some n)
    then have "leaves n \<subseteq> case_leaves cases" by (auto dest: map_of_SomeD case_leaves_in)
    then show ?thesis using 4 [OF Some] Some put_case_leaves [of v "update_at bs x n" cases] by auto
  qed simp
qed auto

lemma put_node_leaves: "leaves (root (put_node x t)) \<subseteq> leaves (root t) \<union> leaves x"
  by (simp add: put_node_def update_at_leaves)

lemma tracer_load_leaves: "tracer_load d t = Inr t' \<Longrightarrow> leaves (root t') \<subseteq> leaves (root t)"
  using put_node_leaves [of _ t] node_at_leaves [of "path t" "root t"]
  by (auto simp: tracer_load_def node_push_def split: option.splits node.splits if_splits) fastforce+

lemma tracer_test_leaves: "tracer_test d b t = Inr t' \<Longrightarrow> leaves (root t') \<subseteq> leaves (root t)"
  using put_node_leaves [of _ t]
  by (auto simp: tracer_test_def node_push_def split: option.splits node.splits if_splits) fastforce+

lemma tracer_finish_leaves: "tracer_finish f t = Inr t' \<Longrightarrow> leaves (root t') \<subseteq> insert f (leaves (root t))"
  using put_node_leaves [of "FlowNode f" t]
  by (auto simp: tracer_finish_def split: option.splits node.splits)

lemma run_traced_leaves: "run_traced p t = Inr (d, t') \<Longrightarrow> leaves (root (tr t')) \<subseteq> leaves (root (tr t))"
proof (induction p arbitrary: t)
  case (Load m k)
  then obtain r t1 where t1: "tp_load m t = Inr (r, t1)" "run_traced (k r) t1 = Inr (d, t')" by auto
  then have "leaves (root (tr t1)) \<subseteq> leaves (root (tr t))"
    by (auto simp: tp_load_def split: if_splits dest!: tracer_load_leaves)
  then show ?case using Load.IH [OF rangeI t1(2)] by blast
next
  case (Test f k)
  then obtain b t1 where t1: "tp_test f t = Inr (b, t1)" "run_traced (k b) t1 = Inr (d, t')" by auto
  then have "leaves (root (tr t1)) \<subseteq> leaves (root (tr t))"
    by (auto simp: tp_test_def split: if_splits dest!: tracer_test_leaves)
  then show ?case using Test.IH [OF rangeI t1(2)] by blast
next
  case (Modify f p)
  then obtain t1 where "tp_modify f t = Inr t1" "run_traced p t1 = Inr (d, t')" by auto
  then show ?case using Modify.IH by (fastforce simp: tp_modify_def)
qed simp

lemma compile_targets:
  "compile alive b T c = Inr c' \<Longrightarrow> ru \<in> set (c_rules c') \<Longrightarrow>
     ru \<in> set (c_rules c) \<or> target ru = b \<or> target ru \<in> leaves T \<and> alive (target ru)"
  "compile_cases alive b m cases c = Inr c' \<Longrightarrow> ru \<in> set (c_rules c') \<Longrightarrow>
     ru \<in> set (c_rules c) \<or> target ru = b \<or> target ru \<in> case_leaves cases \<and> alive (target ru)"
proof (induction alive b T c and alive b m cases c arbitrary: c' and c' rule: compile_compile_cases.induct)
  case (2 alive barrier need positive negative c)
  then show ?case by (fastforce simp: install_def)
next
  case (4 alive barrier f c)
  then show ?case by (auto simp: install_def split: if_splits)
next
  case (6 alive barrier m v n cases c)
  then show ?case by fastforce
qed auto

subsection \<open>The invariant\<close>

abbreviation scope_runtime :: "SwitchScope \<Rightarrow> (nat \<Rightarrow> Decision option) \<Rightarrow> Runtime" where
  "scope_runtime s D \<equiv> \<lparr>trace_tree = sc_tree s, flow_decision = D\<rparr>"

abbreviation sc_policy :: "SwitchScope \<Rightarrow> policy" where
  "sc_policy s \<equiv> process (sc_pipeline s)"

definition flow_inv :: "(nat \<Rightarrow> Decision option) \<Rightarrow> SwitchScope \<Rightarrow> nat \<Rightarrow> FlowImpl \<Rightarrow> bool" where
  "flow_inv D s n f \<longleftrightarrow> D n \<in> {None, Some (m_decision f)} \<and> m_flood f = sc_flood s \<and> m_table f = sc_handler_table s"

definition scope_inv :: "u64 \<Rightarrow> (nat \<Rightarrow> Decision option) \<Rightarrow> SwitchScope \<Rightarrow> bool" where
  "scope_inv next D s \<longleftrightarrow>
     runtime_ok (sc_policy s) (scope_runtime s D) \<and>
     (\<forall>n \<in> leaves (sc_tree s). \<exists>d. D n = Some d \<and> kind d \<noteq> Undefined \<and> idle_timeout d \<noteq> 0) \<and>
     cookies_ok s \<and> \<not> ready (sc_miss s) \<and> D (miss_number s) = None \<and>
     (\<forall>n f. sc_flow n s = Some f \<longrightarrow> n \<noteq> miss_number s \<longrightarrow> flow_inv D s n f) \<and>
     (\<forall>n. D n \<noteq> None \<or> sc_flow n s \<noteq> None \<longrightarrow> n < unat next) \<and> COOKIE_BASE \<le> next"

lemma sc_flow_miss [simp]: "sc_flow (miss_number s) s = Some (sc_miss s)"
  by (simp add: sc_flow_def)

lemma scope_invD:
  assumes "scope_inv next D s"
  shows "runtime_ok (sc_policy s) (scope_runtime s D)" "cookies_ok s" "\<not> ready (sc_miss s)" "D (miss_number s) = None"
    "n \<in> leaves (sc_tree s) \<Longrightarrow> \<exists>d. D n = Some d \<and> kind d \<noteq> Undefined \<and> idle_timeout d \<noteq> 0"
    "sc_flow n s = Some f \<Longrightarrow> n \<noteq> miss_number s \<Longrightarrow> flow_inv D s n f"
    "D n \<noteq> None \<or> sc_flow n s \<noteq> None \<Longrightarrow> n < unat next" "COOKIE_BASE \<le> next"
  using assms unfolding scope_inv_def by blast+

lemma scope_inv_kept:
  assumes "scope_inv next D s" "scope_kept s s'"
  shows "scope_inv next D s'"
proof -
  note i = scope_invD [OF assms(1)] and k = assms(2) [unfolded scope_kept_def]
  have r: "rel_option kept (sc_flow n s) (sc_flow n s')" for n using k by blast
  have miss: "\<not> ready (sc_miss s')"
    using r [of "miss_number s"] i(3) k sc_flow_miss [of s'] by (auto simp: kept_def)
  have flow: "flow_inv D s' n g" if g: "sc_flow n s' = Some g" "n \<noteq> miss_number s'" for n g
  proof -
    obtain f where "sc_flow n s = Some f" "kept f g" using r [of n] g(1) by (auto simp: option_rel_Some2)
    then show ?thesis using i(6) [of n f] g(2) k by (auto simp: flow_inv_def kept_def same_flow_def)
  qed
  have "sc_flow n s' \<noteq> None \<longleftrightarrow> sc_flow n s \<noteq> None" for n using r [of n] by (cases rule: option.rel_cases) auto
  then show ?thesis
    using assms(1) miss flow k scope_kept_cookies [OF assms(2) i(2)] unfolding scope_inv_def by (metis (no_types))
qed

lemma leaf_installable:
  assumes "scope_inv next D s" "n \<in> leaves (sc_tree s)" "sc_flow n s = Some f"
  shows "\<not> disposable f" "\<exists>out. DecisionCompiler (m_flood f) (kind (m_decision f)) = Inr out \<and>
           actions f = Inr (map SetFieldAction (m_mods f) @ out)" "D n = Some (m_decision f)"
proof -
  obtain d where d: "D n = Some d" "kind d \<noteq> Undefined" "idle_timeout d \<noteq> 0" using scope_invD(5) [OF assms(1,2)] by blast
  then have "n \<noteq> miss_number s" using scope_invD(4) [OF assms(1)] by auto
  then have "flow_inv D s n f" using scope_invD(6) [OF assms(1,3)] by simp
  then show dn: "D n = Some (m_decision f)" using d(1) by (simp add: flow_inv_def)
  show "\<not> disposable f" using dn d by (simp add: disposable_def)
  show "\<exists>out. DecisionCompiler (m_flood f) (kind (m_decision f)) = Inr out \<and> actions f = Inr (map SetFieldAction (m_mods f) @ out)"
    using dn d by (cases "kind (m_decision f)") (auto simp: actions_def DecisionCompiler_def)
qed

lemma commit_targets:
  assumes "scope_inv next D s" "commit (sc_alive s) (miss_number s) (scope_runtime s D') = Inr rules" "ru \<in> set rules"
  shows "target ru = miss_number s \<or> target ru \<in> leaves (sc_tree s)" "\<exists>f. sc_flow (target ru) s = Some f \<and> installable f"
proof -
  have t: "target ru = miss_number s \<or> target ru \<in> leaves (sc_tree s) \<and> sc_alive s (target ru)"
    using assms(2,3) compile_targets(1) [of "sc_alive s" "miss_number s" "sc_tree s"] by (fastforce simp: commit_def)
  then show "target ru = miss_number s \<or> target ru \<in> leaves (sc_tree s)" by blast
  show "\<exists>f. sc_flow (target ru) s = Some f \<and> installable f"
  proof (cases "target ru = miss_number s")
    case True
    then show ?thesis using scope_invD(3) [OF assms(1)] by (simp add: installable_def)
  next
    case False
    then obtain f where f: "sc_flow (target ru) s = Some f" "target ru \<in> leaves (sc_tree s)" using t by (auto simp: sc_alive_def)
    then show ?thesis using leaf_installable(1,2) [OF assms(1) f(2,1)] by (auto simp: installable_def)
  qed
qed

lemma commit_decisions: "commit alive b (scope_runtime s D) = commit alive b (scope_runtime s D')"
  by (simp add: commit_def)

lemma sc_commit_ok:
  assumes inv: "scope_inv next D s" and live: "sc_live s" and wf: "wf_policy (sc_policy s)"
  shows "\<exists>s' es rules. sc_commit s = (s', es, None) \<and> scope_kept s s' \<and>
           take 2 es = [Sent (backend_remove (sc_handler_table s) []), Sent BarrierRequest] \<and>
           commit (sc_alive s) (miss_number s) (scope_runtime s D) = Inr rules \<and>
           map entry (adds es) = concat (map (rule_entries s) rules) \<and>
           (\<forall>ru f. ru \<in> set rules \<longrightarrow> sc_flow (target ru) s = Some f \<longrightarrow> ready f \<longrightarrow>
              (\<exists>g. sc_flow (target ru) s' = Some g \<and> m_state g = Active))"
proof -
  obtain rules where rules: "commit (sc_alive s) (miss_number s) (scope_runtime s D) = Inr rules"
    using commit_ok [OF scope_invD(1) [OF inv] wf] by blast
  obtain s' es where s': "install_rules rules s = (s', es, None)" "scope_kept s s'"
      "map entry (adds es) = concat (map (rule_entries s) rules)"
      "\<And>ru f. ru \<in> set rules \<Longrightarrow> sc_flow (target ru) s = Some f \<Longrightarrow> ready f \<Longrightarrow>
              (\<exists>g. sc_flow (target ru) s' = Some g \<and> m_state g = Active)"
    using install_rules_ok [OF live scope_invD(2) [OF inv] commit_targets(2) [OF inv rules]] by metis
  have "sc_live s'" using s'(2) live by (simp add: scope_kept_def)
  moreover have "commit (sc_alive s) (miss_number s) \<lparr>trace_tree = sc_tree s, flow_decision = (\<lambda>_. None)\<rparr> = Inr rules"
    using rules by (simp add: commit_def)
  ultimately show ?thesis using s' rules live
    by (auto simp: sc_commit_def send_def conn_send_def backend_barrier_def backend_remove_def)
qed

subsection \<open>Exploring a packet\<close>

lemma run_bare_plain: "snd (run_bare p q) = run_plain p q"
  by (induction p arbitrary: q) (auto split: sum.split)

lemma tp_load_field: "tp_load m t = Inr (r, t') \<Longrightarrow> wf_mask m \<Longrightarrow> wf_field r \<and> f_type r = m_type m \<and> f_mask r = m_bits m"
  by (auto simp: tp_load_def pkt_load_ok wf_pick split: option.splits if_splits)

lemma run_tracked_ok:
  "run_traced p t = Inr (d, t') \<Longrightarrow> wf_policy p \<Longrightarrow> wf_set ms \<Longrightarrow> \<exists>ms'. run_tracked p t ms = (t', ms', Inr d)"
proof (induction p arbitrary: t ms)
  case (Load m k)
  then obtain r t1 where t1: "tp_load m t = Inr (r, t1)" "run_traced (k r) t1 = Inr (d, t')" by auto
  then show ?case using Load.IH [OF rangeI t1(2)] Load.prems tp_load_field [OF t1(1)] by simp
next
  case (Test f k)
  then obtain b t1 where t1: "tp_test f t = Inr (b, t1)" "run_traced (k b) t1 = Inr (d, t')" by auto
  then show ?case using Test.IH [OF rangeI t1(2)] Test.prems by simp
next
  case (Modify f p)
  then obtain t1 where t1: "tp_modify f t = Inr t1" "run_traced p t1 = Inr (d, t')" by auto
  obtain ms1 where "fs_modify f ms = Inr ms1" "wf_set ms1" using fs_modify_ok [of ms f] Modify.prems by auto
  then show ?case using Modify.IH [OF t1(2)] t1(1) Modify.prems by simp
qed auto

definition explored :: "Decision \<Rightarrow> packet \<Rightarrow> FlowImpl \<Rightarrow> FlowImpl" where
  "explored d q f = f\<lparr>m_packet_data := map_option (\<lambda>_. q) (m_packet_data f), m_decision := d\<rparr>"

text \<open>
  The tree after a packet is the one the runtime's \<open>augment\<close> makes, the flow's set-field actions are the modifications of
  the run.
\<close>

definition tracked_mods :: "packet \<Rightarrow> SwitchScope \<Rightarrow> field_set" where
  "tracked_mods q s =
     fst (snd (run_tracked (sc_policy s) \<lparr>pkt = q, cache = [], tr = \<lparr>root = sc_tree s, path = []\<rparr>\<rparr> []))"

definition augmented_tree :: "packet \<Rightarrow> nat \<Rightarrow> SwitchScope \<Rightarrow> node \<Rightarrow> bool" where
  "augmented_tree q n s T \<longleftrightarrow>
     map_sum id trace_tree (augment (sc_policy s) (\<lambda>d. idle_timeout d = 0) q n (scope_runtime s (\<lambda>_. None))) = Inr T"

definition augmented :: "packet \<Rightarrow> nat \<Rightarrow> SwitchScope \<Rightarrow> SwitchScope \<Rightarrow> bool" where
  "augmented q n s s' \<longleftrightarrow> augmented_tree q n s (sc_tree s') \<and> (\<forall>g. sc_flow n s' = Some g \<longrightarrow> m_mods g = tracked_mods q s)"

lemma augmentedI:
  "augment (sc_policy s) (\<lambda>d. idle_timeout d = 0) q n (scope_runtime s D) = Inr r \<Longrightarrow> augmented_tree q n s (trace_tree r)"
  by (auto simp: augmented_tree_def augment_def Let_def split: if_splits)

lemma sc_augment_ok:
  assumes inv: "scope_inv next D s" and wf: "wf_policy (sc_policy s)" and d: "run_plain (sc_policy s) q = Inr d"
    and f: "sc_flow n s = Some f" "n \<noteq> miss_number s" "D n \<in> {None, Some d}"
  shows "\<exists>T ms q'. sc_augment q n s = (put_flow n (explored d q' f) (s\<lparr>sc_tree := T\<rparr>), ms, None) \<and>
           runtime_ok (sc_policy s) \<lparr>trace_tree = T, flow_decision = D(n \<mapsto> d)\<rparr> \<and>
           leaves T \<subseteq> leaves (sc_tree s) \<union> (if idle_timeout d = 0 then {} else {n}) \<and>
           (idle_timeout d \<noteq> 0 \<longrightarrow> (\<forall>alive. lookup alive q T = Inr (if alive n then Some n else None))) \<and>
           augmented_tree q n s T \<and> ms = tracked_mods q s"
proof -
  let ?r = "scope_runtime s D" and ?dis = "\<lambda>d. idle_timeout d = 0"
  let ?t = "\<lparr>pkt = q, cache = [], tr = \<lparr>root = sc_tree s, path = []\<rparr>\<rparr>"
  have ex: "\<exists>r'. augment (sc_policy s) ?dis q n ?r = Inr r' \<and> runtime_ok (sc_policy s) r' \<and> flow_decision r' = D(n \<mapsto> d) \<and>
       (\<not> ?dis d \<longrightarrow> lookup alive q (trace_tree r') = Inr (if alive n then Some n else None))" for alive
    using augment_ok [OF scope_invD(1) [OF inv] wf d, of n ?dis alive] f(3) by simp
  then obtain r' where r': "augment (sc_policy s) ?dis q n ?r = Inr r'" "runtime_ok (sc_policy s) r'" "flow_decision r' = D(n \<mapsto> d)"
    by blast
  have lk: "\<not> ?dis d \<Longrightarrow> lookup alive q (trace_tree r') = Inr (if alive n then Some n else None)" for alive
    using ex [of alive] r'(1) by auto
  obtain d' t where t: "run_traced (sc_policy s) ?t = Inr (d', t)" "flow_decision r' = D(n \<mapsto> d')"
      "if ?dis d' then trace_tree r' = root (tr t) else \<exists>u. tracer_finish n (tr t) = Inr u \<and> trace_tree r' = root u"
    using r'(1) by (auto simp: augment_def Let_def split: if_splits)
  have "d' = d" using t(2) r'(3) by (metis fun_upd_same option.inject)
  note t = t [unfolded this]
  obtain ms where ms: "run_tracked (sc_policy s) ?t [] = (t, ms, Inr d)"
    using run_tracked_ok [OF t(1) wf, of "[]"] by (auto simp: wf_set_def)
  have lv: "leaves (root (tr t)) \<subseteq> leaves (sc_tree s)" using run_traced_leaves [OF t(1)] by simp
  have rok: "runtime_ok (sc_policy s) \<lparr>trace_tree = trace_tree r', flow_decision = D(n \<mapsto> d)\<rparr>"
    using r'(2,3) by (simp add: runtime_ok_def)
  have sf: "sc_flow n (s\<lparr>sc_tree := T\<rparr>) = Some f" for T using f(1) by simp
  show ?thesis
  proof (cases "?dis d")
    case True
    then show ?thesis using t lv rok ms sf augmentedI [OF r'(1)]
      by (intro exI [of _ "trace_tree r'"] exI [of _ ms] exI [of _ "pkt t"])
        (simp add: sc_augment_def Let_def flow_decision_set_def disposable_def explored_def tracked_mods_def)
  next
    case False
    then obtain u where u: "tracer_finish n (tr t) = Inr u" "trace_tree r' = root u" using t(3) by auto
    have "leaves (trace_tree r') \<subseteq> leaves (sc_tree s) \<union> {n}" using tracer_finish_leaves [OF u(1)] lv u(2) by auto
    then show ?thesis using False u rok ms sf lk augmentedI [OF r'(1)]
      by (intro exI [of _ "trace_tree r'"] exI [of _ ms] exI [of _ "pkt t"])
        (simp add: sc_augment_def Let_def flow_decision_set_def disposable_def explored_def put_flow_def miss_number_def tracked_mods_def)
  qed
qed

subsection \<open>What the switch does with the rules that were sent\<close>

definition top_add :: "packet \<Rightarrow> flow_add list \<Rightarrow> flow_add \<Rightarrow> bool" where
  "top_add q as fa \<longleftrightarrow> fa \<in> set as \<and> set_matches q (fa_match fa) \<and>
     (\<forall>fb \<in> set as. set_matches q (fa_match fb) \<longrightarrow> entry fb = entry fa \<or> fa_priority fb < fa_priority fa)"

text \<open>The rules send the packets of every active flow the tree knows where the policy wants them.\<close>

definition serves :: "SwitchScope \<Rightarrow> flow_add list \<Rightarrow> bool" where
  "serves s as \<longleftrightarrow> (\<forall>q d n f.
     run_plain (sc_policy s) q = Inr d \<longrightarrow> lookup (sc_alive s) q (sc_tree s) = Inr (Some n) \<longrightarrow>
     sc_flow n s = Some f \<longrightarrow> m_state f = Active \<longrightarrow>
     (\<exists>fa out. top_add q as fa \<and> fa_cookie fa = m_cookie f \<and> DecisionCompiler (sc_flood s) (kind d) = Inr out \<and>
        fa_instruction fa = ApplyActions (map SetFieldAction (m_mods f) @ out)))"

lemma entries_rule:
  assumes "e \<in> set (rule_entries s ru)"
  shows "fst e = priority ru \<and> fst (snd e) = match ru"
proof (cases "sc_flow (target ru) s")
  case (Some f)
  show ?thesis
  proof (cases "actions f")
    case (Inr as)
    then have "e = (priority ru, match ru, m_cookie f, ApplyActions as)"
      using assms Some by (cases "ready f") (simp_all add: rule_entries_def)
    then show ?thesis by simp
  next
    case (Inl x)
    then have "rule_entries s ru = []" using Some by (cases "ready f") (simp_all add: rule_entries_def)
    then show ?thesis using assms by simp
  qed
qed (use assms in \<open>simp add: rule_entries_def\<close>)

lemma top_rule_top_add:
  assumes "top_rule q rules ru" "map entry as = concat (map (rule_entries s) rules)" "rule_entries s ru = [e]"
  shows "\<exists>fa. top_add q as fa \<and> entry fa = e"
proof -
  have set: "entry ` set as = (\<Union>ru \<in> set rules. set (rule_entries s ru))" using arg_cong [OF assms(2), of set] by simp
  have ru: "ru \<in> set rules" "rule_matches q ru"
    and top: "\<And>ru'. ru' \<in> set rules \<Longrightarrow> rule_matches q ru' \<Longrightarrow> ru' = ru \<or> priority ru' < priority ru"
    using assms(1) by (auto simp: top_rule_def)
  obtain fa where fa: "fa \<in> set as" "entry fa = e" using set ru(1) assms(3) by force
  have e: "fst e = priority ru" "fst (snd e) = match ru" using entries_rule [of e s ru] assms(3) by auto
  have "entry fb = e \<or> fa_priority fb < fa_priority fa" if fb: "fb \<in> set as" "set_matches q (fa_match fb)" for fb
  proof -
    obtain ru' where ru': "ru' \<in> set rules" "entry fb \<in> set (rule_entries s ru')" using set fb(1) by blast
    then have "fa_priority fb = priority ru'" "fa_match fb = match ru'" using entries_rule [OF ru'(2)] by (auto simp: entry_def)
    moreover from this have "rule_matches q ru'" using fb(2) by (simp add: rule_matches_def)
    moreover have "fa_priority fa = priority ru" using e fa(2) by (auto simp: entry_def)
    ultimately show ?thesis using top [OF ru'(1)] ru' assms(3) by auto
  qed
  moreover have "set_matches q (fa_match fa)" using e fa(2) ru(2) by (auto simp: entry_def rule_matches_def)
  ultimately show ?thesis using fa by (auto simp: top_add_def)
qed

lemma scope_kept_alive: "scope_kept s s' \<Longrightarrow> sc_alive s' = sc_alive s"
proof (rule ext)
  fix n assume "scope_kept s s'"
  then have "rel_option kept (sc_flow n s) (sc_flow n s')" by (simp add: scope_kept_def)
  then show "sc_alive s' n = sc_alive s n" by (cases rule: option.rel_cases) (auto simp: sc_alive_def)
qed

lemma commit_serves:
  assumes inv: "scope_inv next D s" and wf: "wf_policy (sc_policy s)" and k: "scope_kept s s'"
    and rules: "commit (sc_alive s) (miss_number s) (scope_runtime s D) = Inr rules" "length rules \<le> 65535"
    and as: "map entry as = concat (map (rule_entries s) rules)"
  shows "serves s' as"
  unfolding serves_def
proof (intro allI impI)
  fix q d n g
  assume d: "run_plain (sc_policy s') q = Inr d" and lk: "lookup (sc_alive s') q (sc_tree s') = Inr (Some n)"
    and g: "sc_flow n s' = Some g" "m_state g = Active"
  have same: "sc_policy s' = sc_policy s" "sc_tree s' = sc_tree s" "sc_flood s' = sc_flood s" "sc_alive s' = sc_alive s"
    using k scope_kept_alive [OF k] by (simp_all add: scope_kept_def)
  obtain f where f: "sc_flow n s = Some f" "kept f g" using k g(1) unfolding scope_kept_def by (metis option_rel_Some2)
  have "ready f" using f(2) g(2) by (auto simp: kept_def ready_def)
  have found: "D n = Some d"
    using lookup_runtime_ok [OF scope_invD(1) [OF inv] wf, of q d "sc_alive s"] d lk same by auto
  have n: "n \<noteq> miss_number s" using found scope_invD(4) [OF inv] by auto
  have fi: "flow_inv D s n f" using scope_invD(6) [OF inv f(1) n] .
  have fd: "m_decision f = d" using fi found by (simp add: flow_inv_def)
  have sorted: "sorted_wrt (\<lambda>a b. priority a < priority b) rules" and v: "verdict (miss_number s) (Some n) (last_match q rules)"
    using commit_ok [OF scope_invD(1) [OF inv] wf, of "sc_alive s" "miss_number s" q] rules lk same
    by (auto intro!: priorities_sorted)
  then obtain ru where ru: "top_rule q rules ru" "target ru = n"
    using last_match_top(2) [OF sorted] by (auto simp: verdict_def)
  have leaf: "n \<in> leaves (sc_tree s)"
    using commit_targets(1) [OF inv rules(1), of ru] ru n by (auto simp: top_rule_def)
  obtain out where out: "DecisionCompiler (sc_flood s) (kind d) = Inr out" "actions f = Inr (map SetFieldAction (m_mods f) @ out)"
    using leaf_installable(2) [OF inv leaf f(1)] fi fd by (auto simp: flow_inv_def)
  then have "rule_entries s ru = [(priority ru, match ru, m_cookie f, ApplyActions (map SetFieldAction (m_mods f) @ out))]"
    using ru(2) f(1) \<open>ready f\<close> by (simp add: rule_entries_def)
  then obtain fa where "top_add q as fa" "entry fa = (priority ru, match ru, m_cookie f, ApplyActions (map SetFieldAction (m_mods f) @ out))"
    using top_rule_top_add [OF ru(1) as] by blast
  moreover have "m_cookie g = m_cookie f" "m_mods g = m_mods f" using f(2) by (auto simp: kept_def same_flow_def)
  ultimately show "\<exists>fa out. top_add q as fa \<and> fa_cookie fa = m_cookie g \<and> DecisionCompiler (sc_flood s') (kind d) = Inr out \<and>
        fa_instruction fa = ApplyActions (map SetFieldAction (m_mods g) @ out)"
    using out(1) same by (auto simp: entry_def intro!: exI [of _ fa] exI [of _ out])
qed

subsection \<open>Packets\<close>

lemma scope_inv_put:
  assumes inv: "scope_inv next D s" and f: "sc_flow n s = Some f" "n \<noteq> miss_number s" and g: "same_flow f g"
  shows "scope_inv next D (put_flow n g s)"
proof -
  note i = scope_invD [OF inv]
  have c: "m_cookie g = of_nat n" using cookies_okD [OF i(2) f(1)] g by (simp add: same_flow_def)
  have flow: "sc_flow m (put_flow n g s) = (if m = n then Some g else sc_flow m s)"
    and mn: "miss_number (put_flow n g s) = miss_number s" for m
    using sc_flow_put [of n s g] f(1) c by auto
  have miss: "sc_miss (put_flow n g s) = sc_miss s" using f(2) by (simp add: put_flow_def)
  have "flow_inv D s n g" using i(6) [OF f] g by (simp add: flow_inv_def same_flow_def)
  moreover have "cookies_ok (put_flow n g s)" using i(2) c by (simp add: cookies_ok_def flow)
  ultimately show ?thesis using i f(1) unfolding scope_inv_def flow mn miss by (auto simp: flow_inv_def)
qed

lemma scope_inv_explored:
  assumes inv: "scope_inv next D s" and f: "sc_flow n s = Some f" "n \<noteq> miss_number s" "D n \<in> {None, Some d}"
    and T: "runtime_ok (sc_policy s) \<lparr>trace_tree = T, flow_decision = D(n \<mapsto> d)\<rparr>" "kind d \<noteq> Undefined"
      "leaves T \<subseteq> leaves (sc_tree s) \<union> (if idle_timeout d = 0 then {} else {n})"
    and g: "m_cookie g = m_cookie f" "m_decision g = d" "m_flood g = m_flood f" "m_table g = m_table f"
  shows "scope_inv next (D(n \<mapsto> d)) (put_flow n g (s\<lparr>sc_tree := T\<rparr>))"
proof -
  note i = scope_invD [OF inv]
  let ?s = "put_flow n g (s\<lparr>sc_tree := T\<rparr>)"
  have c: "m_cookie g = of_nat n" using cookies_okD [OF i(2) f(1)] g(1) by simp
  have flow: "sc_flow m ?s = (if m = n then Some g else sc_flow m s)" and mn: "miss_number ?s = miss_number s" for m
    using sc_flow_put [of n "s\<lparr>sc_tree := T\<rparr>" g] f(1) c by auto
  have miss: "sc_miss ?s = sc_miss s" using f(2) by (simp add: put_flow_def)
  have "flow_inv (D(n \<mapsto> d)) s n g" using i(6) [OF f(1,2)] g by (simp add: flow_inv_def)
  then have fi: "flow_inv (D(n \<mapsto> d)) ?s m f'" if "sc_flow m ?s = Some f'" "m \<noteq> miss_number s" for m f'
    using that i(6) [of m f'] by (auto simp: flow flow_inv_def split: if_splits)
  have lv: "\<exists>d'. (D(n \<mapsto> d)) m = Some d' \<and> kind d' \<noteq> Undefined \<and> idle_timeout d' \<noteq> 0" if m: "m \<in> leaves T" for m
  proof (cases "m \<in> leaves (sc_tree s)")
    case True
    show ?thesis using i(5) [OF True] f(3) T(2) by auto
  next
    case False
    then show ?thesis using m T(2,3) by (auto split: if_splits)
  qed
  have "cookies_ok ?s" using i(2) c by (simp add: cookies_ok_def flow)
  then show ?thesis using i(3,4,7,8) f(1,2) T(1) fi lv unfolding scope_inv_def mn miss by (auto simp: flow)
qed

text \<open>What the handler leaves after a packet the policy decides.\<close>

definition scope_frame :: "SwitchScope \<Rightarrow> SwitchScope \<Rightarrow> bool" where
  "scope_frame s s' \<longleftrightarrow> sc_dpid s' = sc_dpid s \<and> sc_live s' = sc_live s \<and> sc_pipeline s' = sc_pipeline s \<and>
     sc_handler_table s' = sc_handler_table s \<and> sc_flood s' = sc_flood s \<and> miss_number s' = miss_number s"

lemma scope_frame_refl [simp]: "scope_frame s s"
  by (simp add: scope_frame_def)

lemma scope_frame_trans: "scope_frame a b \<Longrightarrow> scope_frame b c \<Longrightarrow> scope_frame a c"
  by (simp add: scope_frame_def)

lemma scope_kept_frame: "scope_kept s s' \<Longrightarrow> scope_frame s s'"
  by (simp add: scope_kept_def scope_frame_def)

text \<open>A new rule table: the packet's flow is installed and every active flow the tree knows is served.\<close>

definition committed :: "packet \<Rightarrow> nat \<Rightarrow> SwitchScope \<Rightarrow> effect list \<Rightarrow> bool" where
  "committed q n s es \<longleftrightarrow>
     take 2 es = [Sent (backend_remove (sc_handler_table s) []), Sent BarrierRequest] \<and>
     lookup (sc_alive s) q (sc_tree s) = Inr (Some n) \<and> (\<exists>g. sc_flow n s = Some g \<and> m_state g = Active) \<and>
     (\<exists>rules. commit (sc_alive s) (miss_number s) (scope_runtime s (\<lambda>_. None)) = Inr rules \<and>
        map entry (adds es) = concat (map (rule_entries s) rules) \<and> (length rules \<le> 65535 \<longrightarrow> serves s (adds es)))"

text \<open>No rule: the packet is answered and the flow forgotten.\<close>

definition answered :: "Decision \<Rightarrow> nat \<Rightarrow> SwitchScope \<Rightarrow> effect list \<Rightarrow> bool" where
  "answered d n s es \<longleftrightarrow> sc_flow n s = None \<and>
     (\<exists>po ms out. es = [Sent (PacketOut po), StateChanged Active (of_nat n)] \<and> DecisionCompiler (sc_flood s) (kind d) = Inr out \<and>
        po_actions po = map SetFieldAction ms @ out)"

lemma commit_explored:
  assumes inv: "scope_inv next D s" and live: "sc_live s" and wf: "wf_policy (sc_policy s)"
    and n: "sc_flow n s = Some f" "m_packet_in f"
    and lk: "lookup (sc_alive s) q (sc_tree s) = Inr (Some n)"
  shows "\<exists>s' es. sc_commit s = (s', es, None) \<and> scope_inv next D s' \<and> scope_frame s s' \<and> committed q n s' es \<and>
           sc_tree s' = sc_tree s \<and> (\<forall>g. sc_flow n s' = Some g \<longrightarrow> m_mods g = m_mods f)"
proof -
  obtain s' es rules where c: "sc_commit s = (s', es, None)" "scope_kept s s'"
      "take 2 es = [Sent (backend_remove (sc_handler_table s) []), Sent BarrierRequest]"
      "commit (sc_alive s) (miss_number s) (scope_runtime s D) = Inr rules"
      "map entry (adds es) = concat (map (rule_entries s) rules)"
      "\<And>ru f. ru \<in> set rules \<Longrightarrow> sc_flow (target ru) s = Some f \<Longrightarrow> ready f \<Longrightarrow> \<exists>g. sc_flow (target ru) s' = Some g \<and> m_state g = Active"
    using sc_commit_ok [OF inv live wf] by blast
  have "verdict (miss_number s) (Some n) (last_match q rules)"
    using commit_ok [OF scope_invD(1) [OF inv] wf, of "sc_alive s" "miss_number s" q] c(4) lk by auto
  then obtain ru where "ru \<in> set rules" "target ru = n"
    by (auto simp: verdict_def last_match_def split: if_splits dest!: last_in_set [rotated])
  then have act: "\<exists>g. sc_flow n s' = Some g \<and> m_state g = Active" using c(6) n by (auto simp: ready_def)
  have same: "sc_alive s' = sc_alive s" "sc_tree s' = sc_tree s" "miss_number s' = miss_number s"
      "sc_handler_table s' = sc_handler_table s"
    using c(2) scope_kept_alive [OF c(2)] by (simp_all add: scope_kept_def)
  have "commit (sc_alive s') (miss_number s') (scope_runtime s' (\<lambda>_. None)) = Inr rules"
    using c(4) same by (simp add: commit_def)
  then have "committed q n s' es"
    using c(3,5) lk act same commit_serves [OF inv wf c(2,4) _ c(5)] by (auto simp: committed_def rule_entries_kept [OF c(2)])
  moreover have "m_mods g = m_mods f" if "sc_flow n s' = Some g" for g
    using scope_keptD [OF c(2) n(1)] that unfolding kept_def same_flow_def by (metis option.inject)
  ultimately show ?thesis using c(1) scope_inv_kept [OF inv c(2)] scope_kept_frame [OF c(2)] same(2) by blast
qed

lemma flow_packet_out_disposable:
  assumes "disposable f" "m_packet_in f" "m_state f \<in> {Egg, Idle}" "actions f = Inr as"
  shows "\<exists>f' po. flow_packet_out_at True prio fs f = (f', [Sent (PacketOut po), StateChanged Active (m_cookie f)], None) \<and>
           m_cookie f' = m_cookie f \<and> po_actions po = as"
  using assms
  by (auto simp: flow_packet_out_at_def flow_install_def disposable_def install_msgs_def actions_def
      consumed_def setState_def conn_send_def flow_packet_out_def Let_def)

lemma sc_flow_erase:
  "sc_flow m (s\<lparr>sc_flows := (sc_flows s)(c := None)\<rparr>) = (if m \<noteq> miss_number s \<and> m = unat c then None else sc_flow m s)"
proof (cases "m < 18446744073709551616")
  case True
  then have "unat (of_nat m :: u64) = m" by simp
  then have "of_nat m = c \<longleftrightarrow> m = unat c" by auto
  then show ?thesis using True by (simp add: sc_flow_def miss_number_def)
next
  case False
  then have "m \<noteq> unat c" using unat_u64_lt [of c] by auto
  then show ?thesis using False by (simp add: sc_flow_def miss_number_def)
qed

lemma miss_erase [simp]: "miss_number (s\<lparr>sc_flows := F\<rparr>) = miss_number s"
  by (simp add: miss_number_def)

lemma scope_inv_erase:
  assumes inv: "scope_inv next D s"
  shows "scope_inv next D (s\<lparr>sc_flows := (sc_flows s)(c := None)\<rparr>)"
proof -
  let ?s = "s\<lparr>sc_flows := (sc_flows s)(c := None)\<rparr>"
  have "sc_flow m ?s = Some f \<Longrightarrow> sc_flow m s = Some f" for m f by (simp add: sc_flow_erase split: if_splits)
  then show ?thesis using inv by (fastforce simp: scope_inv_def cookies_ok_def flow_inv_def)
qed

lemma explore_ok:
  assumes inv: "scope_inv next D s" and live: "sc_live s" and wf: "wf_policy (sc_policy s)"
    and d: "run_plain (sc_policy s) q = Inr d" "kind d \<noteq> Undefined"
    and f: "sc_flow n s = Some f" "n \<noteq> miss_number s" "D n \<in> {None, Some d}" "m_packet_in f" "m_state f \<in> {Egg, Idle}"
  shows "\<exists>s' es. explore q n s = (s', es, None) \<and> (\<exists>D'. scope_inv next D' s') \<and> scope_frame s s' \<and> augmented q n s s' \<and>
           (if idle_timeout d = 0 then answered d n s' es else committed q n s' es)"
proof -
  obtain T ms q' where a: "sc_augment q n s = (put_flow n (explored d q' f) (s\<lparr>sc_tree := T\<rparr>), ms, None)"
      "runtime_ok (sc_policy s) \<lparr>trace_tree = T, flow_decision = D(n \<mapsto> d)\<rparr>"
      "leaves T \<subseteq> leaves (sc_tree s) \<union> (if idle_timeout d = 0 then {} else {n})"
      "\<And>alive. idle_timeout d \<noteq> 0 \<Longrightarrow> lookup alive q T = Inr (if alive n then Some n else None)" "augmented_tree q n s T" "ms = tracked_mods q s"
    using sc_augment_ok [OF inv wf d(1) f(1-3)] by blast
  let ?f = "explored d q' f" and ?s = "s\<lparr>sc_tree := T\<rparr>"
  let ?g = "?f\<lparr>m_mods := ms\<rparr>"
  have ck: "m_cookie f = of_nat n" by (rule cookies_okD [OF scope_invD(2) [OF inv] f(1)])
  have put: "sc_flow m (put_flow n g ?s) = (if m = n then Some g else sc_flow m s)" "miss_number (put_flow n g ?s) = miss_number s"
    if "m_cookie g = m_cookie f" for m g
    using sc_flow_put [of n ?s g] f(1) ck that by auto
  have pp: "put_flow n ?g (put_flow n ?f ?s) = put_flow n ?g ?s"
    using f(2) by (simp add: put_flow_def miss_number_def)
  have fr: "scope_frame s (put_flow n g ?s)" if "m_cookie g = m_cookie f" for g using put(2) [OF that] by (simp add: scope_frame_def)
  have mods: "flow_mods ms ?f = Inr ?g" using f(5) by (auto simp: flow_mods_def explored_def)
  have sf: "sc_flow n (put_flow n ?f ?s) = Some ?f" using put(1) by (simp add: explored_def)
  have inv1: "scope_inv next (D(n \<mapsto> d)) (put_flow n g ?s)"
    if "m_cookie g = m_cookie f" "m_decision g = d" "m_flood g = m_flood f" "m_table g = m_table f" for g
    using scope_inv_explored [OF inv f(1-3) a(2) d(2) a(3) that] .
  have g: "m_cookie ?g = m_cookie f" "m_decision ?g = d" "m_flood ?g = m_flood f" "m_table ?g = m_table f" "m_packet_in ?g"
    using f(4) by (simp_all add: explored_def)
  obtain out where out: "DecisionCompiler (m_flood f) (kind d) = Inr out"
    using d(2) by (cases "kind d") (auto simp: DecisionCompiler_def)
  have fl: "m_flood f = sc_flood s" using scope_invD(6) [OF inv f(1,2)] by (simp add: flow_inv_def)
  show ?thesis
  proof (cases "idle_timeout d = 0")
    case False
    let ?s1 = "put_flow n ?g ?s"
    have s1: "sc_flow n ?s1 = Some ?g" "sc_tree ?s1 = T" "sc_live ?s1" "sc_policy ?s1 = sc_policy s" "sc_alive ?s1 n"
      using put(1) [OF g(1)] live by (simp_all add: sc_alive_def)
    obtain s' es where c: "sc_commit ?s1 = (s', es, None)" "scope_inv next (D(n \<mapsto> d)) s'" "scope_frame ?s1 s'" "committed q n s' es" "sc_tree s' = T"
        "\<And>h. sc_flow n s' = Some h \<Longrightarrow> m_mods h = ms"
      using commit_explored [OF inv1 [OF g(1-4)] s1(3) _ s1(1) g(5), of q] a(4) [OF False] s1 wf by auto
    have "explore q n s = sc_commit ?s1"
      using a(1) sf mods False pp g(2) by (simp add: explore_def disposable_def)
    then show ?thesis using c False scope_frame_trans [OF fr [OF g(1)]] a(5,6) by (auto simp: augmented_def)
  next
    case True
    have act: "actions ?g = Inr (map SetFieldAction ms @ out)" using out g(2,3) by (simp add: actions_def explored_def)
    obtain f' po where po: "flow_packet_out_at True 1 ms ?g = (f', [Sent (PacketOut po), StateChanged Active (m_cookie ?g)], None)"
        "m_cookie f' = m_cookie ?g" "po_actions po = map SetFieldAction ms @ out"
      using flow_packet_out_disposable [OF _ g(5) _ act, of 1 ms] True f(5) g(2) by (auto simp: disposable_def explored_def)
    let ?s1 = "put_flow n ?f ?s"
    let ?s' = "?s1\<lparr>sc_flows := (sc_flows ?s1)(m_cookie f' := None)\<rparr>"
    have ck': "m_cookie f' = of_nat n" "unat (m_cookie f') = n"
      using po(2) g(1) ck f(1,2) by (auto simp: sc_flow_def split: if_splits)
    have e: "explore q n s = (?s', [Sent (PacketOut po), StateChanged Active (of_nat n)], None)"
      using a(1) sf mods True g(2) po(1) live ck g(1) by (simp add: explore_def disposable_def)
    have mn: "miss_number ?s1 = miss_number s" using put(2) [of ?f] by (simp add: explored_def)
    have "sc_flow n ?s' = None" using ck'(2) f(2) mn by (simp add: sc_flow_erase)
    moreover have "scope_frame s ?s'" using mn by (simp add: scope_frame_def)
    moreover have "scope_inv next (D(n \<mapsto> d)) ?s'"
      using inv1 [of ?f] by (intro scope_inv_erase) (simp add: explored_def)
    moreover have "sc_tree ?s' = T" by simp
    ultimately show ?thesis using e po(3) out fl True a(5) by (auto simp: answered_def augmented_def)
  qed
qed

lemma lookup_leaf:
  "lookup alive q T = Inr (Some n) \<Longrightarrow> n \<in> leaves T"
  "lookup_case alive q v cases = Inr (Some n) \<Longrightarrow> n \<in> case_leaves cases"
proof (induction alive q T and alive q v cases rule: lookup_lookup_case.induct)
  case (3 alive pkt need positive negative)
  then obtain b where "pkt_test need pkt = Inr b" by auto
  then show ?case using 3 by (cases b) auto
qed (auto split: if_splits)

lemma wake_ok:
  assumes inv: "scope_inv next D s" and live: "sc_live s" and f: "sc_flow n s = Some f" "n \<noteq> miss_number s"
    and n: "n \<in> leaves (sc_tree s)" and r: "m_packet_in f"
  shows "\<exists>s' es. wake n f s = (s', es, None) \<and> scope_inv next D s' \<and> scope_frame s s'"
proof -
  obtain as where as: "\<not> disposable f" "actions f = Inr as" using leaf_installable [OF inv n f(1)] by blast
  have "f\<lparr>m_priority := m_priority f, m_match := m_match f\<rparr> = f" by simp
  then obtain g es where g: "flow_install True f = (g, es, None)" "same_flow f g"
    using flow_packet_out_ready [OF _ as, of "m_priority f" "m_match f"] r by (auto simp: flow_packet_out_at_def ready_def)
  have "m_cookie g = of_nat n" using g(2) cookies_okD [OF scope_invD(2) [OF inv] f(1)] by (simp add: same_flow_def)
  then have "scope_frame s (put_flow n g s)" using f(1) by (simp add: scope_frame_def sc_flow_put)
  then show ?thesis using g live scope_inv_put [OF inv f g(2)] by (simp add: wake_def wakeup_def)
qed

lemma process_flow_ok:
  assumes inv: "scope_inv next D s" and live: "sc_live s" and wf: "wf_policy (sc_policy s)"
    and d: "run_plain (sc_policy s) q = Inr d" "kind d \<noteq> Undefined"
    and f: "sc_flow n s = Some f" "n \<noteq> miss_number s" "m_state f \<noteq> Expired"
    and D: "D n = Some d \<and> n \<in> leaves (sc_tree s) \<or> D n = None \<and> m_state f = Egg"
  shows "\<exists>s' es. process_flow pin q n f s = (s', es, None) \<and> (\<exists>D'. scope_inv next D' s') \<and> scope_frame s s' \<and>
           (m_state f \<in> {Egg, Idle} \<longrightarrow> augmented q n s s' \<and>
              (if idle_timeout d = 0 then answered d n s' es else committed q n s' es))"
proof -
  let ?f = "flow_packet_in pin f"
  let ?s = "put_flow n ?f s"
  have same: "same_flow f ?f" "m_state ?f = m_state f" "m_packet_in ?f" by (simp_all add: flow_packet_in_def same_flow_def)
  have inv1: "scope_inv next D ?s" by (rule scope_inv_put [OF inv f(1,2) same(1)])
  have ck: "m_cookie ?f = of_nat n" using same(1) cookies_okD [OF scope_invD(2) [OF inv] f(1)] by (simp add: same_flow_def)
  have put: "sc_flow n ?s = Some ?f" "miss_number ?s = miss_number s" using f(1) ck by (simp_all add: sc_flow_put)
  have fr: "scope_frame s ?s" using put(2) by (simp add: scope_frame_def)
  have s1: "sc_live ?s" "sc_policy ?s = sc_policy s" "sc_tree ?s = sc_tree s" using live by simp_all
  show ?thesis
  proof (cases "m_state f \<in> {Egg, Idle}")
    case True
    then obtain s' es where "explore q n ?s = (s', es, None)" "\<exists>D'. scope_inv next D' s'" "scope_frame ?s s'"
        "augmented q n ?s s'" "if idle_timeout d = 0 then answered d n s' es else committed q n s' es"
      using explore_ok [OF inv1 s1(1) _ _ d(2) put(1), of q] wf d(1) s1(2) put(2) f(2) D same by auto
    moreover have "process_flow pin q n f s = explore q n ?s" using True same(2) by (auto simp: process_flow_def Let_def)
    moreover have "augmented q n ?s s' = augmented q n s s'" by (simp add: augmented_def augmented_tree_def tracked_mods_def)
    ultimately show ?thesis using scope_frame_trans [OF fr] by metis
  next
    case False
    then have leaf: "D n = Some d" "n \<in> leaves (sc_tree ?s)" using D s1(3) by auto
    obtain s2 es where w: "wake n ?f ?s = (s2, es, None)" "scope_inv next D s2" "scope_frame ?s s2"
      using wake_ok [OF inv1 s1(1) put(1) _ leaf(2) same(3)] put(2) f(2) by auto
    have "\<exists>q'. run_bare (sc_policy s) q = (q', Inr d)" using run_bare_plain [of "sc_policy s" q] d(1) by (metis prod.collapse)
    then obtain q' where q': "run_bare (sc_policy s) q = (q', Inr d)" by blast
    let ?g = "?f\<lparr>m_packet_data := map_option (\<lambda>_. q') (m_packet_data ?f)\<rparr>"
    have dd: "m_decision f = d" using leaf_installable(3) [OF inv _ f(1)] leaf s1(3) by simp
    then have sg: "same_flow ?f (flow_decision_set d ?g)" by (simp add: same_flow_def flow_decision_set_def flow_packet_in_def)
    have "scope_inv next D (put_flow n (flow_decision_set d ?g) ?s)"
      using scope_inv_put [OF inv1 put(1) _ sg] put(2) f(2) by simp
    moreover have "scope_frame ?s (put_flow n (flow_decision_set d ?g) ?s)"
      using sc_flow_put(2) [of n ?s "flow_decision_set d ?g"] put(1) ck by (simp add: scope_frame_def flow_decision_set_def)
    ultimately show ?thesis using False same(2) w f(3) q' s1(2) fr scope_frame_trans [OF fr]
      by (cases "m_state f"; cases "isTableMiss pin ?s") (auto simp: process_flow_def Let_def)
  qed
qed

lemma unat_next: "next \<noteq> (- 1 :: u64) \<Longrightarrow> unat (next + 1) = unat next + 1" "next \<noteq> (- 1 :: u64) \<Longrightarrow> next < next + 1"
proof -
  assume "next \<noteq> (- 1 :: u64)"
  then have "1 + next \<noteq> 0" by (metis add.commute add_eq_0_iff)
  then show u: "unat (next + 1) = unat next + 1" by (metis add.commute unatSuc Suc_eq_plus1)
  show "next < next + 1" by (simp add: word_less_nat_alt u)
qed

lemma sc_flow_new:
  assumes "miss_number s \<noteq> unat c"
  shows "sc_flow m (s\<lparr>sc_flows := (sc_flows s)(c \<mapsto> g)\<rparr>) = (if m = unat c then Some g else sc_flow m s)"
proof (cases "m < 18446744073709551616")
  case True
  then have "unat (of_nat m :: u64) = m" by simp
  then have "of_nat m = c \<longleftrightarrow> m = unat c" by auto
  then show ?thesis using True assms by (simp add: sc_flow_def miss_number_def)
next
  case False
  then have "m \<noteq> unat c" using unat_u64_lt [of c] by auto
  then show ?thesis using False by (simp add: sc_flow_def miss_number_def)
qed

lemma scope_inv_new_flow:
  assumes inv: "scope_inv next D s" and n: "next \<noteq> - 1"
  shows "scope_inv (next + 1) D (s\<lparr>sc_flows := (sc_flows s)(next \<mapsto> new_FlowImpl next (sc_handler_table s) (sc_flood s))\<rparr>)"
    (is "scope_inv _ D ?s")
    and "D (unat next) = None" "miss_number s \<noteq> unat next"
proof -
  note i = scope_invD [OF inv]
  have lt: "D m \<noteq> None \<or> sc_flow m s \<noteq> None \<Longrightarrow> m < unat next" for m using i(7) by blast
  show D: "D (unat next) = None" using lt by (metis less_irrefl)
  have "sc_flow (miss_number s) s \<noteq> None" by simp
  then show mn: "miss_number s \<noteq> unat next" using lt by (metis less_irrefl)
  have flow: "sc_flow m ?s = (if m = unat next then Some (new_FlowImpl next (sc_handler_table s) (sc_flood s)) else sc_flow m s)" for m
    by (rule sc_flow_new [OF mn])
  have u: "unat (next + 1) = unat next + 1" "COOKIE_BASE \<le> next + 1" using unat_next [OF n] i(8) by auto
  have "cookies_ok ?s" using i(2) by (simp add: cookies_ok_def flow) (simp add: new_FlowImpl_def)
  moreover have "flow_inv D ?s m f" if "sc_flow m ?s = Some f" "m \<noteq> miss_number ?s" for m f
    using that(1) [unfolded flow] that(2) i(6) [of m f] D
    by (cases "m = unat next") (auto simp: flow_inv_def new_FlowImpl_def)
  moreover have "D m \<noteq> None \<or> sc_flow m ?s \<noteq> None \<Longrightarrow> m < unat (next + 1)" for m
    using lt [of m] u(1) by (simp add: flow split: if_splits)
  ultimately show "scope_inv (next + 1) D ?s"
    using i(1,3,4,5) u(2) unfolding scope_inv_def by simp
qed

lemma scope_inv_later: "scope_inv next D s \<Longrightarrow> next \<le> next' \<Longrightarrow> scope_inv next' D s"
  unfolding scope_inv_def by (meson order_less_le_trans order_trans word_le_nat_alt)

lemma runtime_lookup_scope:
  assumes inv: "scope_inv next D s" and wf: "wf_policy (sc_policy s)" and d: "run_plain (sc_policy s) q = Inr d"
  obtains "lookup (sc_alive s) q (sc_tree s) = Inr None"
    "runtime_lookup (sc_alive s) (miss_number s) q (scope_runtime s (\<lambda>_. None)) = Inr (miss_number s)"
  | n f where "lookup (sc_alive s) q (sc_tree s) = Inr (Some n)" "sc_flow n s = Some f" "D n = Some d" "n \<noteq> miss_number s"
    "n \<in> leaves (sc_tree s)"
    "runtime_lookup (sc_alive s) (miss_number s) q (scope_runtime s (\<lambda>_. None)) = Inr n"
proof -
  obtain x where x: "lookup (sc_alive s) q (sc_tree s) = Inr x" "\<And>n. x = Some n \<Longrightarrow> sc_alive s n \<and> D n = Some d"
    using lookup_runtime_ok [OF scope_invD(1) [OF inv] wf d, of "sc_alive s"] by auto
  show thesis
  proof (cases x)
    case None
    then show thesis using x(1) that(1) by (simp add: runtime_lookup_def)
  next
    case (Some n)
    then obtain f where "sc_flow n s = Some f" "D n = Some d" using x(2) by (auto simp: sc_alive_def)
    moreover from this have "n \<noteq> miss_number s" using scope_invD(4) [OF inv] by auto
    moreover have "n \<in> leaves (sc_tree s)" using lookup_leaf(1) x(1) Some by blast
    ultimately show thesis using that(2) [of n f] x(1) Some by (simp add: runtime_lookup_def)
  qed
qed

text \<open>The flow that handles a packet: the one the tree finds, or a new one.\<close>

definition handled_by :: "packet \<Rightarrow> u64 \<Rightarrow> SwitchScope \<Rightarrow> nat" where
  "handled_by q next s =
     (case lookup (sc_alive s) q (sc_tree s) of
        Inr (Some n) \<Rightarrow> (case sc_flow n s of Some f \<Rightarrow> if m_state f = Expired then unat next else n | None \<Rightarrow> unat next)
      | _ \<Rightarrow> unat next)"

definition fresh_or_idle :: "packet \<Rightarrow> SwitchScope \<Rightarrow> bool" where
  "fresh_or_idle q s \<longleftrightarrow>
     (case lookup (sc_alive s) q (sc_tree s) of
        Inr (Some n) \<Rightarrow> (case sc_flow n s of Some f \<Rightarrow> m_state f \<in> {Egg, Idle, Expired} | None \<Rightarrow> True)
      | _ \<Rightarrow> True)"

lemma processPacketIn_ok:
  assumes inv: "scope_inv next D s" and live: "sc_live s" and wf: "wf_policy (sc_policy s)"
    and d: "run_plain (sc_policy s) q = Inr d" "kind d \<noteq> Undefined" and n: "next \<noteq> - 1"
  shows "\<exists>s' es next'. processPacketIn pin q next s = ((s', es, None), next') \<and> (\<exists>D'. scope_inv next' D' s') \<and> scope_frame s s' \<and>
           next \<le> next' \<and> (fresh_or_idle q s \<longrightarrow> augmented q (handled_by q next s) s s' \<and>
             (if idle_timeout d = 0 then answered d (handled_by q next s) s' es else committed q (handled_by q next s) s' es))"
proof -
  let ?g = "new_FlowImpl next (sc_handler_table s) (sc_flood s)"
  let ?s = "s\<lparr>sc_flows := (sc_flows s)(next \<mapsto> ?g)\<rparr>"
  note new = scope_inv_new_flow [OF inv n]
  have g: "sc_flow (unat next) ?s = Some ?g" "m_state ?g = Egg" "unat next \<noteq> miss_number ?s"
    using new(3) by (simp_all add: sc_flow_new new_FlowImpl_def)
  obtain s' es where p: "process_flow pin q (unat next) ?g ?s = (s', es, None)" "\<exists>D'. scope_inv (next + 1) D' s'" "scope_frame ?s s'"
      "augmented q (unat next) ?s s' \<and> (if idle_timeout d = 0 then answered d (unat next) s' es else committed q (unat next) s' es)"
    using process_flow_ok [OF new(1) _ _ _ d(2) g(1,3), of q pin] live wf d(1) g(2) new(2) by auto
  have fr: "scope_frame s s'" using p(3) by (simp add: scope_frame_def)
  have au: "augmented q (unat next) s s'" using p(4) by (simp add: augmented_def augmented_tree_def tracked_mods_def)
  have base: "Flow_cookie next = Inr (next, next + 1)" using scope_invD(8) [OF inv] by (simp add: Flow_cookie_def)
  have le: "next \<le> next + 1" using unat_next(2) [OF n] by simp
  show ?thesis
  proof (rule runtime_lookup_scope [OF inv wf d(1)])
    assume lk: "lookup (sc_alive s) q (sc_tree s) = Inr None"
      "runtime_lookup (sc_alive s) (miss_number s) q (scope_runtime s (\<lambda>_. None)) = Inr (miss_number s)"
    then have "processPacketIn pin q next s = ((s', es, None), next + 1)"
      using p(1) base by (simp add: processPacketIn_def Let_def)
    then show ?thesis using p(2,4) fr le lk(1) au by (auto simp: handled_by_def)
  next
    fix k f
    assume lk: "lookup (sc_alive s) q (sc_tree s) = Inr (Some k)" "sc_flow k s = Some f" "D k = Some d" "k \<noteq> miss_number s"
      "k \<in> leaves (sc_tree s)" "runtime_lookup (sc_alive s) (miss_number s) q (scope_runtime s (\<lambda>_. None)) = Inr k"
    show ?thesis
    proof (cases "m_state f = Expired")
      case True
      then have "processPacketIn pin q next s = ((s', es, None), next + 1)"
        using p(1) base lk(2,6) by (simp add: processPacketIn_def Let_def)
      then show ?thesis using p(2,4) fr le lk(1,2) True au by (auto simp: handled_by_def)
    next
      case False
      then obtain t ts where t: "process_flow pin q k f s = (t, ts, None)" "\<exists>D'. scope_inv next D' t" "scope_frame s t"
          "m_state f \<in> {Egg, Idle} \<longrightarrow> augmented q k s t \<and> (if idle_timeout d = 0 then answered d k t ts else committed q k t ts)"
        using process_flow_ok [OF inv live wf d lk(2,4) False] lk(3,5) by blast
      have "processPacketIn pin q next s = ((t, ts, None), next)"
        using t(1) False lk(2,4,6) by (simp add: processPacketIn_def)
      then show ?thesis using t(2-4) lk(1,2) False by (auto simp: handled_by_def fresh_or_idle_def)
    qed
  qed
qed

subsection \<open>Other events of a scope\<close>

lemma processFlowRemoved_inv:
  assumes inv: "scope_inv next D s" and p: "processFlowRemoved c r s = (s', es)"
  shows "scope_inv next D s' \<and> scope_frame s s'"
proof (cases "sc_flows s c")
  case None
  then show ?thesis using inv p by (simp add: processFlowRemoved_def)
next
  case (Some f)
  obtain f' es' where f': "flow_removed r f = (f', es')" by fastforce
  have same: "same_flow f f'" using f' by (auto simp: flow_removed_def setState_def same_flow_def split: removed_reason.splits if_splits)
  show ?thesis
  proof (cases "m_state f' = Expired")
    case True
    then have "s' = s\<lparr>sc_flows := (sc_flows s)(c := None)\<rparr>" using p Some f' by (auto simp: processFlowRemoved_def)
    then show ?thesis using scope_inv_erase [OF inv] by (simp add: scope_frame_def)
  next
    case False
    have s': "s' = s\<lparr>sc_flows := (sc_flows s)(c \<mapsto> f')\<rparr>" using p Some f' False by (auto simp: processFlowRemoved_def)
    show ?thesis
    proof (cases "unat c = miss_number s")
      case True
      then have "sc_flow m s' = sc_flow m s" for m using s' unat_u64_lt by (auto simp: sc_flow_def miss_number_def)
      then show ?thesis using inv s' by (simp add: scope_inv_def cookies_ok_def flow_inv_def scope_frame_def)
    next
      case False
      then have "sc_flow (unat c) s = Some f" using Some by (simp add: sc_flow_def)
      moreover have "s' = put_flow (unat c) f' s" using s' False by (simp add: put_flow_def)
      moreover have "scope_frame s s'" using s' by (simp add: scope_frame_def)
      ultimately show ?thesis using scope_inv_put [OF inv _ False same] by simp
    qed
  qed
qed

lemma scope_inv_invalidate:
  assumes "scope_inv next D s"
  shows "scope_inv next (\<lambda>_. None) (s\<lparr>sc_tree := Unexplored, sc_pipeline := pl\<rparr>)"
proof -
  let ?s = "s\<lparr>sc_tree := Unexplored, sc_pipeline := pl\<rparr>"
  have "sc_flow n ?s = sc_flow n s" "miss_number ?s = miss_number s" for n by (simp_all add: sc_flow_def miss_number_def)
  then show ?thesis using assms by (auto simp: scope_inv_def cookies_ok_def flow_inv_def runtime_ok_def)
qed

lemma scope_inv_new:
  assumes "new_SwitchScope pl live dpid table flood next = Inr (s, next', es)" "next \<noteq> - 1"
  shows "scope_inv next' (\<lambda>_. None) s \<and> sc_live s = live \<and> sc_pipeline s = pl"
proof -
  have base: "COOKIE_BASE \<le> next" "next' = next + 1"
    using assms(1) by (auto simp: new_SwitchScope_def Flow_cookie_def Let_def split: if_splits)
  have s: "m_cookie (sc_miss s) = next" "m_state (sc_miss s) = Egg" "\<not> m_packet_in (sc_miss s)" "sc_flows s = (\<lambda>_. None)"
      "sc_tree s = Unexplored" "sc_live s = live" "sc_pipeline s = pl"
    using assms(1)
    by (auto simp: new_SwitchScope_def Flow_cookie_def Let_def new_FlowImpl_def flow_decision_set_def split: if_splits)
  have flow: "sc_flow n s = (if n = unat next then Some (sc_miss s) else None)" for n
    using s by (simp add: sc_flow_def miss_number_def)
  show ?thesis using s base unat_next [OF assms(2)]
    by (auto simp: scope_inv_def runtime_ok_def cookies_ok_def flow ready_def miss_number_def)
qed

text \<open>
  The life of a scope. The counter of cookies is shared, so it may advance in between; invalidating the tree is the
  point where the pipeline's handlers may start to decide otherwise.
\<close>

inductive scope_reach :: "u64 \<Rightarrow> SwitchScope \<Rightarrow> bool" where
  scope_new: "new_SwitchScope pl True dpid table flood next = Inr (s, next', es) \<Longrightarrow> next \<noteq> - 1 \<Longrightarrow>
     wf_policy (process pl) \<Longrightarrow> scope_reach next' s"
| scope_packet: "scope_reach next s \<Longrightarrow> run_plain (sc_policy s) q = Inr d \<Longrightarrow> kind d \<noteq> Undefined \<Longrightarrow> next \<noteq> - 1 \<Longrightarrow>
     processPacketIn pin q next s = ((s', es, x), next') \<Longrightarrow> scope_reach next' s'"
| scope_removed: "scope_reach next s \<Longrightarrow> processFlowRemoved c r s = (s', es) \<Longrightarrow> scope_reach next s'"
| scope_invalidate: "scope_reach next s \<Longrightarrow> wf_policy (process pl) \<Longrightarrow>
     scope_reach next (s\<lparr>sc_tree := Unexplored, sc_pipeline := pl\<rparr>)"
| scope_elsewhere: "scope_reach next s \<Longrightarrow> next \<le> next' \<Longrightarrow> scope_reach next' s"

lemma scope_reach_inv:
  "scope_reach next s \<Longrightarrow> (\<exists>D. scope_inv next D s) \<and> sc_live s \<and> wf_policy (sc_policy s)"
proof (induction rule: scope_reach.induct)
  case (scope_new pl dpid table flood nx s nx' es)
  then show ?case using scope_inv_new by blast
next
  case (scope_packet nx s q d pin s' es x nx')
  then obtain D where "scope_inv nx D s" "sc_live s" "wf_policy (sc_policy s)" by blast
  from processPacketIn_ok [OF this scope_packet.hyps(2-4), of pin] scope_packet.hyps(5) this
  show ?case by (auto simp: scope_frame_def)
next
  case (scope_removed nx s c r s' es)
  then show ?case using processFlowRemoved_inv [of nx _ s c r s' es] by (auto simp: scope_frame_def)
next
  case (scope_invalidate nx s pl)
  then show ?case using scope_inv_invalidate by fastforce
next
  case (scope_elsewhere nx s nx')
  then show ?case using scope_inv_later by blast
qed

end
