(* ===== verification/Scope_Packets.thy ===== *)
theory Scope_Packets
  imports Scope_Sound
begin

text \<open>
  What the packet-in handler of \<open>src/Controller.cc\<close> achieves in every state a switch scope can reach, and two runs
  in which it fails: barriers that are never installed, and a packet no handler decides.
\<close>

subsection \<open>Packets in a reachable scope\<close>



subsection \<open>A run\<close>

definition demo_pipeline :: pipeline where
  "demo_pipeline = [(''demo'', \<lambda>_. demo_policy)]"

definition arp_packet :: "int \<Rightarrow> packet" where
  "arp_packet dst = [eth_type \<mapsto> 0x0806, eth_dst \<mapsto> dst]"

definition demo_pin :: packet_in where
  "demo_pin = \<lparr>pi_xid = 7, pi_buffer_id = OFP_NO_BUFFER, pi_in_port = 1, pi_reason = OFPR_NO_MATCH, pi_cookie = 0,
     pi_data = Some (demo_packet 5), pi_data_len = 64\<rparr>"

definition demo_tree :: "nat \<Rightarrow> node" where
  "demo_tree n = TestNode arp_match Unexplored (LoadNode (exact_mask eth_dst) [(5, FlowNode n)])"

lemma process_demo: "process demo_pipeline = demo_policy"
  by (simp add: process_def demo_pipeline_def demo_policy_def fun_eq_iff)

lemma augment_demo:
  "map_sum id trace_tree (augment demo_policy (\<lambda>d. idle_timeout d = 0) (demo_packet 5) n \<lparr>trace_tree = Unexplored, flow_decision = (\<lambda>_. None)\<rparr>) =
     Inr (demo_tree n)"
  by code_simp

lemma compile_demo:
  "map_sum id (\<lambda>c. map (\<lambda>r. (priority r, match r, target r)) (c_rules c))
     (compile (\<lambda>_. True) b (demo_tree n) \<lparr>c_match = [], c_priority = 1, c_rules = []\<rparr>) =
   Inr [(1, [\<lparr>f_type = eth_dst, f_value = 5, f_mask = 0xffffffffffff\<rparr>], n), (2, [arp_match], b)]"
  by code_simp

lemma mods_demo:
  "fst (snd (run_tracked demo_policy \<lparr>pkt = demo_packet 5, cache = [], tr = \<lparr>root = Unexplored, path = []\<rparr>\<rparr> [])) = []"
  by code_simp

lemma commit_demo:
  assumes "alive n" "commit alive b \<lparr>trace_tree = demo_tree n, flow_decision = D\<rparr> = Inr rules"
  shows "map (\<lambda>r. (priority r, match r, target r)) rules =
    [(1, [\<lparr>f_type = eth_dst, f_value = 5, f_mask = 0xffffffffffff\<rparr>], n), (2, [arp_match], b)]"
proof -
  have "compile alive b (demo_tree n) c = compile (\<lambda>_. True) b (demo_tree n) c" for c
    using assms(1) by (simp add: demo_tree_def)
  then show ?thesis using compile_demo [of b n] assms(2) by (auto simp: commit_def)
qed

lemma demo_scope:
  obtains s where "scope_reach (COOKIE_BASE + 1) s" "sc_pipeline s = demo_pipeline" "sc_tree s = Unexplored"
    "sc_flood s = OutputAction OFPP_FLOOD 0" "lookup (sc_alive s) q (sc_tree s) = Inr None"
proof -
  obtain s es where s: "new_SwitchScope demo_pipeline True 1 0 (\<lambda>_. OutputAction OFPP_FLOOD 0) COOKIE_BASE = Inr (s, COOKIE_BASE + 1, es)"
      "sc_pipeline s = demo_pipeline" "sc_tree s = Unexplored" "sc_flood s = OutputAction OFPP_FLOOD 0"
    by (simp add: new_SwitchScope_def Flow_cookie_def inspect_def new_Decision_def Let_def)
  moreover have "scope_reach (COOKIE_BASE + 1) s"
    using s(1) by (rule scope_new) (simp_all add: process_demo demo_wf COOKIE_BASE_def)
  ultimately show thesis using that by simp
qed

text \<open>The run: the first packet of a new switch.\<close>

lemma demo_packet_in:
  obtains s s' es next' g rules where "scope_reach (COOKIE_BASE + 1) s" "sc_pipeline s = demo_pipeline"
    "lookup (sc_alive s) (demo_packet 5) (sc_tree s) = Inr None"
    "processPacketIn demo_pin (demo_packet 5) (COOKIE_BASE + 1) s = ((s', es, None), next')"
    "sc_pipeline s' = demo_pipeline" "sc_tree s' = demo_tree (unat (COOKIE_BASE + 1))"
    "sc_flow (unat (COOKIE_BASE + 1)) s' = Some g" "ready g" "actions g = Inr [OutputAction 5 0]"
    "commit (sc_alive s') (miss_number s') (scope_runtime s' (\<lambda>_. None)) = Inr rules" "length rules = 2"
    "map entry (adds es) = [(1, [\<lparr>f_type = eth_dst, f_value = 5, f_mask = 0xffffffffffff\<rparr>], COOKIE_BASE + 1, ApplyActions [OutputAction 5 0])]"
proof -
  let ?n = "unat (COOKIE_BASE + 1)" and ?q = "demo_packet 5" and ?d = "demo_decision (Unicast 5)"
  obtain s where s: "scope_reach (COOKIE_BASE + 1) s" "sc_pipeline s = demo_pipeline" "sc_tree s = Unexplored"
      "lookup (sc_alive s) ?q (sc_tree s) = Inr None"
    using demo_scope [of ?q] by blast
  obtain D where inv: "scope_inv (COOKIE_BASE + 1) D s" "sc_live s" "wf_policy (sc_policy s)" using scope_reach_inv [OF s(1)] by blast
  have h: "handled_by ?q (COOKIE_BASE + 1) s = ?n" "fresh_or_idle ?q s" using s(4) by (simp_all add: handled_by_def fresh_or_idle_def)
  have d: "kind ?d \<noteq> Undefined" "idle_timeout ?d \<noteq> 0" by (simp_all add: demo_decision_def idle_timeout_def new_Base_def)
  have run: "run_plain (sc_policy s) ?q = Inr ?d" using s(2) demo_run by (simp add: process_demo)
  obtain s' es next' D' where p: "processPacketIn demo_pin ?q (COOKIE_BASE + 1) s = ((s', es, None), next')"
      "scope_inv next' D' s'" "scope_frame s s'" "augmented ?q ?n s s'" "committed ?q ?n s' es"
    using processPacketIn_ok [OF inv run d(1), of demo_pin] d(2) h by (auto simp: COOKIE_BASE_def)
  have tree: "sc_tree s' = demo_tree ?n"
    using p(4) augment_demo [of ?n] s(2,3) by (simp add: augmented_def augmented_tree_def process_demo)
  have pl: "sc_pipeline s' = demo_pipeline" using p(3) s(2) by (simp add: scope_frame_def)
  obtain g rules where g: "sc_flow ?n s' = Some g" "m_state g = Active"
      "commit (sc_alive s') (miss_number s') (scope_runtime s' (\<lambda>_. None)) = Inr rules"
      "map entry (adds es) = concat (map (rule_entries s') rules)" "lookup (sc_alive s') ?q (sc_tree s') = Inr (Some ?n)"
    using p(5) by (auto simp: committed_def)
  have "D' ?n = Some ?d"
    using lookup_runtime_ok [OF scope_invD(1) [OF p(2)], of ?q ?d "sc_alive s'"] g(5) run pl s(2) inv(3) by auto
  then have "m_decision g = ?d" using leaf_installable(3) [OF p(2) _ g(1)] tree by (simp add: demo_tree_def)
  moreover have "m_mods g = []"
    using p(4) g(1) s(2,3) mods_demo by (simp add: augmented_def tracked_mods_def process_demo)
  ultimately have act: "actions g = Inr [OutputAction 5 0]" by (simp add: actions_def DecisionCompiler_def demo_decision_def)
  have rdy: "ready g" using g(2) by (simp add: ready_def)
  have ck: "m_cookie g = COOKIE_BASE + 1" using cookies_okD [OF scope_invD(2) [OF p(2)] g(1)] by simp
  have rules: "map (\<lambda>r. (priority r, match r, target r)) rules =
      [(1, [\<lparr>f_type = eth_dst, f_value = 5, f_mask = 0xffffffffffff\<rparr>], ?n), (2, [arp_match], miss_number s')]"
    using commit_demo [of "sc_alive s'" ?n] g(1,3) tree by (simp add: sc_alive_def)
  then obtain r1 r2 where r: "rules = [r1, r2]" "priority r1 = 1" "match r1 = [\<lparr>f_type = eth_dst, f_value = 5, f_mask = 0xffffffffffff\<rparr>]"
      "target r1 = ?n" "target r2 = miss_number s'"
    by (auto simp: map_eq_Cons_conv)
  have "rule_entries s' r2 = []" using r(5) scope_invD(3) [OF p(2)] by (simp add: rule_entries_def)
  then have "map entry (adds es) = [(1, [\<lparr>f_type = eth_dst, f_value = 5, f_mask = 0xffffffffffff\<rparr>], COOKIE_BASE + 1, ApplyActions [OutputAction 5 0])]"
    using g(1,4) r act rdy ck by (simp add: rule_entries_def)
  then show thesis using that s(1,2,4) p(1) pl tree g(1,3) rdy act r(1) by (metis length_Cons list.size(3) numeral_2_eq_2)
qed

text \<open>
  C27: barriers never reach the switch. The compiler separates the two sides of a test by a rule for the flow
  \<open>miss\<close>, which should send packets of an unexplored side to the controller; but that flow is never active and
  installing it returns at once. After the first packet of a switch (not ARP, destination 5) the only rule sent
  matches the destination alone: an ARP packet for the same destination, which the policy floods and the tree does not
  know, is sent to port 5 by the switch and never reaches the controller.
\<close>

theorem missing_barrier:
  "\<exists>s s' es next'. scope_reach (COOKIE_BASE + 1) s \<and> sc_pipeline s = demo_pipeline \<and>
     processPacketIn demo_pin (demo_packet 5) (COOKIE_BASE + 1) s = ((s', es, None), next') \<and>
     run_plain (process (sc_pipeline s')) (arp_packet 5) = Inr (demo_decision Broadcast) \<and>
     lookup (sc_alive s') (arp_packet 5) (sc_tree s') = Inr None \<and>
     (\<exists>fa. adds es = [fa] \<and> top_add (arp_packet 5) (adds es) fa \<and> fa_instruction fa = ApplyActions [OutputAction 5 0])"
proof -
  have arp: "run_plain demo_policy (arp_packet 5) = Inr (demo_decision Broadcast)" by code_simp
  have lk: "lookup alive (arp_packet 5) (demo_tree n) = Inr None" for alive n
  proof -
    have "pkt_test arp_match (arp_packet 5) = Inr True" by code_simp
    then show ?thesis by (simp add: demo_tree_def)
  qed
  have m: "set_matches (arp_packet 5) [\<lparr>f_type = eth_dst, f_value = 5, f_mask = 0xffffffffffff\<rparr>]" by code_simp
  show ?thesis
  proof (rule demo_packet_in)
    fix s s' es next' g rules
    assume a: "scope_reach (COOKIE_BASE + 1) s" "sc_pipeline s = demo_pipeline"
      "processPacketIn demo_pin (demo_packet 5) (COOKIE_BASE + 1) s = ((s', es, None), next')"
      "sc_pipeline s' = demo_pipeline" "sc_tree s' = demo_tree (unat (COOKIE_BASE + 1))"
      "map entry (adds es) = [(1, [\<lparr>f_type = eth_dst, f_value = 5, f_mask = 0xffffffffffff\<rparr>], COOKIE_BASE + 1, ApplyActions [OutputAction 5 0])]"
    then obtain fa where fa: "adds es = [fa]" "fa_match fa = [\<lparr>f_type = eth_dst, f_value = 5, f_mask = 0xffffffffffff\<rparr>]"
        "fa_instruction fa = ApplyActions [OutputAction 5 0]"
      by (auto simp: map_eq_Cons_conv entry_def)
    then have "top_add (arp_packet 5) (adds es) fa" using m by (simp add: top_add_def)
    then show ?thesis using a(1-5) arp lk fa by (auto simp: process_demo)
  qed
qed



subsection \<open>A packet no handler decides\<close>

lemma install_rules_append:
  "install_rules (a @ b) s =
     (case install_rules a s of
        (s1, es, Some x) \<Rightarrow> (s1, es, Some x)
      | (s1, es, None) \<Rightarrow> (case install_rules b s1 of (s2, es', x) \<Rightarrow> (s2, es @ es', x)))"
  by (induction a arbitrary: s) (auto split: prod.splits option.splits)

definition undecided :: "FlowImpl \<Rightarrow> bool" where
  "undecided f \<longleftrightarrow> kind (m_decision f) = Undefined \<and> \<not> disposable f \<and> m_state f = Egg \<and> m_packet_in f"

lemma flow_packet_out_undecided:
  assumes "undecided f"
  shows "flow_packet_out_at live prio fs f = (f\<lparr>m_priority := prio, m_match := fs\<rparr>, [], Some unhandled_packet)"
  using assms
  by (simp add: undecided_def flow_packet_out_at_def flow_install_def install_msgs_def actions_def DecisionCompiler_def disposable_def)

lemma install_undecided:
  assumes live: "sc_live s" and c: "cookies_ok s" and n: "sc_flow n s = Some f" "undecided f"
    and other: "\<And>ru. ru \<in> set rules \<Longrightarrow> target ru \<noteq> n \<Longrightarrow> \<exists>f. sc_flow (target ru) s = Some f \<and> installable f"
    and "ru \<in> set rules" "target ru = n"
  shows "\<exists>pre r post s' es g. rules = pre @ r # post \<and> target r = n \<and> (\<forall>r' \<in> set pre. target r' \<noteq> n) \<and>
           install_rules rules s = (s', es, Some unhandled_packet) \<and> map entry (adds es) = concat (map (rule_entries s) pre) \<and>
           sc_flow n s' = Some g \<and> undecided g \<and> sc_tree s' = sc_tree s \<and> sc_alive s' = sc_alive s"
proof -
  obtain pre r post where r: "rules = pre @ r # post" "target r = n" "\<forall>r' \<in> set pre. target r' \<noteq> n"
    using split_list_first_prop [of rules "\<lambda>r. target r = n"] assms(6,7) by blast
  obtain s1 es where 1: "install_rules pre s = (s1, es, None)" "scope_kept s s1"
      "map entry (adds es) = concat (map (rule_entries s) pre)" "\<And>m. m \<notin> target ` set pre \<Longrightarrow> sc_flow m s1 = sc_flow m s"
    using install_rules_ok [OF live c, of pre] other r by fastforce
  have f: "sc_flow n s1 = Some f" using 1(4) [of n] r(3) n(1) by auto
  let ?g = "f\<lparr>m_priority := priority r, m_match := match r\<rparr>"
  let ?s = "put_flow n ?g s1"
  have "backend_install (priority r) (match r) n s1 = (?s, [], Some unhandled_packet)"
    using f flow_packet_out_undecided [OF n(2)] by (simp add: backend_install_def)
  then have i: "install_rules rules s = (?s, es, Some unhandled_packet)" using 1(1) r by (simp add: install_rules_append)
  have k: "kept f ?g" by (simp add: kept_def same_flow_def ready_def)
  have c1: "cookies_ok s1" by (rule scope_kept_cookies [OF 1(2) c])
  have k2: "scope_kept s ?s" using scope_kept_trans [OF 1(2) put_flow_kept [OF c1 f k]] .
  have "sc_flow n ?s = Some ?g" using f cookies_okD [OF c1 f] by (simp add: sc_flow_put)
  moreover have "undecided ?g" using n(2) by (simp add: undecided_def disposable_def)
  moreover have "sc_tree ?s = sc_tree s" "sc_alive ?s = sc_alive s" using k2 scope_kept_alive [OF k2] by (simp_all add: scope_kept_def)
  ultimately show ?thesis using r i 1(3) by blast
qed

lemma rule_entries_length: "length (concat (map (rule_entries s) rs)) \<le> length rs"
proof (induction rs)
  case (Cons r rs)
  have "length (rule_entries s r) \<le> 1" by (cases "sc_flow (target r) s"; simp add: rule_entries_def split: sum.split)
  then show ?case using Cons by (simp only: list.map concat.simps length_append list.size)
qed simp

lemma explore_undecided:
  assumes inv: "scope_inv next D s" and live: "sc_live s" and wf: "wf_policy (sc_policy s)"
    and d: "run_plain (sc_policy s) q = Inr d" "kind d = Undefined" "idle_timeout d \<noteq> 0"
    and f: "sc_flow n s = Some f" "n \<noteq> miss_number s" "D n = None" "m_packet_in f" "m_state f = Egg"
  shows "\<exists>s' es rules pre r post g. explore q n s = (s', es, Some unhandled_packet) \<and>
           take 2 es = [Sent (backend_remove (sc_handler_table s) []), Sent BarrierRequest] \<and>
           commit (sc_alive s') (miss_number s) (scope_runtime s' (\<lambda>_. None)) = Inr rules \<and> rules = pre @ r # post \<and>
           target r = n \<and> (\<forall>r' \<in> set pre. target r' \<noteq> n) \<and> length (adds es) \<le> length pre \<and>
           lookup (sc_alive s') q (sc_tree s') = Inr (Some n) \<and> sc_flow n s' = Some g \<and> undecided g"
proof -
  obtain T ms q' where a: "sc_augment q n s = (put_flow n (explored d q' f) (s\<lparr>sc_tree := T\<rparr>), ms, None)"
      "runtime_ok (sc_policy s) \<lparr>trace_tree = T, flow_decision = D(n \<mapsto> d)\<rparr>" "leaves T \<subseteq> leaves (sc_tree s) \<union> {n}"
      "\<And>alive. lookup alive q T = Inr (if alive n then Some n else None)"
    using sc_augment_ok [OF inv wf d(1) f(1,2)] f(3) d(3) by auto
  let ?f = "explored d q' f" and ?s = "s\<lparr>sc_tree := T\<rparr>"
  let ?g = "?f\<lparr>m_mods := ms\<rparr>"
  let ?s1 = "put_flow n ?g ?s"
  have ck: "m_cookie f = of_nat n" by (rule cookies_okD [OF scope_invD(2) [OF inv] f(1)])
  have put: "sc_flow m (put_flow n h ?s) = (if m = n then Some h else sc_flow m s)" "miss_number (put_flow n h ?s) = miss_number s"
    if "m_cookie h = m_cookie f" for m h
    using sc_flow_put [of n ?s h] f(1) ck that by auto
  have g: "m_cookie ?f = m_cookie f" "m_cookie ?g = m_cookie f" "undecided ?g"
    using f(4,5) d(2,3) by (simp_all add: explored_def undecided_def disposable_def)
  have pp: "put_flow n ?g (put_flow n ?f ?s) = ?s1" using f(2) by (simp add: put_flow_def miss_number_def)
  have e: "explore q n s = sc_commit ?s1"
    using a(1) put(1) [OF g(1)] pp f(5) d(3) by (simp add: explore_def flow_mods_def explored_def disposable_def)
  have s1: "sc_flow n ?s1 = Some ?g" "sc_tree ?s1 = T" "sc_live ?s1" "cookies_ok ?s1" "miss_number ?s1 = miss_number s"
    using put [OF g(2)] live g(2) ck scope_invD(2) [OF inv] by (simp_all add: cookies_ok_def)
  have al: "sc_alive ?s1 n" using s1(1) by (simp add: sc_alive_def)
  let ?D = "\<lambda>_ :: nat. None :: Decision option"
  obtain rules where c: "commit (sc_alive ?s1) (miss_number s) \<lparr>trace_tree = T, flow_decision = D(n \<mapsto> d)\<rparr> = Inr rules"
      "verdict (miss_number s) (Some n) (last_match q rules)"
    using commit_ok [OF a(2) wf, of "sc_alive ?s1" "miss_number s" q] a(4) [of "sc_alive ?s1"] al by auto
  have c': "commit (sc_alive ?s1) (miss_number ?s1) \<lparr>trace_tree = sc_tree ?s1, flow_decision = ?D\<rparr> = Inr rules"
    using c(1) s1(2,5) by (simp add: commit_def)
  obtain ru where ru: "ru \<in> set rules" "target ru = n"
    using c(2) by (auto simp: verdict_def last_match_def split: if_splits dest!: last_in_set [rotated])
  have other: "\<exists>h. sc_flow (target r) ?s1 = Some h \<and> installable h" if r: "r \<in> set rules" "target r \<noteq> n" for r
  proof -
    have "target r = miss_number s \<or> target r \<in> leaves T \<and> sc_alive ?s1 (target r)"
      using r(1) c(1) compile_targets(1) [of "sc_alive ?s1" "miss_number s" T] by (fastforce simp: commit_def)
    then consider "target r = miss_number s" | "target r \<in> leaves (sc_tree s)" "sc_alive ?s1 (target r)" using a(3) r(2) by blast
    then show ?thesis
    proof cases
      case 1
      then show ?thesis using put(1) [OF g(2)] f(2) scope_invD(3) [OF inv] by (simp add: installable_def)
    next
      case 2
      then obtain h where h: "sc_flow (target r) s = Some h" using put(1) [OF g(2), of "target r"] r(2) by (auto simp: sc_alive_def)
      then show ?thesis using leaf_installable(1,2) [OF inv 2(1) h] put(1) [OF g(2), of "target r"] r(2) by (auto simp: installable_def)
    qed
  qed
  obtain pre r post s' es h where i: "rules = pre @ r # post" "target r = n" "\<forall>r' \<in> set pre. target r' \<noteq> n"
      "install_rules rules ?s1 = (s', es, Some unhandled_packet)" "map entry (adds es) = concat (map (rule_entries ?s1) pre)"
      "sc_flow n s' = Some h" "undecided h" "sc_tree s' = sc_tree ?s1" "sc_alive s' = sc_alive ?s1"
    using install_undecided [OF s1(3,4,1) g(3) other ru] by blast
  let ?es = "send [backend_remove (sc_handler_table ?s1) [], backend_barrier] ?s1 @ es"
  have "sc_commit ?s1 = (s', ?es, Some unhandled_packet)" using c' i(4) by (simp add: sc_commit_def Let_def)
  moreover have "length (adds es) \<le> length pre" using i(5) rule_entries_length [of ?s1 pre] by (metis length_map)
  moreover have "lookup (sc_alive s') q (sc_tree s') = Inr (Some n)" using i(8,9) a(4) al s1(2) by simp
  moreover have "commit (sc_alive s') (miss_number s) (scope_runtime s' (\<lambda>_. None)) = Inr rules" using c' i(8,9) s1(5) by simp
  moreover have "take 2 ?es = [Sent (backend_remove (sc_handler_table s) []), Sent BarrierRequest]" "adds ?es = adds es"
    using live by (simp_all add: send_def conn_send_def backend_barrier_def backend_remove_def)
  ultimately show ?thesis using e i by (metis (no_types, lifting))
qed

text \<open>
  C37: a packet that no handler decides takes the switch's rules down. In every reachable scope, a packet-in
  for which the pipeline ends without a decision (and without a zero idle timeout) first deletes all rules of the table; installing
  then throws at the packet's own flow, and the rules that follow it are not sent. The flow stays in the
  trace tree, still waiting for its packet, so that every later commit stops at the same place.
\<close>

theorem undecided_packet_clears_table:
  assumes "scope_reach next s" "run_plain (process (sc_pipeline s)) q = Inr d" "kind d = Undefined" "idle_timeout d \<noteq> 0"
    "lookup (sc_alive s) q (sc_tree s) = Inr None" "next \<noteq> - 1"
  shows "\<exists>s' es next' rules pre r post g. processPacketIn pin q next s = ((s', es, Some unhandled_packet), next') \<and>
    take 2 es = [Sent (backend_remove (sc_handler_table s) []), Sent BarrierRequest] \<and>
    commit (sc_alive s') (miss_number s) \<lparr>trace_tree = sc_tree s', flow_decision = (\<lambda>_. None)\<rparr> = Inr rules \<and>
    rules = pre @ r # post \<and> target r = unat next \<and> length (adds es) \<le> length pre \<and>
    lookup (sc_alive s') q (sc_tree s') = Inr (Some (unat next)) \<and>
    sc_flow (unat next) s' = Some g \<and> m_state g = Egg \<and> m_packet_in g \<and>
    (\<forall>prio fs. flow_packet_out_at True prio fs g = (g\<lparr>m_priority := prio, m_match := fs\<rparr>, [], Some unhandled_packet))"
proof -
  obtain D where inv: "scope_inv next D s" "sc_live s" "wf_policy (sc_policy s)" using scope_reach_inv [OF assms(1)] by blast
  let ?g = "new_FlowImpl next (sc_handler_table s) (sc_flood s)"
  let ?s = "s\<lparr>sc_flows := (sc_flows s)(next \<mapsto> ?g)\<rparr>"
  let ?f = "flow_packet_in pin ?g"
  let ?s1 = "put_flow (unat next) ?f ?s"
  note new = scope_inv_new_flow [OF inv(1) assms(6)]
  have g: "sc_flow (unat next) ?s = Some ?g" "unat next \<noteq> miss_number ?s" using new(3) by (simp_all add: sc_flow_new)
  have same: "same_flow ?g ?f" "m_packet_in ?f" "m_state ?f = Egg" "m_cookie ?f = next"
    by (simp_all add: flow_packet_in_def same_flow_def new_FlowImpl_def)
  have inv1: "scope_inv (next + 1) D ?s1" by (rule scope_inv_put [OF new(1) g same(1)])
  have put: "sc_flow (unat next) ?s1 = Some ?f" "miss_number ?s1 = miss_number s" using g(1) same(4) by (simp_all add: sc_flow_put)
  have s1: "sc_live ?s1" "sc_policy ?s1 = sc_policy s" "sc_handler_table ?s1 = sc_handler_table s" using inv(2) by simp_all
  have "processPacketIn pin q next s = (explore q (unat next) ?s1, next + 1)"
    using assms(5) scope_invD(8) [OF inv(1)] same(3)
    by (simp add: processPacketIn_def runtime_lookup_def Flow_cookie_def process_flow_def Let_def)
  moreover have "undecided h \<Longrightarrow> m_state h = Egg \<and> m_packet_in h" for h by (simp add: undecided_def)
  ultimately show ?thesis
    using explore_undecided [OF inv1 s1(1) _ _ assms(3,4) put(1) _ new(2) same(2,3), of q] inv(3) assms(2) s1 put(2) g(2)
      flow_packet_out_undecided by fastforce
qed

definition silent_pipeline :: pipeline where
  "silent_pipeline = [(''none'', \<lambda>d. Decide d)]"

theorem undecided_packet_clears_table_witness:
  "\<exists>s s' es next'. scope_reach (COOKIE_BASE + 1) s \<and> sc_pipeline s = silent_pipeline \<and>
     processPacketIn demo_pin (demo_packet 5) (COOKIE_BASE + 1) s = ((s', es, Some unhandled_packet), next')"
proof -
  obtain s es where s: "new_SwitchScope silent_pipeline True 1 0 (\<lambda>_. OutputAction OFPP_FLOOD 0) COOKIE_BASE = Inr (s, COOKIE_BASE + 1, es)"
      "sc_pipeline s = silent_pipeline" "sc_tree s = Unexplored"
    by (simp add: new_SwitchScope_def Flow_cookie_def inspect_def new_Decision_def Let_def)
  have pl: "process silent_pipeline = Decide new_Decision"
    by (simp add: process_def silent_pipeline_def new_Decision_def new_Base_def)
  have r: "scope_reach (COOKIE_BASE + 1) s"
    using s(1) by (rule scope_new) (simp_all add: pl COOKIE_BASE_def)
  have "run_plain (process (sc_pipeline s)) (demo_packet 5) = Inr new_Decision" using s(2) pl by simp
  from undecided_packet_clears_table [OF r this, of demo_pin] s r show ?thesis
    by (fastforce simp: new_Decision_def idle_timeout_def new_Base_def COOKIE_BASE_def)
qed

end
