(* ===== verification/Controller_Core.thy ===== *)
theory Controller_Core
  imports Scope_Packets
begin

text \<open>
  The controller: \<open>ControllerImpl\<close> and \<open>Controller\<close> of \<open>src/Controller.cc\<close>, with \<open>src/OFMsgUnion.cc\<close> and
  \<open>src/OFTransaction.cc\<close>. Connections are numbered; whether one is alive is the OpenFlow library's answer \<open>up\<close>. The
  application data of a connection, a pointer to its switch scope, is the scope's datapath id. A message is what the
  library has unpacked. An exception that leaves a handler is caught and logged by \<open>message_callback\<close>; the other
  faults end the process.
\<close>

subsection \<open>Messages\<close>

text \<open>The class that a message of a given type is unpacked as, and the one a multipart reply is unpacked as a
  second time. The case \<open>OFPMP_AGGREGATE\<close> has no \<open>break\<close>.\<close>

definition msg_class :: "u8 \<Rightarrow> string option" where
  "msg_class t =
     map_of [(1, ''Error''), (6, ''FeaturesReply''), (8, ''GetConfigReply''), (10, ''PacketIn''), (11, ''FlowRemoved''),
             (12, ''PortStatus''), (21, ''BarrierReply''), (23, ''QueueGetConfigReply''), (25, ''RoleReply''),
             (27, ''GetAsyncReply''), (19, ''MultipartReply'')] t"

definition multipart_class :: "u16 \<Rightarrow> string option" where
  "multipart_class t =
     map_of [(0, ''Desc''), (1, ''Flow''), (2, ''Table''), (3, ''Table''), (12, ''TableFeatures''), (4, ''PortStats''),
             (13, ''PortDescription''), (5, ''Queue''), (6, ''Group''), (7, ''GroupDesc''), (8, ''GroupFeatures''),
             (9, ''Meter''), (10, ''MeterConfig''), (11, ''MeterFeatures'')] t"

datatype body =
    NoBody
  | PacketInBody packet_in packet
  | FeaturesBody u64
  | RemovedBody u64 removed_reason

record raw_msg =
  rm_type :: u8
  rm_unpacks :: bool
  rm_mpart :: u16
  rm_xid :: u32
  rm_body :: body

text \<open>The class of the constructed message, \<open>None\<close> for a multipart reply of an unknown type, whose base is null.\<close>

definition OFMsgUnion :: "raw_msg \<Rightarrow> (string option) res" where
  "OFMsgUnion m =
     (case msg_class (rm_type m) of
        None \<Rightarrow> Inl (Thrown ''OFMsgUnhandledType'')
      | Some c \<Rightarrow>
          if \<not> rm_unpacks m then Inl (Thrown ''OFMsgParseError'')
          else if rm_type m = 19 then Inr (multipart_class (rm_mpart m)) else Inr (Some c))"

subsection \<open>The state\<close>

type_synonym factory = "u64 \<Rightarrow> handler"

record Controller =
  started :: bool
  cbench :: bool
  handler_table :: u8
  handlers :: "string \<Rightarrow> factory option"
  pipeline_factory :: "(string \<times> factory) list"
  isFloodImplementation :: bool
  flood :: "u64 \<Rightarrow> of_action"
  switches :: "(u64 \<times> SwitchScope) list"
  sw_conn :: "u64 \<Rightarrow> nat option"
  app_data :: "nat \<Rightarrow> u64 option"
  static_ofresponse :: "(nat option) list"
  min_session_xid :: u32
  next_cookie :: u64

definition min_xid :: u32 where
  "min_xid = 0xfff"

definition default_flood :: "u64 \<Rightarrow> of_action" where
  "default_flood _ = OutputAction OFPP_FLOOD 0"

definition new_Controller :: Controller where
  "new_Controller =
     \<lparr>started = False, cbench = False, handler_table = 0, handlers = (\<lambda>_. None), pipeline_factory = [],
      isFloodImplementation = False, flood = default_flood, switches = [], sw_conn = (\<lambda>_. None), app_data = (\<lambda>_. None),
      static_ofresponse = [], min_session_xid = min_xid, next_cookie = COOKIE_BASE\<rparr>"

datatype ctl_effect =
    Scope u64 effect
  | SwitchUp u64
  | SwitchDown u64
  | PortStatus u64
  | FlowRemoved u64 u64
  | Response nat u64
  | ErrorResponse nat u64
  | EmptyPacketOut nat u32

subsection \<open>Registration and start-up\<close>

definition registerHandler :: "string \<Rightarrow> factory \<Rightarrow> Controller \<Rightarrow> Controller" where
  "registerHandler name fac c = (if started c then c else c\<lparr>handlers := (handlers c)(name \<mapsto> fac)\<rparr>)"

definition registerFlood :: "(u64 \<Rightarrow> of_action) \<Rightarrow> Controller \<Rightarrow> Controller" where
  "registerFlood fl c =
     (if started c then c
      else if isFloodImplementation c then c
      else c\<lparr>isFloodImplementation := True, flood := fl\<rparr>)"

text \<open>The transaction a call creates is numbered by its place in the vector.\<close>

definition registerStaticTransaction :: "Controller \<Rightarrow> Controller \<times> u32 option" where
  "registerStaticTransaction c =
     (if started c then (c, None)
      else (c\<lparr>min_session_xid := min_session_xid c + 1,
              static_ofresponse := static_ofresponse c @ [Some (length (static_ofresponse c))]\<rparr>,
            Some (min_session_xid c)))"

definition transaction_destroyed :: "u32 \<Rightarrow> Controller \<Rightarrow> Controller res" where
  "transaction_destroyed xid c =
     (if unat xid < length (static_ofresponse c)
      then Inr (c\<lparr>static_ofresponse := (static_ofresponse c)[unat xid := None]\<rparr>) else Inl OutOfRange)"

definition reserveTable :: "Controller \<Rightarrow> u8 \<times> Controller" where
  "reserveTable c = (handler_table c, c\<lparr>handler_table := handler_table c + 1\<rparr>)"

fun build_pipeline :: "string list \<Rightarrow> Controller \<Rightarrow> Controller \<times> fault option" where
  "build_pipeline [] c = (c, None)"
| "build_pipeline (name # names) c =
     (case handlers c name of
        None \<Rightarrow> (c, Some (Thrown ''out_of_range''))
      | Some fac \<Rightarrow> build_pipeline names (c\<lparr>pipeline_factory := pipeline_factory c @ [(name, fac)]\<rparr>))"

definition startUp :: "string list \<Rightarrow> bool \<Rightarrow> Controller \<Rightarrow> Controller \<times> fault option" where
  "startUp names bench c =
     (case build_pipeline names c of
        (c1, Some x) \<Rightarrow> (c1, Some x)
      | (c1, None) \<Rightarrow>
          (let c2 = (if \<not> isFloodImplementation c1 then c1\<lparr>flood := default_flood\<rparr> else c1)
           in (c2\<lparr>started := True, cbench := bench\<rparr>, None)))"

subsection \<open>Scopes\<close>

definition conn_alive :: "(nat \<Rightarrow> bool) \<Rightarrow> u64 \<Rightarrow> Controller \<Rightarrow> bool" where
  "conn_alive up dpid c = (case sw_conn c dpid of None \<Rightarrow> False | Some k \<Rightarrow> up k)"

definition find_switch :: "(nat \<Rightarrow> bool) \<Rightarrow> u64 \<Rightarrow> Controller \<Rightarrow> SwitchScope option" where
  "find_switch up dpid c = map_option (\<lambda>s. s\<lparr>sc_live := conn_alive up dpid c\<rparr>) (map_of (switches c) dpid)"

definition store_switch :: "u64 \<Rightarrow> SwitchScope \<Rightarrow> Controller \<Rightarrow> Controller" where
  "store_switch dpid s c =
     c\<lparr>switches := (if map_of (switches c) dpid = None then switches c @ [(dpid, s)]
                    else map (\<lambda>(d, t). if d = dpid then (d, s) else (d, t)) (switches c))\<rparr>"

definition createSwitchScope :: "(nat \<Rightarrow> bool) \<Rightarrow> nat \<Rightarrow> u64 \<Rightarrow> Controller \<Rightarrow> (Controller \<times> ctl_effect list) res" where
  "createSwitchScope up k dpid c =
     (case map_of (switches c) dpid of
        None \<Rightarrow>
          res_bind (new_SwitchScope (map (\<lambda>(name, fac). (name, fac dpid)) (pipeline_factory c)) (up k) dpid (handler_table c)
                      (flood c) (next_cookie c)) (\<lambda>(s, next, es).
            Inr ((store_switch dpid s c)\<lparr>next_cookie := next, sw_conn := (sw_conn c)(dpid \<mapsto> k)\<rparr>, map (Scope dpid) es))
      | Some s0 \<Rightarrow>
          let c1 = c\<lparr>sw_conn := (sw_conn c)(dpid \<mapsto> k)\<rparr>
          in case find_switch up dpid c1 of
               None \<Rightarrow> Inl NullDereference
             | Some s \<Rightarrow> Inr (c1, map (Scope dpid) (reinit s)))"

definition invalidate_switch :: "(nat \<Rightarrow> bool) \<Rightarrow> u64 \<Rightarrow> Controller \<Rightarrow> Controller \<times> ctl_effect list" where
  "invalidate_switch up dpid c =
     (case find_switch up dpid c of
        None \<Rightarrow> (c, [])
      | Some s \<Rightarrow> (store_switch dpid (s\<lparr>sc_tree := Unexplored\<rparr>) c,
                   map (Scope dpid) (send [backend_remove (sc_handler_table s) []] s)))"

fun invalidate_all :: "(nat \<Rightarrow> bool) \<Rightarrow> u64 list \<Rightarrow> Controller \<Rightarrow> Controller \<times> ctl_effect list" where
  "invalidate_all up [] c = (c, [])"
| "invalidate_all up (d # ds) c =
     (case invalidate_switch up d c of (c1, es) \<Rightarrow> case invalidate_all up ds c1 of (c2, es') \<Rightarrow> (c2, es @ es'))"

definition invalidateTraceTree :: "(nat \<Rightarrow> bool) \<Rightarrow> Controller \<Rightarrow> Controller \<times> ctl_effect list" where
  "invalidateTraceTree up c = invalidate_all up (map fst (switches c)) c"

subsection \<open>Callbacks of the OpenFlow library\<close>

datatype conn_event = EVENT_STARTED | EVENT_ESTABLISHED | EVENT_FAILED_NEGOTIATION | EVENT_CLOSED | EVENT_DEAD

definition connection_lost :: "nat \<Rightarrow> Controller \<Rightarrow> Controller \<times> ctl_effect list" where
  "connection_lost k c =
     (case app_data c k of
        None \<Rightarrow> (c, [])
      | Some dpid \<Rightarrow>
          (case map_of (switches c) dpid of
             None \<Rightarrow> (c, [])
           | Some s \<Rightarrow>
               ((store_switch dpid (s\<lparr>sc_tree := Unexplored, sc_flows := (\<lambda>_. None)\<rparr>) c)\<lparr>app_data := (app_data c)(k := None),
                   sw_conn := (sw_conn c)(dpid := None)\<rparr>, [SwitchDown dpid])))"

definition connection_callback :: "nat \<Rightarrow> conn_event \<Rightarrow> Controller \<Rightarrow> Controller \<times> ctl_effect list" where
  "connection_callback k ev c =
     (case ev of
        EVENT_STARTED \<Rightarrow> (c\<lparr>app_data := (app_data c)(k := None)\<rparr>, [])
      | EVENT_ESTABLISHED \<Rightarrow> (c, [])
      | EVENT_FAILED_NEGOTIATION \<Rightarrow> (c, [])
      | EVENT_CLOSED \<Rightarrow> connection_lost k c
      | EVENT_DEAD \<Rightarrow> connection_lost k c)"

text \<open>What a fault in the \<open>try\<close> block becomes: exceptions are caught.\<close>

definition uncaught :: "fault option \<Rightarrow> fault option" where
  "uncaught x = (case x of Some (Thrown _) \<Rightarrow> None | _ \<Rightarrow> x)"

definition dispatch_reply :: "u64 \<Rightarrow> raw_msg \<Rightarrow> Controller \<Rightarrow> (ctl_effect list) res" where
  "dispatch_reply dpid m c =
     (if rm_xid m < min_xid then Inr []
      else if rm_xid m < min_session_xid c then
        if unat (rm_xid m - min_xid) < length (static_ofresponse c) then
          case static_ofresponse c ! unat (rm_xid m - min_xid) of
            None \<Rightarrow> Inr []
          | Some n \<Rightarrow> Inr [if rm_type m = 1 then ErrorResponse n dpid else Response n dpid]
        else Inl OutOfRange
      else Inr [])"

definition handle_packet_in :: "(nat \<Rightarrow> bool) \<Rightarrow> u64 \<Rightarrow> packet_in \<Rightarrow> packet \<Rightarrow> Controller \<Rightarrow> Controller \<times> ctl_effect list \<times> fault option" where
  "handle_packet_in up dpid pin q c =
     (case find_switch up dpid c of
        None \<Rightarrow> (c, [], Some NullDereference)
      | Some s \<Rightarrow>
          (case processPacketIn pin q (next_cookie c) s of
             ((s', es, x), next) \<Rightarrow> ((store_switch dpid s' c)\<lparr>next_cookie := next\<rparr>, map (Scope dpid) es, x)))"

definition handle_flow_removed :: "(nat \<Rightarrow> bool) \<Rightarrow> u64 \<Rightarrow> u64 \<Rightarrow> removed_reason \<Rightarrow> Controller \<Rightarrow> Controller \<times> ctl_effect list \<times> fault option" where
  "handle_flow_removed up dpid cookie r c =
     (case find_switch up dpid c of
        None \<Rightarrow> (c, [], Some NullDereference)
      | Some s \<Rightarrow>
          (case processFlowRemoved cookie r s of
             (s', es) \<Rightarrow> (store_switch dpid s' c, map (Scope dpid) es @ [FlowRemoved dpid cookie], None)))"

definition handle_features :: "(nat \<Rightarrow> bool) \<Rightarrow> nat \<Rightarrow> u64 \<Rightarrow> Controller \<Rightarrow> Controller \<times> ctl_effect list \<times> fault option" where
  "handle_features up k dpid c =
     (case createSwitchScope up k dpid c of
        Inl e \<Rightarrow> (c, [], Some e)
      | Inr (c', es) \<Rightarrow> (c'\<lparr>app_data := (app_data c')(k \<mapsto> dpid)\<rparr>, es @ [SwitchUp dpid], None))"

definition handle_message :: "(nat \<Rightarrow> bool) \<Rightarrow> nat \<Rightarrow> raw_msg \<Rightarrow> Controller \<Rightarrow> Controller \<times> ctl_effect list \<times> fault option" where
  "handle_message up k m c =
     (case OFMsgUnion m of
        Inl e \<Rightarrow> (c, [], Some e)
      | Inr cls \<Rightarrow>
          (case (rm_body m, app_data c k) of
             (FeaturesBody dpid, _) \<Rightarrow> handle_features up k dpid c
           | (_, None) \<Rightarrow> (c, [], None)
           | (PacketInBody pin q, Some dpid) \<Rightarrow> handle_packet_in up dpid pin q c
           | (RemovedBody cookie r, Some dpid) \<Rightarrow> handle_flow_removed up dpid cookie r c
           | (NoBody, Some dpid) \<Rightarrow>
               if rm_type m = 12 then (c, [PortStatus dpid], None)
               else if cls = None then (c, [], Some NullDereference)
               else (case dispatch_reply dpid m c of Inl e \<Rightarrow> (c, [], Some e) | Inr es \<Rightarrow> (c, es, None))))"

definition message_callback :: "(nat \<Rightarrow> bool) \<Rightarrow> nat \<Rightarrow> raw_msg \<Rightarrow> Controller \<Rightarrow> Controller \<times> ctl_effect list \<times> fault option" where
  "message_callback up k m c =
     (if cbench c \<and> rm_type m = 10 then (c, [EmptyPacketOut k (rm_xid m)], None)
      else if app_data c k = None \<and> rm_type m \<noteq> 6 then (c, [], None)
      else case handle_message up k m c of (c', es, x) \<Rightarrow> (c', es, uncaught x))"

text \<open>The body of a message is the one of its type.\<close>

definition wf_msg :: "raw_msg \<Rightarrow> bool" where
  "wf_msg m =
     (case rm_body m of
        NoBody \<Rightarrow> rm_type m \<notin> {6, 10, 11}
      | PacketInBody _ _ \<Rightarrow> rm_type m = 10
      | FeaturesBody _ \<Rightarrow> rm_type m = 6
      | RemovedBody _ _ \<Rightarrow> rm_type m = 11)"

subsection \<open>Runs of the controller\<close>

inductive controller_run :: "Controller \<Rightarrow> bool" where
  ctl_new: "controller_run new_Controller"
| ctl_handler: "controller_run c \<Longrightarrow> controller_run (registerHandler name fac c)"
| ctl_flood: "controller_run c \<Longrightarrow> controller_run (registerFlood fl c)"
| ctl_transaction: "controller_run c \<Longrightarrow> min_session_xid c \<noteq> - 1 \<Longrightarrow> controller_run (fst (registerStaticTransaction c))"
| ctl_table: "controller_run c \<Longrightarrow> controller_run (snd (reserveTable c))"
| ctl_startUp: "controller_run c \<Longrightarrow> controller_run (fst (startUp names bench c))"
| ctl_message: "controller_run c \<Longrightarrow> message_callback up k m c = (c', es, None) \<Longrightarrow> controller_run c'"
| ctl_connection: "controller_run c \<Longrightarrow> connection_callback k ev c = (c', es) \<Longrightarrow> controller_run c'"
| ctl_invalidate: "controller_run c \<Longrightarrow> invalidateTraceTree up c = (c', es) \<Longrightarrow> controller_run c'"

definition xids_ok :: "Controller \<Rightarrow> bool" where
  "xids_ok c \<longleftrightarrow> unat (min_session_xid c) = 0xfff + length (static_ofresponse c) \<and>
     (\<forall>i < length (static_ofresponse c). static_ofresponse c ! i = Some i)"

definition scopes_ok :: "Controller \<Rightarrow> bool" where
  "scopes_ok c \<longleftrightarrow> (\<forall>k dpid. app_data c k = Some dpid \<longrightarrow> map_of (switches c) dpid \<noteq> None)"

lemma map_of_store_switch:
  "map_of (switches (store_switch dpid s c)) d = (if d = dpid then Some s else map_of (switches c) d)"
proof -
  have "map_of (map (\<lambda>(d, t). if d = dpid then (d, s) else (d, t)) xs) d =
      (if d = dpid then map_option (\<lambda>_. s) (map_of xs d) else map_of xs d)" for xs
    by (induction xs) auto
  then show ?thesis by (auto simp: store_switch_def map_add_def split: option.splits)
qed

lemma store_switch_frame [simp]:
  "min_session_xid (store_switch dpid s c) = min_session_xid c" "static_ofresponse (store_switch dpid s c) = static_ofresponse c"
  "app_data (store_switch dpid s c) = app_data c" "sw_conn (store_switch dpid s c) = sw_conn c"
  by (simp_all add: store_switch_def)

text \<open>The part of the state that only registration changes.\<close>

definition static_part :: "Controller \<Rightarrow> u32 \<times> (nat option) list" where
  "static_part c = (min_session_xid c, static_ofresponse c)"

lemma xids_ok_static: "static_part c' = static_part c \<Longrightarrow> xids_ok c' = xids_ok c"
  by (simp add: static_part_def xids_ok_def)

lemma invalidate_all_frame:
  "invalidate_all up ds c = (c', es) \<Longrightarrow>
     static_part c' = static_part c \<and> app_data c' = app_data c \<and> (\<forall>d. map_of (switches c) d \<noteq> None \<longrightarrow> map_of (switches c') d \<noteq> None)"
proof (induction ds arbitrary: c es)
  case (Cons d ds)
  obtain c1 es1 es2 where 1: "invalidate_switch up d c = (c1, es1)" "invalidate_all up ds c1 = (c', es2)"
    using Cons.prems by (auto split: prod.splits)
  have "static_part c1 = static_part c \<and> app_data c1 = app_data c \<and> (\<forall>d. map_of (switches c) d \<noteq> None \<longrightarrow> map_of (switches c1) d \<noteq> None)"
    using 1(1) by (auto simp: invalidate_switch_def static_part_def map_of_store_switch split: option.splits)
  then show ?case using Cons.IH [OF 1(2)] by simp
qed simp

definition keeps :: "Controller \<Rightarrow> Controller \<Rightarrow> bool" where
  "keeps c c' \<longleftrightarrow> static_part c' = static_part c \<and> (scopes_ok c \<longrightarrow> scopes_ok c')"

lemma keeps_refl [simp]: "keeps c c"
  by (simp add: keeps_def)

lemma keeps_features: "handle_features up k dpid c = (c', es, x) \<Longrightarrow> keeps c c'"
proof -
  assume h: "handle_features up k dpid c = (c', es, x)"
  show ?thesis
  proof (cases "createSwitchScope up k dpid c")
    case (Inr p)
    obtain c1 es1 where p: "p = (c1, es1)" by fastforce
    have c1: "static_part c1 = static_part c" "app_data c1 = app_data c" "map_of (switches c1) dpid \<noteq> None"
        "\<And>d. map_of (switches c) d \<noteq> None \<Longrightarrow> map_of (switches c1) d \<noteq> None"
      using Inr p by (auto simp: createSwitchScope_def Let_def static_part_def map_of_store_switch find_switch_def split: option.splits)
    have "c' = c1\<lparr>app_data := (app_data c1)(k \<mapsto> dpid)\<rparr>" using h Inr p by (simp add: handle_features_def)
    then show ?thesis using c1 by (auto simp: keeps_def static_part_def scopes_ok_def)
  qed (use h in \<open>simp add: handle_features_def\<close>)
qed

lemma keeps_put: "keeps c (store_switch dpid s c)" "keeps c ((store_switch dpid s c)\<lparr>next_cookie := n\<rparr>)"
  by (auto simp: keeps_def static_part_def scopes_ok_def map_of_store_switch)

lemma keeps_message: "message_callback up k m c = (c', es, x) \<Longrightarrow> keeps c c'"
proof -
  assume h: "message_callback up k m c = (c', es, x)"
  have "keeps c c1" if "handle_message up k m c = (c1, es1, x1)" for c1 es1 x1
  proof -
    have "handle_packet_in up d pin q c = (c1, es1, x1) \<Longrightarrow> keeps c c1" for d pin q
      using keeps_put by (auto simp: handle_packet_in_def split: option.splits prod.splits)
    moreover have "handle_flow_removed up d ck r c = (c1, es1, x1) \<Longrightarrow> keeps c c1" for d ck r
      using keeps_put by (auto simp: handle_flow_removed_def split: option.splits prod.splits)
    ultimately show ?thesis using that keeps_features
      by (auto simp: handle_message_def split: sum.splits body.splits option.splits if_splits)
  qed
  then show ?thesis using h by (auto simp: message_callback_def split: if_splits prod.splits)
qed

lemma keeps_connection: "connection_callback k ev c = (c', es) \<Longrightarrow> keeps c c'"
  by (auto simp: connection_callback_def connection_lost_def keeps_def static_part_def scopes_ok_def map_of_store_switch
      split: conn_event.splits option.splits if_splits)

lemma build_pipeline_frame: "build_pipeline names c = (c', x) \<Longrightarrow> static_part c' = static_part c \<and> app_data c' = app_data c \<and> switches c' = switches c"
  by (induction names c rule: build_pipeline.induct) (auto simp: static_part_def split: option.splits)

lemma keeps_startUp: "keeps c (fst (startUp names bench c))"
proof -
  obtain c1 x where "build_pipeline names c = (c1, x)" by fastforce
  then show ?thesis using build_pipeline_frame [of names c c1 x]
    by (auto simp: startUp_def Let_def keeps_def scopes_ok_def static_part_def split: option.splits)
qed

lemma unat_u32_next: "x \<noteq> (- 1 :: u32) \<Longrightarrow> unat (x + 1) = unat x + 1"
proof -
  assume "x \<noteq> - 1"
  then have "1 + x \<noteq> 0" by (metis add.commute add_eq_0_iff)
  then show ?thesis by (metis add.commute unatSuc Suc_eq_plus1)
qed

lemma controller_run_inv: "controller_run c \<Longrightarrow> xids_ok c \<and> scopes_ok c"
proof (induction rule: controller_run.induct)
  case ctl_new
  then show ?case by (simp add: xids_ok_def scopes_ok_def new_Controller_def min_xid_def)
next
  case (ctl_transaction c)
  then show ?case
    by (auto simp: registerStaticTransaction_def xids_ok_def scopes_ok_def unat_u32_next nth_append less_Suc_eq)
next
  case (ctl_startUp c names bench)
  then show ?case using keeps_startUp [of c names bench] xids_ok_static [of "fst (startUp names bench c)" c] by (simp add: keeps_def)
next
  case (ctl_message c up k m c' es)
  then show ?case using keeps_message [OF ctl_message(2)] xids_ok_static [of c' c] by (simp add: keeps_def)
next
  case (ctl_connection c k ev c' es)
  then show ?case using keeps_connection [OF ctl_connection(2)] xids_ok_static [of c' c] by (simp add: keeps_def)
next
  case (ctl_invalidate c up c' es)
  then show ?case using invalidate_all_frame [of up _ c c' es] xids_ok_static [of c' c]
    by (simp add: invalidateTraceTree_def scopes_ok_def)
qed (auto simp: registerHandler_def registerFlood_def reserveTable_def xids_ok_def scopes_ok_def)

subsection \<open>Replies\<close>

definition is_reply :: "raw_msg \<Rightarrow> bool" where
  "is_reply m \<longleftrightarrow> rm_body m = NoBody \<and> rm_type m \<noteq> 12 \<and> wf_msg m \<and> (\<exists>cls. OFMsgUnion m = Inr (Some cls))"

lemma dispatch_reply_ok:
  assumes "xids_ok c"
  shows "dispatch_reply dpid m c =
    Inr (if 0xfff \<le> unat (rm_xid m) \<and> unat (rm_xid m) - 0xfff < length (static_ofresponse c)
         then [if rm_type m = 1 then ErrorResponse (unat (rm_xid m) - 0xfff) dpid else Response (unat (rm_xid m) - 0xfff) dpid]
         else [])"
proof -
  have lt: "rm_xid m < min_xid \<longleftrightarrow> unat (rm_xid m) < 0xfff" by (simp add: word_less_nat_alt min_xid_def)
  have ms: "rm_xid m < min_session_xid c \<longleftrightarrow> unat (rm_xid m) < 0xfff + length (static_ofresponse c)"
    using assms by (simp add: word_less_nat_alt xids_ok_def)
  have sub: "unat (rm_xid m - min_xid) = unat (rm_xid m) - 0xfff" if "0xfff \<le> unat (rm_xid m)"
    using that by (subst unat_sub) (simp_all add: word_le_nat_alt min_xid_def)
  show ?thesis
  proof (cases "0xfff \<le> unat (rm_xid m)")
    case True
    then show ?thesis using assms lt ms sub
      by (cases "unat (rm_xid m) - 0xfff < length (static_ofresponse c)") (auto simp: dispatch_reply_def xids_ok_def)
  qed (use lt in \<open>simp add: dispatch_reply_def\<close>)
qed

text \<open>
  C13: replies reach the transaction that asked. In every state the controller can reach, a registration
  before the start returns an xid of its own; a reply or error message with that xid from a connected switch is handed to
  exactly that transaction, and a message with any other xid to none. The table of transactions is never read out of
  range.
\<close>

theorem transaction_dispatch:
  assumes "controller_run c" "app_data c k = Some dpid" "is_reply m"
  shows "message_callback up k m c =
      (c, if 0xfff \<le> unat (rm_xid m) \<and> unat (rm_xid m) - 0xfff < length (static_ofresponse c)
          then [if rm_type m = 1 then ErrorResponse (unat (rm_xid m) - 0xfff) dpid else Response (unat (rm_xid m) - 0xfff) dpid]
          else [], None) \<and>
    (\<forall>c' xid. registerStaticTransaction c = (c', Some xid) \<longrightarrow>
       unat xid = 0xfff + length (static_ofresponse c) \<and> static_ofresponse c' ! (unat xid - 0xfff) = Some (unat xid - 0xfff))"
proof -
  have ok: "xids_ok c" using controller_run_inv [OF assms(1)] by blast
  have "handle_message up k m c = (c, if 0xfff \<le> unat (rm_xid m) \<and> unat (rm_xid m) - 0xfff < length (static_ofresponse c)
          then [if rm_type m = 1 then ErrorResponse (unat (rm_xid m) - 0xfff) dpid else Response (unat (rm_xid m) - 0xfff) dpid]
          else [], None)"
    using assms(2,3) dispatch_reply_ok [OF ok, of dpid m] by (auto simp: handle_message_def is_reply_def)
  moreover have "rm_type m \<noteq> 10" using assms(3) by (auto simp: is_reply_def wf_msg_def)
  ultimately have "message_callback up k m c = (c, if 0xfff \<le> unat (rm_xid m) \<and> unat (rm_xid m) - 0xfff < length (static_ofresponse c)
          then [if rm_type m = 1 then ErrorResponse (unat (rm_xid m) - 0xfff) dpid else Response (unat (rm_xid m) - 0xfff) dpid]
          else [], None)"
    using assms(2) by (simp add: message_callback_def uncaught_def)
  then show ?thesis using ok by (auto simp: registerStaticTransaction_def xids_ok_def split: if_splits)
qed

text \<open>
  Destroying a transaction writes out of range. The handler of the transaction's \<open>destroyed\<close> signal uses the
  xid itself as the index, without subtracting the first one: with at most 4,095 transactions every
  such write is outside the vector, and the entry of the destroyed transaction stays.
\<close>

theorem transaction_destroyed_out_of_range:
  assumes "controller_run c" "registerStaticTransaction c = (c', Some xid)" "length (static_ofresponse c) < 4095"
  shows "transaction_destroyed xid c' = Inl OutOfRange"
proof -
  have "xids_ok c" using controller_run_inv [OF assms(1)] by blast
  then show ?thesis using assms(2,3) by (auto simp: registerStaticTransaction_def xids_ok_def transaction_destroyed_def split: if_splits)
qed

lemma unknown_multipart_crashes:
  assumes "app_data c k = Some dpid" "rm_type m = 19" "rm_body m = NoBody" "rm_unpacks m" "multipart_class (rm_mpart m) = None"
  shows "message_callback up k m c = (c, [], Some NullDereference)"
  using assms by (simp add: message_callback_def handle_message_def OFMsgUnion_def msg_class_def uncaught_def)

lemma aggregate_reply_is_table: "multipart_class 2 = multipart_class 3"
  by (simp add: multipart_class_def)

subsection \<open>Reconnection\<close>

text \<open>
  C38: the end of an old connection silences a switch that has already come back. When a switch identifies itself on
  a second connection before its first one is closed, its scope sends on the second; but closing the first then signals
  that the switch went down and takes the scope's connection away, so that nothing is sent to it any more although the
  second connection is alive and its messages are still handled.
\<close>

theorem old_connection_silences_switch:
  assumes "app_data c k1 = Some dpid" "map_of (switches c) dpid = Some s" "k1 \<noteq> k2" "ev \<in> {EVENT_CLOSED, EVENT_DEAD}"
    "handle_features up k2 dpid c = (c1, es1, None)" "connection_callback k1 ev c1 = (c2, es2)"
  shows "sw_conn c1 dpid = Some k2 \<and> es2 = [SwitchDown dpid] \<and> app_data c2 k2 = Some dpid \<and>
    (\<exists>t. find_switch up' dpid c2 = Some t \<and> (\<forall>ms. send ms t = []))"
proof -
  have c1: "c1 = c\<lparr>sw_conn := (sw_conn c)(dpid \<mapsto> k2), app_data := (app_data c)(k2 \<mapsto> dpid)\<rparr>"
    using assms(2,5) by (auto simp: handle_features_def createSwitchScope_def Let_def find_switch_def)
  let ?s = "s\<lparr>sc_tree := Unexplored, sc_flows := (\<lambda>_. None)\<rparr>"
  have c2: "c2 = (store_switch dpid ?s c1)\<lparr>app_data := (app_data c1)(k1 := None), sw_conn := (sw_conn c1)(dpid := None)\<rparr>"
      "es2 = [SwitchDown dpid]"
    using assms(1-4,6) c1 by (auto simp: connection_callback_def connection_lost_def)
  have "map_of (switches c2) dpid = Some ?s" using c2(1) map_of_store_switch [of dpid ?s c1 dpid] by simp
  moreover have "sw_conn c2 dpid = None" using c2(1) by simp
  ultimately have "find_switch up' dpid c2 = Some (?s\<lparr>sc_live := False\<rparr>)" by (simp add: find_switch_def conn_alive_def)
  then show ?thesis using c1 c2 assms(3) by (simp add: send_def conn_send_def)
qed

subsection \<open>Tables\<close>

fun reserve_tables :: "nat \<Rightarrow> Controller \<Rightarrow> u8 list \<times> Controller" where
  "reserve_tables 0 c = ([], c)"
| "reserve_tables (Suc n) c = (case reserve_tables n c of (ts, c1) \<Rightarrow> case reserveTable c1 of (t, c2) \<Rightarrow> (ts @ [t], c2))"

lemma reserve_tables_new: "reserve_tables n new_Controller = (map of_nat [0..<n], new_Controller\<lparr>handler_table := of_nat n\<rparr>)"
  by (induction n) (simp_all add: reserveTable_def new_Controller_def add.commute)

lemma of_nat_u8_inj: "a < 256 \<Longrightarrow> b < 256 \<Longrightarrow> (of_nat a :: u8) = of_nat b \<longleftrightarrow> a = b"
proof -
  assume l: "a < 256" "b < 256"
  then have "unat (of_nat a :: u8) = a" "unat (of_nat b :: u8) = b" by (simp_all add: unat_of_nat take_bit_nat_eq_self)
  then show ?thesis by metis
qed

text \<open>The rule a packet meets in a table that holds only the base rules.\<close>

fun base_of :: "of_msg list \<Rightarrow> u8 \<Rightarrow> instruction option" where
  "base_of [] t = None"
| "base_of (FlowAdd fa # ms) t = (if fa_table fa = t then Some (fa_instruction fa) else base_of ms t)"
| "base_of (m # ms) t = base_of ms t"

fun walk_tables :: "nat \<Rightarrow> of_msg list \<Rightarrow> u8 \<Rightarrow> instruction option" where
  "walk_tables 0 ms t = None"
| "walk_tables (Suc n) ms t = (case base_of ms t of Some (GoToTable t') \<Rightarrow> walk_tables n ms t' | r \<Rightarrow> r)"

lemma base_of_append: "base_of (a @ b) t = (case base_of a t of None \<Rightarrow> base_of b t | Some r \<Rightarrow> Some r)"
  by (induction a t rule: base_of.induct) auto

lemma base_of_gotos:
  "n \<le> 256 \<Longrightarrow> i < 256 \<Longrightarrow> base_of (concat (map (\<lambda>i. installGoto (of_nat i)) [0..<n])) (of_nat i) =
     (if i < n then Some (GoToTable (of_nat i + 1)) else None)"
proof (induction n)
  case (Suc n)
  then show ?case
    using of_nat_u8_inj [of n i]
    by (auto simp: base_of_append installGoto_def base_rule_def backend_barrier_def less_Suc_eq)
qed simp

lemma base_of_reinit:
  assumes "i \<le> unat table"
  shows "base_of (reinit_msgs table) (of_nat i) =
    Some (if i < unat table then GoToTable (of_nat i + 1) else ApplyActions [OutputAction OFPP_CONTROLLER 128])"
proof -
  have l: "unat table < 256" using unsigned_less [of table] by simp
  have "(of_nat (unat table) :: u8) = table" by simp
  then show ?thesis using assms l base_of_gotos [of "unat table" i]
    by (auto simp: reinit_msgs_def clearTables_def base_of_append backend_barrier_def installTableMissRule_def backend_remove_def
        base_rule_def le_less)
qed

lemma walk_reinit:
  "i + n = unat table \<Longrightarrow> walk_tables (Suc n) (reinit_msgs table) (of_nat i) = Some (ApplyActions [OutputAction OFPP_CONTROLLER 128])"
proof (induction n arbitrary: i)
  case (Suc n)
  have "walk_tables (Suc n) (reinit_msgs table) (of_nat (Suc i)) = Some (ApplyActions [OutputAction OFPP_CONTROLLER 128])"
    using Suc.IH [of "Suc i"] Suc.prems by simp
  then show ?case using base_of_reinit [of i table] Suc.prems by (simp add: add.commute)
next
  case 0
  then show ?case using base_of_reinit [of "unat table" table] by simp
qed



subsection \<open>A run\<close>

definition features_msg :: raw_msg where
  "features_msg = \<lparr>rm_type = 6, rm_unpacks = True, rm_mpart = 0, rm_xid = 0, rm_body = FeaturesBody 77\<rparr>"

definition barrier_reply :: raw_msg where
  "barrier_reply = \<lparr>rm_type = 21, rm_unpacks = True, rm_mpart = 0, rm_xid = 0xfff, rm_body = NoBody\<rparr>"

lemma demo_controller:
  obtains c s where "controller_run c" "app_data c 3 = Some 77" "map_of (switches c) 77 = Some s" "length (static_ofresponse c) = 1"
proof -
  let ?c = "fst (registerStaticTransaction new_Controller)"
  have r: "controller_run ?c" by (intro ctl_transaction ctl_new) (simp add: new_Controller_def min_xid_def)
  obtain c s es where c: "handle_features (\<lambda>_. True) 3 77 ?c = (c, es, None)" "app_data c 3 = Some 77"
      "map_of (switches c) 77 = Some s" "static_ofresponse c = [Some 0]"
    by (simp add: handle_features_def createSwitchScope_def registerStaticTransaction_def new_Controller_def new_SwitchScope_def
        Flow_cookie_def inspect_def new_Decision_def Let_def store_switch_def)
  have "handle_message (\<lambda>_. True) 3 features_msg ?c = (c, es, None)"
    using c(1) by (simp add: handle_message_def features_msg_def OFMsgUnion_def msg_class_def)
  then have "message_callback (\<lambda>_. True) 3 features_msg ?c = (c, es, None)"
    by (simp add: message_callback_def features_msg_def uncaught_def)
  then have "controller_run c" by (rule ctl_message [OF r])
  then show thesis using that c(2-4) by simp
qed

theorem transaction_dispatch_witness:
  "\<exists>c. controller_run c \<and> message_callback (\<lambda>_. True) 3 barrier_reply c = (c, [Response 0 77], None)"
proof (rule demo_controller)
  fix c s
  assume c: "controller_run c" "app_data c 3 = Some 77" "length (static_ofresponse c) = 1"
  have "is_reply barrier_reply" by (simp add: is_reply_def barrier_reply_def wf_msg_def OFMsgUnion_def msg_class_def)
  from transaction_dispatch [OF c(1,2) this, of "\<lambda>_. True"] c show ?thesis by (auto simp: barrier_reply_def)
qed

theorem transaction_destroyed_out_of_range_witness:
  "\<exists>c' xid. registerStaticTransaction new_Controller = (c', Some xid) \<and> transaction_destroyed xid c' = Inl OutOfRange"
proof -
  obtain c' xid where r: "registerStaticTransaction new_Controller = (c', Some xid)"
    by (simp add: registerStaticTransaction_def new_Controller_def)
  have "length (static_ofresponse new_Controller) < 4095" by (simp add: new_Controller_def)
  then show ?thesis using transaction_destroyed_out_of_range [OF ctl_new r] r by blast
qed

theorem old_connection_silences_switch_witness:
  "\<exists>c c1 es1 c2 es2 t. controller_run c \<and> handle_features (\<lambda>_. True) 4 77 c = (c1, es1, None) \<and>
     connection_callback 3 EVENT_CLOSED c1 = (c2, es2) \<and> app_data c2 4 = Some 77 \<and>
     find_switch (\<lambda>_. True) 77 c2 = Some t \<and> send [BarrierRequest] t = []"
proof (rule demo_controller)
  fix c s
  assume c: "controller_run c" "app_data c 3 = Some 77" "map_of (switches c) 77 = Some s"
  obtain c1 es1 where 1: "handle_features (\<lambda>_. True) 4 77 c = (c1, es1, None)"
    using c(3) by (simp add: handle_features_def createSwitchScope_def Let_def find_switch_def)
  obtain c2 es2 where 2: "connection_callback 3 EVENT_CLOSED c1 = (c2, es2)" by fastforce
  show ?thesis using old_connection_silences_switch [OF c(2,3) _ _ 1 2, of "\<lambda>_. True"] c(1) 1 2 by auto
qed

end
