(* ===== verification/Rest_Listener.thy ===== *)
theory Rest_Listener
  imports Event_Log "HOL-Library.AList"
begin

text \<open>
  The REST listener: \<open>src/RestListener.cc\<close> and the base class of its handlers, \<open>src/Rest.hh\<close>. It gives each handler
  that records events a bit of a 32-bit mask, answers polls of the event log for a list of applications, and serves files below the web
  directory.

  A handler is known by its name; whether it has been given an event manager is a flag. The HTTP server and its matching of paths with
  regular expressions, the reading of files and the JSON texts are left out.
\<close>

subsection \<open>Handlers\<close>

record RestHandler =
  restName :: string
  eventable :: bool
  hash :: u32
  has_em :: bool

record RestListener =
  rest_handlers :: "(string \<times> RestHandler) list"
  cur_hash :: u32

definition new_RestListener :: RestListener where
  "new_RestListener = \<lparr>rest_handlers = [], cur_hash = 1\<rparr>"

definition registerRestHandler :: "RestHandler \<Rightarrow> RestListener \<Rightarrow> RestListener" where
  "registerRestHandler h L =
     (if eventable h then
        L\<lparr>rest_handlers := AList.update (restName h) (h\<lparr>hash := cur_hash L, has_em := True\<rparr>) (rest_handlers L),
          cur_hash := cur_hash L * 2\<rparr>
      else L\<lparr>rest_handlers := AList.update (restName h) (h\<lparr>hash := 0\<rparr>) (rest_handlers L)\<rparr>)"

definition addEvent :: "RestHandler \<Rightarrow> ev_type \<Rightarrow> nat \<Rightarrow> EventManager \<Rightarrow> EventManager res" where
  "addEvent h ty obj em =
     (if eventable h \<and> has_em h then addToEventList ty obj (hash h) (restName h) em else Inr em)"

subsection \<open>Requests\<close>

function split :: "string \<Rightarrow> char \<Rightarrow> string list" where
  "split s delim =
     (if s = [] then []
      else
        let item = takeWhile (\<lambda>c. c \<noteq> delim) s; rest = dropWhile (\<lambda>c. c \<noteq> delim) s
        in item # split (tl rest) delim)"
  by pat_completeness auto
termination
proof (relation "measure (\<lambda>(s, delim). length s)")
  fix s :: string and delim item rest
  assume "s \<noteq> []" "rest = dropWhile (\<lambda>c. c \<noteq> delim) s"
  then show "((tl rest, delim), (s, delim)) \<in> measure (\<lambda>(s, delim). length s)"
    using length_dropWhile_le [of "\<lambda>c. c \<noteq> delim" s] by (cases s) (auto simp: less_Suc_eq_le)
qed simp

declare split.simps [simp del]

definition rest_params :: "string \<Rightarrow> string list res" where
  "rest_params path = (let params = split path CHR ''/'' in if length params < 3 then Inl OutOfRange else Inr (drop 3 params))"

definition apps_map :: "string list \<Rightarrow> RestListener \<Rightarrow> u32" where
  "apps_map apps L =
     foldl (\<lambda>m app. case map_of (rest_handlers L) app of None \<Rightarrow> m | Some h \<Rightarrow> or m (hash h)) 0 apps"

definition timeout_request :: "string \<Rightarrow> nat \<Rightarrow> RestListener \<Rightarrow> EventManager \<Rightarrow> (nat \<times> (string \<Rightarrow> Event list)) res" where
  "timeout_request param1 seen L em = timeout (apps_map (split param1 CHR ''&'') L) seen em"

subsection \<open>Files\<close>

fun find_dots :: "string \<Rightarrow> nat \<Rightarrow> nat option" where
  "find_dots (c # d # cs) i = (if c = CHR ''.'' \<and> d = CHR ''.'' then Some i else find_dots (d # cs) (Suc i))"
| "find_dots _ i = None"

lemma find_dots_less: "find_dots path i = Some pos \<Longrightarrow> pos < i + length path"
  by (induction path i rule: find_dots.induct) (auto split: if_splits)

function sanitize :: "string \<Rightarrow> string" where
  "sanitize path =
     (case find_dots path 0 of None \<Rightarrow> path | Some pos \<Rightarrow> sanitize (take pos path @ drop (Suc pos) path))"
  by pat_completeness auto
termination
  by (relation "measure length") (auto dest: find_dots_less)

declare sanitize.simps [simp del]

definition served_file :: "string \<Rightarrow> string \<Rightarrow> string" where
  "served_file web_dir request_path =
     (let path = sanitize request_path; filename = web_dir @ path
      in if path = ''/'' then filename @ ''start.html'' else filename)"

subsection \<open>Objects that have been announced\<close>

text \<open>An object that was announced once can always be withdrawn.\<close>

definition announced :: "RestHandler \<Rightarrow> nat set \<Rightarrow> EventManager \<Rightarrow> bool" where
  "announced rest X em \<longleftrightarrow> (eventable rest \<and> has_em rest \<and> hash rest \<noteq> 0 \<longrightarrow>
     (\<forall>x \<in> X. \<exists>e \<in> set (events em). ev_obj e = x \<and> ev_typ e = Add))"

lemma addToEventList_keeps:
  assumes "addToEventList ty obj h app em = Inr em'" "e \<in> set (events em)"
  shows "\<exists>e' \<in> set (events em'). ev_obj e' = ev_obj e \<and> ev_typ e' = ev_typ e"
proof -
  obtain i where i: "i < length (events em)" "events em ! i = e" using assms(2) by (auto simp: in_set_conv_nth)
  have upd: "ev_obj ((events em)[k := (events em ! k)\<lparr>brother := v\<rparr>] ! i) = ev_obj e \<and>
      ev_typ ((events em)[k := (events em ! k)\<lparr>brother := v\<rparr>] ! i) = ev_typ e" for k v
    using i by (cases "k = i") auto
  have "(\<exists>rest. events em' = events em @ rest) \<or> (\<exists>k v rest. events em' = (events em)[k := (events em ! k)\<lparr>brother := v\<rparr>] @ rest)"
    using assms(1) by (auto simp: addToEventList_def Let_def split: if_splits option.splits) blast
  then have "i < length (events em') \<and> ev_obj (events em' ! i) = ev_obj e \<and> ev_typ (events em' ! i) = ev_typ e"
    using i upd by (elim disjE exE) (simp_all add: nth_append)
  then show ?thesis using nth_mem by blast
qed

lemma announce_add: "announced rest X em \<Longrightarrow> \<exists>em'. addEvent rest Add x em = Inr em' \<and> announced rest (insert x X) em'"
proof -
  assume a: "announced rest X em"
  show ?thesis
  proof (cases "eventable rest \<and> has_em rest \<and> hash rest \<noteq> 0")
    case True
    define ev where "ev = \<lparr>ev_id = getLastID (last_event em), ev_typ = Add, ev_obj = x, ev_hash = hash rest, ev_app = restName rest, brother = None\<rparr>"
    have "addEvent rest Add x em = Inr (em\<lparr>events := events em @ [ev], last_event := getLastID (last_event em)\<rparr>)"
      using True by (simp add: addEvent_def addToEventList_def ev_def Let_def)
    then show ?thesis using a by (auto simp: announced_def ev_def)
  next
    case False
    then show ?thesis by (auto simp: announced_def addEvent_def addToEventList_def)
  qed
qed

lemma announce_delete:
  assumes "announced rest X em" "x \<in> X"
  shows "\<exists>em'. addEvent rest Delete x em = Inr em' \<and> announced rest X em'"
proof (cases "eventable rest \<and> has_em rest \<and> hash rest \<noteq> 0")
  case True
  then have "\<exists>e \<in> set (events em). ev_obj e = x \<and> ev_typ e = Add" using assms by (auto simp: announced_def)
  then obtain i where "findBrother x em = Some i"
    using find_last_None [of "\<lambda>e. ev_obj e = x \<and> ev_typ e = Add" "events em" 0] by (auto simp: findBrother_def)
  then obtain em' where em': "addToEventList Delete x (hash rest) (restName rest) em = Inr em'"
    using True by (simp add: addToEventList_def Let_def)
  have "\<exists>e \<in> set (events em'). ev_obj e = y \<and> ev_typ e = Add" if "y \<in> X" for y
    using assms(1) True that addToEventList_keeps [OF em'] unfolding announced_def by metis
  then show ?thesis using em' True by (auto simp: addEvent_def announced_def)
next
  case False
  then show ?thesis by (auto simp: announced_def addEvent_def addToEventList_def)
qed


subsection \<open>Paths stay below the directory\<close>

fun collapse :: "string \<Rightarrow> string" where
  "collapse (c # d # cs) = (if c = CHR ''.'' \<and> d = CHR ''.'' then collapse (d # cs) else c # collapse (d # cs))"
| "collapse cs = cs"

lemma find_dots_ge: "find_dots path i = Some pos \<Longrightarrow> i \<le> pos"
  by (induction path i rule: find_dots.induct) (auto split: if_splits)

lemma find_dots_first: "find_dots (d # cs) i = Some i \<Longrightarrow> d = CHR ''.'' \<and> (\<exists>es. cs = CHR ''.'' # es)"
  by (cases cs) (auto split: if_splits dest: find_dots_ge)

lemma find_dots_erase:
  "find_dots path i = Some pos \<Longrightarrow> i \<le> pos \<and> collapse (take (pos - i) path @ drop (Suc (pos - i)) path) = collapse path"
proof (induction path i rule: find_dots.induct)
  case (1 c d cs i)
  show ?case
  proof (cases "c = CHR ''.'' \<and> d = CHR ''.''")
    case True
    then show ?thesis using 1(2) by simp
  next
    case False
    then have f: "find_dots (d # cs) (Suc i) = Some pos" using 1(2) by (simp split: if_splits)
    have ih: "Suc i \<le> pos" "collapse (take (pos - Suc i) (d # cs) @ drop (Suc (pos - Suc i)) (d # cs)) = collapse (d # cs)"
      using 1(1) [OF False f] by auto
    then obtain k where k: "pos = Suc i + k" using le_Suc_ex by blast
    show ?thesis
    proof (cases k)
      case 0
      then obtain es where "cs = CHR ''.'' # es" "d = CHR ''.''" using find_dots_first f k by fastforce
      then show ?thesis using ih k 0 False by simp
    next
      case (Suc k')
      then show ?thesis using ih k False by auto
    qed
  qed
qed auto


lemma find_dots_None: "find_dots path i = None \<Longrightarrow> collapse path = path"
  by (induction path i rule: find_dots.induct) (auto split: if_splits)

lemma sanitize_collapse: "sanitize path = collapse path"
proof (induction path rule: sanitize.induct)
  case (1 path)
  show ?case
  proof (cases "find_dots path 0")
    case None
    then show ?thesis using find_dots_None by (simp add: sanitize.simps [of path])
  next
    case (Some pos)
    then show ?thesis using 1 [OF Some] find_dots_erase [OF Some] by (simp add: sanitize.simps [of path])
  qed
qed

lemma collapse_head: "collapse (c # cs) = d # ds \<Longrightarrow> d = c"
proof (induction cs arbitrary: c)
  case (Cons e es)
  then show ?case by (cases "c = CHR ''.'' \<and> e = CHR ''.''") auto
qed simp

lemma collapse_no_dots: "collapse path \<noteq> xs @ CHR ''.'' # CHR ''.'' # ys"
proof (induction path arbitrary: xs rule: collapse.induct)
  case (1 c d cs)
  show ?case
  proof (cases "c = CHR ''.'' \<and> d = CHR ''.''")
    case True
    then show ?thesis using 1(1) [OF True] by simp
  next
    case False
    show ?thesis
    proof
      assume a: "collapse (c # d # cs) = xs @ CHR ''.'' # CHR ''.'' # ys"
      show False
      proof (cases xs)
        case Nil
        then have "c = CHR ''.''" "collapse (d # cs) = CHR ''.'' # ys" using a False by auto
        then show False using False collapse_head [of d cs] by auto
      next
        case (Cons x xs')
        then show False using a False 1(2) [OF False, of xs'] by auto
      qed
    qed
  qed
qed (auto simp: Cons_eq_append_conv)

text \<open>
  A requested file lies below the web directory. The loop that cleans the path of a request ends for every path, its result is the path with
  each run of dots shortened to one dot, and it holds no two dots in a row, so that the name of the served file, which starts with
  the web directory, never steps up.
\<close>

theorem served_file_below_web_dir:
  "sanitize path = collapse path \<and> (\<forall>xs ys. sanitize path \<noteq> xs @ ''..'' @ ys) \<and>
   (\<exists>rest. served_file web_dir path = web_dir @ rest \<and> (rest = collapse path \<or> rest = ''/start.html''))"
  using collapse_no_dots [of path] by (auto simp: sanitize_collapse served_file_def Let_def)

subsection \<open>Masks\<close>

definition register_all :: "RestHandler list \<Rightarrow> RestListener" where
  "register_all hs = foldl (\<lambda>L h. registerRestHandler h L) new_RestListener hs"

definition position :: "RestHandler list \<Rightarrow> string \<Rightarrow> nat" where
  "position hs name = length (filter eventable (takeWhile (\<lambda>h. restName h \<noteq> name) hs))"

lemma register_all_ok:
  "distinct (map restName hs) \<Longrightarrow>
   cur_hash (register_all hs) = 2 ^ length (filter eventable hs) \<and>
   map_of (rest_handlers (register_all hs)) name =
     map_option (\<lambda>h. if eventable h then h\<lparr>hash := 2 ^ position hs name, has_em := True\<rparr> else h\<lparr>hash := 0\<rparr>)
       (find (\<lambda>h. restName h = name) hs)"
proof (induction hs rule: rev_induct)
  case Nil
  then show ?case by (simp add: register_all_def new_RestListener_def)
next
  case (snoc h hs)
  have all: "register_all (hs @ [h]) = registerRestHandler h (register_all hs)" by (simp add: register_all_def)
  have ih: "cur_hash (register_all hs) = 2 ^ length (filter eventable hs)" "map_of (rest_handlers (register_all hs)) name =
     map_option (\<lambda>h. if eventable h then h\<lparr>hash := 2 ^ position hs name, has_em := True\<rparr> else h\<lparr>hash := 0\<rparr>)
       (find (\<lambda>h. restName h = name) hs)"
    using snoc by auto
  show ?case
  proof (cases "restName h = name")
    case True
    moreover have "restName h \<notin> restName ` set hs" using snoc.prems by simp
    ultimately have new: "restName x \<noteq> name" if "x \<in> set hs" for x using that by (metis imageI)
    then have "find (\<lambda>h. restName h = name) hs = None" by (auto simp: find_None_iff)
    moreover from this new have "find (\<lambda>h. restName h = name) (hs @ [h]) = Some h" "takeWhile (\<lambda>h. restName h \<noteq> name) (hs @ [h]) = hs"
      using True by (auto simp: find_append takeWhile_append)
    ultimately show ?thesis using True ih(1) by (simp add: all registerRestHandler_def update_conv' position_def)
  next
    case False
    show ?thesis
    proof (cases "find (\<lambda>h. restName h = name) hs")
      case None
      then have "find (\<lambda>h. restName h = name) (hs @ [h]) = None" using False by (simp add: find_append)
      then show ?thesis using False ih None by (simp add: all registerRestHandler_def update_conv')
    next
      case (Some k)
      then have "find (\<lambda>h. restName h = name) (hs @ [h]) = Some k" by (simp add: find_append)
      moreover have "takeWhile (\<lambda>h. restName h \<noteq> name) (hs @ [h]) = takeWhile (\<lambda>h. restName h \<noteq> name) hs"
        using Some by (auto simp: find_Some_iff takeWhile_append)
      ultimately show ?thesis using False ih Some by (simp add: all registerRestHandler_def update_conv' position_def)
    qed
  qed
qed


lemma position_nth:
  assumes "distinct (map restName hs)" "h \<in> set hs" "eventable h"
  shows "position hs (restName h) < length (filter eventable hs) \<and> filter eventable hs ! position hs (restName h) = h"
proof -
  obtain xs ys where hs: "hs = xs @ h # ys" using assms(2) split_list by metis
  have "restName h \<notin> restName ` set xs" using assms(1) by (simp add: hs)
  then have "restName k \<noteq> restName h" if "k \<in> set xs" for k using that by (metis imageI)
  then have "takeWhile (\<lambda>k. restName k \<noteq> restName h) hs = xs" by (simp add: hs takeWhile_append)
  then show ?thesis using assms(3) by (simp add: position_def hs nth_append)
qed

lemma apps_map_bit:
  "bit (apps_map apps L) n \<longleftrightarrow> (\<exists>app \<in> set apps. \<exists>h. map_of (rest_handlers L) app = Some h \<and> bit (hash h) n)"
proof -
  have "bit (foldl (\<lambda>m app. case map_of (rest_handlers L) app of None \<Rightarrow> m | Some h \<Rightarrow> or m (hash h)) m apps) n \<longleftrightarrow>
      bit m n \<or> (\<exists>app \<in> set apps. \<exists>h. map_of (rest_handlers L) app = Some h \<and> bit (hash h) n)" for m
    by (induction apps arbitrary: m) (auto simp: bit_or_iff split: option.splits)
  then show ?thesis by (simp add: apps_map_def)
qed

text \<open>
  Each handler has its own bit. When at most 32 handlers with distinct names that record events are registered, the mask of a poll that names
  applications has the bit of a handler exactly if it names the handler, so that a poll returns the events of the applications it names and no others. The
  thirty-third such handler gets the mask 0, and nothing it reports is ever recorded.
\<close>

theorem handler_masks:
  assumes "distinct (map restName hs)" "h \<in> set hs" "eventable h"
  shows "\<exists>k. map_of (rest_handlers (register_all hs)) (restName h) = Some k \<and> hash k = 2 ^ position hs (restName h) \<and>
     (length (filter eventable hs) \<le> 32 \<longrightarrow> (and (hash k) (apps_map apps (register_all hs)) \<noteq> 0 \<longleftrightarrow> restName h \<in> set apps)) \<and>
     (32 \<le> position hs (restName h) \<longrightarrow> (\<forall>ty obj em. addEvent k ty obj em = Inr em))"
proof -
  let ?n = "position hs (restName h)" and ?L = "register_all hs"
  have found: "find (\<lambda>k. restName k = restName g) hs = Some g" if "g \<in> set hs" for g
  proof -
    obtain xs ys where "hs = xs @ g # ys" using \<open>g \<in> set hs\<close> split_list by metis
    moreover from this have "restName g \<notin> restName ` set xs" using assms(1) by simp
    then have "find (\<lambda>k. restName k = restName g) xs = None" unfolding find_None_iff by (metis imageI)
    ultimately show ?thesis by (simp add: find_append)
  qed
  define upd where "upd name g = (if eventable g then g\<lparr>hash := 2 ^ position hs name, has_em := True\<rparr> else g\<lparr>hash := 0\<rparr>)"
    for name and g :: RestHandler
  have reg: "map_of (rest_handlers ?L) name = map_option (upd name) (find (\<lambda>k. restName k = name) hs)" for name
    using register_all_ok [OF assms(1), of name] by (simp add: upd_def [abs_def])
  define k where "k = h\<lparr>hash := 2 ^ ?n, has_em := True\<rparr>"
  have k: "map_of (rest_handlers ?L) (restName h) = Some k" using reg found [OF assms(2)] assms(3) by (simp add: upd_def k_def)
  have bits: "bit (hash j) ?n \<longleftrightarrow> name = restName h"
    if reg_j: "map_of (rest_handlers ?L) name = Some j" and le: "length (filter eventable hs) \<le> 32" for name j
  proof -
    obtain g where "find (\<lambda>k. restName k = name) hs = Some g" and j: "j = upd name g" using reg_j unfolding reg by auto
    then have g: "g \<in> set hs" "restName g = name" using find_Some_set by fast+
    have "?n < 32" using position_nth [OF assms] le by simp
    then have "bit (hash j) ?n \<longleftrightarrow> eventable g \<and> position hs (restName g) = ?n"
      using g(2) by (auto simp: j upd_def bit_exp_iff)
    also have "\<dots> \<longleftrightarrow> name = restName h"
      using position_nth [OF assms] position_nth [OF assms(1) g(1)] g(1,2) assms(1,2,3) by (metis distinct_map inj_onD)
    finally show ?thesis .
  qed
  have "and (hash k) (apps_map apps ?L) \<noteq> 0 \<longleftrightarrow> restName h \<in> set apps" if le: "length (filter eventable hs) \<le> 32"
  proof -
    have "and (hash k) (apps_map apps ?L) \<noteq> 0 \<longleftrightarrow> bit (apps_map apps ?L) ?n"
      by (simp add: k_def and.commute and_exp_eq_0_iff_not_bit)
    then show ?thesis unfolding apps_map_bit using bits [OF _ le] k by metis
  qed
  moreover have "addEvent k ty obj em = Inr em" if "32 \<le> ?n" for ty obj em
  proof -
    have "hash k = 0" using that by (simp add: k_def exp_eq_zero_iff)
    then show ?thesis by (simp add: addEvent_def addToEventList_def)
  qed
  ultimately show ?thesis using k by (auto simp: k_def)
qed

definition demo_handler :: "string \<Rightarrow> bool \<Rightarrow> RestHandler" where
  "demo_handler name ev = \<lparr>restName = name, eventable = ev, hash = 0, has_em = False\<rparr>"

definition demo_handlers :: "RestHandler list" where
  "demo_handlers = [demo_handler ''topology'' True, demo_handler ''static'' False, demo_handler ''hosts'' True]"

theorem handler_masks_witness:
  "\<exists>k. map_of (rest_handlers (register_all demo_handlers)) ''hosts'' = Some k \<and> hash k = 2 \<and>
     and (hash k) (apps_map [''topology'', ''hosts''] (register_all demo_handlers)) \<noteq> 0 \<and>
     and (hash k) (apps_map [''topology'', ''static''] (register_all demo_handlers)) = 0"
  using handler_masks [of demo_handlers "demo_handler ''hosts'' True" "[''topology'', ''hosts'']"]
    handler_masks [of demo_handlers "demo_handler ''hosts'' True" "[''topology'', ''static'']"]
  by (auto simp: demo_handlers_def demo_handler_def position_def)

end
