(* ===== verification/Switch_Manager.thy ===== *)
theory Switch_Manager
  imports Link_Discovery Rest_Listener
begin

text \<open>
  The switch manager: \<open>src/Switch.cc\<close> and \<open>src/Switch.hh\<close>. It keeps an object for every switch that ever connected, with its
  description and its ports, and turns the messages of a switch into the signals that the other applications follow.

  A connection is a number; whether it is alive is a parameter. Of a port the fields are kept that the applications read. The objects are
  known by their addresses, which the switch number determines. Signals are the list an operation returns, in the order
  they are emitted. Locks, logging and the JSON texts are left out.
\<close>

record SwitchDesc =
  mfr_desc :: string
  hw_desc :: string
  sw_desc :: string
  serial_num :: string
  dp_desc :: string

record FeaturesReply =
  fr_datapath_id :: u64
  fr_n_buffers :: u32
  fr_n_tables :: u8
  fr_capabilities :: u32

record Switch =
  conn :: nat
  sw_id :: u64
  nbuffers :: u32
  ntables :: u8
  capabilities :: u32
  desc :: SwitchDesc
  sw_port :: "(u32 \<times> PortDesc) list"

datatype signal =
    SwitchDiscovered u64
  | SwitchUp u64
  | SwitchDown u64
  | DatapathUp u64
  | DatapathDown u64
  | PortUp u64 PortDesc
  | PortModified u64 PortDesc PortDesc
  | PortDown u64 u32
  | RequestPortDescriptions u64
  | RequestSwitchDescriptions u64

datatype port_reason = OFPPR_ADD | OFPPR_DELETE | OFPPR_MODIFY | OFPPR_other nat

definition no_desc :: SwitchDesc where
  "no_desc = \<lparr>mfr_desc = [], hw_desc = [], sw_desc = [], serial_num = [], dp_desc = []\<rparr>"

definition new_Switch :: "nat \<Rightarrow> FeaturesReply \<Rightarrow> Switch" where
  "new_Switch c fr =
     \<lparr>conn = c, sw_id = fr_datapath_id fr, nbuffers = fr_n_buffers fr, ntables = fr_n_tables fr,
      capabilities = fr_capabilities fr, desc = no_desc, sw_port = []\<rparr>"

definition setUp :: "nat \<Rightarrow> FeaturesReply \<Rightarrow> Switch \<Rightarrow> Switch \<times> signal list" where
  "setUp c fr x =
     (x\<lparr>conn := c, sw_id := fr_datapath_id fr, nbuffers := fr_n_buffers fr, ntables := fr_n_tables fr, capabilities := fr_capabilities fr\<rparr>,
      [DatapathUp (fr_datapath_id fr)])"

definition portStatus :: "port_reason \<Rightarrow> PortDesc \<Rightarrow> Switch \<Rightarrow> Switch \<times> signal list" where
  "portStatus reason p x =
     (case reason of
        OFPPR_ADD \<Rightarrow>
          (x\<lparr>sw_port := (if map_of (sw_port x) (port_no p) = None then AList.update (port_no p) p (sw_port x) else sw_port x)\<rparr>,
           [PortUp (sw_id x) p])
      | OFPPR_DELETE \<Rightarrow> (x\<lparr>sw_port := AList.delete (port_no p) (sw_port x)\<rparr>, [PortDown (sw_id x) (port_no p)])
      | OFPPR_MODIFY \<Rightarrow>
          (case map_of (sw_port x) (port_no p) of
             None \<Rightarrow> (x, [])
           | Some old_port \<Rightarrow> (x\<lparr>sw_port := AList.update (port_no p) p (sw_port x)\<rparr>, [PortModified (sw_id x) p old_port]))
      | OFPPR_other n \<Rightarrow> (x, []))"

definition setDown :: "Switch \<Rightarrow> Switch \<times> signal list" where
  "setDown x = (x\<lparr>sw_port := []\<rparr>, map (\<lambda>(no, p). PortDown (sw_id x) no) (sw_port x) @ [DatapathDown (sw_id x)])"

fun portDescArrived :: "PortDesc list \<Rightarrow> Switch \<Rightarrow> Switch \<times> signal list" where
  "portDescArrived [] x = (x, [])"
| "portDescArrived (p # ps) x =
     (if map_of (sw_port x) (port_no p) = None then
        let (x', out) = portDescArrived ps (x\<lparr>sw_port := AList.update (port_no p) p (sw_port x)\<rparr>)
        in (x', PortUp (sw_id x) p # out)
      else portDescArrived ps x)"

definition sw_get_port :: "u32 \<Rightarrow> Switch \<Rightarrow> PortDesc res" where
  "sw_get_port no x = (case map_of (sw_port x) no of None \<Rightarrow> Inl (Thrown ''std::out_of_range'') | Some p \<Rightarrow> Inr p)"

definition sw_ports :: "Switch \<Rightarrow> PortDesc list" where
  "sw_ports x = map snd (sw_port x)"

subsection \<open>The manager\<close>

type_synonym SwitchManager = "(u64 \<times> Switch) list"

definition sw_obj :: "u64 \<Rightarrow> nat" where
  "sw_obj d = Suc (unat d)"

definition getSwitch :: "u64 \<Rightarrow> SwitchManager \<Rightarrow> Switch option" where
  "getSwitch d m = map_of m d"

definition sw_at :: "u64 \<Rightarrow> SwitchManager \<Rightarrow> Switch res" where
  "sw_at d m = (case map_of m d of None \<Rightarrow> Inl (Thrown ''std::out_of_range'') | Some x \<Rightarrow> Inr x)"

definition onSwitchUp :: "RestHandler \<Rightarrow> nat \<Rightarrow> u64 \<Rightarrow> FeaturesReply \<Rightarrow> SwitchManager \<times> EventManager \<Rightarrow> ((SwitchManager \<times> EventManager) \<times> signal list) res" where
  "onSwitchUp rest c conn_dpid fr = (\<lambda>(m, em).
     if fr_datapath_id fr \<noteq> conn_dpid then Inl AssertionFailed
     else
       let (x, out) =
             (case map_of m conn_dpid of
                None \<Rightarrow> (new_Switch c fr, [SwitchDiscovered conn_dpid, SwitchUp conn_dpid])
              | Some x0 \<Rightarrow> (let (x1, out1) = setUp c fr x0 in (x1, out1 @ [SwitchUp conn_dpid])))
       in res_bind (addEvent rest Add (sw_obj conn_dpid) em) (\<lambda>em'.
            Inr ((AList.update conn_dpid x m, em'), out @ [RequestPortDescriptions conn_dpid, RequestSwitchDescriptions conn_dpid])))"

definition onSwitchDown :: "RestHandler \<Rightarrow> u64 \<Rightarrow> SwitchManager \<times> EventManager \<Rightarrow> ((SwitchManager \<times> EventManager) \<times> signal list) res" where
  "onSwitchDown rest conn_dpid = (\<lambda>(m, em).
     case map_of m conn_dpid of
       None \<Rightarrow> Inr ((m, em), [])
     | Some x \<Rightarrow>
         let (x', out) = setDown x
         in res_bind (addEvent rest Delete (sw_obj conn_dpid) em) (\<lambda>em'.
              Inr ((AList.update conn_dpid x' m, em'), out @ [SwitchDown conn_dpid])))"

definition onPortStatus :: "u64 \<Rightarrow> port_reason \<Rightarrow> PortDesc \<Rightarrow> SwitchManager \<Rightarrow> (SwitchManager \<times> signal list) res" where
  "onPortStatus conn_dpid reason p m =
     res_bind (sw_at conn_dpid m) (\<lambda>x.
       let (x', out) = portStatus reason p x in Inr (AList.update conn_dpid x' m, out))"

text \<open>
  A reply: a multipart reply with the ports or with the description of the switch, or a message of another type. Reading the wrong
  part of the message union is the fault \<open>OutOfRange\<close>.
\<close>

datatype reply = PortDescReply "PortDesc list" | SwitchDescReply SwitchDesc | OtherReply

definition onPortDescriptions :: "u64 \<Rightarrow> reply \<Rightarrow> SwitchManager \<Rightarrow> (SwitchManager \<times> signal list) res" where
  "onPortDescriptions conn_dpid r m =
     (case r of
        PortDescReply ps \<Rightarrow>
          res_bind (sw_at conn_dpid m) (\<lambda>x.
            let (x', out) = portDescArrived ps x in Inr (AList.update conn_dpid x' m, out))
      | _ \<Rightarrow> Inr (m, []))"

definition onSwitchDescriptions :: "u64 \<Rightarrow> reply \<Rightarrow> SwitchManager \<Rightarrow> SwitchManager res" where
  "onSwitchDescriptions conn_dpid r m =
     (case r of
        OtherReply \<Rightarrow> Inr m
      | SwitchDescReply ds \<Rightarrow> res_bind (sw_at conn_dpid m) (\<lambda>x. Inr (AList.update conn_dpid (x\<lparr>desc := ds\<rparr>) m))
      | PortDescReply ps \<Rightarrow> Inl OutOfRange)"

definition alive_switches :: "(nat \<Rightarrow> bool) \<Rightarrow> SwitchManager \<Rightarrow> u64 list" where
  "alive_switches alive m = map fst (filter (\<lambda>(d, x). alive (conn x)) m)"


subsection \<open>Signals follow the port tables\<close>

datatype sm_event =
    Connected nat u64 FeaturesReply
  | Disconnected u64
  | PortMessage u64 port_reason PortDesc
  | PortReply u64 reply
  | DescReply u64 reply

fun sm_step :: "RestHandler \<Rightarrow> sm_event \<Rightarrow> SwitchManager \<times> EventManager \<Rightarrow> ((SwitchManager \<times> EventManager) \<times> signal list) res" where
  "sm_step rest (Connected c d fr) w = onSwitchUp rest c d fr w"
| "sm_step rest (Disconnected d) w = onSwitchDown rest d w"
| "sm_step rest (PortMessage d reason p) w = res_bind (onPortStatus d reason p (fst w)) (\<lambda>(m', out). Inr ((m', snd w), out))"
| "sm_step rest (PortReply d r) w = res_bind (onPortDescriptions d r (fst w)) (\<lambda>(m', out). Inr ((m', snd w), out))"
| "sm_step rest (DescReply d r) w = res_bind (onSwitchDescriptions d r (fst w)) (\<lambda>m'. Inr ((m', snd w), []))"

fun sm_run :: "RestHandler \<Rightarrow> sm_event list \<Rightarrow> SwitchManager \<times> EventManager \<Rightarrow> ((SwitchManager \<times> EventManager) \<times> signal list) res" where
  "sm_run rest [] w = Inr (w, [])"
| "sm_run rest (e # es) w =
     res_bind (sm_step rest e w) (\<lambda>(w1, out1). res_bind (sm_run rest es w1) (\<lambda>(w2, out2). Inr (w2, out1 @ out2)))"

text \<open>Messages as connected switches send them: the two numbers of a new switch agree, messages come from switches that have connected, and a
  description answers the request for it.\<close>

fun messages_ok :: "u64 set \<Rightarrow> sm_event list \<Rightarrow> bool" where
  "messages_ok N [] = True"
| "messages_ok N (Connected c d fr # es) = (fr_datapath_id fr = d \<and> messages_ok (insert d N) es)"
| "messages_ok N (Disconnected d # es) = messages_ok N es"
| "messages_ok N (PortMessage d reason p # es) = (d \<in> N \<and> messages_ok N es)"
| "messages_ok N (PortReply d r # es) = (d \<in> N \<and> messages_ok N es)"
| "messages_ok N (DescReply d r # es) = (d \<in> N \<and> (\<forall>ps. r \<noteq> PortDescReply ps) \<and> messages_ok N es)"

text \<open>The ports the signals describe; a switch that is reported down must have none left.\<close>

fun track_ports :: "(u64 \<times> u32) set \<Rightarrow> signal list \<Rightarrow> (u64 \<times> u32) set option" where
  "track_ports S [] = Some S"
| "track_ports S (PortUp d p # out) = track_ports (insert (d, port_no p) S) out"
| "track_ports S (PortDown d no # out) = track_ports (S - {(d, no)}) out"
| "track_ports S (PortModified d p q # out) = (if (d, port_no p) \<in> S \<and> port_no q = port_no p then track_ports S out else None)"
| "track_ports S (SwitchDown d # out) = (if \<exists>no. (d, no) \<in> S then None else track_ports S out)"
| "track_ports S (_ # out) = track_ports S out"

lemma track_ports_append: "track_ports S (xs @ ys) = Option.bind (track_ports S xs) (\<lambda>S'. track_ports S' ys)"
  by (induction S xs rule: track_ports.induct) auto

definition table :: "SwitchManager \<Rightarrow> (u64 \<times> u32) set" where
  "table m = {(d, no). \<exists>x. map_of m d = Some x \<and> map_of (sw_port x) no \<noteq> None}"

definition sw_ok :: "u64 \<Rightarrow> Switch \<Rightarrow> bool" where
  "sw_ok d x \<longleftrightarrow> sw_id x = d \<and> (\<forall>no p. map_of (sw_port x) no = Some p \<longrightarrow> port_no p = no) \<and> distinct (map fst (sw_port x))"

definition sm_ok :: "SwitchManager \<Rightarrow> bool" where
  "sm_ok m \<longleftrightarrow> (\<forall>d x. map_of m d = Some x \<longrightarrow> sw_ok d x)"

lemma sm_ok_update: "sm_ok m \<Longrightarrow> sw_ok d x \<Longrightarrow> sm_ok (AList.update d x m)"
  by (auto simp: sm_ok_def update_conv')

lemma table_update: "table (AList.update d x m) = {(e, no) \<in> table m. e \<noteq> d} \<union> {(d, no) |no. map_of (sw_port x) no \<noteq> None}"
  by (auto simp: table_def update_conv' split: if_splits)

lemma table_same: "map_of m d = Some y \<Longrightarrow> map_of (sw_port x) = map_of (sw_port y) \<Longrightarrow> table (AList.update d x m) = table m"
  unfolding table_update by (auto simp: table_def)

lemma table_switch: "map_of m d = Some x \<Longrightarrow> (d, no) \<in> table m \<longleftrightarrow> map_of (sw_port x) no \<noteq> None"
  by (simp add: table_def)

lemma sw_ok_put: "sw_ok d x \<Longrightarrow> sw_ok d (x\<lparr>sw_port := AList.update (port_no p) p (sw_port x)\<rparr>)"
  by (auto simp: sw_ok_def update_conv' distinct_update simp del: map_of_eq_Some_iff split: if_splits)

lemma sw_ok_delete: "sw_ok d x \<Longrightarrow> sw_ok d (x\<lparr>sw_port := AList.delete no (sw_port x)\<rparr>)"
  by (auto simp: sw_ok_def delete_conv' distinct_delete simp del: map_of_eq_Some_iff split: if_splits)

lemma sw_ok_port: "sw_ok d x \<Longrightarrow> map_of (sw_port x) no = Some p \<Longrightarrow> port_no p = no"
  by (auto simp: sw_ok_def simp del: map_of_eq_Some_iff)

lemma portStatus_ok:
  assumes "sm_ok m" "map_of m d = Some x" "portStatus reason p x = (x', out)"
  shows "sw_ok d x' \<and> track_ports (table m) out = Some (table (AList.update d x' m))"
proof -
  have x: "sw_ok d x" using assms by (auto simp: sm_ok_def)
  have t: "(d, no) \<in> table m \<longleftrightarrow> map_of (sw_port x) no \<noteq> None" for no using assms(2) by (rule table_switch)
  show ?thesis
  proof (cases reason)
    case OFPPR_ADD
    then have x': "x' = x\<lparr>sw_port := (if map_of (sw_port x) (port_no p) = None then AList.update (port_no p) p (sw_port x) else sw_port x)\<rparr>"
        "out = [PortUp d p]" using assms(3) x by (auto simp: portStatus_def sw_ok_def)
    moreover have "table (AList.update d x' m) = insert (d, port_no p) (table m)"
      unfolding table_update using t by (auto simp: x' update_conv')
    ultimately show ?thesis using x sw_ok_put [OF x, of p] by auto
  next
    case OFPPR_DELETE
    then have x': "x' = x\<lparr>sw_port := AList.delete (port_no p) (sw_port x)\<rparr>" "out = [PortDown d (port_no p)]"
      using assms(3) x by (auto simp: portStatus_def sw_ok_def)
    moreover have "table (AList.update d x' m) = table m - {(d, port_no p)}"
      unfolding table_update using t by (auto simp: x' delete_conv')
    ultimately show ?thesis using sw_ok_delete [OF x] by auto
  next
    case OFPPR_MODIFY
    show ?thesis
    proof (cases "map_of (sw_port x) (port_no p)")
      case None
      then show ?thesis using OFPPR_MODIFY assms(2,3) x by (auto simp: portStatus_def table_same)
    next
      case (Some q)
      then have x': "x' = x\<lparr>sw_port := AList.update (port_no p) p (sw_port x)\<rparr>" "out = [PortModified d p q]"
        using OFPPR_MODIFY assms(3) x by (auto simp: portStatus_def sw_ok_def)
      moreover have "table (AList.update d x' m) = table m"
        unfolding table_update using t Some by (auto simp: x' update_conv')
      ultimately show ?thesis using sw_ok_put [OF x, of p] sw_ok_port [OF x Some] t [of "port_no p"] Some by auto
    qed
  next
    case (OFPPR_other n)
    then show ?thesis using assms(2,3) x by (auto simp: portStatus_def table_same)
  qed
qed


lemma portDescArrived_ok:
  "sm_ok m \<Longrightarrow> map_of m d = Some x \<Longrightarrow> portDescArrived ps x = (x', out) \<Longrightarrow>
   sw_ok d x' \<and> track_ports (table m) out = Some (table (AList.update d x' m))"
proof (induction ps x arbitrary: m x' out rule: portDescArrived.induct)
  case (1 x)
  then show ?case by (auto simp: sm_ok_def table_same)
next
  case (2 p ps x)
  have x: "sw_ok d x" using 2 by (auto simp: sm_ok_def)
  have t: "(d, no) \<in> table m \<longleftrightarrow> map_of (sw_port x) no \<noteq> None" for no using 2(4) by (rule table_switch)
  show ?case
  proof (cases "map_of (sw_port x) (port_no p)")
    case None
    define y where "y = x\<lparr>sw_port := AList.update (port_no p) p (sw_port x)\<rparr>"
    obtain o2 where o2: "portDescArrived ps y = (x', o2)" "out = PortUp d p # o2"
      using 2(5) None x by (auto simp: y_def sw_ok_def split: prod.splits)
    let ?m = "AList.update d y m"
    have y: "sw_ok d y" using sw_ok_put [OF x] by (simp add: y_def)
    have m: "sm_ok ?m" "map_of ?m d = Some y" using sm_ok_update [OF 2(3) y] by (auto simp: update_conv')
    have "table ?m = insert (d, port_no p) (table m)" unfolding table_update using t by (auto simp: y_def update_conv')
    moreover have "sw_ok d x' \<and> track_ports (table ?m) o2 = Some (table (AList.update d x' ?m))"
      using 2(1) [OF None, of ?m x' o2] m o2(1) y_def by blast
    moreover have "table (AList.update d x' ?m) = table (AList.update d x' m)" unfolding table_update by auto
    ultimately show ?thesis using o2(2) by simp
  next
    case (Some q)
    then show ?thesis using 2(2) [of m x' out] 2(3-5) by simp
  qed
qed

lemma track_ports_downs:
  "track_ports S (map (\<lambda>(no, p). PortDown d no) ps @ out) = track_ports (S - {(d, no) |no p. (no, p) \<in> set ps}) out"
proof (induction ps arbitrary: S)
  case (Cons x ps)
  obtain no p where x: "x = (no, p)" by fastforce
  have "S - {(d, no)} - {(d, no) |no p. (no, p) \<in> set ps} = S - {(d, no) |no p. (no, p) \<in> set (x # ps)}"
    using x by auto
  then show ?case using Cons x by simp
qed simp

lemma setDown_ok:
  assumes "sm_ok m" "map_of m d = Some x" "setDown x = (x', out)"
  shows "sw_ok d x' \<and> track_ports (table m) (out @ [SwitchDown d]) = Some (table (AList.update d x' m))"
proof -
  have x: "sw_id x = d" using assms by (auto simp: sm_ok_def sw_ok_def)
  then have x': "x' = x\<lparr>sw_port := []\<rparr>" "out = map (\<lambda>(no, p). PortDown d no) (sw_port x) @ [DatapathDown d]"
    using assms(3) by (auto simp: setDown_def)
  have "(\<exists>p. (no, p) \<in> set (sw_port x)) \<longleftrightarrow> (d, no) \<in> table m" for no
    unfolding table_switch [OF assms(2)] map_of_eq_None_iff by force
  then have "table m - {(d, no) |no p. (no, p) \<in> set (sw_port x)} = table (AList.update d x' m)"
    unfolding table_update by (auto simp: x')
  moreover have "(d, no) \<notin> table (AList.update d x' m)" for no by (simp add: x' table_def update_conv')
  ultimately show ?thesis using x by (simp add: x' track_ports_downs sw_ok_def)
qed

lemma sm_step_ok:
  assumes inv: "sm_ok m" "announced rest (sw_obj ` N) em" "dom (map_of m) = N" and ok: "messages_ok N (e # es)"
  shows "\<exists>m' em' out N'. sm_step rest e (m, em) = Inr ((m', em'), out) \<and> sm_ok m' \<and> announced rest (sw_obj ` N') em' \<and> dom (map_of m') = N' \<and>
           messages_ok N' es \<and> track_ports (table m) out = Some (table m')"
proof (cases e)
  case (Connected c d fr)
  obtain em' where em': "addEvent rest Add (sw_obj d) em = Inr em'" "announced rest (sw_obj ` insert d N) em'" using announce_add [OF inv(2), of "sw_obj d"] by auto
  have fr: "fr_datapath_id fr = d" "messages_ok (insert d N) es" using ok Connected by auto
  show ?thesis
  proof (cases "map_of m d")
    case None
    have x: "sw_ok d (new_Switch c fr)" using fr by (simp add: sw_ok_def new_Switch_def)
    have "table (AList.update d (new_Switch c fr) m) = table m"
      unfolding table_update using None by (auto simp: new_Switch_def table_def)
    then show ?thesis using Connected None fr em' inv(3) sm_ok_update [OF inv(1) x] by (simp add: onSwitchUp_def Let_def update_conv')
  next
    case (Some x)
    define y where "y = x\<lparr>conn := c, sw_id := d, nbuffers := fr_n_buffers fr, ntables := fr_n_tables fr, capabilities := fr_capabilities fr\<rparr>"
    have y: "sw_ok d y" using inv(1) Some by (auto simp: y_def sw_ok_def sm_ok_def)
    have "table (AList.update d y m) = table m" by (rule table_same [OF Some]) (simp add: y_def)
    moreover have "setUp c fr x = (y, [DatapathUp d])" using fr by (simp add: setUp_def y_def)
    ultimately show ?thesis using Connected Some fr em' inv(3) sm_ok_update [OF inv(1) y] by (simp add: onSwitchUp_def Let_def update_conv')
  qed
next
  case (Disconnected d)
  show ?thesis
  proof (cases "map_of m d")
    case None
    then show ?thesis using Disconnected inv ok by (simp add: onSwitchDown_def)
  next
    case (Some x)
    then have d: "d \<in> N" "insert d N = N" using inv(3) by auto
    obtain em' where em': "addEvent rest Delete (sw_obj d) em = Inr em'" "announced rest (sw_obj ` N) em'" using announce_delete [OF inv(2), of "sw_obj d"] d(1) by auto
    obtain x' out where x': "setDown x = (x', out)" by fastforce
    then show ?thesis using Disconnected Some setDown_ok [OF inv(1) Some x'] em' inv(3) d(2) ok sm_ok_update [OF inv(1)]
      by (simp add: onSwitchDown_def Let_def update_conv')
  qed
next
  case (PortMessage d reason p)
  then have "d \<in> dom (map_of m)" using ok inv(3) by simp
  then obtain x where x: "map_of m d = Some x" by blast
  obtain x' out where x': "portStatus reason p x = (x', out)" by fastforce
  have "insert d N = N" using x inv(3) by auto
  then show ?thesis using PortMessage x x' portStatus_ok [OF inv(1) x x'] inv ok sm_ok_update [OF inv(1)]
    by (simp add: onPortStatus_def sw_at_def Let_def update_conv')
next
  case (PortReply d r)
  then have "d \<in> dom (map_of m)" using ok inv(3) by simp
  then obtain x where x: "map_of m d = Some x" by blast
  then have N: "insert d N = N" using inv(3) by auto
  show ?thesis
  proof (cases r)
    case (PortDescReply ps)
    obtain x' out where x': "portDescArrived ps x = (x', out)" by fastforce
    then show ?thesis using PortReply PortDescReply x portDescArrived_ok [OF inv(1) x x'] inv ok sm_ok_update [OF inv(1)] N
      by (simp add: onPortDescriptions_def sw_at_def Let_def update_conv')
  qed (use PortReply inv ok in \<open>simp_all add: onPortDescriptions_def\<close>)
next
  case (DescReply d r)
  then have "d \<in> dom (map_of m)" using ok inv(3) by simp
  then obtain x where x: "map_of m d = Some x" by blast
  then have N: "insert d N = N" using inv(3) by auto
  show ?thesis
  proof (cases r)
    case (SwitchDescReply ds)
    have "sw_ok d (x\<lparr>desc := ds\<rparr>)" using inv(1) x by (auto simp: sm_ok_def sw_ok_def)
    moreover have "table (AList.update d (x\<lparr>desc := ds\<rparr>) m) = table m" by (rule table_same [OF x]) simp
    ultimately show ?thesis using DescReply SwitchDescReply x inv ok sm_ok_update [OF inv(1)] N
      by (simp add: onSwitchDescriptions_def sw_at_def update_conv')
  qed (use DescReply inv ok in \<open>simp_all add: onSwitchDescriptions_def\<close>)
qed

lemma sm_run_ok:
  "sm_ok m \<Longrightarrow> announced rest (sw_obj ` dom (map_of m)) em \<Longrightarrow> messages_ok (dom (map_of m)) es \<Longrightarrow>
   \<exists>m' em' out. sm_run rest es (m, em) = Inr ((m', em'), out) \<and> sm_ok m' \<and> track_ports (table m) out = Some (table m')"
proof (induction es arbitrary: m em)
  case (Cons e es)
  obtain m1 em1 o1 where s: "sm_step rest e (m, em) = Inr ((m1, em1), o1)" "sm_ok m1" "announced rest (sw_obj ` dom (map_of m1)) em1"
      "messages_ok (dom (map_of m1)) es" "track_ports (table m) o1 = Some (table m1)"
    using sm_step_ok [OF Cons.prems(1,2) refl Cons.prems(3)] by auto
  obtain m2 em2 o2 where "sm_run rest es (m1, em1) = Inr ((m2, em2), o2)" "sm_ok m2" "track_ports (table m1) o2 = Some (table m2)"
    using Cons.IH [OF s(2-4)] by blast
  then show ?case using s by (simp add: track_ports_append)
qed auto

text \<open>
  C32: the signals of the switch manager describe its port tables. For every sequence of connections, disconnections, port messages and replies from
  switches that have connected, no handler faults; a port is reported changed only while it is known; a switch is reported down only after
  each of its ports has been; and the ports that were reported up and not down since are exactly those in the tables.
\<close>

theorem switch_signals_track_ports:
  assumes "messages_ok {} es"
  shows "\<exists>m em' out. sm_run rest es ([], em) = Inr ((m, em'), out) \<and> track_ports {} out = Some (table m)"
proof -
  have "sm_ok []" "announced rest (sw_obj ` dom (map_of ([] :: SwitchManager))) em" "messages_ok (dom (map_of ([] :: SwitchManager))) es" "table [] = {}"
    using assms by (auto simp: sm_ok_def announced_def table_def)
  then show ?thesis using sm_run_ok by metis
qed

definition demo_port :: "u32 \<Rightarrow> PortDesc" where
  "demo_port no = \<lparr>port_no = no, hw_addr = 5, link_down = False\<rparr>"

definition demo_features :: "u64 \<Rightarrow> FeaturesReply" where
  "demo_features d = \<lparr>fr_datapath_id = d, fr_n_buffers = 0, fr_n_tables = 1, fr_capabilities = 0\<rparr>"

definition demo_rest :: RestHandler where
  "demo_rest = \<lparr>restName = ''switch-manager'', eventable = True, hash = 1, has_em = True\<rparr>"

definition demo_messages :: "sm_event list" where
  "demo_messages = [Connected 1 7 (demo_features 7), PortReply 7 (PortDescReply [demo_port 1, demo_port 2]),
     PortMessage 7 OFPPR_DELETE (demo_port 1), PortMessage 7 OFPPR_ADD (demo_port 3), Disconnected 7, Connected 2 7 (demo_features 7),
     PortReply 7 (PortDescReply [demo_port 2])]"

theorem switch_signals_track_ports_witness:
  "\<exists>m em' out. sm_run demo_rest demo_messages ([], \<lparr>events = [], last_event = 0\<rparr>) = Inr ((m, em'), out) \<and>
     track_ports {} out = Some (table m)"
  by (rule switch_signals_track_ports) (simp add: demo_messages_def demo_features_def)


subsection \<open>A switch that goes takes its links with it\<close>

text \<open>Link discovery listens to the port signals of every switch.\<close>

fun ld_ports :: "bool \<Rightarrow> signal list \<Rightarrow> LinkDiscovery \<Rightarrow> (LinkDiscovery \<times> ld_out list) res" where
  "ld_ports nd [] s = Inr (s, [])"
| "ld_ports nd (PortUp d p # sigs) s = res_bind (ld_ports nd sigs s) (\<lambda>(s', out). Inr (s', portUp d p s @ out))"
| "ld_ports nd (PortModified d p q # sigs) s =
     res_bind (portModified nd d p q s) (\<lambda>(s1, o1). res_bind (ld_ports nd sigs s1) (\<lambda>(s2, o2). Inr (s2, o1 @ o2)))"
| "ld_ports nd (PortDown d no # sigs) s =
     res_bind (portDown nd d no s) (\<lambda>(s1, o1). res_bind (ld_ports nd sigs s1) (\<lambda>(s2, o2). Inr (s2, o1 @ o2)))"
| "ld_ports nd (_ # sigs) s = ld_ports nd sigs s"

lemma ld_ports_downs:
  "link_inv s \<Longrightarrow> \<exists>s' out. ld_ports nd (map (\<lambda>(no, p). PortDown d no) ps @ [DatapathDown d]) s = Inr (s', out) \<and> link_inv s' \<and>
     track (ends (m_links s)) out = Some (ends (m_links s')) \<and>
     ends (m_links s') = {(a, b) \<in> ends (m_links s). \<forall>no \<in> fst ` set ps. \<lparr>dpid = d, port = no\<rparr> \<noteq> a \<and> \<lparr>dpid = d, port = no\<rparr> \<noteq> b}"
proof (induction ps arbitrary: s)
  case (Cons x ps)
  obtain no p where x: "x = (no, p)" by fastforce
  obtain s1 o1 where s1: "clearLinkAt nd \<lparr>dpid = d, port = no\<rparr> s = Inr (s1, o1)" "link_inv s1"
      "track (ends (m_links s)) o1 = Some (ends (m_links s1))"
      "ends (m_links s1) = {(a, b) \<in> ends (m_links s). \<lparr>dpid = d, port = no\<rparr> \<noteq> a \<and> \<lparr>dpid = d, port = no\<rparr> \<noteq> b}"
    using clearLinkAt_ok [OF Cons.prems] by blast
  obtain s2 o2 where s2: "ld_ports nd (map (\<lambda>(no, p). PortDown d no) ps @ [DatapathDown d]) s1 = Inr (s2, o2)" "link_inv s2"
      "track (ends (m_links s1)) o2 = Some (ends (m_links s2))"
      "ends (m_links s2) = {(a, b) \<in> ends (m_links s1). \<forall>no \<in> fst ` set ps. \<lparr>dpid = d, port = no\<rparr> \<noteq> a \<and> \<lparr>dpid = d, port = no\<rparr> \<noteq> b}"
    using Cons.IH [OF s1(2)] by blast
  have "ends (m_links s2) = {(a, b) \<in> ends (m_links s). \<forall>no \<in> fst ` set (x # ps). \<lparr>dpid = d, port = no\<rparr> \<noteq> a \<and> \<lparr>dpid = d, port = no\<rparr> \<noteq> b}"
    unfolding s2(4) s1(4) using x by auto
  moreover have "ld_ports nd (map (\<lambda>(no, p). PortDown d no) (x # ps) @ [DatapathDown d]) s = Inr (s2, o1 @ o2)"
    using s1(1) s2(1) x by (simp add: portDown_def)
  ultimately show ?case using s1(3) s2(2,3) by (simp add: track_append)
qed auto


definition demo_switch :: Switch where
  "demo_switch = (new_Switch 1 (demo_features 2))\<lparr>sw_port := [(1, demo_port 1)]\<rparr>"


text \<open>
  A switch that connects again before its old connection is dropped is announced twice and withdrawn once: a client that polls afterwards
  is told that it exists.
\<close>

lemma reconnect_stays_announced:
  "\<exists>m em out. sm_run demo_rest [Connected 1 7 (demo_features 7), Connected 2 7 (demo_features 7), Disconnected 7]
     ([], \<lparr>events = [], last_event = 0\<rparr>) = Inr ((m, em), out) \<and>
     (\<exists>rep. timeout 1 0 em = Inr (1, rep) \<and> map ev_typ (rep ''switch-manager'') = [Add])"
  by (simp add: onSwitchUp_def onSwitchDown_def setUp_def setDown_def new_Switch_def demo_features_def demo_rest_def addEvent_def addToEventList_def
      getLastID_def findBrother_def sw_obj_def timeout_def checkOverlap_def Let_def)

end
