(* ===== verification/Host_Manager.thy ===== *)
theory Host_Manager
  imports Switch_Manager Net_Addr
begin

text \<open>
  The host manager: \<open>src/HostManager.cc\<close>. It watches the source addresses of packets and keeps the hosts of the network with the switch and
  port they were seen at.

  The handler gets the fields of the packet that it reads. The text of the address of a switch port comes from the OpenFlow library and is a
  parameter; the text of a source address is that of \<open>operator<<\<close>. Hosts are known by their addresses, and the random number of a new
  host is an argument. The JSON texts are left out.
\<close>

record Host =
  host_id :: nat
  host_mac :: string
  host_ip :: u32
  switchID :: u64
  switchPort :: u32
  host_addr :: nat

record HostManager =
  hosts :: "(string \<times> Host) list"
  switch_macs :: "string list"
  next_host :: nat

definition new_HostManager :: HostManager where
  "new_HostManager = \<lparr>hosts = [], switch_macs = [], next_host = 1\<rparr>"

definition findMac :: "string \<Rightarrow> HostManager \<Rightarrow> bool" where
  "findMac a hm \<longleftrightarrow> map_of (hosts hm) a \<noteq> None"

definition isSwitch :: "string \<Rightarrow> HostManager \<Rightarrow> bool" where
  "isSwitch a hm \<longleftrightarrow> list_ex (\<lambda>sw_mac. sw_mac = a) (switch_macs hm)"

definition getHost :: "string \<Rightarrow> HostManager \<Rightarrow> Host option" where
  "getHost a hm = map_of (hosts hm) a"

definition getHost_by_ip :: "u32 \<Rightarrow> HostManager \<Rightarrow> Host option" where
  "getHost_by_ip ip hm = find (\<lambda>h. print_ipv4 (host_ip h) = print_ipv4 ip) (map snd (hosts hm))"

definition addHost :: "RestHandler \<Rightarrow> nat \<Rightarrow> Switch option \<Rightarrow> u32 \<Rightarrow> string \<Rightarrow> u32 \<Rightarrow> HostManager \<times> EventManager \<Rightarrow> (HostManager \<times> EventManager) res" where
  "addHost rest rnd sw ip a in_no = (\<lambda>(hm, em).
     case sw of
       None \<Rightarrow> Inl NullDereference
     | Some x \<Rightarrow>
         let dev = \<lparr>host_id = rnd mod 1000 + 1000, host_mac = a, host_ip = ip, switchID = sw_id x, switchPort = in_no, host_addr = next_host hm\<rparr>
         in res_bind (addEvent rest Add (host_addr dev) em) (\<lambda>em'.
              Inr (hm\<lparr>hosts := AList.update a dev (hosts hm), next_host := Suc (next_host hm)\<rparr>, em')))"

definition packet_ip :: "u16 \<Rightarrow> u32 \<Rightarrow> u32 \<Rightarrow> u32" where
  "packet_ip etype ip_src spa = (if etype = 0x0800 then ip_src else if etype = 0x0806 then spa else 0)"

definition host_handler :: "RestHandler \<Rightarrow> SwitchManager \<Rightarrow> nat \<Rightarrow> u64 \<Rightarrow> mac \<Rightarrow> u16 \<Rightarrow> u32 \<Rightarrow> u32 \<Rightarrow> u32 \<Rightarrow> HostManager \<times> EventManager \<Rightarrow> (HostManager \<times> EventManager) res" where
  "host_handler rest sm rnd conn_dpid src etype ip_src spa in_no w =
     (let a = print_ethaddr src; ip = packet_ip etype ip_src spa; (hm, em) = w
      in if isSwitch a hm then Inr w
         else if in_no > ofpp_max then Inr w
         else if \<not> findMac a hm then addHost rest rnd (getSwitch conn_dpid sm) ip a in_no w
         else
           (case getHost a hm of
              None \<Rightarrow> Inl NullDereference
            | Some h \<Rightarrow> Inr (if ip \<noteq> 0 then (hm\<lparr>hosts := AList.update a (h\<lparr>host_ip := ip\<rparr>) (hosts hm)\<rparr>, em) else w)))"

fun delHostForSwitch :: "RestHandler \<Rightarrow> u64 \<Rightarrow> (string \<times> Host) list \<Rightarrow> EventManager \<Rightarrow> ((string \<times> Host) list \<times> EventManager) res" where
  "delHostForSwitch rest d [] em = Inr ([], em)"
| "delHostForSwitch rest d ((a, h) # hs) em =
     (if switchID h = d then
        res_bind (addEvent rest Delete (host_addr h) em) (\<lambda>em'. delHostForSwitch rest d hs em')
      else res_bind (delHostForSwitch rest d hs em) (\<lambda>(hs', em'). Inr ((a, h) # hs', em')))"

fun forget_macs :: "(48 word \<Rightarrow> string) \<Rightarrow> PortDesc list \<Rightarrow> string list \<Rightarrow> string list" where
  "forget_macs show_mac [] macs = macs"
| "forget_macs show_mac (p # ps) macs = forget_macs show_mac ps (remove1 (show_mac (hw_addr p)) macs)"

definition host_switch_down :: "RestHandler \<Rightarrow> (48 word \<Rightarrow> string) \<Rightarrow> Switch \<Rightarrow> HostManager \<times> EventManager \<Rightarrow> (HostManager \<times> EventManager) res" where
  "host_switch_down rest show_mac dp = (\<lambda>(hm, em).
     res_bind (delHostForSwitch rest (sw_id dp) (hosts hm) em) (\<lambda>(hs, em').
       Inr (hm\<lparr>hosts := hs, switch_macs := forget_macs show_mac (sw_ports dp) (switch_macs hm)\<rparr>, em')))"

definition newPort :: "(48 word \<Rightarrow> string) \<Rightarrow> PortDesc \<Rightarrow> HostManager \<Rightarrow> HostManager" where
  "newPort show_mac p hm = hm\<lparr>switch_macs := switch_macs hm @ [show_mac (hw_addr p)]\<rparr>"

subsection \<open>The hosts of the network\<close>

text \<open>Where a host is and which address it has, by its MAC address.\<close>

type_synonym host_map = "string \<rightharpoonup> u64 \<times> u32 \<times> u32"

definition abs_hosts :: "HostManager \<Rightarrow> host_map" where
  "abs_hosts hm a = map_option (\<lambda>h. (switchID h, switchPort h, host_ip h)) (map_of (hosts hm) a)"

datatype host_event =
    HostPacket nat u64 mac u16 u32 u32 u32
  | HostSwitchDown Switch
  | HostPort PortDesc

fun host_step :: "RestHandler \<Rightarrow> (48 word \<Rightarrow> string) \<Rightarrow> SwitchManager \<Rightarrow> host_event \<Rightarrow> HostManager \<times> EventManager \<Rightarrow> (HostManager \<times> EventManager) res" where
  "host_step rest show_mac sm (HostPacket rnd d src ety ip spa no) w = host_handler rest sm rnd d src ety ip spa no w"
| "host_step rest show_mac sm (HostSwitchDown x) w = host_switch_down rest show_mac x w"
| "host_step rest show_mac sm (HostPort p) w = Inr (newPort show_mac p (fst w), snd w)"

fun host_run :: "RestHandler \<Rightarrow> (48 word \<Rightarrow> string) \<Rightarrow> SwitchManager \<Rightarrow> host_event list \<Rightarrow> HostManager \<times> EventManager \<Rightarrow> (HostManager \<times> EventManager) res" where
  "host_run rest show_mac sm [] w = Inr w"
| "host_run rest show_mac sm (e # es) w = res_bind (host_step rest show_mac sm e w) (host_run rest show_mac sm es)"

text \<open>
  The specification: a new source on a port of a switch is a host there, unless its address is that of a switch port; a known one only changes
  its IP address; a switch takes its hosts with it.
\<close>

fun host_spec :: "(48 word \<Rightarrow> string) \<Rightarrow> host_event list \<Rightarrow> string list \<Rightarrow> host_map \<Rightarrow> host_map" where
  "host_spec show_mac [] macs H = H"
| "host_spec show_mac (HostPacket rnd d src ety ip spa no # es) macs H =
     host_spec show_mac es macs
       (let a = print_ethaddr src; addr = packet_ip ety ip spa
        in if a \<in> set macs \<or> no > ofpp_max then H
           else case H a of
             None \<Rightarrow> H(a \<mapsto> (d, no, addr))
           | Some (d', no', addr') \<Rightarrow> if addr \<noteq> 0 then H(a \<mapsto> (d', no', addr)) else H)"
| "host_spec show_mac (HostSwitchDown x # es) macs H =
     host_spec show_mac es (forget_macs show_mac (sw_ports x) macs)
       (\<lambda>a. case H a of None \<Rightarrow> None | Some (d, r) \<Rightarrow> if d = sw_id x then None else Some (d, r))"
| "host_spec show_mac (HostPort p # es) macs H = host_spec show_mac es (macs @ [show_mac (hw_addr p)]) H"

text \<open>Packets come from switches the switch manager knows.\<close>

fun packets_ok :: "SwitchManager \<Rightarrow> host_event list \<Rightarrow> bool" where
  "packets_ok sm [] = True"
| "packets_ok sm (HostPacket rnd d src ety ip spa no # es) = (map_of sm d \<noteq> None \<and> packets_ok sm es)"
| "packets_ok sm (_ # es) = packets_ok sm es"

definition host_inv :: "RestHandler \<Rightarrow> HostManager \<times> EventManager \<Rightarrow> bool" where
  "host_inv rest w \<longleftrightarrow>
     distinct (map fst (hosts (fst w))) \<and> announced rest (host_addr ` snd ` set (hosts (fst w))) (snd w)"

lemma set_update_subset: "set (AList.update k v xs) \<subseteq> insert (k, v) (set xs)"
  by (induction xs) auto

lemma announced_mono: "announced rest Y em \<Longrightarrow> X \<subseteq> Y \<Longrightarrow> announced rest X em"
  by (auto simp: announced_def)

lemma host_handler_ok:
  assumes "host_inv rest (hm, em)" "map_of sm d = Some x" "sm_ok sm"
  shows "\<exists>hm' em'. host_handler rest sm rnd d src ety ip spa no (hm, em) = Inr (hm', em') \<and> host_inv rest (hm', em') \<and>
     switch_macs hm' = switch_macs hm \<and>
     abs_hosts hm' = (let a = print_ethaddr src; addr = packet_ip ety ip spa
        in if a \<in> set (switch_macs hm) \<or> no > ofpp_max then abs_hosts hm
           else case abs_hosts hm a of
             None \<Rightarrow> (abs_hosts hm)(a \<mapsto> (d, no, addr))
           | Some (d', no', addr') \<Rightarrow> if addr \<noteq> 0 then (abs_hosts hm)(a \<mapsto> (d', no', addr)) else abs_hosts hm)"
proof -
  let ?a = "print_ethaddr src" and ?ip = "packet_ip ety ip spa"
  have inv: "distinct (map fst (hosts hm))" "announced rest (host_addr ` snd ` set (hosts hm)) em" using assms(1) by (auto simp: host_inv_def)
  have macs: "isSwitch ?a hm \<longleftrightarrow> ?a \<in> set (switch_macs hm)" by (auto simp: isSwitch_def list_ex_iff)
  show ?thesis
  proof (cases "?a \<in> set (switch_macs hm) \<or> no > ofpp_max")
    case True
    then show ?thesis using assms(1) macs by (auto simp: host_handler_def)
  next
    case go: False
    show ?thesis
    proof (cases "map_of (hosts hm) ?a")
      case None
      define dev where "dev = \<lparr>host_id = rnd mod 1000 + 1000, host_mac = ?a, host_ip = ?ip, switchID = d, switchPort = no, host_addr = next_host hm\<rparr>"
      have "sw_id x = d" using assms(2,3) by (auto simp: sm_ok_def sw_ok_def)
      moreover obtain em' where em': "addEvent rest Add (next_host hm) em = Inr em'" "announced rest (insert (next_host hm) (host_addr ` snd ` set (hosts hm))) em'"
        using announce_add [OF inv(2)] by blast
      ultimately have "host_handler rest sm rnd d src ety ip spa no (hm, em) =
          Inr (hm\<lparr>hosts := AList.update ?a dev (hosts hm), next_host := Suc (next_host hm)\<rparr>, em')"
        using go macs None assms(2) by (simp add: host_handler_def findMac_def addHost_def getSwitch_def dev_def Let_def)
      moreover have "announced rest (host_addr ` snd ` set (AList.update ?a dev (hosts hm))) em'"
        by (rule announced_mono [OF em'(2)]) (use set_update_subset [of ?a dev "hosts hm"] in \<open>force simp: dev_def\<close>)
      ultimately show ?thesis using go None inv(1)
        by (simp add: host_inv_def distinct_update abs_hosts_def update_conv' fun_eq_iff Let_def dev_def)
    next
      case (Some h)
      define k where "k = h\<lparr>host_ip := ?ip\<rparr>"
      have "(?a, h) \<in> set (hosts hm)" using Some by (rule map_of_SomeD)
      then have "host_addr k \<in> host_addr ` snd ` set (hosts hm)" by (force simp: k_def)
      then have "announced rest (host_addr ` snd ` set (AList.update ?a k (hosts hm))) em"
        by (intro announced_mono [OF inv(2)]) (use set_update_subset [of ?a k "hosts hm"] in force)
      then have "host_inv rest (hm\<lparr>hosts := AList.update ?a k (hosts hm)\<rparr>, em)" using inv(1) by (simp add: host_inv_def distinct_update)
      moreover have "host_handler rest sm rnd d src ety ip spa no (hm, em) =
          Inr (if ?ip \<noteq> 0 then (hm\<lparr>hosts := AList.update ?a k (hosts hm)\<rparr>, em) else (hm, em))"
        using go macs Some by (simp add: host_handler_def findMac_def getHost_def k_def Let_def)
      ultimately show ?thesis using go Some assms(1)
        by (cases "?ip = 0") (simp_all add: abs_hosts_def update_conv' fun_eq_iff Let_def k_def)
    qed
  qed
qed

lemma delHost_ok:
  "announced rest X em \<Longrightarrow> host_addr ` snd ` set hs \<subseteq> X \<Longrightarrow>
   \<exists>em'. delHostForSwitch rest d hs em = Inr (filter (\<lambda>(a, h). switchID h \<noteq> d) hs, em') \<and> announced rest X em'"
proof (induction hs arbitrary: em)
  case (Cons e hs)
  obtain a h where e: "e = (a, h)" by fastforce
  show ?case
  proof (cases "switchID h = d")
    case True
    obtain em1 where "addEvent rest Delete (host_addr h) em = Inr em1" "announced rest X em1"
      using announce_delete [OF Cons.prems(1), of "host_addr h"] Cons.prems(2) e by auto
    then show ?thesis using Cons.IH [of em1] Cons.prems(2) e True by auto
  next
    case False
    then show ?thesis using Cons.IH [OF Cons.prems(1)] Cons.prems(2) e by auto
  qed
qed simp

lemma map_of_filter_distinct:
  "distinct (map fst xs) \<Longrightarrow> map_of (filter (\<lambda>(a, h). P h) xs) k = (case map_of xs k of None \<Rightarrow> None | Some h \<Rightarrow> if P h then Some h else None)"
  by (induction xs) (auto simp: map_of_eq_None_iff split: option.splits)

lemma host_switch_down_ok:
  assumes "host_inv rest (hm, em)"
  shows "\<exists>hm' em'. host_switch_down rest show_mac x (hm, em) = Inr (hm', em') \<and> host_inv rest (hm', em') \<and>
     switch_macs hm' = forget_macs show_mac (sw_ports x) (switch_macs hm) \<and>
     abs_hosts hm' = (\<lambda>a. case abs_hosts hm a of None \<Rightarrow> None | Some (d, r) \<Rightarrow> if d = sw_id x then None else Some (d, r))"
proof -
  let ?hs = "filter (\<lambda>(a, h). switchID h \<noteq> sw_id x) (hosts hm)"
  have inv: "distinct (map fst (hosts hm))" "announced rest (host_addr ` snd ` set (hosts hm)) em" using assms by (auto simp: host_inv_def)
  obtain em' where em': "delHostForSwitch rest (sw_id x) (hosts hm) em = Inr (?hs, em')" "announced rest (host_addr ` snd ` set (hosts hm)) em'"
    using delHost_ok [OF inv(2) order_refl] by blast
  have "announced rest (host_addr ` snd ` set ?hs) em'" by (rule announced_mono [OF em'(2)]) auto
  then have "host_inv rest (hm\<lparr>hosts := ?hs, switch_macs := forget_macs show_mac (sw_ports x) (switch_macs hm)\<rparr>, em')"
    using inv(1) by (simp add: host_inv_def distinct_map_filter)
  then show ?thesis using em'(1) map_of_filter_distinct [OF inv(1), of "\<lambda>h. switchID h \<noteq> sw_id x"]
    by (simp add: host_switch_down_def abs_hosts_def fun_eq_iff split: option.splits)
qed

lemma host_run_ok:
  assumes "sm_ok sm"
  shows "host_inv rest (hm, em) \<Longrightarrow> packets_ok sm es \<Longrightarrow>
    \<exists>hm' em'. host_run rest show_mac sm es (hm, em) = Inr (hm', em') \<and> abs_hosts hm' = host_spec show_mac es (switch_macs hm) (abs_hosts hm)"
proof (induction es arbitrary: hm em)
  case (Cons e es)
  show ?case
  proof (cases e)
    case (HostPacket rnd d src ety ip spa no)
    then obtain x where x: "map_of sm d = Some x" using Cons.prems(2) by auto
    obtain hm1 em1 where "host_handler rest sm rnd d src ety ip spa no (hm, em) = Inr (hm1, em1)" "host_inv rest (hm1, em1)"
        "switch_macs hm1 = switch_macs hm" "abs_hosts hm1 = (let a = print_ethaddr src; addr = packet_ip ety ip spa
          in if a \<in> set (switch_macs hm) \<or> no > ofpp_max then abs_hosts hm
             else case abs_hosts hm a of
               None \<Rightarrow> (abs_hosts hm)(a \<mapsto> (d, no, addr))
             | Some (d', no', addr') \<Rightarrow> if addr \<noteq> 0 then (abs_hosts hm)(a \<mapsto> (d', no', addr)) else abs_hosts hm)"
      using host_handler_ok [OF Cons.prems(1) x assms] by blast
    then show ?thesis using Cons.IH [of hm1 em1] Cons.prems(2) HostPacket by simp
  next
    case (HostSwitchDown x)
    obtain hm1 em1 where "host_switch_down rest show_mac x (hm, em) = Inr (hm1, em1)" "host_inv rest (hm1, em1)"
        "switch_macs hm1 = forget_macs show_mac (sw_ports x) (switch_macs hm)"
        "abs_hosts hm1 = (\<lambda>a. case abs_hosts hm a of None \<Rightarrow> None | Some (d, r) \<Rightarrow> if d = sw_id x then None else Some (d, r))"
      using host_switch_down_ok [OF Cons.prems(1)] by blast
    then show ?thesis using Cons.IH [of hm1 em1] Cons.prems(2) HostSwitchDown by simp
  next
    case (HostPort p)
    have "host_inv rest (newPort show_mac p hm, em)" "abs_hosts (newPort show_mac p hm) = abs_hosts hm"
      using Cons.prems(1) by (simp_all add: newPort_def host_inv_def abs_hosts_def fun_eq_iff)
    then show ?thesis using Cons.IH [of "newPort show_mac p hm" em] Cons.prems(2) HostPort by (simp add: newPort_def)
  qed
qed auto

text \<open>
  C35: the host table. For every sequence of packets from switches the switch manager knows, switches going down and ports appearing, no handler
  faults and the table is what the specification says: each source address that is not that of a switch port is a host where it was first seen
  since its switch last went down, with the IP address of its latest IPv4 or ARP packet that carries one.
\<close>

theorem host_table:
  assumes "sm_ok sm" "packets_ok sm es"
  shows "\<exists>hm em'. host_run rest show_mac sm es (new_HostManager, em) = Inr (hm, em') \<and>
           abs_hosts hm = host_spec show_mac es [] Map.empty"
proof -
  have "host_inv rest (new_HostManager, em)" "switch_macs new_HostManager = []" "abs_hosts new_HostManager = Map.empty"
    by (simp_all add: host_inv_def new_HostManager_def announced_def abs_hosts_def fun_eq_iff)
  then show ?thesis using host_run_ok [OF assms(1)] assms(2) by metis
qed

definition demo_sightings :: "host_event list" where
  "demo_sightings = [HostPort (demo_port 1), HostPacket 0 2 7 0x0806 0 9 3, HostPacket 0 2 7 0x0800 10 0 4, HostSwitchDown demo_switch]"

theorem host_table_witness:
  "\<exists>hm em'. host_run demo_rest (\<lambda>_. []) [(2, demo_switch)] demo_sightings (new_HostManager, \<lparr>events = [], last_event = 0\<rparr>) = Inr (hm, em') \<and>
     abs_hosts hm = host_spec (\<lambda>_. []) demo_sightings [] Map.empty"
proof (rule host_table)
  show "sm_ok [(2, demo_switch)]"
    by (simp add: sm_ok_def sw_ok_def demo_switch_def new_Switch_def demo_features_def demo_port_def)
  show "packets_ok [(2, demo_switch)] demo_sightings" by (simp add: demo_sightings_def)
qed

text \<open>
  The addresses of the ports of a switch that is gone are kept forever: the switch manager clears the ports of the switch
  before it reports it down, so the loop that forgets them has nothing to go through.
\<close>

theorem switch_macs_never_forgotten:
  assumes "host_switch_down rest show_mac (fst (setDown x)) (hm, em) = Inr (hm', em')"
  shows "switch_macs hm' = switch_macs hm"
  using assms by (auto simp: host_switch_down_def setDown_def sw_ports_def)

end
