(* ===== verification/Arp_Handler.thy ===== *)
theory Arp_Handler
  imports Host_Manager Packet_Parser
begin

text \<open>
  The ARP handler: \<open>src/ArpHandler.cc\<close>. A request for the address of a known host is answered by the controller itself.
  The reply is the structure \<open>Reply\<close>, whose members are big-endian numbers of their size without gaps, so its bytes
  are those of a frame. \<open>watch\<close> reads a field without tracing it.
\<close>

record Reply =
  r_dst :: mac
  r_src :: mac
  a_sha :: mac
  a_spa :: u32
  a_tha :: mac
  a_tpa :: u32

definition mac_bytes :: "mac \<Rightarrow> u8 list" where
  "mac_bytes a = to_buffer \<lparr>b_size = 48, b_bits = uint (ethaddr_to_number a)\<rparr>"

definition ip_bytes :: "u32 \<Rightarrow> u8 list" where
  "ip_bytes a = to_buffer \<lparr>b_size = 32, b_bits = uint a\<rparr>"

definition reply_bytes :: "Reply \<Rightarrow> u8 list" where
  "reply_bytes r = mac_bytes (r_dst r) @ mac_bytes (r_src r) @ [0x08, 0x06] @ [0, 1, 0x08, 0, 6, 4, 0, 2] @
     mac_bytes (a_sha r) @ ip_bytes (a_spa r) @ mac_bytes (a_tha r) @ ip_bytes (a_tpa r)"

definition watch :: "oxm_type \<Rightarrow> packet \<Rightarrow> int res" where
  "watch t q = res_bind (pkt_load (exact_mask t) q) (\<lambda>f. Inr (f_value f))"

definition exactly :: "oxm_type \<Rightarrow> int \<Rightarrow> oxm_field" where
  "exactly t v = \<lparr>f_type = t, f_value = v, f_mask = all_ones t\<rparr>"

definition answer_request :: "Host \<Rightarrow> u32 \<Rightarrow> packet \<Rightarrow> (u32 \<times> u8 list) res" where
  "answer_request host tpa q =
     res_bind (ethaddr_of_string (host_mac host)) (\<lambda>tha.
     res_bind (watch arp_sha q) (\<lambda>sha.
     res_bind (watch arp_spa q) (\<lambda>spa.
     res_bind (watch in_port q) (\<lambda>port.
       Inr (word_of_int port,
            reply_bytes \<lparr>r_dst = word_of_int sha, r_src = tha, a_sha = tha, a_spa = tpa, a_tha = word_of_int sha,
                         a_tpa = word_of_int spa\<rparr>)))))"

definition arp_handler :: "HostManager \<Rightarrow> packet \<Rightarrow> Decision \<Rightarrow> (Decision \<times> (u32 \<times> u8 list) option) res" where
  "arp_handler hm q d =
     res_bind (pkt_test (exactly eth_type 0x0806) q) (\<lambda>is_arp.
       if \<not> is_arp then Inr (d, None)
       else
         res_bind (pkt_test (exactly arp_op 1) q) (\<lambda>is_request.
           if \<not> is_request then Inr (d, None)
           else
             res_bind (watch arp_tpa q) (\<lambda>tpa.
               case getHost_by_ip (word_of_int tpa) hm of
                 None \<Rightarrow> Inr (set_idle_timeout 0 d, None)
               | Some host \<Rightarrow>
                   res_bind (answer_request host (word_of_int tpa) q) (\<lambda>out.
                     Inr (return_now (drop_packet (set_idle_timeout 0 d)), Some out)))))"

subsection \<open>The bytes of a reply\<close>

lemma mac_bytes_length [simp]: "length (mac_bytes a) = 6"
  by (simp add: mac_bytes_def num_blocks_def)

lemma ip_bytes_length [simp]: "length (ip_bytes a) = 4"
  by (simp add: ip_bytes_def num_blocks_def)

lemma take_bit_uint: "take_bit 48 (uint (a :: mac)) = uint a" "take_bit 32 (uint (b :: u32)) = uint b"
  by (rule bit_eqI, auto simp: bit_simps dest: bit_imp_le_length)+

lemma take_bit_mac_number: "take_bit 48 (uint (ethaddr_to_number a)) = uint a"
  by (rule bit_eqI) (auto simp: bit_simps ethaddr_to_number_def dest: bit_imp_le_length)

lemma mac_bytes_value [simp]: "take_bit 48 (of_blocks (rev (mac_bytes a))) = uint a"
  by (simp add: mac_bytes_def to_buffer_def num_blocks_def of_blocks_to_blocks take_bit_mac_number take_bit_uint)

lemma ip_bytes_value [simp]: "take_bit 32 (of_blocks (rev (ip_bytes a))) = uint a"
  by (simp add: ip_bytes_def to_buffer_def num_blocks_def of_blocks_to_blocks take_bit_uint)

lemma reply_parts:
  fixes r :: Reply
  defines "B \<equiv> reply_bytes r"
  shows "length B = 42" "take 6 B = mac_bytes (r_dst r)" "take 6 (drop 6 B) = mac_bytes (r_src r)"
    "take 2 (drop 12 B) = [0x08, 0x06]" "take 8 (drop 14 B) = [0, 1, 0x08, 0, 6, 4, 0, 2]" "take 6 (drop 22 B) = mac_bytes (a_sha r)"
    "take 4 (drop 28 B) = ip_bytes (a_spa r)" "take 6 (drop 32 B) = mac_bytes (a_tha r)" "take 4 (drop 38 B) = ip_bytes (a_tpa r)"
  by (simp_all add: B_def reply_bytes_def)

lemma reply_nth:
  "reply_bytes r ! 12 = 0x08" "reply_bytes r ! 13 = 0x06" "reply_bytes r ! 14 = 0" "reply_bytes r ! 15 = 1" "reply_bytes r ! 16 = 0x08"
  "reply_bytes r ! 17 = 0" "reply_bytes r ! 18 = 6" "reply_bytes r ! 19 = 4"
  by (simp_all add: reply_bytes_def nth_append)

lemma reply_parses:
  fixes r :: Reply
  defines "B \<equiv> reply_bytes r"
  shows "\<exists>P. new_PacketParser (Some B) pp fp prt = Inr P \<and> frame P = B \<and> length (bindings P) = 40 \<and>
    bindings P ! 3 = Some (FrameLoc 0) \<and> bindings P ! 4 = Some (FrameLoc 6) \<and> bindings P ! 5 = Some (FrameLoc 12) \<and>
    bindings P ! 21 = Some (FrameLoc 20) \<and> bindings P ! 24 = Some (FrameLoc 22) \<and> bindings P ! 22 = Some (FrameLoc 28) \<and>
    bindings P ! 25 = Some (FrameLoc 32) \<and> bindings P ! 23 = Some (FrameLoc 38)"
proof -
  have c: "word_cat (0x08 :: u8) (0x06 :: u8) = (0x0806 :: u16)" "word_cat (0 :: u8) (1 :: u8) = (1 :: u16)"
      "word_cat (0x08 :: u8) (0 :: u8) = (0x0800 :: u16)"
    by code_simp+
  show ?thesis
    using reply_parts(1) [of r] reply_nth [of r]
    by (simp add: new_PacketParser_def bind.simps parse_l2_def parse_l3_def parse_arp_def u16_at_def byte_at_def frame_def B_def c
        nth_list_update)
qed

definition reply_view :: "Reply \<Rightarrow> oxm_type \<Rightarrow> int option" where
  "reply_view r =
     [eth_dst \<mapsto> uint (r_dst r), eth_src \<mapsto> uint (r_src r), eth_type \<mapsto> 0x0806, arp_op \<mapsto> 2, arp_sha \<mapsto> uint (a_sha r),
      arp_spa \<mapsto> uint (a_spa r), arp_tha \<mapsto> uint (a_tha r), arp_tpa \<mapsto> uint (a_tpa r)]"

lemma view_at:
  assumes "wf_type t" "bindings P ! unat (tid t) = Some (FrameLoc i)"
  shows "parser_view P t = Some (take_bit (nbits t) (of_blocks (rev (take (nbytes t) (drop i (frame P))))))"
  using assms by (simp add: parser_view_def bound_def field_bits_def loc_bytes_def)

lemma reply_types:
  "wf_type eth_dst" "wf_type eth_src" "wf_type eth_type" "wf_type arp_op" "wf_type arp_sha" "wf_type arp_spa" "wf_type arp_tha" "wf_type arp_tpa"
  "unat (tid eth_dst) = 3" "unat (tid eth_src) = 4" "unat (tid eth_type) = 5" "unat (tid arp_op) = 21" "unat (tid arp_sha) = 24"
  "unat (tid arp_spa) = 22" "unat (tid arp_tha) = 25" "unat (tid arp_tpa) = 23"
  "nbits eth_dst = 48" "nbits eth_src = 48" "nbits eth_type = 16" "nbits arp_op = 16" "nbits arp_sha = 48" "nbits arp_spa = 32"
  "nbits arp_tha = 48" "nbits arp_tpa = 32" "nbytes eth_dst = 6" "nbytes eth_src = 6" "nbytes eth_type = 2" "nbytes arp_op = 2"
  "nbytes arp_sha = 6" "nbytes arp_spa = 4" "nbytes arp_tha = 6" "nbytes arp_tpa = 4"
  by code_simp+

lemma reply_read:
  "\<exists>P. new_PacketParser (Some (reply_bytes r)) pp fp prt = Inr P \<and> (\<forall>t v. reply_view r t = Some v \<longrightarrow> parser_view P t = Some v)"
proof -
  obtain P where P: "new_PacketParser (Some (reply_bytes r)) pp fp prt = Inr P" "frame P = reply_bytes r"
      "bindings P ! 3 = Some (FrameLoc 0)" "bindings P ! 4 = Some (FrameLoc 6)" "bindings P ! 5 = Some (FrameLoc 12)"
      "bindings P ! 21 = Some (FrameLoc 20)" "bindings P ! 24 = Some (FrameLoc 22)" "bindings P ! 22 = Some (FrameLoc 28)"
      "bindings P ! 25 = Some (FrameLoc 32)" "bindings P ! 23 = Some (FrameLoc 38)"
    using reply_parses [of r pp fp prt] by auto
  have op: "take 2 (drop 20 (reply_bytes r)) = [0, 2]" by (simp add: reply_bytes_def)
  have n: "of_blocks [0x06, 0x08] = 0x0806" "of_blocks [2, 0] = 2" by code_simp+
  note v = view_at [of _ P, unfolded P(2)] reply_types reply_parts [of r] P op n
  have "parser_view P eth_dst = Some (uint (r_dst r))" "parser_view P eth_src = Some (uint (r_src r))"
    "parser_view P eth_type = Some 0x0806" "parser_view P arp_op = Some 2" "parser_view P arp_sha = Some (uint (a_sha r))"
    "parser_view P arp_spa = Some (uint (a_spa r))" "parser_view P arp_tha = Some (uint (a_tha r))" "parser_view P arp_tpa = Some (uint (a_tpa r))"
    using v by simp_all
  then show ?thesis using P(1) by (auto simp: reply_view_def split: if_splits)
qed

subsection \<open>The hosts that are answered for\<close>

definition printed_macs :: "(string \<times> Host) list \<Rightarrow> bool" where
  "printed_macs hs \<longleftrightarrow> (\<forall>h \<in> snd ` set hs. \<exists>a. host_mac h = print_ethaddr a)"

lemma printed_update:
  "printed_macs hs \<Longrightarrow> host_mac h = print_ethaddr a \<Longrightarrow> printed_macs (AList.update k h hs)"
proof -
  have "snd ` set (AList.update k h hs) \<subseteq> insert h (snd ` set hs)" by (induction hs) auto
  then show "printed_macs hs \<Longrightarrow> host_mac h = print_ethaddr a \<Longrightarrow> printed_macs (AList.update k h hs)"
    unfolding printed_macs_def by blast
qed

lemma printed_delete: "delHostForSwitch rest d hs em = Inr (hs', em') \<Longrightarrow> set hs' \<subseteq> set hs"
  by (induction rest d hs em arbitrary: hs' rule: delHostForSwitch.induct) (fastforce split: if_splits)+

lemma printed_step:
  assumes "host_step rest show_mac sm e (hm, em) = Inr (hm', em')" "printed_macs (hosts hm)"
  shows "printed_macs (hosts hm')"
proof (cases e)
  case (HostPacket rnd d src ety ip spa no)
  have "printed_macs (AList.update (print_ethaddr src) (h\<lparr>host_ip := i\<rparr>) (hosts hm))" if m: "map_of (hosts hm) (print_ethaddr src) = Some h" for h i
  proof -
    have "h \<in> snd ` set (hosts hm)" using map_of_SomeD [OF m] by force
    then obtain a where "host_mac h = print_ethaddr a" using assms(2) unfolding printed_macs_def by blast
    then show ?thesis using printed_update [OF assms(2), of "h\<lparr>host_ip := i\<rparr>" a] by simp
  qed
  then show ?thesis using assms HostPacket
    by (auto simp: host_handler_def Let_def addHost_def getHost_def intro!: printed_update split: if_splits option.splits)
next
  case (HostSwitchDown x)
  then show ?thesis using assms printed_delete by (fastforce simp: host_switch_down_def printed_macs_def)
next
  case (HostPort p)
  then show ?thesis using assms by (auto simp: newPort_def)
qed

lemma printed_run:
  "host_run rest show_mac sm es (hm, em) = Inr (hm', em') \<Longrightarrow> printed_macs (hosts hm) \<Longrightarrow> printed_macs (hosts hm')"
proof (induction es arbitrary: hm em)
  case (Cons e es)
  then obtain hm1 em1 where "host_step rest show_mac sm e (hm, em) = Inr (hm1, em1)" "host_run rest show_mac sm es (hm1, em1) = Inr (hm', em')"
    by auto
  then show ?case using Cons.IH Cons.prems(2) printed_step by blast
qed simp

text \<open>An ARP request as the controller's parser shows it.\<close>

definition arp_request :: "packet \<Rightarrow> u32 \<Rightarrow> mac \<Rightarrow> u32 \<Rightarrow> u32 \<Rightarrow> bool" where
  "arp_request q prt sha spa tpa \<longleftrightarrow>
     q eth_type = Some 0x0806 \<and> q arp_op = Some 1 \<and> q in_port = Some (uint prt) \<and> q arp_sha = Some (uint sha) \<and>
     q arp_spa = Some (uint spa) \<and> q arp_tpa = Some (uint tpa)"

lemma test_exactly:
  assumes "wf_type t" "q t = Some v" "w AND all_ones t = w"
  shows "pkt_test (exactly t w) q = Inr (v AND all_ones t = w)"
proof -
  have "wf_field (exactly t w)" using assms(1,3) by (simp add: wf_field_def exactly_def bits_ok_def)
  then show ?thesis using assms(2,3) by (simp add: pkt_test_ok exactly_def agrees_def pick_def mask_of_def and.assoc)
qed

lemma watch_ok: "wf_type t \<Longrightarrow> q t = Some v \<Longrightarrow> watch t q = Inr (v AND all_ones t)"
  by (simp add: watch_def pkt_load_ok wf_exact_mask pick_def)

lemma uint_mask: "uint (a :: mac) AND 0xffffffffffff = uint a" "uint (b :: u32) AND 0xffffffff = uint b"
proof -
  have "(0xffffffffffff :: int) = mask 48" "(0xffffffff :: int) = mask 32" by code_simp+
  then show "uint a AND 0xffffffffffff = uint a" "uint b AND 0xffffffff = uint b"
    using take_bit_uint(1) [of a] take_bit_uint(2) [of b] by (metis take_bit_eq_mask)+
qed

lemma request_types:
  "wf_type in_port" "all_ones in_port = 0xffffffff" "all_ones eth_type = 0xffff" "all_ones arp_op = 0xffff" "all_ones arp_sha = 0xffffffffffff"
  "all_ones arp_spa = 0xffffffff" "all_ones arp_tpa = 0xffffffff"
  by code_simp+

lemma request_reads:
  assumes "arp_request q prt sha spa tpa"
  shows "pkt_test (exactly eth_type 0x0806) q = Inr True" "pkt_test (exactly arp_op 1) q = Inr True"
    "watch in_port q = Inr (uint prt)" "watch arp_sha q = Inr (uint sha)" "watch arp_spa q = Inr (uint spa)" "watch arp_tpa q = Inr (uint tpa)"
  using assms by (simp_all add: arp_request_def test_exactly watch_ok request_types reply_types uint_mask)

text \<open>
  C15: a request for the address of a known host is answered correctly. For every run of the host manager, a request for
  the IP address of a host in its table is answered out of the port it came from, with a frame that the controller's own parser
  reads as the ARP reply: addressed to the asker, from the host's MAC address, stating that the asked IP
  address has that MAC address. The request itself is dropped without a rule and the pipeline ends; a request for an unknown address
  is passed on.
\<close>

theorem arp_request_answered:
  assumes "host_run rest show_mac sm es (new_HostManager, em) = Inr (hm, em')" "arp_request q prt sha spa tpa"
  shows "case getHost_by_ip tpa hm of
      None \<Rightarrow> arp_handler hm q d = Inr (set_idle_timeout 0 d, None)
    | Some h \<Rightarrow> \<exists>data tha P d'. arp_handler hm q d = Inr (d', Some (prt, data)) \<and>
        host_ip h = tpa \<and> host_mac h = print_ethaddr tha \<and>
        kind d' = DropPacket \<and> return_flag (base d') \<and> idle_timeout d' = 0 \<and>
        new_PacketParser (Some data) pp fp prt' = Inr P \<and>
        parser_view P eth_dst = Some (uint sha) \<and> parser_view P eth_src = Some (uint tha) \<and> parser_view P eth_type = Some 0x0806 \<and>
        parser_view P arp_op = Some 2 \<and> parser_view P arp_sha = Some (uint tha) \<and> parser_view P arp_spa = Some (uint tpa) \<and>
        parser_view P arp_tha = Some (uint sha) \<and> parser_view P arp_tpa = Some (uint spa)"
proof (cases "getHost_by_ip tpa hm")
  case None
  then show ?thesis using request_reads [OF assms(2)] by (simp add: arp_handler_def)
next
  case (Some h)
  have "h \<in> snd ` set (hosts hm)" "host_ip h = tpa" using Some by (auto simp: getHost_by_ip_def find_Some_iff in_set_conv_nth image_iff) (metis nth_map nth_mem)
  moreover have "printed_macs (hosts hm)" using printed_run [OF assms(1)] by (simp add: new_HostManager_def printed_macs_def)
  ultimately obtain tha where h: "host_mac h = print_ethaddr tha" "host_ip h = tpa" by (auto simp: printed_macs_def)
  let ?r = "\<lparr>r_dst = sha, r_src = tha, a_sha = tha, a_spa = tpa, a_tha = sha, a_tpa = spa\<rparr>"
  let ?d = "return_now (drop_packet (set_idle_timeout 0 d))"
  have a: "arp_handler hm q d = Inr (?d, Some (prt, reply_bytes ?r))"
    using request_reads [OF assms(2)] Some h by (simp add: arp_handler_def answer_request_def ethaddr_text)
  obtain P where P: "new_PacketParser (Some (reply_bytes ?r)) pp fp prt' = Inr P" "\<And>t v. reply_view ?r t = Some v \<Longrightarrow> parser_view P t = Some v"
    using reply_read [of ?r pp fp prt'] by blast
  have v: "reply_view ?r eth_dst = Some (uint sha)" "reply_view ?r eth_src = Some (uint tha)" "reply_view ?r eth_type = Some 0x0806"
    "reply_view ?r arp_op = Some 2" "reply_view ?r arp_sha = Some (uint tha)" "reply_view ?r arp_spa = Some (uint tpa)"
    "reply_view ?r arp_tha = Some (uint sha)" "reply_view ?r arp_tpa = Some (uint spa)"
    by (simp_all add: reply_view_def eth_dst_def eth_src_def eth_type_def arp_op_def arp_sha_def arp_spa_def arp_tha_def arp_tpa_def ofb_type_def)
  have d: "kind ?d = DropPacket" "return_flag (base ?d)" "idle_timeout ?d = 0"
    by (simp_all add: return_now_def drop_packet_def set_idle_timeout_def idle_timeout_def)
  show ?thesis unfolding Some option.case using a h d P(1) v [THEN P(2)] by blast
qed

definition demo_request :: packet where
  "demo_request = [eth_type \<mapsto> 0x0806, arp_op \<mapsto> 1, in_port \<mapsto> 1, arp_sha \<mapsto> 5, arp_spa \<mapsto> 6, arp_tpa \<mapsto> 9]"

lemma demo_request_ok: "arp_request demo_request 1 5 6 9"
  by (simp add: arp_request_def demo_request_def eth_type_def arp_op_def in_port_def arp_sha_def arp_spa_def arp_tpa_def ofb_type_def)

theorem arp_request_answered_witness:
  "\<exists>hm em' data d' P. host_run (demo_rest\<lparr>eventable := False\<rparr>) (\<lambda>_. []) [(2, demo_switch)] [HostPacket 0 2 7 0x0806 0 9 3] (new_HostManager, \<lparr>events = [], last_event = 0\<rparr>) = Inr (hm, em') \<and>
     arp_handler hm demo_request new_Decision = Inr (d', Some (1, data)) \<and>
     new_PacketParser (Some data) 0 0 1 = Inr P \<and> parser_view P arp_spa = Some 9 \<and> parser_view P arp_sha = Some 7"
proof -
  obtain hm em' h where run: "host_run (demo_rest\<lparr>eventable := False\<rparr>) (\<lambda>_. []) [(2, demo_switch)] [HostPacket 0 2 7 0x0806 0 9 3] (new_HostManager, \<lparr>events = [], last_event = 0\<rparr>) = Inr (hm, em')"
      and h: "getHost_by_ip 9 hm = Some h" "host_mac h = print_ethaddr 7"
    by (simp add: host_handler_def Let_def new_HostManager_def isSwitch_def findMac_def ofpp_max_def addHost_def getSwitch_def packet_ip_def
        addEvent_def getHost_by_ip_def)
  have inj: "print_ethaddr a = print_ethaddr b \<longleftrightarrow> a = b" for a b by (metis ethaddr_text sum.inject(2))
  show ?thesis
    using arp_request_answered [OF run demo_request_ok, of new_Decision 0 0 1] h run by (auto simp: inj)
qed

end
