(* ===== verification/App_Loader.thy ===== *)
theory App_Loader
  imports Prelude
begin

text \<open>
  Start-up: \<open>src/Loader.cc\<close> and the registry of \<open>src/Application.cc\<close>. Applications are initialised depth first
  along their dependencies, each on a thread of its own choice or of the next one in turn, and are started when
  all are initialised. The loop over dependencies reads an array up to an empty name; the recursion is bounded by a number of nested
  calls, for which the number of applications is shown to be enough. \<open>LOG(FATAL)\<close> ends the process. The order in which an
  unordered map is traversed, and the thread an application is pinned to in the configuration, are parameters.
\<close>

datatype app_state = APP_REGISTERED | APP_INITIALIZING | APP_INITIALIZED | APP_STARTED

record application =
  provides :: string
  dependsOn :: "string list"

record AppInfo =
  app :: application
  a_state :: app_state

datatype loader_state = INITIALIZING | STARTING | RUNNING

datatype app_call = Init string nat | StartUp string

record Loader =
  l_state :: loader_state
  apps :: "(string \<times> AppInfo) list"
  threads :: nat
  last_thread :: nat
  calls :: "app_call list"

definition new_Loader :: "nat \<Rightarrow> Loader" where
  "new_Loader n = \<lparr>l_state = INITIALIZING, apps = [], threads = n, last_thread = 0, calls = []\<rparr>"

definition set_state :: "string \<Rightarrow> app_state \<Rightarrow> Loader \<Rightarrow> Loader" where
  "set_state s x l = l\<lparr>apps := map (\<lambda>(k, i). if k = s then (k, i\<lparr>a_state := x\<rparr>) else (k, i)) (apps l)\<rparr>"

definition loader_app :: "string \<Rightarrow> Loader \<Rightarrow> application res" where
  "loader_app s l =
     (case map_of (apps l) s of
        None \<Rightarrow> Inl (Thrown ''out_of_range'')
      | Some i \<Rightarrow> if a_state i \<noteq> APP_INITIALIZED then Inl (Thrown ''out_of_range'') else Inr (app i))"

definition choose_thread :: "int \<Rightarrow> Loader \<Rightarrow> (nat \<times> Loader) res" where
  "choose_thread pin l =
     (if 0 \<le> pin \<and> nat pin < threads l then Inr (nat pin, l)
      else if last_thread l < threads l then
        Inr (last_thread l, l\<lparr>last_thread := (if last_thread l + 1 = threads l then 0 else last_thread l + 1)\<rparr>)
      else Inl OutOfRange)"

fun init_deps :: "(string \<Rightarrow> Loader \<Rightarrow> (bool \<times> Loader) res option) \<Rightarrow> string list \<Rightarrow> Loader \<Rightarrow> (bool \<times> Loader) res option" where
  "init_deps f [] l = Some (Inl OutOfRange)"
| "init_deps f (d # ds) l =
     (if d = [] then Some (Inr (True, l))
      else case f d l of
             None \<Rightarrow> None
           | Some (Inl e) \<Rightarrow> Some (Inl e)
           | Some (Inr (False, l')) \<Rightarrow> Some (Inr (False, l'))
           | Some (Inr (True, l')) \<Rightarrow>
               if map_option a_state (map_of (apps l') d) = Some APP_INITIALIZING then Some (Inl ExitProcess) else init_deps f ds l')"

fun initialize :: "nat \<Rightarrow> (string \<Rightarrow> int) \<Rightarrow> string \<Rightarrow> Loader \<Rightarrow> (bool \<times> Loader) res option" where
  "initialize 0 pin s l = None"
| "initialize (Suc n) pin s l =
     (case map_of (apps l) s of
        None \<Rightarrow> Some (Inr (False, l))
      | Some i \<Rightarrow>
          if a_state i \<noteq> APP_REGISTERED then Some (Inr (True, l))
          else case init_deps (initialize n pin) (dependsOn (app i)) (set_state s APP_INITIALIZING l) of
                 None \<Rightarrow> None
               | Some (Inl e) \<Rightarrow> Some (Inl e)
               | Some (Inr (False, l')) \<Rightarrow> Some (Inr (False, l'))
               | Some (Inr (True, l')) \<Rightarrow>
                   Some (res_bind (choose_thread (pin s) l') (\<lambda>(t, l'').
                     Inr (True, set_state s APP_INITIALIZED (l''\<lparr>calls := calls l'' @ [Init s t]\<rparr>)))))"

definition register_app :: "bool \<Rightarrow> application \<Rightarrow> Loader \<Rightarrow> Loader res" where
  "register_app dbg a l =
     (if map_of (apps l) (provides a) \<noteq> None then if dbg then Inl ExitProcess else Inr l
      else Inr (l\<lparr>apps := apps l @ [(provides a, \<lparr>app = a, a_state = APP_REGISTERED\<rparr>)]\<rparr>))"

fun register_all :: "bool \<Rightarrow> application list \<Rightarrow> Loader \<Rightarrow> Loader res" where
  "register_all dbg [] l = Inr l"
| "register_all dbg (a # as) l = res_bind (register_app dbg a l) (register_all dbg as)"

fun init_services :: "(string \<Rightarrow> int) \<Rightarrow> string list \<Rightarrow> Loader \<Rightarrow> Loader res option" where
  "init_services pin [] l = Some (Inr l)"
| "init_services pin (s # ss) l =
     (case initialize (length (apps l) + 1) pin s l of
        None \<Rightarrow> None
      | Some (Inl e) \<Rightarrow> Some (Inl e)
      | Some (Inr (_, l')) \<Rightarrow> init_services pin ss l')"

definition start_app :: "string \<Rightarrow> Loader \<Rightarrow> Loader" where
  "start_app s l =
     (if map_option a_state (map_of (apps l) s) = Some APP_INITIALIZED
      then set_state s APP_STARTED (l\<lparr>calls := calls l @ [StartUp s]\<rparr>) else l)"

definition startAll :: "bool \<Rightarrow> (string \<Rightarrow> int) \<Rightarrow> application list \<Rightarrow> string list \<Rightarrow> string list \<Rightarrow> Loader \<Rightarrow> Loader res option" where
  "startAll dbg pin registry services order l =
     (case register_all dbg registry l of
        Inl e \<Rightarrow> Some (Inl e)
      | Inr l1 \<Rightarrow>
          case init_services pin services l1 of
            None \<Rightarrow> None
          | Some (Inl e) \<Rightarrow> Some (Inl e)
          | Some (Inr l2) \<Rightarrow> Some (Inr ((fold start_app order (l2\<lparr>l_state := STARTING\<rparr>))\<lparr>l_state := RUNNING\<rparr>)))"

subsection \<open>The states of applications\<close>

definition st :: "Loader \<Rightarrow> string \<Rightarrow> app_state option" where
  "st l s = map_option a_state (map_of (apps l) s)"

definition deps :: "Loader \<Rightarrow> string \<Rightarrow> string list option" where
  "deps l s = map_option (\<lambda>i. dependsOn (app i)) (map_of (apps l) s)"

definition pending :: "Loader \<Rightarrow> string set" where
  "pending l = {s. st l s = Some APP_REGISTERED}"

definition inits :: "Loader \<Rightarrow> string list" where
  "inits l = concat (map (\<lambda>c. case c of Init s _ \<Rightarrow> [s] | StartUp _ \<Rightarrow> []) (calls l))"

lemma map_of_set_state:
  "map_of (map (\<lambda>(k, i). if k = s then (k, i\<lparr>a_state := x\<rparr>) else (k, i)) as) k =
     map_option (\<lambda>i. if k = s then i\<lparr>a_state := x\<rparr> else i) (map_of as k)"
  by (induction as) auto

lemma set_state_simps [simp]:
  "st (set_state s x l) k = (if k = s \<and> st l s \<noteq> None then Some x else st l k)"
  "deps (set_state s x l) = deps l" "calls (set_state s x l) = calls l" "threads (set_state s x l) = threads l"
  "last_thread (set_state s x l) = last_thread l" "length (apps (set_state s x l)) = length (apps l)"
  by (cases "k = s"; auto simp: st_def deps_def set_state_def map_of_set_state fun_eq_iff option.map_comp comp_def option.map_ident intro: option.map_cong)+

lemma inits_set_state [simp]: "inits (set_state s x l) = inits l"
  by (simp add: inits_def)

lemma st_simps [simp]:
  "st (l\<lparr>calls := c\<rparr>) = st l" "st (l\<lparr>last_thread := n\<rparr>) = st l" "st (l\<lparr>l_state := z\<rparr>) = st l"
  "deps (l\<lparr>calls := c\<rparr>) = deps l" "deps (l\<lparr>last_thread := n\<rparr>) = deps l" "deps (l\<lparr>l_state := z\<rparr>) = deps l"
  "inits (l\<lparr>last_thread := n\<rparr>) = inits l" "inits (l\<lparr>l_state := z\<rparr>) = inits l"
  by (simp_all add: st_def deps_def inits_def fun_eq_iff)

lemma deps_st: "deps l s = None \<longleftrightarrow> st l s = None"
  by (simp add: deps_def st_def)

lemma map_of_apps: "map_of (apps l) s = None \<longleftrightarrow> st l s = None"
  by (simp add: st_def)

lemma pending_finite: "finite (pending l)"
proof -
  have "pending l \<subseteq> dom (map_of (apps l))" by (auto simp: pending_def st_def)
  then show ?thesis using finite_dom_map_of finite_subset by blast
qed

lemma pending_length: "card (pending l) \<le> length (apps l)"
proof -
  have "pending l \<subseteq> fst ` set (apps l)" by (auto simp: pending_def st_def dest: map_of_SomeD intro: rev_image_eqI)
  then have "card (pending l) \<le> card (fst ` set (apps l))" by (simp add: card_mono)
  also have "\<dots> \<le> length (apps l)" by (metis card_image_le card_length le_trans List.finite_set)
  finally show ?thesis .
qed

lemma pending_drop:
  assumes "st l s = Some APP_REGISTERED"
  shows "card (pending (set_state s APP_INITIALIZING l)) < card (pending l)"
proof -
  have "pending (set_state s APP_INITIALIZING l) \<subset> pending l" using assms by (auto simp: pending_def)
  then show ?thesis by (rule psubset_card_mono [OF pending_finite])
qed

lemma choose_thread_frame:
  "choose_thread p l = Inr (t, l') \<Longrightarrow> st l' = st l \<and> deps l' = deps l \<and> calls l' = calls l \<and> threads l' = threads l \<and> length (apps l') = length (apps l) \<and>
     t < threads l \<and> (last_thread l < threads l \<longrightarrow> last_thread l' < threads l)"
  by (auto simp: choose_thread_def split: if_splits)


subsection \<open>Initialisation ends\<close>

lemma init_deps_returns:
  assumes "\<And>d l1. card (pending l1) \<le> card (pending l) \<Longrightarrow> \<exists>r. f d l1 = Some r \<and> (\<forall>b l'. r = Inr (b, l') \<longrightarrow> pending l' \<subseteq> pending l1 \<and> length (apps l') = length (apps l1))"
    "card (pending l1) \<le> card (pending l)"
  shows "\<exists>r. init_deps f ds l1 = Some r \<and> (\<forall>b l'. r = Inr (b, l') \<longrightarrow> pending l' \<subseteq> pending l1 \<and> length (apps l') = length (apps l1))"
  using assms(2)
proof (induction ds arbitrary: l1)
  case (Cons d ds)
  obtain r where r: "f d l1 = Some r" "\<And>b l'. r = Inr (b, l') \<Longrightarrow> pending l' \<subseteq> pending l1 \<and> length (apps l') = length (apps l1)"
    using assms(1) [OF Cons.prems, of d] by blast
  show ?case
  proof (cases "\<exists>l'. r = Inr (True, l')")
    case True
    then obtain l' where l': "r = Inr (True, l')" "pending l' \<subseteq> pending l1" "length (apps l') = length (apps l1)" using r(2) by blast
    have "card (pending l') \<le> card (pending l)" using card_mono [OF pending_finite l'(2)] Cons.prems by simp
    moreover have "pending x \<subseteq> pending l1" if "pending x \<subseteq> pending l'" for x using l'(2) that by blast
    ultimately show ?thesis using Cons.IH [of l'] l' r(1) by auto
  next
    case False
    then show ?thesis using r by (cases r) (auto split: bool.splits)
  qed
qed simp

lemma initialize_returns:
  "card (pending l) < n \<Longrightarrow>
     \<exists>r. initialize n pin s l = Some r \<and> (\<forall>b l'. r = Inr (b, l') \<longrightarrow> pending l' \<subseteq> pending l \<and> length (apps l') = length (apps l))"
proof (induction n arbitrary: s l)
  case (Suc n)
  show ?case
  proof (cases "st l s = Some APP_REGISTERED")
    case True
    then obtain i where i: "map_of (apps l) s = Some i" "a_state i = APP_REGISTERED" by (auto simp: st_def)
    let ?l = "set_state s APP_INITIALIZING l"
    have c: "card (pending ?l) < n" using pending_drop [OF True] Suc.prems by simp
    have "\<exists>r. init_deps (initialize n pin) (dependsOn (app i)) ?l = Some r \<and>
        (\<forall>b l'. r = Inr (b, l') \<longrightarrow> pending l' \<subseteq> pending ?l \<and> length (apps l') = length (apps ?l))"
      by (rule init_deps_returns [of ?l]) (use Suc.IH c in \<open>auto intro: le_less_trans\<close>)
    then obtain r where r: "init_deps (initialize n pin) (dependsOn (app i)) ?l = Some r"
        "\<And>b l'. r = Inr (b, l') \<Longrightarrow> pending l' \<subseteq> pending ?l \<and> length (apps l') = length (apps ?l)" by blast
    have sub: "pending ?l \<subseteq> pending l" by (auto simp: pending_def)
    have thread: "pending (set_state s APP_INITIALIZED (l2\<lparr>calls := cs\<rparr>)) \<subseteq> pending l1 \<and>
        length (apps (set_state s APP_INITIALIZED (l2\<lparr>calls := cs\<rparr>))) = length (apps l1)"
      if "choose_thread p l1 = Inr (t, l2)" for p l1 l2 t cs
      using choose_thread_frame [OF that] by (auto simp: pending_def)
    show ?thesis
    proof (cases r)
      case (Inr x)
      obtain b l' where x: "x = (b, l')" by fastforce
      have l': "pending l' \<subseteq> pending l" "length (apps l') = length (apps l)" using r(2) [of b l'] Inr x sub by auto
      show ?thesis using i r(1) Inr x l' thread by (cases b; cases "choose_thread (pin s) l'") fastforce+
    qed (use i r(1) in simp)
  next
    case False
    then show ?thesis by (cases "map_of (apps l) s") (auto simp: st_def)
  qed
qed simp

lemma init_services_returns: "\<exists>r. init_services pin ss l = Some r"
proof (induction ss arbitrary: l)
  case (Cons s ss)
  have "card (pending l) < length (apps l) + 1" using pending_length [of l] by simp
  then obtain r where r: "initialize (length (apps l) + 1) pin s l = Some r" using initialize_returns by blast
  show ?case
  proof (cases r)
    case (Inr x)
    obtain b l' where "x = (b, l')" by fastforce
    then show ?thesis using r Inr Cons.IH [of l'] by simp
  qed (use r in simp)
qed simp


subsection \<open>Initialisation follows the dependencies\<close>

definition needs :: "(string \<Rightarrow> string list option) \<Rightarrow> string \<Rightarrow> string set" where
  "needs D s = (case D s of None \<Rightarrow> {} | Some ds \<Rightarrow> set (takeWhile (\<lambda>d. d \<noteq> []) ds))"

definition loadable :: "(string \<Rightarrow> string list option) \<Rightarrow> (string \<Rightarrow> nat) \<Rightarrow> bool" where
  "loadable D rank \<longleftrightarrow>
     (\<forall>s ds. D s = Some ds \<longrightarrow> [] \<in> set ds) \<and> (\<forall>s. \<forall>d \<in> needs D s. D d \<noteq> None \<and> rank d < rank s)"

definition after_deps :: "(string \<Rightarrow> string set) \<Rightarrow> string list \<Rightarrow> bool" where
  "after_deps N xs \<longleftrightarrow> (\<forall>i < length xs. N (xs ! i) \<subseteq> set (take i xs))"

definition loader_ok :: "Loader \<Rightarrow> bool" where
  "loader_ok l \<longleftrightarrow>
     last_thread l < threads l \<and> distinct (inits l) \<and> set (inits l) = {s. st l s = Some APP_INITIALIZED} \<and>
     after_deps (needs (deps l)) (inits l) \<and> (\<forall>c \<in> set (calls l). \<exists>s t. c = Init s t \<and> t < threads l) \<and>
     (\<forall>s. st l s \<noteq> Some APP_STARTED)"

definition loads :: "Loader \<Rightarrow> string set \<Rightarrow> Loader \<Rightarrow> bool" where
  "loads l S l' \<longleftrightarrow>
     deps l' = deps l \<and> threads l' = threads l \<and> length (apps l') = length (apps l) \<and> loader_ok l' \<and>
     (\<forall>k. st l' k = Some APP_INITIALIZING \<longleftrightarrow> st l k = Some APP_INITIALIZING) \<and>
     (\<forall>k. st l' k = Some APP_INITIALIZED \<longleftrightarrow> st l k = Some APP_INITIALIZED \<or> (\<exists>s \<in> S. (\<lambda>a b. b \<in> needs (deps l) a)\<^sup>*\<^sup>* s k))"

lemma loads_none: "(\<And>k. (st l' k = None) = (st l k = None)) \<Longrightarrow> loads l S l' \<Longrightarrow> loader_ok l \<Longrightarrow> pending l' \<subseteq> pending l"
  unfolding loads_def loader_ok_def pending_def by (smt (verit, best) Collect_mono app_state.exhaust option.exhaust)

lemma loads_dom: "loads l S l' \<Longrightarrow> (st l' k = None) = (st l k = None)"
  unfolding loads_def by (metis deps_st)

lemma loads_trans:
  assumes "loads l S l'" "loads l' T l''"
  shows "loads l (S \<union> T) l''"
  using assms unfolding loads_def by (simp add: bex_Un disj_assoc)

lemma loads_card: "loads l S l' \<Longrightarrow> loader_ok l \<Longrightarrow> card (pending l') \<le> card (pending l)"
  by (rule card_mono [OF pending_finite loads_none]) (auto dest: loads_dom)

lemma loads_refl: "loader_ok l \<Longrightarrow> loads l {} l"
  by (simp add: loads_def)

lemma init_deps_ok:
  assumes f: "\<And>d S l1. loads l S l1 \<Longrightarrow> d \<in> N \<Longrightarrow> \<exists>l'. f d l1 = Some (Inr (True, l')) \<and> loads l1 {d} l'"
    and free: "\<And>d. d \<in> N \<Longrightarrow> st l d \<noteq> Some APP_INITIALIZING"
  shows "loads l S l1 \<Longrightarrow> [] \<in> set ds \<Longrightarrow> set (takeWhile (\<lambda>d. d \<noteq> []) ds) \<subseteq> N \<Longrightarrow>
    \<exists>l'. init_deps f ds l1 = Some (Inr (True, l')) \<and> loads l (S \<union> set (takeWhile (\<lambda>d. d \<noteq> []) ds)) l'"
proof (induction ds arbitrary: S l1)
  case (Cons d ds)
  show ?case
  proof (cases "d = []")
    case False
    then obtain l2 where l2: "f d l1 = Some (Inr (True, l2))" "loads l1 {d} l2" using f [OF Cons.prems(1), of d] Cons.prems(3) by auto
    have l: "loads l (S \<union> {d}) l2" by (rule loads_trans [OF Cons.prems(1) l2(2)])
    have "st l2 d \<noteq> Some APP_INITIALIZING" using free [of d] l Cons.prems(3) False by (auto simp: loads_def)
    then show ?thesis using Cons.IH [OF l] l2(1) Cons.prems(2,3) False by (auto simp: st_def)
  qed (use Cons.prems(1) in simp)
qed simp

lemma after_deps_snoc: "after_deps N xs \<Longrightarrow> N x \<subseteq> set xs \<Longrightarrow> after_deps N (xs @ [x])"
  by (auto simp: after_deps_def nth_append less_Suc_eq)

lemma initialized_closed:
  assumes "loader_ok l" "(\<lambda>a b. b \<in> needs (deps l) a)\<^sup>*\<^sup>* s k" "st l s = Some APP_INITIALIZED"
  shows "st l k = Some APP_INITIALIZED"
  using assms(2,3)
proof (induction rule: rtranclp_induct)
  case (step a b)
  then have "a \<in> set (inits l)" using assms(1) by (auto simp: loader_ok_def)
  then obtain i where "i < length (inits l)" "inits l ! i = a" by (auto simp: in_set_conv_nth)
  then have "b \<in> set (inits l)" using assms(1) step(2) by (fastforce simp: loader_ok_def after_deps_def dest: in_set_takeD)
  then show ?case using assms(1) by (auto simp: loader_ok_def)
qed

lemma initialize_step:
  assumes "loader_ok l" "st l s = Some APP_REGISTERED" "loads (set_state s APP_INITIALIZING l) (needs (deps l) s) l2"
    "choose_thread p l2 = Inr (t, l3)"
  shows "loads l {s} (set_state s APP_INITIALIZED (l3\<lparr>calls := calls l3 @ [Init s t]\<rparr>))"
proof -
  let ?l4 = "set_state s APP_INITIALIZED (l3\<lparr>calls := calls l3 @ [Init s t]\<rparr>)"
  let ?R = "\<lambda>a b. b \<in> needs (deps l) a"
  have l2: "deps l2 = deps l" "threads l2 = threads l" "length (apps l2) = length (apps l)" "loader_ok l2"
      "\<And>k. st l2 k = Some APP_INITIALIZING \<longleftrightarrow> k = s \<or> st l k = Some APP_INITIALIZING"
      "\<And>k. st l2 k = Some APP_INITIALIZED \<longleftrightarrow> k \<noteq> s \<and> st l k = Some APP_INITIALIZED \<or> (\<exists>d \<in> needs (deps l) s. ?R\<^sup>*\<^sup>* d k)"
    using assms(2,3) by (auto simp: loads_def)
  have l3: "st l3 = st l2" "deps l3 = deps l" "calls l3 = calls l2" "threads l3 = threads l" "length (apps l3) = length (apps l)"
      "t < threads l" "last_thread l3 < threads l"
    using choose_thread_frame [OF assms(4)] l2 by (auto simp: loader_ok_def)
  have s2: "st l2 s = Some APP_INITIALIZING" using l2(5) by simp
  have init: "inits (l3\<lparr>calls := calls l3 @ [Init s t]\<rparr>) = inits l2 @ [s]" using l3(3) by (simp add: inits_def)
  have "set (inits l2) = {k. st l2 k = Some APP_INITIALIZED}" "distinct (inits l2)" "after_deps (needs (deps l)) (inits l2)"
    using l2(1,4) by (auto simp: loader_ok_def)
  moreover have "needs (deps l) s \<subseteq> {k. st l2 k = Some APP_INITIALIZED}" using l2(6) by blast
  ultimately have "distinct (inits ?l4)" "after_deps (needs (deps l)) (inits ?l4)" "set (inits ?l4) = {k. st ?l4 k = Some APP_INITIALIZED}"
    using s2 l3(1) by (auto simp: init after_deps_snoc)
  then have "loader_ok ?l4" using l2(2,4) l3 s2 by (auto simp: loader_ok_def)
  moreover have "st ?l4 k = Some APP_INITIALIZED \<longleftrightarrow> st l k = Some APP_INITIALIZED \<or> ?R\<^sup>*\<^sup>* s k" for k
  proof -
    have "?R\<^sup>*\<^sup>* s k \<longleftrightarrow> k = s \<or> (\<exists>d \<in> needs (deps l) s. ?R\<^sup>*\<^sup>* d k)"
      by (auto elim: converse_rtranclpE intro: converse_rtranclp_into_rtranclp)
    moreover have "st ?l4 k = Some APP_INITIALIZED \<longleftrightarrow> k = s \<or> st l2 k = Some APP_INITIALIZED" using s2 l3(1) by simp
    ultimately show ?thesis using l2(6) [of k] by auto
  qed
  moreover have "st ?l4 k = Some APP_INITIALIZING \<longleftrightarrow> st l k = Some APP_INITIALIZING" for k using s2 l3(1) l2(5) [of k] assms(2) by auto
  moreover have "deps ?l4 = deps l" "threads ?l4 = threads l" "length (apps ?l4) = length (apps l)" using l3 by simp_all
  ultimately show ?thesis unfolding loads_def by blast
qed

lemma initialize_ok:
  assumes "loadable (deps l) rank" "loader_ok l" "st l s \<noteq> None" "card (pending l) < n"
    "\<And>k. st l k = Some APP_INITIALIZING \<Longrightarrow> rank s < rank k"
  shows "\<exists>l'. initialize n pin s l = Some (Inr (True, l')) \<and> loads l {s} l'"
  using assms
proof (induction n arbitrary: s l)
  case (Suc n)
  consider "st l s = Some APP_REGISTERED" | "st l s = Some APP_INITIALIZED"
  proof (cases "st l s")
    case (Some x)
    moreover have "x \<noteq> APP_INITIALIZING" using Some Suc.prems(5) [of s] by auto
    moreover have "x \<noteq> APP_STARTED" using Some Suc.prems(2) by (auto simp: loader_ok_def)
    ultimately show ?thesis using that by (cases x) auto
  qed (use Suc.prems(3) in simp)
  then show ?case
  proof cases
    case 1
    then obtain i where i: "map_of (apps l) s = Some i" "a_state i = APP_REGISTERED" by (auto simp: st_def)
    let ?l = "set_state s APP_INITIALIZING l" and ?N = "needs (deps l) s"
    have ok: "loader_ok ?l" using Suc.prems(2) 1 by (auto simp: loader_ok_def)
    have i': "deps l s = Some (dependsOn (app i))" using i by (simp add: deps_def)
    have N: "[] \<in> set (dependsOn (app i))" "?N = set (takeWhile (\<lambda>d. d \<noteq> []) (dependsOn (app i)))"
        "\<And>d. d \<in> ?N \<Longrightarrow> st l d \<noteq> None \<and> rank d < rank s"
      using Suc.prems(1) i' unfolding loadable_def deps_st [symmetric] by (blast, simp add: needs_def, blast)
    have initing: "st ?l k = Some APP_INITIALIZING \<Longrightarrow> d \<in> ?N \<Longrightarrow> rank d < rank k" for k d
      using N(3) Suc.prems(5) by (fastforce split: if_splits)
    have "\<exists>l'. initialize n pin d l1 = Some (Inr (True, l')) \<and> loads l1 {d} l'" if "loads ?l S l1" "d \<in> ?N" for d S l1
    proof (rule Suc.IH)
      show "card (pending l1) < n" using loads_card [OF that(1) ok] pending_drop [OF 1] Suc.prems(4) by simp
      show "st l1 d \<noteq> None" using loads_dom [OF that(1), of d] N(3) [OF that(2)] by (auto split: if_splits)
      show "rank d < rank k" if "st l1 k = Some APP_INITIALIZING" for k
        using that initing [OF _ \<open>d \<in> ?N\<close>, of k] \<open>loads ?l S l1\<close> by (simp only: loads_def)
    qed (use that(1) Suc.prems(1) in \<open>simp_all add: loads_def\<close>)
    from init_deps_ok [where f = "initialize n pin" and N = ?N, OF this _ loads_refl [OF ok] N(1)]
    obtain l2 where l2: "init_deps (initialize n pin) (dependsOn (app i)) ?l = Some (Inr (True, l2))" "loads ?l ?N l2"
      using initing N(2) by fastforce
    have "last_thread l2 < threads l2" using l2(2) by (simp add: loads_def loader_ok_def)
    then obtain t l3 where t: "choose_thread (pin s) l2 = Inr (t, l3)"
      by (cases "choose_thread (pin s) l2") (auto simp: choose_thread_def split: if_splits)
    show ?thesis using initialize_step [OF Suc.prems(2) 1 l2(2) t] i l2(1) t by simp
  next
    case 2
    then have "loads l {s} l" using Suc.prems(2) initialized_closed by (auto simp: loads_def)
    then show ?thesis using 2 by (auto simp: st_def)
  qed
qed simp


lemma init_services_ok:
  assumes "loadable (deps l) rank" "loader_ok l" "\<And>k. st l k \<noteq> Some APP_INITIALIZING"
  shows "\<exists>l'. init_services pin ss l = Some (Inr l') \<and> loads l {s \<in> set ss. st l s \<noteq> None} l'"
  using assms
proof (induction ss arbitrary: l)
  case (Cons s ss)
  have c: "card (pending l) < length (apps l) + 1" using pending_length [of l] by simp
  show ?case
  proof (cases "st l s = None")
    case True
    then have "initialize (length (apps l) + 1) pin s l = Some (Inr (False, l))" by (simp add: st_def)
    moreover have "{x \<in> set (s # ss). st l x \<noteq> None} = {x \<in> set ss. st l x \<noteq> None}" using True by auto
    ultimately show ?thesis using Cons.IH [OF Cons.prems] by simp
  next
    case False
    obtain l1 where l1: "initialize (length (apps l) + 1) pin s l = Some (Inr (True, l1))" "loads l {s} l1"
      using initialize_ok [OF Cons.prems(1,2) False c] Cons.prems(3) by blast
    have "\<exists>l'. init_services pin ss l1 = Some (Inr l') \<and> loads l1 {x \<in> set ss. st l1 x \<noteq> None} l'"
      by (rule Cons.IH) (use l1(2) Cons.prems in \<open>auto simp: loads_def\<close>)
    then obtain l2 where l2: "init_services pin ss l1 = Some (Inr l2)" "loads l1 {x \<in> set ss. st l1 x \<noteq> None} l2" by blast
    have "{s} \<union> {x \<in> set ss. st l1 x \<noteq> None} = {x \<in> set (s # ss). st l x \<noteq> None}" using loads_dom [OF l1(2)] False by auto
    then show ?thesis using loads_trans [OF l1(2) l2(2)] l1(1) l2(1) by simp
  qed
qed (simp add: loads_refl)

lemma register_apps_ok:
  "distinct (map fst (apps l) @ map provides as) \<Longrightarrow>
     register_all dbg as l = Inr (l\<lparr>apps := apps l @ map (\<lambda>a. (provides a, \<lparr>app = a, a_state = APP_REGISTERED\<rparr>)) as\<rparr>)"
proof (induction as arbitrary: l)
  case (Cons a as)
  have "map_of (apps l) (provides a) = None" using Cons.prems by (auto simp: map_of_eq_None_iff)
  then show ?case using Cons.IH [of "l\<lparr>apps := apps l @ [(provides a, \<lparr>app = a, a_state = APP_REGISTERED\<rparr>)]\<rparr>"] Cons.prems
    by (simp add: register_app_def)
qed simp

lemma start_all_calls:
  "distinct order \<Longrightarrow> calls (fold start_app order l) = calls l @ map StartUp (filter (\<lambda>s. st l s = Some APP_INITIALIZED) order)"
proof (induction order arbitrary: l)
  case (Cons s order)
  have "filter (\<lambda>k. st (start_app s l) k = Some APP_INITIALIZED) order = filter (\<lambda>k. st l k = Some APP_INITIALIZED) order"
    by (rule filter_cong) (use Cons.prems in \<open>auto simp: start_app_def\<close>)
  then show ?case using Cons by (simp add: start_app_def st_def [symmetric])
qed simp

definition depends :: "application list \<Rightarrow> string \<Rightarrow> string list option" where
  "depends registry = map_of (map (\<lambda>a. (provides a, dependsOn a)) registry)"

definition needed :: "application list \<Rightarrow> string list \<Rightarrow> string set" where
  "needed registry services =
     {k. \<exists>s \<in> set services. depends registry s \<noteq> None \<and> (\<lambda>a b. b \<in> needs (depends registry) a)\<^sup>*\<^sup>* s k}"

lemma registered_view:
  fixes registry :: "application list" and n :: nat
  defines "l \<equiv> (new_Loader n)\<lparr>apps := map (\<lambda>a. (provides a, \<lparr>app = a, a_state = APP_REGISTERED\<rparr>)) registry\<rparr>"
  shows "deps l = depends registry" "st l s = (if depends registry s = None then None else Some APP_REGISTERED)" "calls l = []"
    "0 < n \<Longrightarrow> loader_ok l" "threads l = n"
proof -
  have m: "map_of (apps l) s = map_option (\<lambda>a. \<lparr>app = a, a_state = APP_REGISTERED\<rparr>) (map_of (map (\<lambda>a. (provides a, a)) registry) s)"
     "depends registry s = map_option dependsOn (map_of (map (\<lambda>a. (provides a, a)) registry) s)" for s
    unfolding l_def depends_def by (induction registry) auto
  show "deps l = depends registry" "st l s = (if depends registry s = None then None else Some APP_REGISTERED)"
    by (auto simp: deps_def st_def m option.map_comp comp_def fun_eq_iff)
  have "st l s \<noteq> Some APP_INITIALIZED \<and> st l s \<noteq> Some APP_STARTED" for s by (auto simp: st_def m)
  moreover show "calls l = []" "threads l = n" by (simp_all add: l_def new_Loader_def)
  moreover have "last_thread l = 0" by (simp add: l_def new_Loader_def)
  ultimately show "0 < n \<Longrightarrow> loader_ok l" by (simp add: loader_ok_def inits_def after_deps_def)
qed

lemma init_calls:
  assumes "\<forall>c \<in> set cs. \<exists>s t. c = Init s t \<and> t < n"
  shows "\<exists>ps. cs = map (\<lambda>(s, t). Init s t) ps \<and> snd ` set ps \<subseteq> {..<n} \<and>
    map fst ps = concat (map (\<lambda>c. case c of Init s _ \<Rightarrow> [s] | StartUp _ \<Rightarrow> []) cs)"
  using assms
proof (induction cs)
  case (Cons c cs)
  then obtain ps s t where "cs = map (\<lambda>(s, t). Init s t) ps" "snd ` set ps \<subseteq> {..<n}" "c = Init s t" "t < n"
      "map fst ps = concat (map (\<lambda>c. case c of Init s _ \<Rightarrow> [s] | StartUp _ \<Rightarrow> []) cs)"
    by auto
  then show ?case by (intro exI [of _ "(s, t) # ps"]) simp
qed simp

text \<open>
  C20: Start-up ends and follows the dependencies. For every registry, configuration and number of threads
  the loader comes to an end or aborts. If names are distinct and the dependencies are registered and without cycles, it does not
  abort: it calls \<open>init\<close> exactly once for each application the configured services need and for no other, each after
  all its dependencies and on an existing thread, and only then \<open>startUp\<close> once for each of them.
\<close>

theorem start_up_order:
  shows "startAll dbg pin registry services order (new_Loader n) \<noteq> None \<and>
    (distinct (map provides registry) \<and> loadable (depends registry) rank \<and> 0 < n \<and> distinct order \<and> set order = provides ` set registry \<longrightarrow>
      (\<exists>l inits. startAll dbg pin registry services order (new_Loader n) = Some (Inr l) \<and>
        calls l = map (\<lambda>(s, t). Init s t) inits @ map StartUp (filter (\<lambda>s. s \<in> needed registry services) order) \<and>
        distinct (map fst inits) \<and> fst ` set inits = needed registry services \<and> snd ` set inits \<subseteq> {..<n} \<and>
        after_deps (needs (depends registry)) (map fst inits)))"
proof -
  have "startAll dbg pin registry services order (new_Loader n) \<noteq> None"
  proof (cases "register_all dbg registry (new_Loader n)")
    case (Inr l1)
    obtain x where "init_services pin services l1 = Some x" using init_services_returns by blast
    then show ?thesis using Inr by (cases x) (simp_all add: startAll_def)
  qed (simp add: startAll_def)
  moreover {
    assume a: "distinct (map provides registry)" "loadable (depends registry) rank" "0 < n" "distinct order" "set order = provides ` set registry"
    let ?l = "(new_Loader n)\<lparr>apps := map (\<lambda>a. (provides a, \<lparr>app = a, a_state = APP_REGISTERED\<rparr>)) registry\<rparr>"
    note v = registered_view [where n = n and registry = registry]
    have reg: "register_all dbg registry (new_Loader n) = Inr ?l" using register_apps_ok [of "new_Loader n" registry] a(1) by (simp add: new_Loader_def)
    obtain l2 where l2: "init_services pin services ?l = Some (Inr l2)" "loads ?l {s \<in> set services. st ?l s \<noteq> None} l2"
    proof -
      have "st ?l k \<noteq> Some APP_INITIALIZING" for k using v(2) [of k] by (simp split: if_splits)
      then show ?thesis using init_services_ok [of ?l rank pin services] a(2,3) v(1,4) that by (simp only: simp_thms) blast
    qed
    have ok: "loader_ok l2" "deps l2 = depends registry" "threads l2 = n" using l2(2) v by (simp_all add: loads_def)
    have need: "{s. st l2 s = Some APP_INITIALIZED} = needed registry services" using l2(2) v(1,2) by (auto simp: loads_def needed_def)
    have "\<forall>c \<in> set (calls l2). \<exists>s t. c = Init s t \<and> t < n" using ok by (simp add: loader_ok_def)
    then obtain ps where cs: "calls l2 = map (\<lambda>(s, t). Init s t) ps" "snd ` set ps \<subseteq> {..<n}" "map fst ps = inits l2"
      unfolding inits_def using init_calls by metis
    define l where "l = (fold start_app order (l2\<lparr>l_state := STARTING\<rparr>))\<lparr>l_state := RUNNING\<rparr>"
    have "startAll dbg pin registry services order (new_Loader n) = Some (Inr l)" by (simp add: startAll_def reg l2(1) l_def)
    moreover have "calls l = map (\<lambda>(s, t). Init s t) ps @ map StartUp (filter (\<lambda>s. s \<in> needed registry services) order)"
      using start_all_calls [OF a(4), of "l2\<lparr>l_state := STARTING\<rparr>"] cs(1) by (simp add: l_def need [symmetric])
    moreover have "distinct (map fst ps)" "fst ` set ps = needed registry services" "after_deps (needs (depends registry)) (map fst ps)"
      using ok need cs(3) by (auto simp: loader_ok_def simp flip: set_map)
    ultimately have "\<exists>l inits. startAll dbg pin registry services order (new_Loader n) = Some (Inr l) \<and>
        calls l = map (\<lambda>(s, t). Init s t) inits @ map StartUp (filter (\<lambda>s. s \<in> needed registry services) order) \<and>
        distinct (map fst inits) \<and> fst ` set inits = needed registry services \<and> snd ` set inits \<subseteq> {..<n} \<and>
        after_deps (needs (depends registry)) (map fst inits)"
      using cs(2) by blast
  }
  ultimately show ?thesis by blast
qed

text \<open>The applications of the repository and the services of the configuration it is shipped with.\<close>

definition repository_apps :: "application list" where
  "repository_apps = map (\<lambda>(n, ds). \<lparr>provides = n, dependsOn = ds\<rparr>)
    [(''stp'', [''controller'', ''switch-manager'', ''link-discovery'', ''topology'', []]),
     (''arp-handler'', [''controller'', ''switch-manager'', ''host-manager'', []]),
     (''topology'', [''link-discovery'', ''rest-listener'', []]), (''cbench'', [''controller'', []]),
     (''simple-learning-switch'', [''controller'', []]), (''webui'', [''switch-manager'', ''host-manager'', ''rest-listener'', []]),
     (''rest-multipart'', [''controller'', ''switch-manager'', ''rest-listener'', []]),
     (''rest-flowmod'', [''controller'', ''switch-manager'', ''rest-listener'', []]),
     (''flow-manager'', [''controller'', ''switch-manager'', ''rest-listener'', []]),
     (''switch-stats'', [''switch-manager'', ''controller'', ''rest-listener'', []]),
     (''learning-switch'', [''controller'', ''topology'', []]), (''link-discovery'', [''switch-manager'', ''controller'', []]),
     (''rest-listener'', [''controller'', []]), (''switch-manager'', [''controller'', ''rest-listener'', []]),
     (''static-flow-pusher'', [''controller'', ''switch-manager'', ''rest-listener'', []]), (''controller'', [[]]),
     (''host-manager'', [''switch-manager'', ''rest-listener'', []]), (''messaging'', [''controller'', []])]"

definition repository_services :: "string list" where
  "repository_services =
     [''learning-switch'', ''rest-listener'', ''host-manager'', ''webui'', ''static-flow-pusher'', ''switch-stats'', ''arp-handler'',
      ''flow-manager'', ''rest-multipart'', ''rest-flowmod'', ''messaging'']"

definition level :: "string \<Rightarrow> nat" where
  "level s = (if s = ''controller'' then 0 else if s = ''rest-listener'' then 1 else if s = ''switch-manager'' then 2
    else if s = ''link-discovery'' then 3 else if s = ''topology'' \<or> s = ''host-manager'' then 4 else 5)"

definition loadable_list :: "application list \<Rightarrow> (string \<Rightarrow> nat) \<Rightarrow> bool" where
  "loadable_list as rank \<longleftrightarrow>
     list_all (\<lambda>a. [] \<in> set (dependsOn a) \<and>
       list_all (\<lambda>d. d \<in> set (map provides as) \<and> rank d < rank (provides a)) (takeWhile (\<lambda>d. d \<noteq> []) (dependsOn a))) as"

lemma loadable_list_sound: "loadable_list as rank \<Longrightarrow> loadable (depends as) rank"
proof -
  assume l: "loadable_list as rank"
  have e: "\<exists>a \<in> set as. provides a = s \<and> dependsOn a = ds" if "depends as s = Some ds" for s ds
    using map_of_SomeD [OF that [unfolded depends_def]] by auto
  have "[] \<in> set ds" "d \<in> set (takeWhile (\<lambda>d. d \<noteq> []) ds) \<Longrightarrow> d \<in> provides ` set as \<and> rank d < rank s"
    if "depends as s = Some ds" for s ds d
    using e [OF that] l by (auto simp: loadable_list_def list_all_iff)
  moreover have "d \<in> provides ` set as \<Longrightarrow> depends as d \<noteq> None" for d by (auto simp: depends_def map_of_eq_None_iff image_iff)
  ultimately show ?thesis unfolding loadable_def needs_def by (auto split: option.splits)
qed

theorem start_up_order_witness:
  "\<exists>l inits. startAll True (\<lambda>_. -1) repository_apps repository_services (map provides repository_apps) (new_Loader 1) = Some (Inr l) \<and>
     calls l = map (\<lambda>(s, t). Init s t) inits @
       map StartUp (filter (\<lambda>s. s \<in> needed repository_apps repository_services) (map provides repository_apps)) \<and>
     distinct (map fst inits) \<and> after_deps (needs (depends repository_apps)) (map fst inits) \<and> ''link-discovery'' \<in> set (map fst inits)"
proof -
  have "loadable (depends repository_apps) level" by (rule loadable_list_sound) code_simp
  moreover have "distinct (map provides repository_apps)" by code_simp
  moreover have "''link-discovery'' \<in> needed repository_apps repository_services"
  proof -
    have "''topology'' \<in> needs (depends repository_apps) ''learning-switch''" "''link-discovery'' \<in> needs (depends repository_apps) ''topology''"
      "''learning-switch'' \<in> set repository_services" "depends repository_apps ''learning-switch'' \<noteq> None"
      by code_simp+
    then show ?thesis unfolding needed_def
      by (intro CollectI bexI [of _ "''learning-switch''"] conjI) (auto intro: converse_rtranclp_into_rtranclp)
  qed
  ultimately show ?thesis
    using start_up_order [of True "\<lambda>_. -1" repository_apps repository_services "map provides repository_apps" 1 level] by fastforce
qed

text \<open>
  A dependency that is not registered leaves the application that needs it marked as being initialised; the next
  application that needs this one is then reported as a cycle, and the process ends although there is none.
\<close>

theorem missing_dependency_aborts:
  assumes "depends [a, b] x = None" "provides a \<noteq> []" "provides b \<noteq> provides a" "x \<noteq> []" "dependsOn a = [x, []]" "dependsOn b = [provides a, []]"
  shows "startAll dbg pin [a, b] [provides a, provides b] order (new_Loader n) = Some (Inl ExitProcess)"
  using assms by (auto simp: startAll_def register_app_def new_Loader_def depends_def set_state_def numeral_eq_Suc split: if_splits)

text \<open>An application that is already started is not found any more, although the interface is documented for use in \<open>startUp\<close>.\<close>

theorem started_app_not_found:
  assumes "loader_app s l = Inr a"
  shows "loader_app s (start_app s l) = Inl (Thrown ''out_of_range'')"
  using assms by (auto simp: loader_app_def start_app_def set_state_def map_of_set_state split: option.splits if_splits)

end
