(* ===== verification/Rest_Text.thy ===== *)
theory Rest_Text
  imports Net_Addr
begin

text \<open>
  Texts and JSON of the REST interface: the templates of \<open>src/RestStringProcessing.hh\<close>, the accessors of \<open>src/json11.cpp\<close>
  that the requests go through, \<open>src/Config.hh\<close> and the address text of \<open>src/AppObject.cc\<close>. Numbers travel as strings. A
  number is read with \<open>std::stringstream\<close>: leading white space is skipped, a sign and the longest prefix of digits is
  taken, the value saturates at 64 bits, and a text without digits gives 0. When nothing but white space is left the variable keeps the
  value it had; it is not initialised, so this value is the parameter \<open>junk\<close>. A JSON number is its integer part.
\<close>

datatype json =
    JNull
  | JBool bool
  | JNum int
  | JStr string
  | JArr "json list"
  | JObj "(string \<times> json) list"

definition string_value :: "json \<Rightarrow> string" where
  "string_value j = (case j of JStr s \<Rightarrow> s | _ \<Rightarrow> [])"

definition number_value :: "json \<Rightarrow> int" where
  "number_value j = (case j of JNum n \<Rightarrow> n | _ \<Rightarrow> 0)"

definition array_items :: "json \<Rightarrow> json list" where
  "array_items j = (case j of JArr js \<Rightarrow> js | _ \<Rightarrow> [])"

definition object_items :: "json \<Rightarrow> (string \<times> json) list" where
  "object_items j = (case j of JObj m \<Rightarrow> m | _ \<Rightarrow> [])"

definition config_get_string :: "(string \<times> json) list \<Rightarrow> string \<Rightarrow> string \<Rightarrow> string" where
  "config_get_string c k d = (case map_of c k of None \<Rightarrow> d | Some j \<Rightarrow> string_value j)"

definition config_get_int :: "(string \<times> json) list \<Rightarrow> string \<Rightarrow> int \<Rightarrow> int" where
  "config_get_int c k d = (case map_of c k of None \<Rightarrow> d | Some j \<Rightarrow> number_value j)"

definition config_cd :: "(string \<times> json) list \<Rightarrow> string \<Rightarrow> (string \<times> json) list" where
  "config_cd c k = (case map_of c k of None \<Rightarrow> [] | Some j \<Rightarrow> object_items j)"

subsection \<open>Exceptions of a request\<close>

text \<open>A request ends with an exception of class \<open>std::string\<close>, whose text is the answer, with an overflow, or with anything else.\<close>

datatype exn = StringExn string | OverflowExn | OtherExn

type_synonym 'a req = "exn + 'a"

definition at_key :: "(string \<times> json) list \<Rightarrow> string \<Rightarrow> json req" where
  "at_key m k = (case map_of m k of None \<Rightarrow> Inl OtherExn | Some j \<Rightarrow> Inr j)"

subsection \<open>Numbers as texts\<close>

definition hex_char :: "nat \<Rightarrow> char" where
  "hex_char d = char_of (if d < 10 then 48 + d else 55 + d)"

fun hex_upper :: "nat \<Rightarrow> string" where
  "hex_upper n = (if n < 16 then [hex_char n] else hex_upper (n div 16) @ [hex_char (n mod 16)])"

declare hex_upper.simps [simp del]

definition toString_cast :: "'a::len word \<Rightarrow> bool \<Rightarrow> string" where
  "toString_cast w toHex =
     (if toHex then ''0x'' @ replicate (4 - length (hex_upper (unat w))) CHR ''0'' @ hex_upper (unat w) else dec (unat w))"

definition toString_u8 :: "u8 \<Rightarrow> bool \<Rightarrow> string" where
  "toString_u8 w toHex = dec (unat w)"

definition is_space :: "char \<Rightarrow> bool" where
  "is_space c \<longleftrightarrow> c = CHR '' '' \<or> 9 \<le> (of_char c :: nat) \<and> (of_char c :: nat) \<le> 13"

definition hex_number :: "string \<Rightarrow> nat" where
  "hex_number cs = foldl (\<lambda>n c. 16 * n + xdigit_val c) 0 cs"

definition saturate :: "bool \<Rightarrow> nat \<Rightarrow> u64" where
  "saturate neg n = (if n < 2 ^ 64 then if neg then - of_nat n else of_nat n else - 1)"

definition read_u64 :: "u64 \<Rightarrow> bool \<Rightarrow> string \<Rightarrow> u64" where
  "read_u64 junk hexa val =
     (let s = dropWhile is_space val
      in if s = [] then junk
         else
           let neg = (hd s = CHR ''-''); t = (if hd s = CHR ''-'' \<or> hd s = CHR ''+'' then tl s else s)
           in if hexa then saturate neg (hex_number (takeWhile is_xdigit (if take 2 t = ''0x'' \<or> take 2 t = ''0X'' then drop 2 t else t)))
              else saturate neg (dec_value 0 (takeWhile is_digit t)))"

text \<open>\<open>std::stoull\<close>: white space, a sign and the longest run of digits; nothing if there is no digit or the number has more than 64 bits.\<close>

definition stoull_value :: "string \<Rightarrow> u64 option" where
  "stoull_value t =
     (let s = dropWhile is_space t;
          neg = (take 1 s = ''-'');
          ds = takeWhile is_digit (if take 1 s = ''-'' \<or> take 1 s = ''+'' then drop 1 s else s);
          n = dec_value 0 ds
      in if ds = [] \<or> 2 ^ 64 \<le> n then None else Some (if neg then - of_nat n else of_nat n))"

definition string_cast :: "u64 \<Rightarrow> string \<Rightarrow> ('a::len word) req" where
  "string_cast junk val =
     (let no_overflow = read_u64 junk (take 2 val = ''0x'') val; ans = (ucast no_overflow :: 'a word)
      in if ucast ans \<noteq> no_overflow then Inl OverflowExn else Inr ans)"

definition json_cast :: "u64 \<Rightarrow> json \<Rightarrow> ('a::len word) req" where
  "json_cast junk j = string_cast junk (string_value j)"

definition chooseValue :: "u64 \<Rightarrow> (string \<times> json) list \<Rightarrow> string \<Rightarrow> u64 \<Rightarrow> u64 req" where
  "chooseValue junk m field alternative = (case map_of m field of Some j \<Rightarrow> json_cast junk j | None \<Rightarrow> Inr alternative)"

definition uint32_t_ip_to_string :: "u32 \<Rightarrow> string" where
  "uint32_t_ip_to_string ip =
     (let octet = (\<lambda>i. dec (unat (and (drop_bit (8 * i) ip) 255)))
      in octet 0 @ ''.'' @ octet 1 @ ''.'' @ octet 2 @ ''.'' @ octet 3)"

subsection \<open>What is printed can be read\<close>

lemma hex_char_ok: "d < 16 \<Longrightarrow> is_xdigit (hex_char d) \<and> xdigit_val (hex_char d) = d"
proof -
  assume d: "d < 16"
  have "(of_char (hex_char d) :: nat) = (if d < 10 then 48 + d else 55 + d)" using d by (simp add: hex_char_def)
  then show ?thesis using d by (auto simp: is_xdigit_def xdigit_val_def is_digit_def)
qed

lemma hex_upper_ok: "hex_upper n \<noteq> [] \<and> list_all is_xdigit (hex_upper n) \<and> hex_number (hex_upper n) = n"
proof (induction n rule: hex_upper.induct)
  case (1 n)
  then show ?case by (subst (1 2 3) hex_upper.simps) (auto simp: hex_number_def hex_char_ok)
qed

lemma hex_number_pad: "hex_number (replicate k CHR ''0'' @ cs) = hex_number cs"
proof -
  have "foldl (\<lambda>n c. 16 * n + xdigit_val c) 0 (replicate k CHR ''0'') = 0"
    by (induction k) (simp_all add: xdigit_val_def is_digit_def)
  then show ?thesis by (simp add: hex_number_def)
qed

lemma takeWhile_all: "list_all P xs \<Longrightarrow> takeWhile P xs = xs"
  by (simp add: list_all_iff)

lemma saturate_fits: "unat (w :: 'a::len word) < 2 ^ 64 \<Longrightarrow> saturate False (unat w) = ucast w"
  by (simp add: saturate_def)

lemma read_u64_hex: "read_u64 junk True (''0x'' @ cs) = saturate False (hex_number (takeWhile is_xdigit cs))"
  by (simp add: read_u64_def is_space_def)

lemma dec_head: "\<exists>c cs. dec n = c # cs \<and> is_digit c"
  using dec_digits [of _ n] by (cases "dec n") auto

lemma digit_plain: "is_digit c \<Longrightarrow> \<not> is_space c \<and> c \<noteq> CHR ''-'' \<and> c \<noteq> CHR ''+'' \<and> c \<noteq> CHR ''x''"
  by (auto simp: is_digit_def is_space_def)

lemma dec_plain: "take 2 (dec n) \<noteq> ''0x''"
proof
  assume "take 2 (dec n) = ''0x''"
  then have "CHR ''x'' \<in> set (dec n)" by (metis in_set_takeD insert_iff list.set(2))
  then show False using dec_digits digit_plain by blast
qed

lemma stoull_dec: "n < 2 ^ 64 \<Longrightarrow> stoull_value (dec n) = Some (of_nat n)"
proof -
  obtain c cs where c: "dec n = c # cs" "is_digit c" using dec_head by blast
  have "list_all is_digit (c # cs)" using dec_digits [of _ n] c by (auto simp: list_all_iff)
  then show "n < 2 ^ 64 \<Longrightarrow> stoull_value (dec n) = Some (of_nat n)"
    using c digit_plain [OF c(2)] dec_value_dec [of n] by (simp add: stoull_value_def takeWhile_all)
qed

lemma text_u64_dec: "read_u64 junk False (dec n) = saturate False n"
proof -
  obtain c cs where c: "dec n = c # cs" "is_digit c" using dec_head by blast
  have "list_all is_digit (c # cs)" using dec_digits [of _ n] c by (auto simp: list_all_iff)
  then show ?thesis using c digit_plain [OF c(2)] dec_value_dec [of n] by (simp add: read_u64_def takeWhile_all)
qed

lemma string_cast_print:
  assumes "LENGTH('a) \<le> 64"
  shows "string_cast junk (toString_cast (w :: 'a::len word) toHex) = Inr w"
proof -
  have "unat w < 2 ^ LENGTH('a)" by (rule unsigned_less)
  also have "(2 :: nat) ^ LENGTH('a) \<le> 2 ^ 64" using assms by (rule power_increasing) simp
  finally have fits: "saturate False (unat w) = ucast w" by (rule saturate_fits)
  have same: "ucast (ucast w :: u64) = w" using assms by (intro bit_word_eqI) (auto simp: bit_simps dest: bit_imp_le_length)
  have "read_u64 junk (take 2 (toString_cast w toHex) = ''0x'') (toString_cast w toHex) = ucast w"
  proof (cases toHex)
    case True
    let ?cs = "replicate (4 - length (hex_upper (unat w))) CHR ''0'' @ hex_upper (unat w)"
    have "is_xdigit CHR ''0''" by (simp add: is_xdigit_def is_digit_def)
    then have "takeWhile is_xdigit ?cs = ?cs" using hex_upper_ok [of "unat w"] by (intro takeWhile_all) (auto simp: list_all_iff)
    then have "hex_number (takeWhile is_xdigit ?cs) = unat w" using hex_number_pad hex_upper_ok [of "unat w"] by metis
    then have "read_u64 junk True (''0x'' @ ?cs) = ucast w" using fits by (simp only: read_u64_hex)
    then show ?thesis using True by (simp add: toString_cast_def)
  qed (simp add: toString_cast_def dec_plain text_u64_dec fits)
  then show ?thesis using same by (simp add: string_cast_def)
qed

lemma string_cast_u8 [simp]: "string_cast junk (toString_u8 w h) = Inr w"
  using string_cast_print [where toHex = False, of junk w] by (simp add: toString_cast_def toString_u8_def)

text \<open>A text that is not a number is not rejected: it is read as 0. An empty one, or a JSON value that is no string, leaves the variable as it was.\<close>

lemma string_cast_no_number: "c \<notin> {CHR ''-'', CHR ''+''} \<Longrightarrow> \<not> is_digit c \<Longrightarrow> \<not> is_space c \<Longrightarrow> string_cast junk (c # cs) = Inr 0"
  by (auto simp: string_cast_def read_u64_def Let_def saturate_def dec_value_def is_digit_def)

lemma string_cast_empty: "string_cast junk [] = Inr (junk :: u64)"
  by (simp add: string_cast_def read_u64_def)

end
