(* ===== verification/Rest_Match.thy ===== *)
theory Rest_Match
  imports Rest_Text "HOL-Library.AList"
begin

text \<open>
  Matches, actions and instructions as JSON: \<open>src/RestStringProcessing.cc\<close> prints those a switch reports, \<open>src/RestFlowMod.cc\<close>
  reads those of a request. The classes of libfluid are data with the values the code passes to them; its texts of addresses and the values its default
  constructors leave are parameters (\<open>fluid\<close>). \<open>junk\<close> gives the value of a variable that is read before it is written, see \<open>Rest_Text\<close>.
\<close>

datatype oxm_tlv =
    InPort u32 | InPhyPort u32 | Metadata u64 | EthDst mac | EthSrc mac | EthType u16 | VLANVid u16 | VLANPcp u8
  | IPDSCP u8 | IPECN u8 | IPProto u8 | IPv4Src u32 | IPv4Dst u32 | TCPSrc u16 | TCPDst u16 | UDPSrc u16 | UDPDst u16
  | ARPOp u16 | ARPSPA u32 | ARPTPA u32 | ARPSHA mac | ARPTHA mac

datatype fluid_action =
    OUTPUT u32 u16 | COPY_TTL_OUT | COPY_TTL_IN | SET_MPLS_TTL u8 | DEC_MPLS_TTL | PUSH_VLAN u16 | POP_VLAN | PUSH_MPLS u16
  | POP_MPLS u16 | SET_QUEUE u32 | GROUP u32 | SET_NW_TTL u8 | DEC_NW_TTL | SET_FIELD oxm_tlv | PUSH_PBB u16 | POP_PBB | EXPERIMENTER u32

datatype fluid_instruction =
    GOTO_TABLE u8 | WRITE_METADATA u64 u64 | WRITE_ACTIONS "fluid_action list" | APPLY_ACTIONS "fluid_action list" | CLEAR_ACTIONS
  | METER u32 | INSTRUCTION_EXPERIMENTER

record fluid =
  mac_of :: "string \<Rightarrow> mac req"
  ip_of :: "string \<Rightarrow> u32 req"
  mac_text :: "mac \<Rightarrow> string"
  unset :: "string \<Rightarrow> u64"

text \<open>The fields of \<open>of13::Match\<close> the code asks for; a field is absent or has a value.\<close>

record Match =
  m_in_port :: "u32 option"
  m_in_phy_port :: "u32 option"
  m_eth_type :: "u16 option"
  m_ip_proto :: "u8 option"
  m_tcp_dst :: "u16 option"
  m_tcp_src :: "u16 option"
  m_udp_dst :: "u16 option"
  m_udp_src :: "u16 option"
  m_metadata :: "u64 option"
  m_ipv4_src :: "u32 option"
  m_ipv4_dst :: "u32 option"
  m_eth_src :: "mac option"
  m_eth_dst :: "mac option"
  m_arp_op :: "u16 option"
  m_arp_spa :: "u32 option"
  m_arp_tpa :: "u32 option"
  m_arp_sha :: "mac option"
  m_arp_tha :: "mac option"
  m_vlan_vid :: "u16 option"
  m_vlan_pcp :: "u8 option"

subsection \<open>Printing\<close>

definition emplace_if :: "string \<Rightarrow> ('a \<Rightarrow> string) \<Rightarrow> 'a option \<Rightarrow> (string \<times> json) list" where
  "emplace_if k f v = (case v of None \<Rightarrow> [] | Some x \<Rightarrow> [(k, JStr (f x))])"

definition processMatch :: "fluid \<Rightarrow> Match \<Rightarrow> (string \<times> json) list" where
  "processMatch fl m =
     emplace_if ''in_port'' (\<lambda>v. toString_cast v False) (m_in_port m) @
     emplace_if ''in_phy_port'' (\<lambda>v. toString_cast v False) (m_in_phy_port m) @
     emplace_if ''eth_type'' (\<lambda>v. toString_cast v True) (m_eth_type m) @
     emplace_if ''ip_proto'' (\<lambda>v. toString_u8 v True) (m_ip_proto m) @
     emplace_if ''tcp_dst'' (\<lambda>v. toString_cast v False) (m_tcp_dst m) @
     emplace_if ''tcp_src'' (\<lambda>v. toString_cast v False) (m_tcp_src m) @
     emplace_if ''udp_dst'' (\<lambda>v. toString_cast v False) (m_udp_dst m) @
     emplace_if ''udp_src'' (\<lambda>v. toString_cast v False) (m_udp_src m) @
     emplace_if ''metadata'' (\<lambda>v. toString_cast v False) (m_metadata m) @
     emplace_if ''ipv4_src'' uint32_t_ip_to_string (m_ipv4_src m) @
     emplace_if ''ipv4_dst'' uint32_t_ip_to_string (m_ipv4_dst m) @
     emplace_if ''eth_src'' (mac_text fl) (m_eth_src m) @
     emplace_if ''eth_dst'' (mac_text fl) (m_eth_dst m) @
     emplace_if ''arp_op'' (\<lambda>v. toString_cast v True) (m_arp_op m) @
     emplace_if ''arp_spa'' uint32_t_ip_to_string (m_arp_spa m) @
     emplace_if ''arp_tpa'' uint32_t_ip_to_string (m_arp_tpa m) @
     emplace_if ''arp_sha'' (mac_text fl) (m_arp_sha m) @
     emplace_if ''arp_tha'' (mac_text fl) (m_arp_tha m) @
     emplace_if ''vlan_vid'' (\<lambda>v. toString_cast v False) (m_vlan_vid m) @
     emplace_if ''vlan_pcp'' (\<lambda>v. toString_u8 v False) (m_vlan_pcp m)"

definition set_field_json :: "string \<Rightarrow> string \<Rightarrow> (string \<times> json) list" where
  "set_field_json f v = [(''field'', JStr f), (''value'', JStr v)]"

definition processSetField :: "fluid \<Rightarrow> oxm_tlv \<Rightarrow> (string \<times> json) list" where
  "processSetField fl t =
     (case t of
        InPort v \<Rightarrow> set_field_json ''in_port'' (toString_cast v False)
      | EthSrc a \<Rightarrow> set_field_json ''eth_src'' (mac_text fl a)
      | EthDst a \<Rightarrow> set_field_json ''eth_dst'' (mac_text fl a)
      | EthType v \<Rightarrow> set_field_json ''eth_type'' (toString_cast v False)
      | VLANVid v \<Rightarrow> set_field_json ''vlan_vid'' (toString_cast v False)
      | IPv4Src a \<Rightarrow> set_field_json ''ip_src'' (uint32_t_ip_to_string a)
      | IPv4Dst a \<Rightarrow> set_field_json ''ip_dst'' (uint32_t_ip_to_string a)
      | IPProto v \<Rightarrow> set_field_json ''ip_proto'' (toString_u8 v False)
      | ARPSPA a \<Rightarrow> set_field_json ''arp_spa'' (uint32_t_ip_to_string a)
      | ARPTPA a \<Rightarrow> set_field_json ''arp_tpa'' (uint32_t_ip_to_string a)
      | ARPSHA a \<Rightarrow> set_field_json ''arp_sha'' (mac_text fl a)
      | ARPTHA a \<Rightarrow> set_field_json ''arp_tha'' (mac_text fl a)
      | ARPOp v \<Rightarrow> set_field_json ''arp_op'' (toString_cast v False)
      | _ \<Rightarrow> [(''unhandled field'', JStr ''error'')])"

definition action_json :: "fluid \<Rightarrow> fluid_action \<Rightarrow> (string \<times> json) list" where
  "action_json fl a =
     (case a of
        OUTPUT port max_len \<Rightarrow> [(''type'', JStr ''OUTPUT''), (''port'', JStr (toString_cast port True))]
      | COPY_TTL_OUT \<Rightarrow> [(''type'', JStr ''COPY_TTL_OUT'')]
      | COPY_TTL_IN \<Rightarrow> [(''type'', JStr ''COPY_TTL_IN'')]
      | SET_MPLS_TTL v \<Rightarrow> [(''type'', JStr ''SET_MPLS_TTL''), (''mpls_ttl'', JStr (toString_u8 v False))]
      | DEC_MPLS_TTL \<Rightarrow> [(''type'', JStr ''DEC_MPLS_TTL'')]
      | PUSH_VLAN v \<Rightarrow> [(''type'', JStr ''PUSH_VLAN''), (''ethertype'', JStr (toString_cast v False))]
      | POP_VLAN \<Rightarrow> [(''type'', JStr ''POP_VLAN'')]
      | PUSH_MPLS v \<Rightarrow> [(''type'', JStr ''PUSH_MPLS''), (''ethertype'', JStr (toString_cast v False))]
      | POP_MPLS v \<Rightarrow> [(''type'', JStr ''POP_MPLS''), (''ethertype'', JStr (toString_cast v False))]
      | SET_QUEUE v \<Rightarrow> [(''type'', JStr ''SET_QUEUE''), (''queue_id'', JStr (toString_cast v False))]
      | GROUP v \<Rightarrow> [(''type'', JStr ''GROUP''), (''group_id'', JStr (toString_cast v False))]
      | SET_NW_TTL v \<Rightarrow> [(''type'', JStr ''SET_NW_TTL''), (''nw_ttl'', JStr (toString_u8 v False))]
      | DEC_NW_TTL \<Rightarrow> [(''type'', JStr ''DEC_NW_TTL'')]
      | SET_FIELD t \<Rightarrow> processSetField fl t @ [(''type'', JStr ''SET_FIELD'')]
      | PUSH_PBB v \<Rightarrow> [(''type'', JStr ''PUSH_PBB''), (''ethertype'', JStr (toString_cast v False))]
      | POP_PBB \<Rightarrow> [(''type'', JStr ''POP_PBB'')]
      | EXPERIMENTER v \<Rightarrow> [(''type'', JStr ''EXPERIMENTER'')])"

definition processActions_json :: "fluid \<Rightarrow> fluid_action list \<Rightarrow> json list" where
  "processActions_json fl as = map (\<lambda>a. JObj (action_json fl a)) as"

definition instruction_json :: "fluid \<Rightarrow> fluid_instruction \<Rightarrow> string \<times> json" where
  "instruction_json fl i =
     (case i of
        GOTO_TABLE t \<Rightarrow> (''goto_table'', JStr (toString_u8 t False))
      | WRITE_METADATA d k \<Rightarrow>
          (''metadata'', JObj [(''metadata'', JStr (toString_cast d False)), (''metadata_mask'', JStr (toString_cast k False))])
      | WRITE_ACTIONS as \<Rightarrow> (''write_actions'', JArr (processActions_json fl as))
      | APPLY_ACTIONS as \<Rightarrow> (''apply_actions'', JArr (processActions_json fl as))
      | CLEAR_ACTIONS \<Rightarrow> (''clear_actions'', JStr ''clear_actions'')
      | METER n \<Rightarrow> (''meter'', JStr (toString_cast n False))
      | INSTRUCTION_EXPERIMENTER \<Rightarrow> (''experimenter'', JStr ''experimenter''))"

definition processInstructions :: "fluid \<Rightarrow> fluid_instruction list \<Rightarrow> (string \<times> json) list" where
  "processInstructions fl is = fold (\<lambda>i m. AList.update (fst (instruction_json fl i)) (snd (instruction_json fl i)) m) is []"

subsection \<open>Reading matches\<close>

record match_state =
  tlvs :: "oxm_tlv list"
  added :: bool
  ether_type :: "u16 option"
  inet_type :: "u8 option"

definition add_oxm_field :: "oxm_tlv \<Rightarrow> match_state \<Rightarrow> match_state" where
  "add_oxm_field t s = s\<lparr>tlvs := tlvs s @ [t], added := True\<rparr>"

definition handle_uint :: "(string \<Rightarrow> u64) \<Rightarrow> (string \<times> json) list \<Rightarrow> string \<Rightarrow> ('a::len word \<Rightarrow> oxm_tlv) \<Rightarrow> match_state \<Rightarrow> match_state req" where
  "handle_uint junk matches field mk s =
     (case res_bind (at_key matches field) (json_cast (junk field)) of
        Inr v \<Rightarrow> Inr (add_oxm_field (mk v) s)
      | Inl OverflowExn \<Rightarrow> Inl OverflowExn
      | Inl _ \<Rightarrow> Inr s)"

definition handle_string :: "(string \<Rightarrow> 'a req) \<Rightarrow> (string \<times> json) list \<Rightarrow> string \<Rightarrow> ('a \<Rightarrow> oxm_tlv) \<Rightarrow> match_state \<Rightarrow> match_state req" where
  "handle_string conv matches field mk s =
     (case res_bind (at_key matches field) (\<lambda>j. conv (string_value j)) of
        Inr v \<Rightarrow> Inr (add_oxm_field (mk v) s)
      | Inl _ \<Rightarrow> Inr s)"

definition close_layer :: "u16 \<Rightarrow> u8 option \<Rightarrow> match_state \<Rightarrow> match_state" where
  "close_layer ety proto s =
     (if \<not> added s then s
      else s\<lparr>tlvs := tlvs s @ [EthType ety] @ (case proto of None \<Rightarrow> [] | Some p \<Rightarrow> [IPProto p]), added := False,
             ether_type := Some ety, inet_type := (case proto of None \<Rightarrow> inet_type s | Some p \<Rightarrow> Some p)\<rparr>)"

fun steps :: "('a \<Rightarrow> 'a req) list \<Rightarrow> 'a \<Rightarrow> 'a req" where
  "steps [] s = Inr s"
| "steps (f # fs) s = res_bind (f s) (steps fs)"

definition process_l4 :: "(string \<Rightarrow> u64) \<Rightarrow> (string \<times> json) list \<Rightarrow> match_state \<Rightarrow> match_state req" where
  "process_l4 junk ms =
     steps [handle_uint junk ms ''tcp_src'' TCPSrc, handle_uint junk ms ''tcp_dst'' TCPDst,
            (\<lambda>s. Inr (close_layer 0x0800 (Some 6) s)),
            handle_uint junk ms ''udp_src'' UDPSrc, handle_uint junk ms ''udp_dst'' UDPDst,
            (\<lambda>s. Inr (close_layer 0x0800 (Some 17) s))]"

definition process_ipv4 :: "fluid \<Rightarrow> (string \<times> json) list \<Rightarrow> match_state \<Rightarrow> match_state req" where
  "process_ipv4 fl ms s =
     (if ether_type s = None \<or> ether_type s = Some 0x0800 then
        steps [handle_string (ip_of fl) ms ''ipv4_src'' IPv4Src, handle_string (ip_of fl) ms ''ipv4_dst'' IPv4Dst,
               (\<lambda>s. Inr (close_layer 0x0800 None s))] s
      else Inr s)"

definition process_arp :: "fluid \<Rightarrow> (string \<Rightarrow> u64) \<Rightarrow> (string \<times> json) list \<Rightarrow> match_state \<Rightarrow> match_state req" where
  "process_arp fl junk ms s =
     (if ether_type s = None then
        steps [handle_uint junk ms ''arp_op'' ARPOp, handle_string (ip_of fl) ms ''arp_spa'' ARPSPA, handle_string (ip_of fl) ms ''arp_tpa'' ARPTPA,
               handle_string (mac_of fl) ms ''arp_sha'' ARPSHA, handle_string (mac_of fl) ms ''arp_tha'' ARPTHA,
               (\<lambda>s. Inr (close_layer 0x0806 None s))] s
      else Inr s)"

definition process_l2 :: "fluid \<Rightarrow> (string \<Rightarrow> u64) \<Rightarrow> (string \<times> json) list \<Rightarrow> match_state \<Rightarrow> match_state req" where
  "process_l2 fl junk ms =
     steps [handle_uint junk ms ''vlan_vid'' VLANVid, handle_uint junk ms ''vlan_pcp'' VLANPcp, handle_uint junk ms ''in_port'' InPort,
            handle_uint junk ms ''in_phy_port'' InPhyPort, handle_uint junk ms ''metadata'' Metadata,
            handle_string (mac_of fl) ms ''eth_dst'' EthDst, handle_string (mac_of fl) ms ''eth_src'' EthSrc,
            handle_uint junk ms ''eth_type'' EthType]"

definition processMatches :: "fluid \<Rightarrow> (string \<Rightarrow> u64) \<Rightarrow> (string \<times> json) list \<Rightarrow> (oxm_tlv list) req" where
  "processMatches fl junk ms =
     res_bind (steps [process_l4 junk ms, handle_uint junk ms ''ip_proto'' IPProto, process_ipv4 fl ms, process_arp fl junk ms, process_l2 fl junk ms]
         \<lparr>tlvs = [], added = False, ether_type = None, inet_type = None\<rparr>)
       (\<lambda>s. Inr (tlvs s))"

subsection \<open>Reading actions\<close>

definition doSwitch :: "fluid \<Rightarrow> u64 \<Rightarrow> string \<Rightarrow> string \<Rightarrow> oxm_tlv req" where
  "doSwitch fl junk field val =
     (if field = ''metadata'' then res_bind (string_cast junk val) (\<lambda>v. Inr (Metadata v))
      else if field = ''eth_src'' then res_bind (mac_of fl val) (\<lambda>v. Inr (EthSrc v))
      else if field = ''eth_dst'' then res_bind (mac_of fl val) (\<lambda>v. Inr (EthDst v))
      else if field = ''eth_type'' then res_bind (string_cast junk val) (\<lambda>v. Inr (EthType v))
      else if field = ''vlan_vid'' then res_bind (string_cast junk val) (\<lambda>v. Inr (VLANVid v))
      else if field = ''ip_dscp'' then res_bind (string_cast junk val) (\<lambda>v. Inr (IPDSCP v))
      else if field = ''ip_ecn'' then res_bind (string_cast junk val) (\<lambda>v. Inr (IPECN v))
      else if field = ''ip_proto'' then res_bind (string_cast junk val) (\<lambda>v. Inr (IPProto v))
      else if field = ''ipv4_src'' then res_bind (ip_of fl val) (\<lambda>v. Inr (IPv4Src v))
      else if field = ''ipv4_dst'' then res_bind (ip_of fl val) (\<lambda>v. Inr (IPv4Dst v))
      else if field = ''tcp_src'' then res_bind (string_cast junk val) (\<lambda>v. Inr (TCPSrc v))
      else if field = ''tcp_dst'' then res_bind (string_cast junk val) (\<lambda>v. Inr (TCPDst v))
      else if field = ''udp_src'' then res_bind (string_cast junk val) (\<lambda>v. Inr (UDPSrc v))
      else if field = ''udp_dst'' then res_bind (string_cast junk val) (\<lambda>v. Inr (UDPDst v))
      else if field = ''arp_spa'' then res_bind (ip_of fl val) (\<lambda>v. Inr (ARPSPA v))
      else if field = ''arp_tpa'' then res_bind (ip_of fl val) (\<lambda>v. Inr (ARPTPA v))
      else if field = ''arp_sha'' then res_bind (mac_of fl val) (\<lambda>v. Inr (ARPSHA v))
      else if field = ''arp_tha'' then res_bind (mac_of fl val) (\<lambda>v. Inr (ARPTHA v))
      else if field = ''arp_op'' then res_bind (string_cast junk val) (\<lambda>v. Inr (ARPOp v))
      else Inl OtherExn)"

definition set_act :: "fluid \<Rightarrow> (string \<Rightarrow> u64) \<Rightarrow> (string \<times> json) list \<Rightarrow> string \<Rightarrow> 'a::len word" where
  "set_act fl junk action field =
     (case res_bind (at_key action field) (json_cast (junk field)) of Inr v \<Rightarrow> v | Inl _ \<Rightarrow> ucast (unset fl field))"

text \<open>An action of a known type, or nothing for an unknown type.\<close>

definition read_action :: "fluid \<Rightarrow> (string \<Rightarrow> u64) \<Rightarrow> (string \<times> json) list \<Rightarrow> (fluid_action option) req" where
  "read_action fl junk action =
     res_bind (at_key action ''type'') (\<lambda>j.
       let type = string_value j; arg16 = set_act fl junk action ''ethertype''
       in if type = ''SET_FIELD'' then
            res_bind (at_key action ''field'') (\<lambda>f.
            res_bind (at_key action ''value'') (\<lambda>v.
            res_bind (doSwitch fl (junk ''value'') (string_value f) (string_value v)) (\<lambda>t. Inr (Some (SET_FIELD t)))))
          else Inr
            (if type = ''OUTPUT'' then Some (OUTPUT (set_act fl junk action ''port'') (set_act fl junk action ''max_len''))
             else if type = ''COPY_TTL_OUT'' then Some COPY_TTL_OUT
             else if type = ''COPY_TTL_IN'' then Some COPY_TTL_IN
             else if type = ''SET_MPLS_TTL'' then Some (SET_MPLS_TTL (set_act fl junk action ''mpls_ttl''))
             else if type = ''DEC_MPLS_TTL'' then Some DEC_MPLS_TTL
             else if type = ''PUSH_VLAN'' then Some (PUSH_VLAN arg16)
             else if type = ''POP_VLAN'' then Some POP_VLAN
             else if type = ''PUSH_MPLS'' then Some (PUSH_MPLS arg16)
             else if type = ''POP_MPLS'' then Some (POP_MPLS arg16)
             else if type = ''SET_QUEUE'' then Some (SET_QUEUE (set_act fl junk action ''queue_id''))
             else if type = ''GROUP'' then Some (GROUP (set_act fl junk action ''group_id''))
             else if type = ''SET_NW_TTL'' then Some (SET_NW_TTL (set_act fl junk action ''nw_ttl''))
             else if type = ''DEC_NW_TTL'' then Some DEC_NW_TTL
             else if type = ''PUSH_PBB'' then Some (PUSH_PBB arg16)
             else if type = ''POP_PBB'' then Some POP_PBB
             else if type = ''EXPERIMENTER'' then Some (EXPERIMENTER (set_act fl junk action ''experimenter''))
             else None))"

text \<open>The actions so far with the text collected for the answer. An action that throws is reported and left out; without a type
  the report throws itself, after its first part.\<close>

definition processAction :: "fluid \<Rightarrow> (string \<Rightarrow> u64) \<Rightarrow> (string \<times> json) list \<Rightarrow> fluid_action list \<times> string \<Rightarrow> (fluid_action list req) \<times> string" where
  "processAction fl junk action st =
     (case st of (as, resp) \<Rightarrow>
        case read_action fl junk action of
          Inr None \<Rightarrow> (Inr as, resp)
        | Inr (Some a) \<Rightarrow> (Inr (as @ [a]), resp)
        | Inl _ \<Rightarrow>
            (case at_key action ''type'' of
               Inl e \<Rightarrow> (Inl e, resp @ '' Incorrect input in an action '')
             | Inr j \<Rightarrow> (Inr as, resp @ '' Incorrect input in an action '' @ string_value j @ ''. This action is ignored.'')))"

fun processActions :: "fluid \<Rightarrow> (nat \<Rightarrow> string \<Rightarrow> u64) \<Rightarrow> json list \<Rightarrow> fluid_action list \<times> string \<Rightarrow> (fluid_action list req) \<times> string" where
  "processActions fl junk [] (as, resp) = (Inr as, resp)"
| "processActions fl junk (j # js) (as, resp) =
     (case processAction fl (junk (length js)) (object_items j) (as, resp) of
        (Inl e, resp') \<Rightarrow> (Inl e, resp')
      | (Inr as', resp') \<Rightarrow> processActions fl junk js (as', resp'))"

subsection \<open>A reported match can be sent back\<close>

definition match_tlvs :: "Match \<Rightarrow> oxm_tlv set" where
  "match_tlvs m =
     InPort ` set_option (m_in_port m) \<union> InPhyPort ` set_option (m_in_phy_port m) \<union> EthType ` set_option (m_eth_type m) \<union>
     IPProto ` set_option (m_ip_proto m) \<union> TCPDst ` set_option (m_tcp_dst m) \<union> TCPSrc ` set_option (m_tcp_src m) \<union>
     UDPDst ` set_option (m_udp_dst m) \<union> UDPSrc ` set_option (m_udp_src m) \<union> Metadata ` set_option (m_metadata m) \<union>
     IPv4Src ` set_option (m_ipv4_src m) \<union> IPv4Dst ` set_option (m_ipv4_dst m) \<union> EthSrc ` set_option (m_eth_src m) \<union>
     EthDst ` set_option (m_eth_dst m) \<union> ARPOp ` set_option (m_arp_op m) \<union> ARPSPA ` set_option (m_arp_spa m) \<union>
     ARPTPA ` set_option (m_arp_tpa m) \<union> ARPSHA ` set_option (m_arp_sha m) \<union> ARPTHA ` set_option (m_arp_tha m) \<union>
     VLANVid ` set_option (m_vlan_vid m) \<union> VLANPcp ` set_option (m_vlan_pcp m)"

text \<open>The prerequisites of OpenFlow for matches on IPv4 and ARP.\<close>

definition match_prereqs :: "Match \<Rightarrow> bool" where
  "match_prereqs m \<longleftrightarrow>
     (m_tcp_src m \<noteq> None \<or> m_tcp_dst m \<noteq> None \<longrightarrow> m_ip_proto m = Some 6) \<and>
     (m_udp_src m \<noteq> None \<or> m_udp_dst m \<noteq> None \<longrightarrow> m_ip_proto m = Some 17) \<and>
     (m_ip_proto m \<noteq> None \<or> m_ipv4_src m \<noteq> None \<or> m_ipv4_dst m \<noteq> None \<longrightarrow> m_eth_type m = Some 0x0800) \<and>
     (m_arp_op m \<noteq> None \<or> m_arp_spa m \<noteq> None \<or> m_arp_tpa m \<noteq> None \<or> m_arp_sha m \<noteq> None \<or> m_arp_tha m \<noteq> None \<longrightarrow>
        m_eth_type m = Some 0x0806)"

definition fluid_texts :: "fluid \<Rightarrow> bool" where
  "fluid_texts fl \<longleftrightarrow> (\<forall>a. mac_of fl (mac_text fl a) = Inr a) \<and> (\<forall>a. ip_of fl (uint32_t_ip_to_string a) = Inr a)"

definition add_if :: "('a \<Rightarrow> oxm_tlv) \<Rightarrow> 'a option \<Rightarrow> match_state \<Rightarrow> match_state" where
  "add_if mk v s = (case v of None \<Rightarrow> s | Some x \<Rightarrow> add_oxm_field (mk x) s)"

lemma add_if_simps [simp]:
  "set (tlvs (add_if mk v s)) = set (tlvs s) \<union> mk ` set_option v" "added (add_if mk v s) \<longleftrightarrow> added s \<or> v \<noteq> None"
  "ether_type (add_if mk v s) = ether_type s"
  by (auto simp: add_if_def add_oxm_field_def split: option.splits)

lemma close_layer_simps [simp]:
  "set (tlvs (close_layer ety proto s)) = set (tlvs s) \<union> (if added s then insert (EthType ety) (IPProto ` set_option proto) else {})"
  "\<not> added (close_layer ety proto s)" "ether_type (close_layer ety proto s) = (if added s then Some ety else ether_type s)"
  by (auto simp: close_layer_def split: option.splits)

lemma map_of_emplace: "map_of (emplace_if k f v) k' = (if k' = k then map_option (\<lambda>x. JStr (f x)) v else None)"
  by (simp add: emplace_if_def split: option.splits)

definition read_uint :: "(string \<Rightarrow> u64) \<Rightarrow> (string \<times> json) list \<Rightarrow> string \<Rightarrow> ('a::len word) option" where
  "read_uint junk ms k = (case res_bind (at_key ms k) (json_cast (junk k)) of Inr v \<Rightarrow> Some v | Inl _ \<Rightarrow> None)"

definition read_text :: "(string \<Rightarrow> 'a req) \<Rightarrow> (string \<times> json) list \<Rightarrow> string \<Rightarrow> 'a option" where
  "read_text conv ms k = (case res_bind (at_key ms k) (\<lambda>j. conv (string_value j)) of Inr v \<Rightarrow> Some v | Inl _ \<Rightarrow> None)"

definition overflows :: "('a::len) itself \<Rightarrow> (string \<Rightarrow> u64) \<Rightarrow> (string \<times> json) list \<Rightarrow> string \<Rightarrow> bool" where
  "overflows T junk ms k \<longleftrightarrow> res_bind (at_key ms k) (json_cast (junk k)) = (Inl OverflowExn :: ('a word) req)"

lemma handle_uint_eq:
  "handle_uint junk ms k (mk :: 'a::len word \<Rightarrow> oxm_tlv) s =
     (if overflows TYPE('a) junk ms k then Inl OverflowExn else Inr (add_if mk (read_uint junk ms k) s))"
  by (auto simp: handle_uint_def overflows_def read_uint_def add_if_def split: sum.splits exn.splits)

lemma handle_string_eq: "handle_string conv ms k mk s = Inr (add_if mk (read_text conv ms k) s)"
  by (simp add: handle_string_def read_text_def add_if_def del: res_bind_eq_Inr res_bind_eq_Inl split: sum.splits)

lemma read_shown:
  "map_of ms k = map_option (\<lambda>x. JStr (toString_cast x h)) v \<Longrightarrow> LENGTH('a) \<le> 64 \<Longrightarrow>
     read_uint junk ms k = (v :: 'a::len word option) \<and> \<not> overflows TYPE('a) junk ms k"
  "map_of ms k = map_option (\<lambda>x. JStr (toString_u8 x h)) v' \<Longrightarrow> read_uint junk ms k = v' \<and> \<not> overflows TYPE(8) junk ms k"
  "map_of ms k = map_option (\<lambda>x. JStr (f x)) v'' \<Longrightarrow> (\<And>x. conv (f x) = Inr x) \<Longrightarrow> read_text conv ms k = v''"
  by (cases v, simp_all add: read_uint_def overflows_def at_key_def json_cast_def string_value_def string_cast_print)
     (cases v', simp_all add: read_uint_def overflows_def at_key_def json_cast_def string_value_def,
      cases v'', simp_all add: read_text_def at_key_def string_value_def)

lemma processMatch_lookup:
  fixes fl m defines "M \<equiv> map_of (processMatch fl m)"
  shows "M ''in_port'' = map_option (\<lambda>v. JStr (toString_cast v False)) (m_in_port m)"
    "M ''in_phy_port'' = map_option (\<lambda>v. JStr (toString_cast v False)) (m_in_phy_port m)"
    "M ''eth_type'' = map_option (\<lambda>v. JStr (toString_cast v True)) (m_eth_type m)"
    "M ''ip_proto'' = map_option (\<lambda>v. JStr (toString_u8 v True)) (m_ip_proto m)"
    "M ''tcp_dst'' = map_option (\<lambda>v. JStr (toString_cast v False)) (m_tcp_dst m)"
    "M ''tcp_src'' = map_option (\<lambda>v. JStr (toString_cast v False)) (m_tcp_src m)"
    "M ''udp_dst'' = map_option (\<lambda>v. JStr (toString_cast v False)) (m_udp_dst m)"
    "M ''udp_src'' = map_option (\<lambda>v. JStr (toString_cast v False)) (m_udp_src m)"
    "M ''metadata'' = map_option (\<lambda>v. JStr (toString_cast v False)) (m_metadata m)"
    "M ''ipv4_src'' = map_option (\<lambda>v. JStr (uint32_t_ip_to_string v)) (m_ipv4_src m)"
    "M ''ipv4_dst'' = map_option (\<lambda>v. JStr (uint32_t_ip_to_string v)) (m_ipv4_dst m)"
    "M ''eth_src'' = map_option (\<lambda>v. JStr (mac_text fl v)) (m_eth_src m)"
    "M ''eth_dst'' = map_option (\<lambda>v. JStr (mac_text fl v)) (m_eth_dst m)"
    "M ''arp_op'' = map_option (\<lambda>v. JStr (toString_cast v True)) (m_arp_op m)"
    "M ''arp_spa'' = map_option (\<lambda>v. JStr (uint32_t_ip_to_string v)) (m_arp_spa m)"
    "M ''arp_tpa'' = map_option (\<lambda>v. JStr (uint32_t_ip_to_string v)) (m_arp_tpa m)"
    "M ''arp_sha'' = map_option (\<lambda>v. JStr (mac_text fl v)) (m_arp_sha m)"
    "M ''arp_tha'' = map_option (\<lambda>v. JStr (mac_text fl v)) (m_arp_tha m)"
    "M ''vlan_vid'' = map_option (\<lambda>v. JStr (toString_cast v False)) (m_vlan_vid m)"
    "M ''vlan_pcp'' = map_option (\<lambda>v. JStr (toString_u8 v False)) (m_vlan_pcp m)"
  unfolding M_def processMatch_def map_of_append map_add_def map_of_emplace by (simp_all split: option.splits)

text \<open>The fields of a request that are given and can be read.\<close>

definition request_match :: "fluid \<Rightarrow> (string \<Rightarrow> u64) \<Rightarrow> (string \<times> json) list \<Rightarrow> Match" where
  "request_match fl junk ms =
     \<lparr>m_in_port = read_uint junk ms ''in_port'', m_in_phy_port = read_uint junk ms ''in_phy_port'', m_eth_type = read_uint junk ms ''eth_type'',
      m_ip_proto = read_uint junk ms ''ip_proto'', m_tcp_dst = read_uint junk ms ''tcp_dst'', m_tcp_src = read_uint junk ms ''tcp_src'',
      m_udp_dst = read_uint junk ms ''udp_dst'', m_udp_src = read_uint junk ms ''udp_src'', m_metadata = read_uint junk ms ''metadata'',
      m_ipv4_src = read_text (ip_of fl) ms ''ipv4_src'', m_ipv4_dst = read_text (ip_of fl) ms ''ipv4_dst'',
      m_eth_src = read_text (mac_of fl) ms ''eth_src'', m_eth_dst = read_text (mac_of fl) ms ''eth_dst'',
      m_arp_op = read_uint junk ms ''arp_op'', m_arp_spa = read_text (ip_of fl) ms ''arp_spa'', m_arp_tpa = read_text (ip_of fl) ms ''arp_tpa'',
      m_arp_sha = read_text (mac_of fl) ms ''arp_sha'', m_arp_tha = read_text (mac_of fl) ms ''arp_tha'',
      m_vlan_vid = read_uint junk ms ''vlan_vid'', m_vlan_pcp = read_uint junk ms ''vlan_pcp''\<rparr>"

definition l4_overflow :: "(string \<Rightarrow> u64) \<Rightarrow> (string \<times> json) list \<Rightarrow> bool" where
  "l4_overflow junk ms \<longleftrightarrow>
     overflows TYPE(16) junk ms ''tcp_src'' \<or> overflows TYPE(16) junk ms ''tcp_dst'' \<or>
     overflows TYPE(16) junk ms ''udp_src'' \<or> overflows TYPE(16) junk ms ''udp_dst''"

definition l2_overflow :: "(string \<Rightarrow> u64) \<Rightarrow> (string \<times> json) list \<Rightarrow> bool" where
  "l2_overflow junk ms \<longleftrightarrow>
     overflows TYPE(16) junk ms ''vlan_vid'' \<or> overflows TYPE(8) junk ms ''vlan_pcp'' \<or> overflows TYPE(32) junk ms ''in_port'' \<or>
     overflows TYPE(32) junk ms ''in_phy_port'' \<or> overflows TYPE(64) junk ms ''metadata'' \<or> overflows TYPE(16) junk ms ''eth_type''"

lemma layers_eq:
  fixes fl junk ms defines "m \<equiv> request_match fl junk ms"
  shows "process_l4 junk ms s = (if l4_overflow junk ms then Inl OverflowExn else
      Inr (close_layer 0x0800 (Some 17) (add_if UDPDst (m_udp_dst m) (add_if UDPSrc (m_udp_src m)
        (close_layer 0x0800 (Some 6) (add_if TCPDst (m_tcp_dst m) (add_if TCPSrc (m_tcp_src m) s)))))))"
    "handle_uint junk ms ''ip_proto'' IPProto s =
      (if overflows TYPE(8) junk ms ''ip_proto'' then Inl OverflowExn else Inr (add_if IPProto (m_ip_proto m) s))"
    "process_ipv4 fl ms s = Inr (if ether_type s = None \<or> ether_type s = Some 0x0800
      then close_layer 0x0800 None (add_if IPv4Dst (m_ipv4_dst m) (add_if IPv4Src (m_ipv4_src m) s)) else s)"
    "process_arp fl junk ms s = (if ether_type s = None then
      if overflows TYPE(16) junk ms ''arp_op'' then Inl OverflowExn else
      Inr (close_layer 0x0806 None (add_if ARPTHA (m_arp_tha m) (add_if ARPSHA (m_arp_sha m) (add_if ARPTPA (m_arp_tpa m)
        (add_if ARPSPA (m_arp_spa m) (add_if ARPOp (m_arp_op m) s)))))) else Inr s)"
    "process_l2 fl junk ms s = (if l2_overflow junk ms then Inl OverflowExn else
      Inr (add_if EthType (m_eth_type m) (add_if EthSrc (m_eth_src m) (add_if EthDst (m_eth_dst m)
      (add_if Metadata (m_metadata m) (add_if InPhyPort (m_in_phy_port m) (add_if InPort (m_in_port m)
        (add_if VLANPcp (m_vlan_pcp m) (add_if VLANVid (m_vlan_vid m) s)))))))))"
  by (simp_all add: process_l4_def process_ipv4_def process_arp_def process_l2_def handle_uint_eq handle_string_eq l4_overflow_def l2_overflow_def
      m_def request_match_def)

lemma request_shown:
  assumes "fluid_texts fl"
  shows "request_match fl junk (processMatch fl m) = m" "\<not> l4_overflow junk (processMatch fl m)" "\<not> l2_overflow junk (processMatch fl m)"
    "\<not> overflows TYPE(8) junk (processMatch fl m) ''ip_proto''" "\<not> overflows TYPE(16) junk (processMatch fl m) ''arp_op''"
proof -
  have t: "\<And>x. mac_of fl (mac_text fl x) = Inr x" "\<And>x. ip_of fl (uint32_t_ip_to_string x) = Inr x" using assms by (simp_all add: fluid_texts_def)
  note look = processMatch_lookup [of fl m] read_shown t
  show "\<not> l4_overflow junk (processMatch fl m)" "\<not> l2_overflow junk (processMatch fl m)"
    "\<not> overflows TYPE(8) junk (processMatch fl m) ''ip_proto''" "\<not> overflows TYPE(16) junk (processMatch fl m) ''arp_op''"
    by (simp_all add: l4_overflow_def l2_overflow_def look)
  show "request_match fl junk (processMatch fl m) = m"
    by (rule Match.equality) (simp_all add: request_match_def look)
qed

definition has_tcp :: "Match \<Rightarrow> bool" where
  "has_tcp m \<longleftrightarrow> m_tcp_src m \<noteq> None \<or> m_tcp_dst m \<noteq> None"

definition has_udp :: "Match \<Rightarrow> bool" where
  "has_udp m \<longleftrightarrow> m_udp_src m \<noteq> None \<or> m_udp_dst m \<noteq> None"

definition has_ip :: "Match \<Rightarrow> bool" where
  "has_ip m \<longleftrightarrow> m_ip_proto m \<noteq> None \<or> m_ipv4_src m \<noteq> None \<or> m_ipv4_dst m \<noteq> None"

definition has_arp :: "Match \<Rightarrow> bool" where
  "has_arp m \<longleftrightarrow> m_arp_op m \<noteq> None \<or> m_arp_spa m \<noteq> None \<or> m_arp_tpa m \<noteq> None \<or> m_arp_sha m \<noteq> None \<or> m_arp_tha m \<noteq> None"

definition added_tlvs :: "Match \<Rightarrow> oxm_tlv set" where
  "added_tlvs m =
     (if has_tcp m then {EthType 0x0800, IPProto 6} else {}) \<union> (if has_udp m then {EthType 0x0800, IPProto 17} else {}) \<union>
     (if has_ip m then {EthType 0x0800} else {}) \<union>
     (if \<not> has_tcp m \<and> \<not> has_udp m \<and> \<not> has_ip m \<and> has_arp m then {EthType 0x0806} else {})"

definition other_tlvs :: "Match \<Rightarrow> oxm_tlv set" where
  "other_tlvs m = match_tlvs (m\<lparr>m_arp_op := None, m_arp_spa := None, m_arp_tpa := None, m_arp_sha := None, m_arp_tha := None\<rparr>)"

definition arp_tlvs :: "Match \<Rightarrow> oxm_tlv set" where
  "arp_tlvs m = ARPOp ` set_option (m_arp_op m) \<union> ARPSPA ` set_option (m_arp_spa m) \<union> ARPTPA ` set_option (m_arp_tpa m) \<union>
     ARPSHA ` set_option (m_arp_sha m) \<union> ARPTHA ` set_option (m_arp_tha m)"

lemma match_tlvs_split: "match_tlvs m = other_tlvs m \<union> arp_tlvs m"
  by (simp add: match_tlvs_def other_tlvs_def arp_tlvs_def Un_ac)

lemma processMatches_reads:
  fixes fl junk ms defines "m \<equiv> request_match fl junk ms"
  shows "(if l4_overflow junk ms \<or> l2_overflow junk ms \<or> overflows TYPE(8) junk ms ''ip_proto'' \<or>
       \<not> has_tcp m \<and> \<not> has_udp m \<and> \<not> has_ip m \<and> overflows TYPE(16) junk ms ''arp_op''
     then processMatches fl junk ms = Inl OverflowExn
     else \<exists>fs. processMatches fl junk ms = Inr fs \<and>
       set fs = other_tlvs m \<union> added_tlvs m \<union> (if has_tcp m \<or> has_udp m \<or> has_ip m then {} else arp_tlvs m))"
proof -
  define s1 where "s1 = add_if TCPDst (m_tcp_dst m) (add_if TCPSrc (m_tcp_src m) \<lparr>tlvs = [], added = False, ether_type = None, inet_type = None\<rparr>)"
  define s2 where "s2 = close_layer 0x0800 (Some 6) s1"
  define s3 where "s3 = add_if UDPDst (m_udp_dst m) (add_if UDPSrc (m_udp_src m) s2)"
  define s4 where "s4 = add_if IPProto (m_ip_proto m) (close_layer 0x0800 (Some 17) s3)"
  define s5 where "s5 = close_layer 0x0800 None (add_if IPv4Dst (m_ipv4_dst m) (add_if IPv4Src (m_ipv4_src m) s4))"
  define s6 where "s6 = (if ether_type s5 = None then close_layer 0x0806 None (add_if ARPTHA (m_arp_tha m) (add_if ARPSHA (m_arp_sha m) (add_if ARPTPA (m_arp_tpa m)
    (add_if ARPSPA (m_arp_spa m) (add_if ARPOp (m_arp_op m) s5))))) else s5)"
  have a1: "added s1 \<longleftrightarrow> has_tcp m" by (auto simp: s1_def has_tcp_def)
  have a2: "\<not> added s2" "ether_type s2 = (if has_tcp m then Some 0x0800 else None)" by (simp_all add: s2_def a1) (simp add: s1_def)
  have a3: "added s3 \<longleftrightarrow> has_udp m" "ether_type s3 = ether_type s2" using a2 by (auto simp: s3_def has_udp_def)
  have a4: "ether_type s4 = (if has_tcp m \<or> has_udp m then Some 0x0800 else None)" "added s4 \<longleftrightarrow> m_ip_proto m \<noteq> None"
    by (simp_all add: s4_def a3 a2)
  have a5: "ether_type s5 = (if has_tcp m \<or> has_udp m \<or> has_ip m then Some 0x0800 else None)" "\<not> added s5"
    by (auto simp: s5_def a4 has_ip_def)
  have t4: "set (tlvs s4) = TCPSrc ` set_option (m_tcp_src m) \<union> TCPDst ` set_option (m_tcp_dst m) \<union> (if has_tcp m then {EthType 0x0800, IPProto 6} else {}) \<union>
      UDPSrc ` set_option (m_udp_src m) \<union> UDPDst ` set_option (m_udp_dst m) \<union> (if has_udp m then {EthType 0x0800, IPProto 17} else {}) \<union>
      IPProto ` set_option (m_ip_proto m)"
  proof -
    have "set (tlvs s2) = TCPSrc ` set_option (m_tcp_src m) \<union> TCPDst ` set_option (m_tcp_dst m) \<union> (if has_tcp m then {EthType 0x0800, IPProto 6} else {})"
      by (simp add: s2_def a1) (simp add: s1_def)
    moreover have "set (tlvs s3) = set (tlvs s2) \<union> UDPSrc ` set_option (m_udp_src m) \<union> UDPDst ` set_option (m_udp_dst m)" by (simp add: s3_def)
    moreover have "set (tlvs s4) = set (tlvs s3) \<union> (if has_udp m then {EthType 0x0800, IPProto 17} else {}) \<union> IPProto ` set_option (m_ip_proto m)"
      by (simp add: s4_def a3)
    ultimately show ?thesis by (simp add: Un_ac)
  qed
  have t5: "set (tlvs s5) = set (tlvs s4) \<union> IPv4Src ` set_option (m_ipv4_src m) \<union> IPv4Dst ` set_option (m_ipv4_dst m) \<union> (if has_ip m then {EthType 0x0800} else {})"
    by (simp add: s5_def a4 has_ip_def)
  have t6: "set (tlvs s6) = set (tlvs s5) \<union> (if has_tcp m \<or> has_udp m \<or> has_ip m then {} else arp_tlvs m \<union> (if has_arp m then {EthType 0x0806} else {}))"
    by (simp add: s6_def a5 has_arp_def arp_tlvs_def Un_ac)
  let ?fs = "tlvs (add_if EthType (m_eth_type m) (add_if EthSrc (m_eth_src m) (add_if EthDst (m_eth_dst m)
      (add_if Metadata (m_metadata m) (add_if InPhyPort (m_in_phy_port m) (add_if InPort (m_in_port m)
        (add_if VLANPcp (m_vlan_pcp m) (add_if VLANVid (m_vlan_vid m) s6))))))))"
  have e4: "ether_type s4 = None \<or> ether_type s4 = Some 0x0800" by (simp add: a4)
  note layers = layers_eq [where junk = junk and ms = ms and fl = fl, folded m_def]
  have bad: "processMatches fl junk ms = Inl OverflowExn" if "l4_overflow junk ms \<or> overflows TYPE(8) junk ms ''ip_proto''"
    using that by (auto simp: processMatches_def layers)
  have step: "processMatches fl junk ms = res_bind (process_arp fl junk ms s5) (\<lambda>s. res_bind (process_l2 fl junk ms s) (\<lambda>s. Inr (tlvs s)))"
    if "\<not> l4_overflow junk ms" "\<not> overflows TYPE(8) junk ms ''ip_proto''"
    using that e4 by (simp add: processMatches_def layers(1-3) s5_def s4_def s3_def s2_def s1_def res_bind_assoc)
  have good: "processMatches fl junk ms = (if l2_overflow junk ms \<or> \<not> has_tcp m \<and> \<not> has_udp m \<and> \<not> has_ip m \<and> overflows TYPE(16) junk ms ''arp_op''
      then Inl OverflowExn else Inr ?fs)"
    if "\<not> l4_overflow junk ms" "\<not> overflows TYPE(8) junk ms ''ip_proto''"
    unfolding step [OF that] layers(4,5) a5 by (simp add: s6_def a5)
  have "set ?fs = other_tlvs m \<union> added_tlvs m \<union> (if has_tcp m \<or> has_udp m \<or> has_ip m then {} else arp_tlvs m)"
    by (simp add: t6 t5 t4 other_tlvs_def match_tlvs_def added_tlvs_def Un_ac insert_commute)
  then show ?thesis using bad good by (cases "l4_overflow junk ms \<or> overflows TYPE(8) junk ms ''ip_proto''") auto
qed

lemma match_reread:
  assumes "fluid_texts fl" "match_prereqs m"
  shows "\<exists>fs. processMatches fl junk (processMatch fl m) = Inr fs \<and> set fs = match_tlvs m"
proof -
  have p: "has_tcp m \<Longrightarrow> m_ip_proto m = Some 6" "has_udp m \<Longrightarrow> m_ip_proto m = Some 17" "has_ip m \<Longrightarrow> m_eth_type m = Some 0x0800"
      "has_arp m \<Longrightarrow> m_eth_type m = Some 0x0806"
    using assms(2) unfolding match_prereqs_def has_tcp_def has_udp_def has_ip_def has_arp_def by blast+
  have ip: "has_tcp m \<or> has_udp m \<or> has_ip m \<longleftrightarrow> has_ip m" using p(1,2) by (auto simp: has_ip_def)
  have base: "EthType ` set_option (m_eth_type m) \<union> IPProto ` set_option (m_ip_proto m) \<subseteq> other_tlvs m"
    by (simp add: other_tlvs_def match_tlvs_def) blast
  have "added_tlvs m \<subseteq> EthType ` set_option (m_eth_type m) \<union> IPProto ` set_option (m_ip_proto m)"
    using p ip by (auto simp: added_tlvs_def)
  moreover have "has_ip m \<Longrightarrow> arp_tlvs m = {}" using p(3,4) by (cases "has_arp m") (simp_all add: arp_tlvs_def has_arp_def)
  ultimately have "other_tlvs m \<union> added_tlvs m \<union> (if has_tcp m \<or> has_udp m \<or> has_ip m then {} else arp_tlvs m) = match_tlvs m"
    using base unfolding match_tlvs_split ip by (auto split: if_splits)
  then show ?thesis
    using processMatches_reads [where junk = junk and ms = "processMatch fl m" and fl = fl] by (simp only: request_shown [OF assms(1)] simp_thms if_False)
qed

subsection \<open>Reported actions\<close>

text \<open>What is left of an action that is printed and read again.\<close>

definition reread_action :: "fluid \<Rightarrow> fluid_action \<Rightarrow> fluid_action list" where
  "reread_action fl a =
     (case a of
        OUTPUT port max_len \<Rightarrow> [OUTPUT port (ucast (unset fl ''max_len''))]
      | EXPERIMENTER v \<Rightarrow> [EXPERIMENTER (ucast (unset fl ''experimenter''))]
      | SET_FIELD t \<Rightarrow>
          (case t of EthSrc _ \<Rightarrow> [a] | EthDst _ \<Rightarrow> [a] | EthType _ \<Rightarrow> [a] | VLANVid _ \<Rightarrow> [a] | IPProto _ \<Rightarrow> [a] | ARPSPA _ \<Rightarrow> [a] | ARPTPA _ \<Rightarrow> [a]
             | ARPSHA _ \<Rightarrow> [a] | ARPTHA _ \<Rightarrow> [a] | ARPOp _ \<Rightarrow> [a] | _ \<Rightarrow> [])
      | _ \<Rightarrow> [a])"

lemma action_reread:
  assumes "fluid_texts fl"
  shows "\<exists>r. processAction fl junk (action_json fl a) (as, resp) = (Inr (as @ reread_action fl a), resp @ r) \<and> (r = [] \<longleftrightarrow> reread_action fl a \<noteq> [])"
proof (cases a)
  case (SET_FIELD t)
  have t: "\<And>x. mac_of fl (mac_text fl x) = Inr x" "\<And>x. ip_of fl (uint32_t_ip_to_string x) = Inr x" using assms by (simp_all add: fluid_texts_def)
  show ?thesis using SET_FIELD t
    by (cases t) (simp_all add: processAction_def read_action_def action_json_def processSetField_def set_field_json_def reread_action_def at_key_def
        string_value_def doSwitch_def string_cast_print)
qed (simp_all add: processAction_def read_action_def action_json_def reread_action_def at_key_def string_value_def set_act_def json_cast_def
      string_cast_print)

lemma actions_reread:
  assumes "fluid_texts fl"
  shows "\<exists>r. processActions fl junk (processActions_json fl acts) (as, resp) = (Inr (as @ concat (map (reread_action fl) acts)), resp @ r) \<and>
    (r = [] \<longleftrightarrow> (\<forall>a \<in> set acts. reread_action fl a \<noteq> []))"
proof (induction acts arbitrary: as resp)
  case (Cons a acts)
  obtain r1 where r1: "processAction fl (junk (length acts)) (action_json fl a) (as, resp) = (Inr (as @ reread_action fl a), resp @ r1)" "r1 = [] \<longleftrightarrow> reread_action fl a \<noteq> []"
    using action_reread [OF assms] by blast
  obtain r2 where r2: "processActions fl junk (processActions_json fl acts) (as @ reread_action fl a, resp @ r1) =
      (Inr ((as @ reread_action fl a) @ concat (map (reread_action fl) acts)), (resp @ r1) @ r2)" "r2 = [] \<longleftrightarrow> (\<forall>a \<in> set acts. reread_action fl a \<noteq> [])"
    using Cons.IH by blast
  have "processActions fl junk (processActions_json fl (a # acts)) (as, resp) = (Inr (as @ concat (map (reread_action fl) (a # acts))), resp @ (r1 @ r2))"
    using r1(1) r2(1) by (simp add: processActions_json_def object_items_def)
  then show ?case using r1(2) r2(2) by (intro exI [of _ "r1 @ r2"]) auto
qed (simp add: processActions_json_def)


subsection \<open>Properties\<close>

text \<open>
  C22: What a switch reports can be sent back to it. The JSON of a match on IPv4 or ARP that has the fields OpenFlow
  requires is read as exactly the fields of the match. Of a list of reported actions every action is read as it was, except that the length of an output, the
  number of an experimenter and settings of the port, IPv4 and transport fields are lost; the answer says so exactly when an action was left out.
\<close>

theorem reported_flow_reread:
  assumes "fluid_texts fl" "match_prereqs m"
  shows "\<exists>fs r. processMatches fl junk (processMatch fl m) = Inr fs \<and> set fs = match_tlvs m \<and>
    processActions fl junk' (processActions_json fl acts) ([], resp) = (Inr (concat (map (reread_action fl) acts)), resp @ r) \<and>
    (r = [] \<longleftrightarrow> (\<forall>a \<in> set acts. reread_action fl a \<noteq> []))"
  using match_reread [OF assms] actions_reread [OF assms(1), of junk' acts "[]" resp] by auto

text \<open>The type of a match in OpenFlow: one value per field, and the fields that other fields require.\<close>

definition well_typed :: "oxm_tlv set \<Rightarrow> bool" where
  "well_typed F \<longleftrightarrow>
     (\<forall>v w. EthType v \<in> F \<and> EthType w \<in> F \<longrightarrow> v = w) \<and> (\<forall>v w. IPProto v \<in> F \<and> IPProto w \<in> F \<longrightarrow> v = w) \<and>
     (\<forall>p. TCPSrc p \<in> F \<or> TCPDst p \<in> F \<longrightarrow> IPProto 6 \<in> F) \<and> (\<forall>p. UDPSrc p \<in> F \<or> UDPDst p \<in> F \<longrightarrow> IPProto 17 \<in> F) \<and>
     (\<forall>v a. IPProto v \<in> F \<or> IPv4Src a \<in> F \<or> IPv4Dst a \<in> F \<longrightarrow> EthType 0x0800 \<in> F) \<and>
     (\<forall>v a b. ARPOp v \<in> F \<or> ARPSPA a \<in> F \<or> ARPTPA a \<in> F \<or> ARPSHA b \<in> F \<or> ARPTHA b \<in> F \<longrightarrow> EthType 0x0806 \<in> F)"

lemma other_tlvs_mem:
  "EthType v \<in> other_tlvs m \<longleftrightarrow> m_eth_type m = Some v" "IPProto p \<in> other_tlvs m \<longleftrightarrow> m_ip_proto m = Some p"
  "TCPSrc x \<in> other_tlvs m \<longleftrightarrow> m_tcp_src m = Some x" "TCPDst x \<in> other_tlvs m \<longleftrightarrow> m_tcp_dst m = Some x"
  "UDPSrc x \<in> other_tlvs m \<longleftrightarrow> m_udp_src m = Some x" "UDPDst x \<in> other_tlvs m \<longleftrightarrow> m_udp_dst m = Some x"
  "IPv4Src a \<in> other_tlvs m \<longleftrightarrow> m_ipv4_src m = Some a" "IPv4Dst a \<in> other_tlvs m \<longleftrightarrow> m_ipv4_dst m = Some a"
  "ARPOp x \<notin> other_tlvs m" "ARPSPA a \<notin> other_tlvs m" "ARPTPA a \<notin> other_tlvs m" "ARPSHA b \<notin> other_tlvs m" "ARPTHA b \<notin> other_tlvs m"
  by (auto simp: other_tlvs_def match_tlvs_def)

lemma arp_tlvs_mem:
  "EthType v \<notin> arp_tlvs m" "IPProto p \<notin> arp_tlvs m" "TCPSrc x \<notin> arp_tlvs m" "TCPDst x \<notin> arp_tlvs m" "UDPSrc x \<notin> arp_tlvs m"
  "UDPDst x \<notin> arp_tlvs m" "IPv4Src a \<notin> arp_tlvs m" "IPv4Dst a \<notin> arp_tlvs m"
  "ARPOp x \<in> arp_tlvs m \<Longrightarrow> has_arp m" "ARPSPA a \<in> arp_tlvs m \<Longrightarrow> has_arp m" "ARPTPA a \<in> arp_tlvs m \<Longrightarrow> has_arp m"
  "ARPSHA b \<in> arp_tlvs m \<Longrightarrow> has_arp m" "ARPTHA b \<in> arp_tlvs m \<Longrightarrow> has_arp m"
  by (auto simp: arp_tlvs_def has_arp_def)

lemma added_tlvs_mem:
  "EthType v \<in> added_tlvs m \<longleftrightarrow> v = 0x0800 \<and> (has_tcp m \<or> has_udp m \<or> has_ip m) \<or> v = 0x0806 \<and> \<not> has_tcp m \<and> \<not> has_udp m \<and> \<not> has_ip m \<and> has_arp m"
  "IPProto p \<in> added_tlvs m \<longleftrightarrow> p = 6 \<and> has_tcp m \<or> p = 17 \<and> has_udp m"
  "TCPSrc x \<notin> added_tlvs m" "TCPDst x \<notin> added_tlvs m" "UDPSrc x \<notin> added_tlvs m" "UDPDst x \<notin> added_tlvs m" "IPv4Src a \<notin> added_tlvs m"
  "IPv4Dst a \<notin> added_tlvs m" "ARPOp x \<notin> added_tlvs m" "ARPSPA a \<notin> added_tlvs m" "ARPTPA a \<notin> added_tlvs m" "ARPSHA b \<notin> added_tlvs m"
  "ARPTHA b \<notin> added_tlvs m"
  by (auto simp: added_tlvs_def)


subsection \<open>A library that meets the contract\<close>

definition network_ip :: "string \<Rightarrow> u32 req" where
  "network_ip s =
     (case match_octets 3 s of None \<Rightarrow> Inl OtherExn | Some gs \<Rightarrow> Inr (ipv4_of_octets (rev (map (\<lambda>g. of_nat (dec_value 0 g)) gs))))"

definition demo_fluid :: fluid where
  "demo_fluid = \<lparr>mac_of = (\<lambda>s. case ethaddr_of_string s of Inl _ \<Rightarrow> Inl OtherExn | Inr a \<Rightarrow> Inr a), ip_of = network_ip,
     mac_text = print_ethaddr, unset = (\<lambda>_. 0)\<rparr>"

lemma network_ip_text: "network_ip (uint32_t_ip_to_string a) = Inr a"
proof -
  have m: "unat (and (drop_bit k a) 255) = unat (ucast (drop_bit k a) :: u8)" for k
  proof -
    have "and (drop_bit k a) 255 = ucast (ucast (drop_bit k a) :: u8)"
    proof -
      have e: "(255 :: u32) = mask 8" by (simp add: mask_eq_decr_exp)
      show ?thesis unfolding e by (intro bit_word_eqI) (auto simp: bit_simps)
    qed
    then show ?thesis by (simp add: unsigned_ucast_eq unsigned_take_bit_eq)
  qed
  have lt: "unat (b :: u8) < 1000" for b using unat_u8 [of b] by simp
  obtain o0 o1 o2 o3 where o: "ipv4_to_octets a = [o3, o2, o1, o0]"
      "o0 = ucast (drop_bit 0 a)" "o1 = ucast (drop_bit 8 a)" "o2 = ucast (drop_bit 16 a)" "o3 = ucast (drop_bit 24 a)"
    by (simp add: ipv4_octets)
  have "uint32_t_ip_to_string a = dec (unat o0) @ ''.'' @ dec (unat o1) @ ''.'' @ dec (unat o2) @ ''.'' @ dec (unat o3)"
    using m [of 0] m [of 8] m [of 16] m [of 24] o by (simp add: uint32_t_ip_to_string_def Let_def)
  then have "match_octets 3 (uint32_t_ip_to_string a) = Some (map (\<lambda>b. dec (unat b)) [o0, o1, o2, o3])"
    unfolding numeral_3_eq_3
    using match_octets_step [OF lt match_octets_step [OF lt match_octets_step [OF lt match_octets_last [OF lt]]]] by simp
  then have "network_ip (uint32_t_ip_to_string a) = Inr (ipv4_of_octets (ipv4_to_octets a))"
    by (simp add: network_ip_def dec_value_dec o(1))
  then show ?thesis by (simp add: ipv4_octets_roundtrip)
qed

lemma demo_fluid_texts: "fluid_texts demo_fluid"
  by (simp add: fluid_texts_def demo_fluid_def network_ip_text ethaddr_text)

definition no_match :: Match where
  "no_match = request_match demo_fluid (\<lambda>_. 0) []"

definition http_match :: Match where
  "http_match = no_match\<lparr>m_tcp_dst := Some 80, m_ip_proto := Some 6, m_eth_type := Some 0x0800, m_ipv4_dst := Some 0x0100000a\<rparr>"

lemma http_prereqs: "match_prereqs http_match"
  by (simp add: match_prereqs_def http_match_def no_match_def request_match_def read_uint_def read_text_def at_key_def)

theorem reported_flow_reread_witness:
  "\<exists>fs r. processMatches demo_fluid (\<lambda>_. 7) (processMatch demo_fluid http_match) = Inr fs \<and> set fs = match_tlvs http_match \<and>
     processActions demo_fluid (\<lambda>_ _. 7) (processActions_json demo_fluid [PUSH_VLAN 0x8100, OUTPUT 3 0, SET_FIELD (IPv4Src 1)]) ([], []) =
       (Inr [PUSH_VLAN 0x8100, OUTPUT 3 0], r) \<and> r \<noteq> []"
  using reported_flow_reread [OF demo_fluid_texts http_prereqs, of "\<lambda>_. 7" "\<lambda>_ _. 7" "[PUSH_VLAN 0x8100, OUTPUT 3 0, SET_FIELD (IPv4Src 1)]" "[]"]
  by (simp add: reread_action_def demo_fluid_def)

definition web_request :: "(string \<times> json) list" where
  "web_request = processMatch demo_fluid (no_match\<lparr>m_tcp_dst := Some 80, m_ipv4_dst := Some 0x0100000a\<rparr>)"


end
