(* ===== verification/Rest_Flow.thy ===== *)
theory Rest_Flow
  imports Rest_Match Controller_Core Switch_Manager
begin

text \<open>
  The REST application for flow entries: \<open>src/RestFlowMod.cc\<close> with \<open>parse\<close> and \<open>validateRequest\<close> of
  \<open>src/RestStringProcessing.cc\<close>. A handler returns the JSON answer, the text collected so far (\<open>response_\<close>) and the messages it sends, each with
  the number of its switch. A field of a message is absent where the code leaves it as libfluid constructs it. The text of a request is read by
  \<open>json11\<close>, which is a parameter and gives a value and an error text. \<open>junk\<close> is indexed by the place of the read: 0 in the check of a
  request, 1 in the handler, from 2 on in the actions.
\<close>

datatype fm_command = OFPFC_ADD | OFPFC_DELETE | OFPFC_DELETE_STRICT

record FlowMod =
  fm_command :: fm_command
  fm_table_id :: "u8 option"
  fm_cookie :: "u64 option"
  fm_cookie_mask :: "u64 option"
  fm_idle_timeout :: "u16 option"
  fm_hard_timeout :: "u16 option"
  fm_priority :: "u16 option"
  fm_buffer_id :: "u32 option"
  fm_out_port :: "u32 option"
  fm_out_group :: "u32 option"
  fm_flags :: "u16 option"
  fm_match :: "oxm_tlv list"
  fm_instructions :: "fluid_instruction list"

definition new_FlowMod :: "fm_command \<Rightarrow> FlowMod" where
  "new_FlowMod c =
     \<lparr>fm_command = c, fm_table_id = None, fm_cookie = None, fm_cookie_mask = None, fm_idle_timeout = None, fm_hard_timeout = None,
      fm_priority = None, fm_buffer_id = None, fm_out_port = None, fm_out_group = None, fm_flags = None, fm_match = [], fm_instructions = []\<rparr>"

definition OFPP_ANY :: u32 where
  "OFPP_ANY = 0xffffffff"

definition OFPG_ANY :: u32 where
  "OFPG_ANY = 0xffffffff"

definition OFPTT_ALL :: u8 where
  "OFPTT_ALL = 0xff"

definition parse :: "(string \<Rightarrow> json \<times> string) \<Rightarrow> string \<Rightarrow> ((string \<times> json) list) req" where
  "parse json_parse text =
     (case json_parse text of (j, err) \<Rightarrow>
        if err \<noteq> [] then Inl (StringExn (''Can'' @ [CHR 0x27] @ ''t parse input request : '' @ err)) else Inr (object_items j))"

definition range_error :: "u8 \<Rightarrow> string" where
  "range_error tbl =
     ''Incorrect request. RestFlowMod can work only with tables in range of 0..'' @ [char_of (unat tbl)] @
     ''. Look at RestFlowMod class definition for more details.''"

definition validate :: "(string \<Rightarrow> u64) \<Rightarrow> (string \<times> json) list \<Rightarrow> bool \<Rightarrow> u8 \<Rightarrow> SwitchManager \<Rightarrow> unit req" where
  "validate junk rq full tbl sm =
     res_bind (at_key rq ''dpid'') (\<lambda>j.
     res_bind (json_cast (junk ''dpid'') j) (\<lambda>dpid.
     res_bind
       (if full then
          res_bind (at_key rq ''table_id'') (\<lambda>j.
          res_bind (json_cast (junk ''table_id'') j) (\<lambda>table_id.
            if tbl \<le> table_id then Inl (StringExn (range_error tbl))
            else res_bind (at_key rq ''match'') (\<lambda>_. res_bind (at_key rq ''actions'') (\<lambda>_. Inr ()))))
        else Inr ())
       (\<lambda>_. if getSwitch dpid sm = None then Inl (StringExn (''Incorrect request. Switch hasn'' @ [CHR 0x27] @ ''t been found'')) else Inr ())))"

definition validateRequest :: "(string \<Rightarrow> u64) \<Rightarrow> (string \<times> json) list \<Rightarrow> bool \<Rightarrow> u8 \<Rightarrow> SwitchManager \<Rightarrow> unit req" where
  "validateRequest junk rq full tbl sm =
     (case validate junk rq full tbl sm of
        Inr u \<Rightarrow> Inr u
      | Inl (StringExn m) \<Rightarrow> Inl (StringExn m)
      | Inl OverflowExn \<Rightarrow> Inl OtherExn
      | Inl OtherExn \<Rightarrow> Inl (StringExn ''Incorrect request.''))"

definition processInfoAdd :: "(string \<Rightarrow> u64) \<Rightarrow> (string \<times> json) list \<Rightarrow> FlowMod req" where
  "processInfoAdd junk rq =
     (let chVal = (\<lambda>field alternative. chooseValue (junk field) rq field alternative)
      in res_bind (at_key rq ''table_id'') (\<lambda>j. res_bind (json_cast (junk ''table_id'') j) (\<lambda>tbl.
         res_bind (chVal ''cookie'' 0) (\<lambda>cookie. res_bind (chVal ''cookie_mask'' 0) (\<lambda>cookie_mask.
         res_bind (chVal ''idle_timeout'' 10) (\<lambda>idle. res_bind (chVal ''hard_timeout'' 10) (\<lambda>hard.
         res_bind (chVal ''priority'' 0) (\<lambda>prio. res_bind (chVal ''buffer_id'' 0xffffffff) (\<lambda>buffer.
         res_bind (chVal ''flags'' 0) (\<lambda>flags.
           Inr ((new_FlowMod OFPFC_ADD)
             \<lparr>fm_table_id := Some tbl, fm_cookie := Some cookie, fm_cookie_mask := Some cookie_mask, fm_idle_timeout := Some (ucast idle),
              fm_hard_timeout := Some (ucast hard), fm_priority := Some (ucast prio), fm_buffer_id := Some (ucast buffer),
              fm_flags := Some (ucast flags)\<rparr>)))))))))))"

definition processInfoDelete :: "(string \<Rightarrow> u64) \<Rightarrow> (string \<times> json) list \<Rightarrow> fm_command \<Rightarrow> FlowMod req" where
  "processInfoDelete junk rq command =
     (let chVal = (\<lambda>field alternative. chooseValue (junk field) rq field alternative)
      in res_bind (chVal ''cookie'' 0) (\<lambda>cookie. res_bind (chVal ''cookie_mask'' 0) (\<lambda>cookie_mask.
         res_bind (chVal ''table_id'' 0) (\<lambda>tbl.
         res_bind (chVal ''idle_timeout'' 0) (\<lambda>idle. res_bind (chVal ''hard_timeout'' 0) (\<lambda>hard.
         res_bind (chVal ''priority'' 0) (\<lambda>prio. res_bind (chVal ''buffer_id'' (ucast OFP_NO_BUFFER)) (\<lambda>buffer.
         res_bind (chVal ''out_port'' (ucast OFPP_ANY)) (\<lambda>out_port. res_bind (chVal ''out_group'' (ucast OFPG_ANY)) (\<lambda>out_group.
         res_bind (chVal ''flags'' 0) (\<lambda>flags.
           Inr ((new_FlowMod command)
             \<lparr>fm_cookie := Some cookie, fm_cookie_mask := Some cookie_mask, fm_table_id := Some (ucast tbl), fm_idle_timeout := Some (ucast idle),
              fm_hard_timeout := Some (ucast hard), fm_priority := Some (ucast prio), fm_buffer_id := Some (ucast buffer),
              fm_out_port := Some (ucast out_port), fm_out_group := Some (ucast out_group), fm_flags := Some (ucast flags)\<rparr>))))))))))))"

text \<open>The result of the body of a handler: an exception or the answer, the collected text, the messages.\<close>

type_synonym handled = "string req \<times> string \<times> (u64 \<times> FlowMod) list"

definition send_flow_mod :: "(string \<Rightarrow> u64) \<Rightarrow> (string \<times> json) list \<Rightarrow> SwitchManager \<Rightarrow> FlowMod \<Rightarrow> string \<Rightarrow> string \<Rightarrow> handled" where
  "send_flow_mod junk rq sm fm msg resp =
     (case res_bind (at_key rq ''dpid'') (json_cast (junk ''dpid'')) of
        Inl e \<Rightarrow> (Inl e, resp, [])
      | Inr d \<Rightarrow>
          (case getSwitch d sm of
             None \<Rightarrow> (Inl OtherExn, resp, [])
           | Some sw \<Rightarrow> (Inr (msg @ resp), [], [(d, fm)])))"

definition with_actions :: "fluid \<Rightarrow> (nat \<Rightarrow> string \<Rightarrow> u64) \<Rightarrow> (string \<times> json) list \<Rightarrow> SwitchManager \<Rightarrow> json option \<Rightarrow> FlowMod \<Rightarrow> string \<Rightarrow> string \<Rightarrow> handled" where
  "with_actions fl junk rq sm as fm msg resp =
     (case as of
        None \<Rightarrow> send_flow_mod (junk 1) rq sm fm msg resp
      | Some j \<Rightarrow>
          (case processActions fl (\<lambda>i. junk (i + 2)) (array_items j) ([], resp) of
             (Inl e, resp') \<Rightarrow> (Inl e, resp', [])
           | (Inr acts, resp') \<Rightarrow> send_flow_mod (junk 1) rq sm (fm\<lparr>fm_instructions := [APPLY_ACTIONS acts]\<rparr>) msg resp'))"

definition post_add :: "fluid \<Rightarrow> (nat \<Rightarrow> string \<Rightarrow> u64) \<Rightarrow> u8 \<Rightarrow> SwitchManager \<Rightarrow> (string \<times> json) list \<Rightarrow> string \<Rightarrow> handled" where
  "post_add fl junk tbl sm rq resp =
     (case res_bind (validateRequest (junk 0) rq True tbl sm) (\<lambda>_.
           res_bind (at_key rq ''match'') (\<lambda>m. res_bind (at_key rq ''actions'') (\<lambda>as.
           res_bind (processInfoAdd (junk 1) rq) (\<lambda>fm.
           res_bind (processMatches fl (junk 1) (object_items m)) (\<lambda>tl. Inr (as, fm\<lparr>fm_match := tl\<rparr>)))))) of
        Inl e \<Rightarrow> (Inl e, resp, [])
      | Inr (as, fm) \<Rightarrow> with_actions fl junk rq sm (Some as) fm ''new flow added'' resp)"

definition post_delete :: "fluid \<Rightarrow> (nat \<Rightarrow> string \<Rightarrow> u64) \<Rightarrow> u8 \<Rightarrow> SwitchManager \<Rightarrow> fm_command \<Rightarrow> (string \<times> json) list \<Rightarrow> string \<Rightarrow> handled" where
  "post_delete fl junk tbl sm command rq resp =
     (case res_bind (validateRequest (junk 0) rq False tbl sm) (\<lambda>_.
           res_bind (processInfoDelete (junk 1) rq command) (\<lambda>fm.
             (case map_of rq ''match'' of
                None \<Rightarrow> Inr fm
              | Some m \<Rightarrow> res_bind (processMatches fl (junk 1) (object_items m)) (\<lambda>tl. Inr (fm\<lparr>fm_match := tl\<rparr>))))) of
        Inl e \<Rightarrow> (Inl e, resp, [])
      | Inr fm \<Rightarrow> with_actions fl junk rq sm (map_of rq ''actions'') fm ''have sent flow_mod with DELETE command'' resp)"

definition answer :: "string \<Rightarrow> json" where
  "answer msg = JObj [(''RestFlowMod'', JStr msg)]"

definition catch_all :: "handled \<Rightarrow> json \<times> string \<times> (u64 \<times> FlowMod) list" where
  "catch_all h =
     (case h of (r, resp, sent) \<Rightarrow>
        (case r of Inr msg \<Rightarrow> answer msg | Inl (StringExn m) \<Rightarrow> answer m | Inl _ \<Rightarrow> answer ''Some error on request handling'', resp, sent))"

definition handlePOST :: "(string \<Rightarrow> json \<times> string) \<Rightarrow> fluid \<Rightarrow> (nat \<Rightarrow> string \<Rightarrow> u64) \<Rightarrow> u8 \<Rightarrow> SwitchManager \<Rightarrow> string list \<Rightarrow> string \<Rightarrow> string \<Rightarrow>
    (json \<times> string \<times> (u64 \<times> FlowMod) list) res" where
  "handlePOST json_parse fl junk tbl sm params text resp =
     (case params of
        [] \<Rightarrow> Inl OutOfRange
      | p # ps \<Rightarrow>
          if p \<noteq> ''flowentry'' then Inr (answer ''Unsupported parameter'', resp, [])
          else case parse json_parse text of
                 Inl e \<Rightarrow> Inr (catch_all (Inl e, resp, []))
               | Inr rq \<Rightarrow>
                   if ps = [] then Inr (catch_all (post_add fl junk tbl sm rq resp))
                   else if hd ps = ''delete_strict'' then Inr (catch_all (post_delete fl junk tbl sm OFPFC_DELETE_STRICT rq resp))
                   else if hd ps = ''delete'' then Inr (catch_all (post_delete fl junk tbl sm OFPFC_DELETE rq resp))
                   else Inr (JObj [], resp, []))"

subsection \<open>Clearing a switch\<close>

definition rest_clearTables :: FlowMod where
  "rest_clearTables = (new_FlowMod OFPFC_DELETE)
     \<lparr>fm_table_id := Some OFPTT_ALL, fm_cookie := Some 0, fm_cookie_mask := Some 0, fm_out_port := Some OFPP_ANY, fm_out_group := Some OFPG_ANY\<rparr>"

definition rest_rule :: "u8 \<Rightarrow> fluid_instruction \<Rightarrow> FlowMod" where
  "rest_rule tbl i = (new_FlowMod OFPFC_ADD)
     \<lparr>fm_priority := Some 0, fm_cookie := Some 0, fm_idle_timeout := Some 0, fm_hard_timeout := Some 0, fm_table_id := Some tbl,
      fm_flags := Some 3, fm_instructions := [i]\<rparr>"

definition rest_installTableMissRule :: "u8 \<Rightarrow> FlowMod" where
  "rest_installTableMissRule tbl = rest_rule tbl (APPLY_ACTIONS [OUTPUT OFPP_CONTROLLER 0])"

definition rest_installGoto :: "u8 \<Rightarrow> FlowMod" where
  "rest_installGoto tbl = rest_rule tbl (GOTO_TABLE (tbl + 1))"

definition clear_switch :: "u8 \<Rightarrow> FlowMod list" where
  "clear_switch tbl = [rest_clearTables] @ map (\<lambda>i. rest_installGoto (of_nat i)) [0..<unat tbl] @ [rest_installTableMissRule tbl]"

definition handleDELETE :: "u64 \<Rightarrow> u8 \<Rightarrow> SwitchManager \<Rightarrow> string list \<Rightarrow> string \<Rightarrow> (json \<times> string \<times> (u64 \<times> FlowMod) list) res" where
  "handleDELETE junk tbl sm params resp =
     (if length params < 1 then Inl (Thrown ''out_of_range'')
      else if params ! 0 \<noteq> ''flowentry'' then Inr (answer ''Unsupported parameter'', resp, [])
      else if length params < 2 then Inl (Thrown ''out_of_range'')
      else if params ! 1 \<noteq> ''clear'' then Inr (answer ''Unsupported parameter'', resp, [])
      else Inr (catch_all
        (if length params < 3 then (Inl OtherExn, resp, [])
         else case string_cast junk (params ! 2) of
                Inl e \<Rightarrow> (Inl e, resp, [])
              | Inr d \<Rightarrow>
                  (case getSwitch d sm of
                     None \<Rightarrow> (Inl OtherExn, resp, [])
                   | Some sw \<Rightarrow> (Inr (''all tables have been initialized'' @ resp), [], map (Pair d) (clear_switch tbl))))))"

subsection \<open>Requests that give their numbers as texts\<close>

definition has_text :: "(string \<times> json) list \<Rightarrow> string \<Rightarrow> bool" where
  "has_text rq k \<longleftrightarrow> (\<forall>s. map_of rq k = Some (JStr s) \<longrightarrow> dropWhile is_space s \<noteq> []) \<and> (\<forall>j. map_of rq k = Some j \<longrightarrow> (\<exists>s. j = JStr s))"

lemma read_u64_junk: "dropWhile is_space s \<noteq> [] \<Longrightarrow> read_u64 j h s = read_u64 j' h s"
  by (auto simp: read_u64_def Let_def)

lemma cast_junk:
  assumes "has_text rq k"
  shows "res_bind (at_key rq k) (json_cast j) = (res_bind (at_key rq k) (json_cast j') :: ('a::len word) req)"
proof (cases "map_of rq k")
  case (Some x)
  then obtain s where s: "x = JStr s" "dropWhile is_space s \<noteq> []" using assms by (auto simp: has_text_def)
  then show ?thesis
    using Some read_u64_junk [OF s(2), of j _ j'] by (simp add: at_key_def json_cast_def string_value_def string_cast_def)
qed (simp add: at_key_def)

lemma validate_full:
  assumes "validateRequest junk rq True tbl sm = Inr u"
  obtains d t where "res_bind (at_key rq ''dpid'') (json_cast (junk ''dpid'')) = Inr d" "getSwitch d sm \<noteq> None"
    "res_bind (at_key rq ''table_id'') (json_cast (junk ''table_id'')) = Inr t" "t < tbl"
proof -
  have "validate junk rq True tbl sm = Inr u" using assms by (simp add: validateRequest_def split: sum.splits exn.splits)
  then show ?thesis using that by (fastforce simp: validate_def split: if_splits)
qed

lemma info_add_table:
  "processInfoAdd junk rq = Inr fm \<Longrightarrow>
     \<exists>t. res_bind (at_key rq ''table_id'') (json_cast (junk ''table_id'')) = Inr t \<and> fm_table_id fm = Some t \<and> fm_command fm = OFPFC_ADD"
  by (auto simp: processInfoAdd_def Let_def new_FlowMod_def)

lemma send_flow_mod_cases:
  "send_flow_mod junk rq sm fm msg resp = (r, resp', sent) \<Longrightarrow>
     (\<exists>e. r = Inl e \<and> sent = []) \<or>
     (\<exists>d. r = Inr (msg @ resp) \<and> resp' = [] \<and> sent = [(d, fm)] \<and> getSwitch d sm \<noteq> None \<and> res_bind (at_key rq ''dpid'') (json_cast (junk ''dpid'')) = Inr d)"
  by (auto simp: send_flow_mod_def simp del: res_bind_eq_Inr split: sum.splits option.splits)

lemma with_actions_cases:
  assumes "with_actions fl junk rq sm as fm msg resp = (r, resp', sent)"
  shows "(\<exists>e. r = Inl e \<and> sent = []) \<or>
     (\<exists>d is txt. r = Inr (msg @ txt) \<and> resp' = [] \<and> sent = [(d, fm\<lparr>fm_instructions := is\<rparr>)] \<and> getSwitch d sm \<noteq> None \<and>
        res_bind (at_key rq ''dpid'') (json_cast (junk 1 ''dpid'')) = Inr d)"
proof (cases as)
  case None
  then have s: "send_flow_mod (junk 1) rq sm fm msg resp = (r, resp', sent)" using assms by (simp add: with_actions_def)
  have "fm\<lparr>fm_instructions := fm_instructions fm\<rparr> = fm" by simp
  with send_flow_mod_cases [OF s] show ?thesis by metis
next
  case (Some j)
  obtain x resp1 where p: "processActions fl (\<lambda>i. junk (i + 2)) (array_items j) ([], resp) = (x, resp1)" by fastforce
  show ?thesis
  proof (cases x)
    case (Inr acts)
    then have "send_flow_mod (junk 1) rq sm (fm\<lparr>fm_instructions := [APPLY_ACTIONS acts]\<rparr>) msg resp1 = (r, resp', sent)"
      using assms p Some by (simp add: with_actions_def)
    from send_flow_mod_cases [OF this] show ?thesis by blast
  qed (use assms p Some in \<open>auto simp: with_actions_def\<close>)
qed


subsection \<open>A request with numbers\<close>

definition demo_request_body :: "json \<Rightarrow> json" where
  "demo_request_body t = JObj [(''dpid'', JStr ''2''), (''table_id'', t), (''match'', JObj []), (''actions'', JArr [])]"

lemma processMatches_Nil: "processMatches fl junk [] = Inr []"
  by (simp add: processMatches_def process_l4_def process_ipv4_def process_arp_def process_l2_def handle_uint_def handle_string_def at_key_def
      close_layer_def)

lemma cast_digit: "string_cast junk ''2'' = Inr (2 :: u64)" "string_cast junk ''0'' = Inr (0 :: u8)"
  by (simp_all add: string_cast_def read_u64_def is_space_def is_digit_def dec_value_def digit_val_def saturate_def)

lemma cast_empty_u8: "string_cast junk [] = Inr t \<longleftrightarrow> ucast (t :: u8) = junk"
proof -
  have "(ucast (ucast t :: u64) :: u8) = t" by (rule bit_word_eqI) (auto simp: bit_simps)
  then show ?thesis by (auto simp: string_cast_def read_u64_def Let_def)
qed

lemma post_demo:
  assumes "res_bind (at_key (object_items (demo_request_body j)) ''table_id'') (json_cast (junk 0 ''table_id'')) = Inr t0" "t0 < tbl"
    "res_bind (at_key (object_items (demo_request_body j)) ''table_id'') (json_cast (junk 1 ''table_id'')) = Inr t1"
  shows "\<exists>fm. handlePOST (\<lambda>_. (demo_request_body j, [])) fl junk tbl [(2, sw)] [''flowentry''] text resp = Inr (answer (''new flow added'' @ resp), [], [(2, fm)]) \<and>
    fm_table_id fm = Some t1"
proof -
  let ?rq = "object_items (demo_request_body j)"
  have look: "at_key ?rq ''dpid'' = Inr (JStr ''2'')" "at_key ?rq ''table_id'' = Inr j" "at_key ?rq ''match'' = Inr (JObj [])" "at_key ?rq ''actions'' = Inr (JArr [])"
      "map_of ?rq ''cookie'' = None" "map_of ?rq ''cookie_mask'' = None" "map_of ?rq ''idle_timeout'' = None" "map_of ?rq ''hard_timeout'' = None"
      "map_of ?rq ''priority'' = None" "map_of ?rq ''buffer_id'' = None" "map_of ?rq ''flags'' = None"
    by (simp_all add: demo_request_body_def object_items_def at_key_def)
  have t: "json_cast (junk 0 ''table_id'') j = Inr t0" "json_cast (junk 1 ''table_id'') j = Inr t1" using assms(1,3) look(2) by simp_all
  have dp: "json_cast x (JStr ''2'') = Inr (2 :: u64)" for x by (simp add: json_cast_def string_value_def cast_digit)
  have v: "validateRequest (junk 0) ?rq True tbl [(2, sw)] = Inr ()"
    using assms(2) by (simp add: validateRequest_def validate_def look t dp getSwitch_def not_le)
  have empty: "object_items (JObj []) = []" "array_items (JArr []) = []" by (simp_all add: object_items_def array_items_def)
  obtain fm where fm: "processInfoAdd (junk 1) ?rq = Inr fm" "fm_table_id fm = Some t1"
    by (simp add: processInfoAdd_def look t [unfolded One_nat_def] chooseValue_def)
  show ?thesis
    by (simp add: handlePOST_def parse_def post_add_def v look fm [unfolded One_nat_def] processMatches_Nil with_actions_def send_flow_mod_def dp getSwitch_def catch_all_def
        empty)
qed



text \<open>
  A table given as a JSON number is not read at all: the check and the handler each take what an uninitialised variable holds. If it
  happens to be a reserved table in the check and the pipeline's in the handler, the flow is added to the pipeline's table.
\<close>

theorem number_reaches_pipeline:
  assumes "junk 0 ''table_id'' = 0" "junk 1 ''table_id'' = ucast tbl" "0 < (tbl :: u8)"
  shows "\<exists>reply fm. handlePOST (\<lambda>_. (demo_request_body (JNum n), [])) fl junk tbl [(2, sw)] [''flowentry''] text resp = Inr (reply, [], [(2, fm)]) \<and>
    fm_table_id fm = Some tbl"
proof -
  let ?rq = "object_items (demo_request_body (JNum n))"
  have "res_bind (at_key ?rq ''table_id'') (json_cast x) = (string_cast x [] :: u8 req)" for x
    by (simp add: demo_request_body_def object_items_def at_key_def json_cast_def string_value_def)
  then have "res_bind (at_key ?rq ''table_id'') (json_cast (junk 0 ''table_id'')) = Inr (0 :: u8)"
      "res_bind (at_key ?rq ''table_id'') (json_cast (junk 1 ''table_id'')) = Inr tbl"
    using assms cast_empty_u8 [of 0 0] cast_empty_u8 [of "ucast tbl" tbl] by simp_all
  from post_demo [where junk = junk, OF this(1) assms(3) this(2)] show ?thesis by blast
qed

subsection \<open>A cleared switch\<close>

definition rest_instruction :: "fluid_instruction \<Rightarrow> instruction" where
  "rest_instruction i =
     (case i of GOTO_TABLE t \<Rightarrow> GoToTable t
      | APPLY_ACTIONS as \<Rightarrow> ApplyActions (concat (map (\<lambda>a. case a of OUTPUT p n \<Rightarrow> [OutputAction p n] | _ \<Rightarrow> []) as))
      | _ \<Rightarrow> ApplyActions [])"

text \<open>A rule without match of priority 0 as the messages of the controller have it, and the deletion of all rules.\<close>

definition rest_msg :: "FlowMod \<Rightarrow> of_msg" where
  "rest_msg fm =
     (case (fm_command fm, fm_table_id fm, fm_instructions fm) of
        (OFPFC_ADD, Some t, i # _) \<Rightarrow> base_rule t (rest_instruction i)
      | (_, t, _) \<Rightarrow> FlowDelete (case t of None \<Rightarrow> 0 | Some t \<Rightarrow> t) 0 0 [] None)"

lemma base_of_rest_gotos:
  "base_of (map (\<lambda>i. rest_msg (rest_installGoto (of_nat i))) xs) t = base_of (concat (map (\<lambda>i. installGoto (of_nat i)) xs)) t"
  by (induction xs)
     (simp_all add: rest_msg_def rest_installGoto_def rest_rule_def new_FlowMod_def rest_instruction_def installGoto_def base_rule_def backend_barrier_def)

lemma base_of_clear:
  assumes "i \<le> unat tbl"
  shows "base_of (map rest_msg (clear_switch tbl)) (of_nat i) =
    Some (if i < unat tbl then GoToTable (of_nat i + 1) else ApplyActions [OutputAction OFPP_CONTROLLER 0])"
proof -
  have l: "unat tbl < 256" using unsigned_less [of tbl] by simp
  have "(of_nat (unat tbl) :: u8) = tbl" by simp
  moreover have "base_of (map rest_msg (clear_switch tbl)) t =
      base_of (concat (map (\<lambda>i. installGoto (of_nat i)) [0..<unat tbl]) @ [base_rule tbl (ApplyActions [OutputAction OFPP_CONTROLLER 0])]) t" for t
    using base_of_rest_gotos [of "[0..<unat tbl]" t]
    by (simp add: clear_switch_def base_of_append comp_def rest_msg_def rest_clearTables_def rest_installTableMissRule_def rest_rule_def new_FlowMod_def
        rest_instruction_def)
  ultimately show ?thesis using assms l base_of_gotos [of "unat tbl" i] by (auto simp: base_of_append base_rule_def le_less)
qed

lemma walk_clear:
  "i + n = unat tbl \<Longrightarrow> walk_tables (Suc n) (map rest_msg (clear_switch tbl)) (of_nat i) = Some (ApplyActions [OutputAction OFPP_CONTROLLER 0])"
proof (induction n arbitrary: i)
  case (Suc n)
  have "walk_tables (Suc n) (map rest_msg (clear_switch tbl)) (of_nat (Suc i)) = Some (ApplyActions [OutputAction OFPP_CONTROLLER 0])"
    using Suc.IH [of "Suc i"] Suc.prems by simp
  then show ?case using base_of_clear [of i tbl] Suc.prems by (simp add: add.commute)
next
  case 0
  then show ?case using base_of_clear [of "unat tbl" tbl] by simp
qed

text \<open>
  A cleared switch still hands unmatched packets to the controller. A request to clear a known switch sends the switch messages that delete all
  its rules and set up the tables as the controller does: a packet that meets only base rules goes through every table to the pipeline's.
  But its rule there asks for none of the packet's bytes, where the controller's own asks for 128. A request for an unknown switch
  sends nothing.
\<close>

theorem rest_clear_keeps_tables:
  shows "handleDELETE junk tbl sm [''flowentry'', ''clear'', toString_cast d False] resp =
      Inr (if getSwitch d sm = None then (answer ''Some error on request handling'', resp, [])
           else (answer (''all tables have been initialized'' @ resp), [], map (Pair d) (clear_switch tbl))) \<and>
    (\<exists>ms. map rest_msg (clear_switch tbl) = FlowDelete 0xff 0 0 [] None # ms) \<and>
    walk_tables (unat tbl + 1) (map rest_msg (clear_switch tbl)) 0 = Some (ApplyActions [OutputAction OFPP_CONTROLLER 0]) \<and>
    walk_tables (unat tbl + 1) (reinit_msgs tbl) 0 = Some (ApplyActions [OutputAction OFPP_CONTROLLER 128])"
proof -
  have "handleDELETE junk tbl sm [''flowentry'', ''clear'', toString_cast d False] resp =
      Inr (if getSwitch d sm = None then (answer ''Some error on request handling'', resp, [])
           else (answer (''all tables have been initialized'' @ resp), [], map (Pair d) (clear_switch tbl)))"
    using string_cast_print [where w = d and toHex = False and junk = junk]
    by (simp add: handleDELETE_def catch_all_def split: option.splits)
  moreover have "\<exists>ms. map rest_msg (clear_switch tbl) = FlowDelete 0xff 0 0 [] None # ms"
    by (simp add: clear_switch_def rest_msg_def rest_clearTables_def new_FlowMod_def OFPTT_ALL_def)
  ultimately show ?thesis using walk_clear [of 0 "unat tbl" tbl] walk_reinit [of 0 "unat tbl" tbl] by (simp del: walk_tables.simps)
qed

text \<open>The text about an action that was ignored is kept when the request fails later, and becomes part of the answer to the next one.\<close>

lemma stale_response:
  assumes "with_actions fl junk rq sm (Some (JArr [JObj [(''type'', JStr ''SET_FIELD'')], JObj []])) fm msg resp = h"
  shows "fst h = Inl OtherExn \<and> fst (snd h) \<noteq> resp \<and> snd (snd h) = []"
  using assms by (auto simp: with_actions_def array_items_def object_items_def processAction_def read_action_def at_key_def string_value_def)

end
