(* ===== verification/Flow_Manager.thy ===== *)
theory Flow_Manager
  imports Rest_Flow Host_Manager "HOL-Library.Multiset"
begin

text \<open>
  The flow manager: \<open>src/FlowManager.cc\<close>. It asks every switch for its flows, keeps a rule object for each flow a switch
  reports and announces rules that come and go to the event log; web clients list the rules of a switch and delete one. A rule object is
  known by its address, a number that is never used again, since the code never frees a rule. Equality of matches and instructions in libfluid is
  equality of their data.
\<close>

record FlowStats =
  fs_cookie :: u64
  fs_hard :: u16
  fs_idle :: u16
  fs_priority :: u16
  fs_table :: u8
  fs_flags :: u16
  fs_match :: Match
  fs_instructions :: "fluid_instruction list"
  fs_counters :: "u64 list"

record Rule =
  rule_addr :: nat
  rule_id :: u64
  rule_switch :: u64
  rule_flow :: FlowStats
  rule_active :: bool

record FlowManager =
  all_switches_rules :: "u64 \<Rightarrow> Rule list option"
  last_rule_id :: u64
  next_rule :: nat
  retired :: "Rule list"

definition new_FlowManager :: FlowManager where
  "new_FlowManager = \<lparr>all_switches_rules = Map.empty, last_rule_id = 0, next_rule = 0, retired = []\<rparr>"

definition equalflows :: "FlowStats \<Rightarrow> FlowStats \<Rightarrow> bool" where
  "equalflows one two \<longleftrightarrow>
     fs_cookie one = fs_cookie two \<and> fs_hard one = fs_hard two \<and> fs_idle one = fs_idle two \<and> fs_priority one = fs_priority two \<and>
     fs_table one = fs_table two \<and> fs_flags one = fs_flags two \<and> fs_match one = fs_match two \<and> fs_instructions one = fs_instructions two"

definition new_Rule :: "u64 \<Rightarrow> FlowStats \<Rightarrow> FlowManager \<Rightarrow> Rule \<times> FlowManager" where
  "new_Rule d flow m =
     (\<lparr>rule_addr = next_rule m, rule_id = last_rule_id m + 1, rule_switch = d, rule_flow = flow, rule_active = True\<rparr>,
      m\<lparr>last_rule_id := last_rule_id m + 1, next_rule := Suc (next_rule m)\<rparr>)"

definition rules_of :: "FlowManager \<Rightarrow> u64 \<Rightarrow> Rule list" where
  "rules_of m d = (case all_switches_rules m d of None \<Rightarrow> [] | Some rs \<Rightarrow> rs)"

definition retire :: "Rule \<Rightarrow> Rule" where
  "retire r = r\<lparr>rule_active := False\<rparr>"

subsection \<open>The rules of a switch\<close>

fun erase_first :: "('a \<Rightarrow> bool) \<Rightarrow> 'a list \<Rightarrow> 'a list option" where
  "erase_first P [] = None"
| "erase_first P (x # xs) = (if P x then Some xs else map_option (Cons x) (erase_first P xs))"

text \<open>The loop of \<open>remove_if\<close>: rules that are kept, rules that are gone, and flows that no rule stands for.\<close>

fun keep_rules :: "RestHandler \<Rightarrow> Rule list \<Rightarrow> FlowStats list \<Rightarrow> EventManager \<Rightarrow> (Rule list \<times> Rule list \<times> FlowStats list \<times> EventManager) res" where
  "keep_rules rest [] flows em = Inr ([], [], flows, em)"
| "keep_rules rest (r # rs) flows em =
     (case erase_first (\<lambda>f. equalflows f (rule_flow r)) flows of
        Some flows' \<Rightarrow> res_bind (keep_rules rest rs flows' em) (\<lambda>(kept, gone, left, em'). Inr (r # kept, gone, left, em'))
      | None \<Rightarrow>
          res_bind (addEvent rest Delete (rule_addr r) em) (\<lambda>em1.
          res_bind (keep_rules rest rs flows em1) (\<lambda>(kept, gone, left, em'). Inr (kept, retire r # gone, left, em'))))"

fun add_rules :: "RestHandler \<Rightarrow> u64 \<Rightarrow> FlowStats list \<Rightarrow> FlowManager \<Rightarrow> EventManager \<Rightarrow> (Rule list \<times> FlowManager \<times> EventManager) res" where
  "add_rules rest d [] m em = Inr ([], m, em)"
| "add_rules rest d (f # fs) m em =
     (case new_Rule d f m of (r, m1) \<Rightarrow>
        res_bind (addEvent rest Add (rule_addr r) em) (\<lambda>em1.
        res_bind (add_rules rest d fs m1 em1) (\<lambda>(rs, m2, em2). Inr (r # rs, m2, em2))))"

definition updateSwitchRules :: "RestHandler \<Rightarrow> u64 \<Rightarrow> FlowStats list \<Rightarrow> FlowManager \<times> EventManager \<Rightarrow> (FlowManager \<times> EventManager) res" where
  "updateSwitchRules rest d flows w =
     (case w of (m, em) \<Rightarrow>
        res_bind (keep_rules rest (rules_of m d) flows em) (\<lambda>(kept, gone, left, em1).
        res_bind (add_rules rest d left m em1) (\<lambda>(new, m1, em2).
          Inr (m1\<lparr>all_switches_rules := (all_switches_rules m)(d \<mapsto> kept @ new), retired := retired m @ gone\<rparr>, em2))))"

fun withdraw :: "RestHandler \<Rightarrow> Rule list \<Rightarrow> EventManager \<Rightarrow> EventManager res" where
  "withdraw rest [] em = Inr em"
| "withdraw rest (r # rs) em = res_bind (addEvent rest Delete (rule_addr r) em) (withdraw rest rs)"

definition cleanSwitchRules :: "RestHandler \<Rightarrow> u64 \<Rightarrow> FlowManager \<times> EventManager \<Rightarrow> (FlowManager \<times> EventManager) res" where
  "cleanSwitchRules rest d w =
     (case w of (m, em) \<Rightarrow>
        res_bind (withdraw rest (rules_of m d) em) (\<lambda>em1.
          Inr (m\<lparr>all_switches_rules := (all_switches_rules m)(d \<mapsto> []), retired := retired m @ map retire (rules_of m d)\<rparr>, em1)))"

definition onResponse :: "RestHandler \<Rightarrow> SwitchManager \<Rightarrow> u64 \<Rightarrow> FlowStats list \<Rightarrow> FlowManager \<times> EventManager \<Rightarrow> (FlowManager \<times> EventManager) res" where
  "onResponse rest sm d flows w =
     (case getSwitch d sm of None \<Rightarrow> Inl NullDereference | Some sw \<Rightarrow> updateSwitchRules rest (sw_id sw) flows w)"

subsection \<open>Requests to switches\<close>

record FlowRequest =
  rq_table :: u8
  rq_out_port :: u32
  rq_out_group :: u32
  rq_cookie :: u64
  rq_cookie_mask :: u64
  rq_match :: "oxm_tlv list"

definition sendFlowRequest :: FlowRequest where
  "sendFlowRequest = \<lparr>rq_table = OFPTT_ALL, rq_out_port = OFPP_ANY, rq_out_group = OFPG_ANY, rq_cookie = 0, rq_cookie_mask = 0, rq_match = []\<rparr>"

definition flow_timer :: "(nat \<Rightarrow> bool) \<Rightarrow> SwitchManager \<Rightarrow> (u64 \<times> FlowRequest) list" where
  "flow_timer alive sm = map (\<lambda>d. (d, sendFlowRequest)) (alive_switches alive sm)"

text \<open>The deletion names the match, cookie, table and priority of the rule.\<close>

record RuleDelete =
  rd_command :: fm_command
  rd_match :: Match
  rd_table :: u8
  rd_cookie :: u64
  rd_cookie_mask :: u64
  rd_out_port :: u32
  rd_out_group :: u32
  rd_priority :: u16

definition deleteRule :: "Rule \<Rightarrow> RuleDelete" where
  "deleteRule r =
     \<lparr>rd_command = OFPFC_DELETE, rd_match = fs_match (rule_flow r), rd_table = fs_table (rule_flow r), rd_cookie = fs_cookie (rule_flow r),
      rd_cookie_mask = 0xffffffffffffffff, rd_out_port = OFPP_ANY, rd_out_group = OFPG_ANY, rd_priority = fs_priority (rule_flow r)\<rparr>"

definition fm_handleDELETE :: "SwitchManager \<Rightarrow> u64 \<Rightarrow> u64 \<Rightarrow> FlowManager \<Rightarrow> json \<times> (u64 \<times> RuleDelete) list" where
  "fm_handleDELETE sm d flow_id m =
     (case getSwitch d sm of
        None \<Rightarrow> (JObj [(''error'', JStr ''switch not found'')], [])
      | Some sw \<Rightarrow>
          (case all_switches_rules m (sw_id sw) of
             None \<Rightarrow> (JObj [(''error'', JStr ''switch has not flows'')], [])
           | Some rs \<Rightarrow>
               (case List.find (\<lambda>r. rule_id r = flow_id) rs of
                  None \<Rightarrow> (JObj [(''error'', JStr ''flow not found'')], [])
                | Some r \<Rightarrow> (JObj [(''flow-manager'', JStr ''flow deleted'')], [(sw_id sw, deleteRule r)]))))"

subsection \<open>Rules as JSON\<close>

definition SetField_json :: "fluid \<Rightarrow> oxm_tlv \<Rightarrow> (string \<times> json) list" where
  "SetField_json fl t =
     (case t of
        InPort v \<Rightarrow> [(''in_port'', JNum (sint v))]
      | EthSrc a \<Rightarrow> [(''eth_src'', JStr (mac_text fl a))]
      | EthDst a \<Rightarrow> [(''eth_dst'', JStr (mac_text fl a))]
      | EthType v \<Rightarrow> [(''eth_type'', JNum (uint v))]
      | VLANVid v \<Rightarrow> [(''vlan_vid'', JNum (uint v))]
      | IPv4Src a \<Rightarrow> [(''ip_src'', JStr (uint32_t_ip_to_string a))]
      | IPv4Dst a \<Rightarrow> [(''ip_dst'', JStr (uint32_t_ip_to_string a))]
      | IPProto v \<Rightarrow> [(''ip_proto'', JNum (uint v))]
      | _ \<Rightarrow> [(''unhandled field'', JStr ''error'')])"

definition action_list :: "fluid \<Rightarrow> fluid_action list \<Rightarrow> int list \<times> json list \<Rightarrow> int list \<times> json list" where
  "action_list fl acts =
     fold (\<lambda>a (out, sets). case a of OUTPUT p n \<Rightarrow> (out @ [sint p], sets) | SET_FIELD t \<Rightarrow> (out, sets @ [JObj (SetField_json fl t)]) | _ \<Rightarrow> (out, sets)) acts"

definition field_if :: "string \<Rightarrow> ('a \<Rightarrow> json) \<Rightarrow> 'a option \<Rightarrow> (string \<times> json) list" where
  "field_if k f v = (case v of None \<Rightarrow> [] | Some x \<Rightarrow> [(k, f x)])"

definition instruction_step :: "fluid \<Rightarrow> fluid_instruction \<Rightarrow> (string \<times> json) list \<times> int list \<times> json list \<Rightarrow> (string \<times> json) list \<times> int list \<times> json list" where
  "instruction_step fl i st =
     (case st of (ret, out, sets) \<Rightarrow>
        case i of
          GOTO_TABLE t \<Rightarrow> (AList.update ''goto_table'' (JStr [char_of (unat t)]) ret, out, sets)
        | WRITE_METADATA d k \<Rightarrow>
            (AList.update ''metadata'' (JObj [(''metadata'', JStr (dec_word d)), (''metadata_mask'', JStr (dec_word k))]) ret, out, sets)
        | APPLY_ACTIONS as \<Rightarrow> (ret, action_list fl as (out, sets))
        | _ \<Rightarrow> (ret, out, sets))"

definition rule_to_json :: "fluid \<Rightarrow> Rule \<Rightarrow> json" where
  "rule_to_json fl r =
     (let m = fs_match (rule_flow r);
          ret = [(''acitive'', JStr (if rule_active r then ''yes'' else ''no'')), (''switch_id'', JStr (dec_word (rule_switch r)))] @
            field_if ''in_port'' (\<lambda>v. JNum (sint v)) (Match.m_in_port m) @ field_if ''eth_src'' (\<lambda>a. JStr (mac_text fl a)) (m_eth_src m) @
            field_if ''eth_dst'' (\<lambda>a. JStr (mac_text fl a)) (m_eth_dst m) @ field_if ''eth_type'' (\<lambda>v. JNum (uint v)) (m_eth_type m) @
            field_if ''ip_src'' (\<lambda>a. JStr (uint32_t_ip_to_string a)) (m_ipv4_src m) @
            field_if ''ip_dst'' (\<lambda>a. JStr (uint32_t_ip_to_string a)) (m_ipv4_dst m)
      in case fold (instruction_step fl) (fs_instructions (rule_flow r)) (ret, [], []) of
           (ret', out, sets) \<Rightarrow> JObj (ret' @ [(''out_port'', JArr (map JNum out)), (''set_field'', JArr sets)]))"

definition fm_handleGET :: "fluid \<Rightarrow> SwitchManager \<Rightarrow> u64 \<Rightarrow> FlowManager \<Rightarrow> json" where
  "fm_handleGET fl sm d m =
     (case getSwitch d sm of
        None \<Rightarrow> JObj [(''error'', JStr ''switch not found'')]
      | Some sw \<Rightarrow> JArr (map (rule_to_json fl) (rules_of m (sw_id sw))))"

subsection \<open>Objects in the event log\<close>

text \<open>What an application needs of the log: an object can always be announced, and one that was announced can be withdrawn.\<close>

locale object_log =
  fixes add :: "nat \<Rightarrow> 'e \<Rightarrow> 'e res" and del :: "nat \<Rightarrow> 'e \<Rightarrow> 'e res" and known :: "nat set \<Rightarrow> 'e \<Rightarrow> bool"
  assumes add_ok: "known X e \<Longrightarrow> \<exists>e'. add x e = Inr e' \<and> known (insert x X) e'"
    and del_ok: "known X e \<Longrightarrow> x \<in> X \<Longrightarrow> \<exists>e'. del x e = Inr e' \<and> known X e'"
    and known_mono: "known Y e \<Longrightarrow> X \<subseteq> Y \<Longrightarrow> known X e"
begin

fun del_all :: "nat list \<Rightarrow> 'e \<Rightarrow> 'e res" where
  "del_all [] e = Inr e"
| "del_all (x # xs) e = res_bind (del x e) (del_all xs)"

lemma del_all_ok: "known X e \<Longrightarrow> set xs \<subseteq> X \<Longrightarrow> \<exists>e'. del_all xs e = Inr e' \<and> known X e'"
proof (induction xs arbitrary: e)
  case (Cons x xs)
  then obtain e1 where "del x e = Inr e1" "known X e1" using del_ok [of X e x] by auto
  then show ?case using Cons by simp
qed simp

end

interpretation rule_log: object_log "addEvent rest Add" "addEvent rest Delete" "announced rest" for rest
  by unfold_locales (blast intro: announce_add announce_delete announced_mono)+

lemma withdraw_del_all: "withdraw rest rs em = rule_log.del_all rest (map rule_addr rs) em"
  by (induction rs arbitrary: em) (auto intro: res_bind_cong)

subsection \<open>The rules follow the reports\<close>

text \<open>A flow without its counters; flows with the same description are not told apart.\<close>

definition describe :: "FlowStats \<Rightarrow> FlowStats" where
  "describe f = f\<lparr>fs_counters := []\<rparr>"

lemma equalflows_describe: "equalflows f g \<longleftrightarrow> describe f = describe g"
  by (cases f; cases g) (auto simp: equalflows_def describe_def)

lemma erase_first_Some:
  "erase_first P xs = Some ys \<Longrightarrow> \<exists>x. P x \<and> mset xs = add_mset x (mset ys)"
  by (induction xs arbitrary: ys) (auto split: if_splits)

lemma erase_first_None: "erase_first P xs = None \<longleftrightarrow> (\<forall>x \<in> set xs. \<not> P x)"
  by (induction xs) auto

lemma keep_rules_ok:
  assumes "announced rest X em" "rule_addr ` set rs \<subseteq> X"
  shows "\<exists>kept gone left em'. keep_rules rest rs flows em = Inr (kept, gone, left, em') \<and> announced rest X em' \<and> set kept \<subseteq> set rs \<and>
    image_mset describe (mset flows) = image_mset (\<lambda>r. describe (rule_flow r)) (mset kept) + image_mset describe (mset left)"
  using assms
proof (induction rs arbitrary: flows em)
  case (Cons r rs)
  show ?case
  proof (cases "erase_first (\<lambda>f. equalflows f (rule_flow r)) flows")
    case None
    obtain em1 where em1: "addEvent rest Delete (rule_addr r) em = Inr em1" "announced rest X em1"
      using rule_log.del_ok [OF Cons.prems(1), of "rule_addr r"] Cons.prems(2) by auto
    show ?thesis using Cons.IH [OF em1(2), of flows] Cons.prems(2) None em1(1) by auto
  next
    case (Some flows')
    then obtain f where f: "describe f = describe (rule_flow r)" "mset flows = add_mset f (mset flows')"
      using erase_first_Some [OF Some] by (auto simp: equalflows_describe)
    show ?thesis using Cons.IH [OF Cons.prems(1), of flows'] Cons.prems(2) Some f by auto
  qed
qed simp

lemma add_rules_ok:
  assumes "announced rest X em"
  shows "\<exists>new m' em'. add_rules rest d flows m em = Inr (new, m', em') \<and> announced rest (X \<union> rule_addr ` set new) em' \<and>
    map rule_flow new = flows \<and> all_switches_rules m' = all_switches_rules m \<and> retired m' = retired m"
  using assms
proof (induction flows arbitrary: X m em)
  case (Cons f fs)
  obtain r m1 where r: "new_Rule d f m = (r, m1)" "rule_flow r = f" "all_switches_rules m1 = all_switches_rules m" "retired m1 = retired m"
    by (simp add: new_Rule_def)
  obtain em1 where em1: "addEvent rest Add (rule_addr r) em = Inr em1" "announced rest (insert (rule_addr r) X) em1"
    using rule_log.add_ok [OF Cons.prems] by blast
  show ?case using Cons.IH [OF em1(2), of m1] r em1(1) by auto
qed simp

definition known_rules :: "FlowManager \<Rightarrow> nat set" where
  "known_rules m = (\<Union>d. rule_addr ` set (rules_of m d))"

lemma rules_of_known: "rule_addr ` set (rules_of m d) \<subseteq> known_rules m"
  by (auto simp: known_rules_def)

lemma rules_of_upd: "rules_of (m\<lparr>all_switches_rules := R(d \<mapsto> rs), retired := g\<rparr>) k = (if k = d then rs else case R k of None \<Rightarrow> [] | Some rs \<Rightarrow> rs)"
  by (simp add: rules_of_def)

text \<open>The specification: the flows of the last report of each switch, none for a switch that is down.\<close>

datatype flow_event = FlowReply u64 "FlowStats list" | FlowSwitchDown u64

fun flow_spec :: "flow_event list \<Rightarrow> (u64 \<Rightarrow> FlowStats multiset) \<Rightarrow> u64 \<Rightarrow> FlowStats multiset" where
  "flow_spec [] T = T"
| "flow_spec (FlowReply d flows # es) T = flow_spec es (T(d := image_mset describe (mset flows)))"
| "flow_spec (FlowSwitchDown d # es) T = flow_spec es (T(d := {#}))"

fun fm_step :: "RestHandler \<Rightarrow> SwitchManager \<Rightarrow> flow_event \<Rightarrow> FlowManager \<times> EventManager \<Rightarrow> (FlowManager \<times> EventManager) res" where
  "fm_step rest sm (FlowReply d flows) w = onResponse rest sm d flows w"
| "fm_step rest sm (FlowSwitchDown d) w = cleanSwitchRules rest d w"

fun fm_run :: "RestHandler \<Rightarrow> SwitchManager \<Rightarrow> flow_event list \<Rightarrow> FlowManager \<times> EventManager \<Rightarrow> (FlowManager \<times> EventManager) res" where
  "fm_run rest sm [] w = Inr w"
| "fm_run rest sm (e # es) w = res_bind (fm_step rest sm e w) (fm_run rest sm es)"

definition flow_table :: "FlowManager \<Rightarrow> u64 \<Rightarrow> FlowStats multiset" where
  "flow_table m d = image_mset (\<lambda>r. describe (rule_flow r)) (mset (rules_of m d))"

lemma update_ok:
  assumes "announced rest (known_rules m) em"
  shows "\<exists>m' em'. updateSwitchRules rest d flows (m, em) = Inr (m', em') \<and> announced rest (known_rules m') em' \<and>
    flow_table m' = (flow_table m)(d := image_mset describe (mset flows))"
proof -
  obtain kept gone left em1 where k: "keep_rules rest (rules_of m d) flows em = Inr (kept, gone, left, em1)" "announced rest (known_rules m) em1"
      "set kept \<subseteq> set (rules_of m d)"
      "image_mset describe (mset flows) = image_mset (\<lambda>r. describe (rule_flow r)) (mset kept) + image_mset describe (mset left)"
    using keep_rules_ok [OF assms rules_of_known] by blast
  obtain new m1 em2 where n: "add_rules rest d left m em1 = Inr (new, m1, em2)" "announced rest (known_rules m \<union> rule_addr ` set new) em2"
      "map rule_flow new = left"
    using add_rules_ok [OF k(2)] by blast
  let ?m = "m1\<lparr>all_switches_rules := (all_switches_rules m)(d \<mapsto> kept @ new), retired := retired m @ gone\<rparr>"
  have r: "rules_of ?m x = (if x = d then kept @ new else rules_of m x)" for x by (simp add: rules_of_def)
  have "known_rules ?m \<subseteq> known_rules m \<union> rule_addr ` set new"
    using k(3) unfolding known_rules_def r by (fastforce split: if_splits)
  then have a: "announced rest (known_rules ?m) em2" by (rule rule_log.known_mono [OF n(2)])
  have "image_mset (\<lambda>r. describe (rule_flow r)) (mset new) = image_mset describe (mset left)"
    unfolding n(3) [symmetric] by (simp add: multiset.map_comp comp_def)
  then have "flow_table ?m = (flow_table m)(d := image_mset describe (mset flows))"
    unfolding flow_table_def r k(4) by auto
  then show ?thesis using k(1) n(1) a by (auto simp: updateSwitchRules_def)
qed

lemma clean_ok:
  assumes "announced rest (known_rules m) em"
  shows "\<exists>m' em'. cleanSwitchRules rest d (m, em) = Inr (m', em') \<and> announced rest (known_rules m') em' \<and> flow_table m' = (flow_table m)(d := {#})"
proof -
  obtain em1 where em1: "withdraw rest (rules_of m d) em = Inr em1" "announced rest (known_rules m) em1"
    unfolding withdraw_del_all using rule_log.del_all_ok [OF assms, of "map rule_addr (rules_of m d)"] rules_of_known [of m d] by auto
  let ?m = "m\<lparr>all_switches_rules := (all_switches_rules m)(d \<mapsto> []), retired := retired m @ map retire (rules_of m d)\<rparr>"
  have r: "rules_of ?m x = (if x = d then [] else rules_of m x)" for x by (simp add: rules_of_def)
  have "known_rules ?m \<subseteq> known_rules m" unfolding known_rules_def r by (fastforce split: if_splits)
  then have "announced rest (known_rules ?m) em1" by (rule rule_log.known_mono [OF em1(2)])
  moreover have "flow_table ?m = (flow_table m)(d := {#})" unfolding flow_table_def r by auto
  ultimately show ?thesis using em1(1) by (auto simp: cleanSwitchRules_def)
qed

lemma fm_run_ok:
  assumes "sm_ok sm" "\<forall>e \<in> set es. \<forall>d flows. e = FlowReply d flows \<longrightarrow> getSwitch d sm \<noteq> None" "announced rest (known_rules m) em"
  shows "\<exists>m' em'. fm_run rest sm es (m, em) = Inr (m', em') \<and> announced rest (known_rules m') em' \<and> flow_table m' = flow_spec es (flow_table m)"
  using assms(2,3)
proof (induction es arbitrary: m em)
  case (Cons e es)
  show ?case
  proof (cases e)
    case (FlowReply d flows)
    then obtain sw where sw: "getSwitch d sm = Some sw" using Cons.prems(1) by auto
    then have "sw_id sw = d" using assms(1) by (auto simp: getSwitch_def sm_ok_def sw_ok_def)
    then obtain m1 em1 where "onResponse rest sm d flows (m, em) = Inr (m1, em1)" "announced rest (known_rules m1) em1"
        "flow_table m1 = (flow_table m)(d := image_mset describe (mset flows))"
      using update_ok [OF Cons.prems(2), of d flows] sw by (auto simp: onResponse_def)
    note s = this
    obtain m2 em2 where "fm_run rest sm es (m1, em1) = Inr (m2, em2)" "announced rest (known_rules m2) em2" "flow_table m2 = flow_spec es (flow_table m1)"
      using Cons.IH [OF _ s(2)] Cons.prems(1) by auto
    then show ?thesis using s(1) unfolding FlowReply fm_run.simps fm_step.simps flow_spec.simps s(3) by auto
  next
    case (FlowSwitchDown d)
    obtain m1 em1 where "cleanSwitchRules rest d (m, em) = Inr (m1, em1)" "announced rest (known_rules m1) em1" "flow_table m1 = (flow_table m)(d := {#})"
      using clean_ok [OF Cons.prems(2)] by blast
    note s = this
    obtain m2 em2 where "fm_run rest sm es (m1, em1) = Inr (m2, em2)" "announced rest (known_rules m2) em2" "flow_table m2 = flow_spec es (flow_table m1)"
      using Cons.IH [OF _ s(2)] Cons.prems(1) by auto
    then show ?thesis using s(1) unfolding FlowSwitchDown fm_run.simps fm_step.simps flow_spec.simps s(3) by auto
  qed
qed simp

lemma keep_all:
  "image_mset (\<lambda>r. describe (rule_flow r)) (mset rs) = image_mset describe (mset flows) \<Longrightarrow> keep_rules rest rs flows em = Inr (rs, [], [], em)"
proof (induction rs arbitrary: flows)
  case (Cons r rs)
  have "describe (rule_flow r) \<in># image_mset describe (mset flows)" using Cons.prems by (metis image_mset_add_mset mset.simps(2) union_single_eq_member)
  then obtain f where "f \<in> set flows" "describe f = describe (rule_flow r)" by auto
  then obtain flows' where s: "erase_first (\<lambda>f. equalflows f (rule_flow r)) flows = Some flows'"
    by (cases "erase_first (\<lambda>f. equalflows f (rule_flow r)) flows") (auto simp: erase_first_None equalflows_describe)
  then obtain g where "describe g = describe (rule_flow r)" "mset flows = add_mset g (mset flows')"
    using erase_first_Some [OF s] by (auto simp: equalflows_describe)
  then have "image_mset (\<lambda>r. describe (rule_flow r)) (mset rs) = image_mset describe (mset flows')" using Cons.prems by simp
  from Cons.IH [OF this] s show ?case by simp
qed simp


text \<open>
  C21: The rules follow the reports of the switches. For every sequence of reports and switches going down, the flow
  manager never faults, and for each switch its rules stand for exactly the flows of the last report, each as often as it was reported, and for none after the switch
  went down. A report of the same flows changes nothing: every rule keeps its number, and no event is recorded.
\<close>

theorem flow_rules_track:
  assumes "sm_ok sm" "\<forall>e \<in> set es. \<forall>d flows. e = FlowReply d flows \<longrightarrow> getSwitch d sm \<noteq> None"
  shows "\<exists>m em'. fm_run rest sm es (new_FlowManager, em) = Inr (m, em') \<and> flow_table m = flow_spec es (\<lambda>_. {#}) \<and>
    (\<forall>d flows. flow_table m d = image_mset describe (mset flows) \<longrightarrow>
       updateSwitchRules rest d flows (m, em') = Inr (m\<lparr>all_switches_rules := (all_switches_rules m)(d \<mapsto> rules_of m d)\<rparr>, em'))"
proof -
  have "known_rules new_FlowManager = {}" "flow_table new_FlowManager = (\<lambda>_. {#})"
    by (simp_all add: known_rules_def flow_table_def rules_of_def new_FlowManager_def fun_eq_iff)
  moreover have "announced rest {} em" by (simp add: announced_def)
  ultimately obtain m em' where m: "fm_run rest sm es (new_FlowManager, em) = Inr (m, em')" "flow_table m = flow_spec es (\<lambda>_. {#})"
    using fm_run_ok [OF assms, of rest new_FlowManager em] by auto
  have "updateSwitchRules rest d flows (m, em') = Inr (m\<lparr>all_switches_rules := (all_switches_rules m)(d \<mapsto> rules_of m d)\<rparr>, em')"
    if "flow_table m d = image_mset describe (mset flows)" for d flows
    using keep_all [of "rules_of m d" flows] that by (simp add: updateSwitchRules_def flow_table_def)
  then show ?thesis using m by blast
qed

definition demo_flow :: "u64 \<Rightarrow> FlowStats" where
  "demo_flow c = \<lparr>fs_cookie = c, fs_hard = 0, fs_idle = 0, fs_priority = 1, fs_table = 0, fs_flags = 0, fs_match = no_match,
     fs_instructions = [GOTO_TABLE 1], fs_counters = []\<rparr>"

theorem flow_rules_track_witness:
  "\<exists>m em'. fm_run demo_rest [(2, demo_switch)] [FlowReply 2 [demo_flow 1, demo_flow 7], FlowReply 2 [demo_flow 7, demo_flow 9, demo_flow 7]]
       (new_FlowManager, \<lparr>events = [], last_event = 0\<rparr>) = Inr (m, em') \<and>
     flow_table m 2 = {#demo_flow 7, demo_flow 9, demo_flow 7#}"
proof -
  have "sm_ok [(2, demo_switch)]" by (simp add: sm_ok_def sw_ok_def demo_switch_def new_Switch_def demo_features_def demo_port_def)
  moreover have "\<forall>e \<in> set [FlowReply 2 [demo_flow 1, demo_flow 7], FlowReply 2 [demo_flow 7, demo_flow 9, demo_flow 7]].
      \<forall>d flows. e = FlowReply d flows \<longrightarrow> getSwitch d [(2, demo_switch)] \<noteq> None"
    by (simp add: getSwitch_def)
  ultimately obtain m em' where
      "fm_run demo_rest [(2, demo_switch)] [FlowReply 2 [demo_flow 1, demo_flow 7], FlowReply 2 [demo_flow 7, demo_flow 9, demo_flow 7]]
        (new_FlowManager, \<lparr>events = [], last_event = 0\<rparr>) = Inr (m, em')"
      "flow_table m = flow_spec [FlowReply 2 [demo_flow 1, demo_flow 7], FlowReply 2 [demo_flow 7, demo_flow 9, demo_flow 7]] (\<lambda>_. {#})"
    using flow_rules_track [of "[(2, demo_switch)]" _ demo_rest "\<lparr>events = [], last_event = 0\<rparr>"] by blast
  moreover from this(2) have "flow_table m 2 = {#demo_flow 7, demo_flow 9, demo_flow 7#}" by (simp add: describe_def demo_flow_def)
  ultimately show ?thesis by blast
qed

text \<open>A table is printed as the character with that number.\<close>

lemma goto_table_printed_as_char:
  "rule_to_json fl \<lparr>rule_addr = a, rule_id = i, rule_switch = d, rule_flow = demo_flow c, rule_active = True\<rparr> =
     JObj [(''acitive'', JStr ''yes''), (''switch_id'', JStr (dec_word d)), (''goto_table'', JStr [char_of (1 :: nat)]), (''out_port'', JArr []), (''set_field'', JArr [])]"
  by (simp add: rule_to_json_def demo_flow_def instruction_step_def field_if_def no_match_def request_match_def read_uint_def read_text_def at_key_def)

end
