(* ===== verification/Static_Flows.thy ===== *)
theory Static_Flows
  imports Rest_Flow
begin

text \<open>
  The static flow pusher: \<open>src/StaticFlowPusher.cc\<close>. It reserves a table, reads flows from the configuration and sends them to a switch
  that comes up; a deprecated request adds one more flow. The classes of libfluid are those of \<open>Rest_Match\<close> and \<open>Rest_Flow\<close>; the addresses its
  default constructors leave are \<open>unset\<close> of the parameter \<open>fluid\<close>. A handler gives an exception or a result, the new state and the messages sent before
  either.
\<close>

record FlowDesc =
  fd_in_port :: u32
  fd_out_port :: u32
  fd_eth_type :: u16
  fd_eth_src :: mac
  fd_eth_dst :: mac
  fd_ip_src :: u32
  fd_ip_dst :: u32
  fd_idle :: int
  fd_hard :: int
  fd_priority :: u16
  fd_modify :: "oxm_tlv list"

definition new_FlowDesc :: "fluid \<Rightarrow> FlowDesc" where
  "new_FlowDesc fl =
     \<lparr>fd_in_port = 0, fd_out_port = 0, fd_eth_type = 0, fd_eth_src = ucast (unset fl ''EthAddress''), fd_eth_dst = ucast (unset fl ''EthAddress''),
      fd_ip_src = ucast (unset fl ''IPAddress''), fd_ip_dst = ucast (unset fl ''IPAddress''), fd_idle = 0, fd_hard = 0, fd_priority = 0, fd_modify = []\<rparr>"

record StaticFlowPusher =
  flows_map :: "(string \<times> json) list"
  start_prio :: u32
  table_no :: u8

subsection \<open>Start-up\<close>

fun read_flows :: "json list \<Rightarrow> (string \<times> json) list \<Rightarrow> ((string \<times> json) list) req" where
  "read_flows [] m = Inr m"
| "read_flows (j # js) m =
     (let cc = object_items j; d = config_get_string cc ''dpid'' ''none''
      in if d \<noteq> ''none'' then res_bind (at_key cc ''flows'') (\<lambda>fs. read_flows js (AList.update d fs m)) else read_flows js m)"

definition sfp_init :: "(string \<times> json) list \<Rightarrow> Controller \<Rightarrow> StaticFlowPusher req \<times> Controller" where
  "sfp_init rootConfig c =
     (case reserveTable (fst (registerStaticTransaction c)) of (t, c') \<Rightarrow>
        (let config = config_cd rootConfig ''static-flow-pusher''
         in res_bind (case map_of config ''flows'' of None \<Rightarrow> Inr [] | Some fs \<Rightarrow> read_flows (array_items fs) [])
              (\<lambda>m. Inr \<lparr>flows_map = m, start_prio = 1, table_no = t\<rparr>),
         c'))"

subsection \<open>Messages\<close>

definition no_mac :: string where
  "no_mac = ''00:00:00:00:00:00''"

definition sets_ip :: "oxm_tlv \<Rightarrow> bool" where
  "sets_ip t = (case t of IPv4Src _ \<Rightarrow> True | IPv4Dst _ \<Rightarrow> True | _ \<Rightarrow> False)"

definition formFlowMod :: "fluid \<Rightarrow> FlowDesc \<Rightarrow> StaticFlowPusher \<Rightarrow> (FlowMod \<times> FlowDesc \<times> StaticFlowPusher) req" where
  "formFlowMod fl fd s =
     res_bind (ip_of fl ''0.0.0.0'') (\<lambda>zero.
       let ports = (if 0 < fd_in_port fd then [InPort (fd_in_port fd)] else []);
           src = (if mac_text fl (fd_eth_src fd) \<noteq> no_mac then [EthSrc (fd_eth_src fd)] else []);
           dst = (if mac_text fl (fd_eth_dst fd) \<noteq> no_mac then [EthDst (fd_eth_dst fd)] else []);
           ip_src = (if fd_ip_src fd \<noteq> zero then [IPv4Src (fd_ip_src fd)] else []);
           fd1 = (if fd_ip_src fd \<noteq> zero then fd\<lparr>fd_eth_type := 0x0800\<rparr> else fd);
           ip_dst = (if fd_ip_dst fd \<noteq> zero then [IPv4Dst (fd_ip_dst fd)] else []);
           fd2 = (if fd_ip_dst fd \<noteq> zero then fd1\<lparr>fd_eth_type := 0x0800\<rparr> else fd1);
           sets = map SET_FIELD (fd_modify fd);
           fd3 = (if list_ex sets_ip (fd_modify fd) then fd2\<lparr>fd_eth_type := 0x0800\<rparr> else fd2);
           ety = (if 0 < fd_eth_type fd3 then [EthType (fd_eth_type fd3)] else []);
           prio = (if fd_priority fd \<noteq> 0 then fd_priority fd else ucast (start_prio s));
           s' = (if fd_priority fd \<noteq> 0 then s else s\<lparr>start_prio := start_prio s + 1\<rparr>);
           out = (if 0 < fd_out_port fd then [OUTPUT (fd_out_port fd) 128] else [])
       in Inr ((new_FlowMod OFPFC_ADD)
                 \<lparr>fm_buffer_id := Some OFP_NO_BUFFER, fm_match := ports @ src @ dst @ ip_src @ ip_dst @ ety,
                  fm_idle_timeout := Some (word_of_int (fd_idle fd)), fm_hard_timeout := Some (word_of_int (fd_hard fd)),
                  fm_priority := Some prio, fm_table_id := Some (table_no s), fm_instructions := [APPLY_ACTIONS (sets @ out)]\<rparr>,
               fd3, s'))"

definition readFlowFromConfig :: "fluid \<Rightarrow> (string \<times> json) list \<Rightarrow> FlowDesc req" where
  "readFlowFromConfig fl config =
     (let num = word_of_int (config_get_int config ''out_port'' 0) :: u32;
          out = (if num = 0 then if config_get_string config ''out_port'' ''null'' = ''to-controller'' then OFPP_CONTROLLER else num else num)
      in res_bind (mac_of fl (config_get_string config ''eth_src'' no_mac)) (\<lambda>es.
         res_bind (mac_of fl (config_get_string config ''eth_dst'' no_mac)) (\<lambda>ed.
         res_bind (ip_of fl (config_get_string config ''ip_src'' ''0.0.0.0'')) (\<lambda>sip.
         res_bind (ip_of fl (config_get_string config ''ip_dst'' ''0.0.0.0'')) (\<lambda>dip.
           Inr ((new_FlowDesc fl)
             \<lparr>fd_in_port := word_of_int (config_get_int config ''in_port'' 0), fd_out_port := out, fd_eth_src := es, fd_eth_dst := ed,
              fd_ip_src := sip, fd_ip_dst := dip, fd_idle := config_get_int config ''idle'' 0, fd_hard := config_get_int config ''hard'' 0,
              fd_priority := word_of_int (config_get_int config ''priority'' 0)\<rparr>))))))"

definition cleanFlowTable :: "StaticFlowPusher \<Rightarrow> FlowMod" where
  "cleanFlowTable s = (new_FlowMod OFPFC_DELETE)
     \<lparr>fm_table_id := Some (table_no s), fm_out_port := Some OFPP_ANY, fm_out_group := Some OFPG_ANY\<rparr>"

type_synonym 'a pushed = "'a req \<times> StaticFlowPusher \<times> (u64 \<times> FlowMod) list"

definition sendToSwitch :: "fluid \<Rightarrow> u64 \<Rightarrow> FlowDesc \<Rightarrow> StaticFlowPusher \<Rightarrow> unit pushed" where
  "sendToSwitch fl d fd s = (case formFlowMod fl fd s of Inl e \<Rightarrow> (Inl e, s, []) | Inr (fm, fd', s') \<Rightarrow> (Inr (), s', [(d, fm)]))"

definition and_then :: "'a pushed \<Rightarrow> (StaticFlowPusher \<Rightarrow> 'b pushed) \<Rightarrow> 'b pushed" where
  "and_then p f = (case p of (Inl e, s, sent) \<Rightarrow> (Inl e, s, sent) | (Inr _, s, sent) \<Rightarrow> (case f s of (r, s', sent') \<Rightarrow> (r, s', sent @ sent')))"

fun push_flows :: "fluid \<Rightarrow> u64 \<Rightarrow> json list \<Rightarrow> StaticFlowPusher \<Rightarrow> unit pushed" where
  "push_flows fl d [] s = (Inr (), s, [])"
| "push_flows fl d (j # js) s =
     (case readFlowFromConfig fl (object_items j) of
        Inl e \<Rightarrow> (Inl e, s, [])
      | Inr fd \<Rightarrow> and_then (sendToSwitch fl d fd s) (push_flows fl d js))"

definition idstr :: "u64 \<Rightarrow> string" where
  "idstr d = map (\<lambda>i. xdigit_char (unat (take_bit 4 (drop_bit (4 * i) d)))) (rev [0..<16])"

definition flows_for :: "StaticFlowPusher \<Rightarrow> string \<Rightarrow> json list" where
  "flows_for s k = (case map_of (flows_map s) k of None \<Rightarrow> [] | Some fs \<Rightarrow> array_items fs)"

definition sfp_onSwitchUp :: "fluid \<Rightarrow> u64 \<Rightarrow> StaticFlowPusher \<Rightarrow> unit pushed" where
  "sfp_onSwitchUp fl d s = and_then (push_flows fl d (flows_for s ''all'') s) (\<lambda>s1. push_flows fl d (flows_for s1 (idstr d)) s1)"

subsection \<open>Requests\<close>

text \<open>A request reaches the handler only with the accepted path, so two parameters are there; with fewer the model throws.\<close>

definition stoull :: "string \<Rightarrow> u64 req" where
  "stoull t = (case stoull_value t of None \<Rightarrow> Inl OtherExn | Some n \<Rightarrow> Inr n)"

definition sfp_handle_int :: "(string \<times> json) list \<Rightarrow> string \<Rightarrow> (u32 \<Rightarrow> FlowDesc \<Rightarrow> FlowDesc) \<Rightarrow> FlowDesc \<Rightarrow> FlowDesc req" where
  "sfp_handle_int obj field upd fd =
     Inr (case map_of obj field of None \<Rightarrow> fd | Some j \<Rightarrow> if 0 < number_value j then upd (word_of_int (number_value j)) fd else fd)"

definition sfp_handle_text :: "(string \<Rightarrow> 'a req) \<Rightarrow> (string \<times> json) list \<Rightarrow> string \<Rightarrow> ('a \<Rightarrow> FlowDesc \<Rightarrow> FlowDesc) \<Rightarrow> FlowDesc \<Rightarrow> FlowDesc req" where
  "sfp_handle_text conv obj field upd fd =
     (case map_of obj field of
        None \<Rightarrow> Inr fd
      | Some j \<Rightarrow> if string_value j = [] then Inr fd else res_bind (conv (string_value j)) (\<lambda>v. Inr (upd v fd)))"

definition modifyField :: "oxm_tlv \<Rightarrow> FlowDesc \<Rightarrow> FlowDesc" where
  "modifyField t fd = fd\<lparr>fd_modify := fd_modify fd @ [t]\<rparr>"

definition read_request :: "fluid \<Rightarrow> (string \<times> json) list \<Rightarrow> FlowDesc req" where
  "read_request fl obj =
     steps [sfp_handle_int obj ''in_port'' (\<lambda>v. fd_in_port_update (\<lambda>_. v)), sfp_handle_int obj ''out_port'' (\<lambda>v. fd_out_port_update (\<lambda>_. v)),
            sfp_handle_text (mac_of fl) obj ''eth_src'' (\<lambda>v. fd_eth_src_update (\<lambda>_. v)),
            sfp_handle_text (mac_of fl) obj ''eth_dst'' (\<lambda>v. fd_eth_dst_update (\<lambda>_. v)),
            sfp_handle_text (ip_of fl) obj ''ip_src'' (\<lambda>v. fd_ip_src_update (\<lambda>_. v)),
            sfp_handle_text (ip_of fl) obj ''ip_dst'' (\<lambda>v. fd_ip_dst_update (\<lambda>_. v)),
            sfp_handle_text (mac_of fl) obj ''modify_eth_src'' (\<lambda>v. modifyField (EthSrc v)),
            sfp_handle_text (mac_of fl) obj ''modify_eth_dst'' (\<lambda>v. modifyField (EthDst v)),
            sfp_handle_text (ip_of fl) obj ''modify_ip_src'' (\<lambda>v. modifyField (IPv4Src v)),
            sfp_handle_text (ip_of fl) obj ''modify_ip_dst'' (\<lambda>v. modifyField (IPv4Dst v))] (new_FlowDesc fl)"

definition sfp_handlePOST :: "(string \<Rightarrow> json \<times> string) \<Rightarrow> fluid \<Rightarrow> SwitchManager \<Rightarrow> string list \<Rightarrow> string \<Rightarrow> StaticFlowPusher \<Rightarrow> json pushed" where
  "sfp_handlePOST json_parse fl sm params body s =
     (if params = [] then (Inl OtherExn, s, [])
      else if params ! 0 \<noteq> ''newflow'' then (Inr (JStr ''{}''), s, [])
      else case (if length params < 2 then Inl OtherExn else stoull (params ! 1)) of
        Inl e \<Rightarrow> (Inl e, s, [])
      | Inr i \<Rightarrow>
          (case getSwitch i sm of
             None \<Rightarrow> (Inr (JStr ''{\"error\": \"switch now found\"}''), s, [])
           | Some sw \<Rightarrow>
               (case json_parse body of (j, err) \<Rightarrow>
                  if err \<noteq> [] then (Inr (JStr ''{}''), s, [])
                  else case read_request fl (object_items j) of
                    Inl e \<Rightarrow> (Inl e, s, [])
                  | Inr fd \<Rightarrow>
                      and_then (sendToSwitch fl (sw_id sw) fd s)
                        (\<lambda>s'. (Inr (JStr ''{\"static-flow-pusher\": \"new flow added\"}''), s', [])))))"


subsection \<open>Every rule the pusher sends\<close>

text \<open>A run is a sequence of switches that come up and of requests; an exception ends only its handler.\<close>

datatype push_event = SwitchUp u64 | NewFlow "string list" string

definition pusher_step :: "(string \<Rightarrow> json \<times> string) \<Rightarrow> fluid \<Rightarrow> SwitchManager \<Rightarrow> push_event \<Rightarrow> StaticFlowPusher \<Rightarrow> StaticFlowPusher \<times> (u64 \<times> FlowMod) list" where
  "pusher_step json_parse fl sm e s =
     (case e of SwitchUp d \<Rightarrow> snd (sfp_onSwitchUp fl d s) | NewFlow params body \<Rightarrow> snd (sfp_handlePOST json_parse fl sm params body s))"

fun pusher_run :: "(string \<Rightarrow> json \<times> string) \<Rightarrow> fluid \<Rightarrow> SwitchManager \<Rightarrow> push_event list \<Rightarrow> StaticFlowPusher \<Rightarrow> StaticFlowPusher \<times> (u64 \<times> FlowMod) list" where
  "pusher_run json_parse fl sm [] s = (s, [])"
| "pusher_run json_parse fl sm (e # es) s =
     (case pusher_step json_parse fl sm e s of (s1, sent) \<Rightarrow>
        (case pusher_run json_parse fl sm es s1 of (s2, sent') \<Rightarrow> (s2, sent @ sent')))"

text \<open>A rule of the pusher: it adds to the reserved table, its match and its set-field actions have the fields OpenFlow requires, and it ends the processing of a packet.\<close>

definition static_rule :: "u8 \<Rightarrow> FlowMod \<Rightarrow> bool" where
  "static_rule t fm \<longleftrightarrow>
     fm_command fm = OFPFC_ADD \<and> fm_table_id fm = Some t \<and> well_typed (set (fm_match fm)) \<and>
     (\<exists>acts. fm_instructions fm = [APPLY_ACTIONS acts] \<and>
        (\<forall>a. SET_FIELD (IPv4Src a) \<in> set acts \<or> SET_FIELD (IPv4Dst a) \<in> set acts \<longrightarrow> EthType 0x0800 \<in> set (fm_match fm)))"

definition names_priority :: "json \<Rightarrow> bool" where
  "names_priority j \<longleftrightarrow> (word_of_int (config_get_int (object_items j) ''priority'' 0) :: u16) \<noteq> 0"

text \<open>What a step sends, from a state of the counter: \<open>auto\<close> says that every rule is numbered by the counter.\<close>

definition sends :: "bool \<Rightarrow> StaticFlowPusher \<Rightarrow> StaticFlowPusher \<times> (u64 \<times> FlowMod) list \<Rightarrow> bool" where
  "sends auto s p \<longleftrightarrow>
     (case p of (s', sent) \<Rightarrow>
        flows_map s' = flows_map s \<and> table_no s' = table_no s \<and> (\<forall>m\<in>set sent. static_rule (table_no s) (snd m)) \<and>
        (\<exists>n\<le>length sent. start_prio s' = start_prio s + of_nat n) \<and>
        (\<forall>k. start_prio s = of_nat k \<and> 0 < k \<and> k + length sent \<le> 2 ^ 16 \<longrightarrow> (\<forall>m\<in>set sent. \<exists>q. fm_priority (snd m) = Some q \<and> q \<noteq> 0)) \<and>
        (auto \<longrightarrow> start_prio s' = start_prio s + of_nat (length sent) \<and>
           map (\<lambda>m. fm_priority (snd m)) sent = map (\<lambda>i. Some (ucast (start_prio s + of_nat i))) [0..<length sent]))"

lemma sends_none [simp]: "sends auto s (s, [])"
  by (auto simp: sends_def)

lemma sends_append:
  assumes "sends auto s (s1, as)" "sends auto s1 (s2, bs)"
  shows "sends auto s (s2, as @ bs)"
proof -
  obtain n where n: "n \<le> length as" "start_prio s1 = start_prio s + of_nat n" using assms(1) by (auto simp: sends_def)
  obtain n' where n': "n' \<le> length bs" "start_prio s2 = start_prio s1 + of_nat n'" using assms(2) by (auto simp: sends_def)
  have "start_prio s2 = start_prio s + of_nat (n + n')" "n + n' \<le> length (as @ bs)" using n n' by (simp_all add: add.assoc)
  then have c: "\<exists>n\<le>length (as @ bs). start_prio s2 = start_prio s + of_nat n" by blast
  have p: "\<exists>q. fm_priority (snd m) = Some q \<and> q \<noteq> 0"
    if "start_prio s = of_nat k" "0 < k" "k + length (as @ bs) \<le> 2 ^ 16" "m \<in> set (as @ bs)" for k m
  proof (cases "m \<in> set as")
    case True
    then show ?thesis using assms(1) that unfolding sends_def by auto
  next
    case False
    have "start_prio s1 = of_nat (k + n)" "0 < k + n" "k + n + length bs \<le> 2 ^ 16" using that n by auto
    then show ?thesis using assms(2) that(4) False unfolding sends_def by fastforce
  qed
  have a: "map (\<lambda>m. fm_priority (snd m)) (as @ bs) = map (\<lambda>i. Some (ucast (start_prio s + of_nat i))) [0..<length (as @ bs)]"
    if auto
  proof -
    have "[0..<length (as @ bs)] = [0..<length as] @ map (\<lambda>i. length as + i) [0..<length bs]"
      using upt_add_eq_append [of 0 "length as" "length bs"] by (simp add: map_add_upt add.commute)
    then show ?thesis using assms that by (simp add: sends_def add.assoc comp_def)
  qed
  have "start_prio s2 = start_prio s + of_nat (length (as @ bs))" if auto using assms that by (simp add: sends_def add.assoc)
  moreover have "flows_map s2 = flows_map s" "table_no s2 = table_no s" "\<forall>m\<in>set (as @ bs). static_rule (table_no s) (snd m)"
    using assms by (auto simp: sends_def)
  ultimately show ?thesis unfolding sends_def prod.case using c p a by blast
qed

lemma sends_and_then:
  assumes "sends auto s (snd p)" "\<And>s'. flows_map s' = flows_map s \<Longrightarrow> table_no s' = table_no s \<Longrightarrow> sends auto s' (snd (f s'))"
  shows "sends auto s (snd (and_then p f))"
proof -
  obtain r s1 as where p: "p = (r, s1, as)" by (cases p)
  have "sends auto s1 (snd (f s1))" using assms(1) by (intro assms(2)) (auto simp: p sends_def)
  then show ?thesis using assms(1) sends_append [of auto s s1 as]
    by (auto simp: and_then_def p split: sum.splits prod.splits)
qed

lemma ucast_of_nat_16: "(ucast (of_nat n :: u32) :: u16) = of_nat n"
  by (rule bit_word_eqI) (auto simp: bit_simps bit_of_nat_iff)

lemma automatic_priority:
  assumes "0 < k" "k < 2 ^ 16"
  shows "(ucast (of_nat k :: u32) :: u16) \<noteq> 0"
proof
  assume "(ucast (of_nat k :: u32) :: u16) = 0"
  then have "unat (of_nat k :: u16) = 0" by (simp add: ucast_of_nat_16)
  then show False using assms by (simp add: unat_of_nat)
qed

lemma sets_ip_member: "IPv4Src a \<in> set ts \<Longrightarrow> list_ex sets_ip ts" "IPv4Dst a \<in> set ts \<Longrightarrow> list_ex sets_ip ts"
  by (force simp: list_ex_iff sets_ip_def)+

lemma formFlowMod_rule:
  assumes "formFlowMod fl fd s = Inr (fm, fd', s')"
  shows "static_rule (table_no s) fm"
  using assms by (auto simp: formFlowMod_def static_rule_def well_typed_def new_FlowMod_def res_bind_eq_Inr Let_def dest: sets_ip_member)

lemma formFlowMod_counter:
  assumes "formFlowMod fl fd s = Inr (fm, fd', s')"
  shows "flows_map s' = flows_map s" "table_no s' = table_no s"
    "if fd_priority fd \<noteq> 0 then s' = s \<and> fm_priority fm = Some (fd_priority fd)
     else start_prio s' = start_prio s + 1 \<and> fm_priority fm = Some (ucast (start_prio s))"
  using assms by (auto simp: formFlowMod_def res_bind_eq_Inr Let_def)

lemma sendToSwitch_sends:
  assumes "auto \<Longrightarrow> fd_priority fd = 0"
  shows "sends auto s (snd (sendToSwitch fl d fd s))"
proof (cases "formFlowMod fl fd s")
  case (Inr x)
  obtain fm fd' s' where x: "x = (fm, fd', s')" by (cases x)
  note c = formFlowMod_counter [OF Inr [unfolded x]]
  have n: "\<exists>n\<le>Suc 0. start_prio s' = start_prio s + of_nat n"
  proof (cases "fd_priority fd = 0")
    case True
    then show ?thesis using c(3) by (intro exI [of _ "Suc 0"]) simp
  next
    case False
    then show ?thesis using c(3) by (intro exI [of _ 0]) simp
  qed
  have "\<exists>q. fm_priority fm = Some q \<and> q \<noteq> 0" if "start_prio s = of_nat k" "0 < k" "k < 2 ^ 16" for k
    using c(3) automatic_priority [OF that(2,3)] that(1) by (auto split: if_splits)
  then show ?thesis using formFlowMod_rule [OF Inr [unfolded x]] c assms n
    by (auto simp: sendToSwitch_def Inr x sends_def split: if_splits)
qed (simp add: sendToSwitch_def)

lemma push_flows_sends:
  assumes "auto \<Longrightarrow> \<not> list_ex names_priority js"
  shows "sends auto s (snd (push_flows fl d js s))"
  using assms
proof (induction js arbitrary: s)
  case (Cons j js)
  show ?case
  proof (cases "readFlowFromConfig fl (object_items j)")
    case (Inr fd)
    then have "fd_priority fd = word_of_int (config_get_int (object_items j) ''priority'' 0)"
      by (auto simp: readFlowFromConfig_def res_bind_eq_Inr Let_def)
    then have "sends auto s (snd (sendToSwitch fl d fd s))"
      using Cons.prems by (intro sendToSwitch_sends) (auto simp: names_priority_def)
    then show ?thesis using Cons by (auto simp: Inr intro!: sends_and_then)
  qed simp
qed simp

lemma steps_invariant:
  assumes "steps fs s = Inr t" "P s" "\<And>f x y. f \<in> set fs \<Longrightarrow> f x = Inr y \<Longrightarrow> P x \<Longrightarrow> P y"
  shows "P t"
  using assms by (induction fs arbitrary: s) (auto simp: res_bind_eq_Inr)

lemma read_request_priority: "read_request fl obj = Inr fd \<Longrightarrow> fd_priority fd = 0"
  unfolding read_request_def
  by (erule steps_invariant [where P = "\<lambda>fd. fd_priority fd = 0"])
     (auto simp: new_FlowDesc_def sfp_handle_int_def sfp_handle_text_def modifyField_def res_bind_eq_Inr split: option.splits if_splits)

lemma pusher_step_sends:
  assumes "auto \<Longrightarrow> \<forall>k. \<not> list_ex names_priority (flows_for s k)"
  shows "sends auto s (pusher_step json_parse fl sm e s)"
proof (cases e)
  case (SwitchUp d)
  then show ?thesis using assms
    by (auto simp: pusher_step_def sfp_onSwitchUp_def flows_for_def intro!: sends_and_then push_flows_sends)
next
  case (NewFlow params body)
  have "sends auto s (snd (and_then (sendToSwitch fl d fd s) (\<lambda>s'. (Inr j, s', []))))" if "read_request fl obj = Inr fd" for d fd obj j
    using read_request_priority [OF that] by (intro sends_and_then sendToSwitch_sends) simp_all
  then show ?thesis
    by (auto simp: NewFlow pusher_step_def sfp_handlePOST_def split: sum.splits option.splits prod.splits if_splits)
qed

lemma pusher_run_sends:
  assumes "auto \<Longrightarrow> \<forall>k. \<not> list_ex names_priority (flows_for s k)"
  shows "sends auto s (pusher_run json_parse fl sm es s)"
  using assms
proof (induction es arbitrary: s)
  case (Cons e es)
  obtain s1 sent where e: "pusher_step json_parse fl sm e s = (s1, sent)" by (cases "pusher_step json_parse fl sm e s")
  have s: "sends auto s (s1, sent)" using pusher_step_sends [of auto s json_parse fl sm e] Cons.prems e by simp
  then have "flows_for s1 = flows_for s" by (auto simp: sends_def flows_for_def)
  then have "sends auto s1 (pusher_run json_parse fl sm es s1)" using Cons by simp
  then show ?case using sends_append [OF s] by (auto simp: e split: prod.splits)
qed simp

text \<open>
  C24: The rules of the static flow pusher. Along every run of a pusher that has just started, every message adds a rule to the reserved table whose match is
  well typed, whose set-field actions have the match they require, and which applies actions and nothing else. As long as fewer than 65536 rules were sent, each
  has a positive priority, so none replaces the rule that leads to the next table. If the configuration names no priorities the rules are numbered
  1, 2, 3 and so on in the order they are sent, modulo 65536: the 65536th has priority 0.
\<close>

theorem static_rules:
  assumes "sfp_init rootConfig c = (Inr s, c')" "pusher_run json_parse fl sm es s = (s', sent)"
  shows "(\<forall>m\<in>set sent. static_rule (handler_table c) (snd m)) \<and>
    (length sent < 2 ^ 16 \<longrightarrow> (\<forall>m\<in>set sent. \<exists>q. fm_priority (snd m) = Some q \<and> 0 < q)) \<and>
    ((\<forall>k. \<not> list_ex names_priority (flows_for s k)) \<longrightarrow>
       map (\<lambda>m. fm_priority (snd m)) sent = map (\<lambda>i. Some (of_nat i)) [1..<Suc (length sent)])"
proof (intro conjI impI)
  have i: "start_prio s = 1" "table_no s = handler_table c"
    using assms(1) by (auto simp: sfp_init_def Let_def reserveTable_def registerStaticTransaction_def res_bind_eq_Inr split: if_splits)
  have r: "sends False s (s', sent)" using pusher_run_sends [of False s json_parse fl sm es] assms(2) by simp
  then show "\<forall>m\<in>set sent. static_rule (handler_table c) (snd m)" by (simp add: sends_def i)
  have "start_prio s = of_nat 1" using i by simp
  then show "\<forall>m\<in>set sent. \<exists>q. fm_priority (snd m) = Some q \<and> 0 < q" if "length sent < 2 ^ 16"
    using r that unfolding sends_def word_neq_0_conv prod.case by (metis One_nat_def Suc_leI add.commute plus_1_eq_Suc zero_less_Suc)
  assume "\<forall>k. \<not> list_ex names_priority (flows_for s k)"
  then have "sends True s (s', sent)" using pusher_run_sends [of True s json_parse fl sm es] assms(2) by simp
  then have "map (\<lambda>m. fm_priority (snd m)) sent = map (\<lambda>n. Some (ucast (of_nat (Suc n) :: u32))) [0..<length sent]"
    by (simp add: sends_def i)
  also have "\<dots> = map (\<lambda>i. Some (of_nat i)) [1..<Suc (length sent)]"
    unfolding One_nat_def map_Suc_upt [symmetric] map_map comp_def by (simp only: ucast_of_nat_16)
  finally show "map (\<lambda>m. fm_priority (snd m)) sent = map (\<lambda>i. Some (of_nat i)) [1..<Suc (length sent)]" .
qed

definition demo_flows :: json where
  "demo_flows = JArr [JObj [(''in_port'', JNum 1), (''out_port'', JStr ''to-controller''), (''ip_dst'', JStr ''10.0.0.1'')]]"

definition demo_network :: "(string \<times> json) list" where
  "demo_network = [(''static-flow-pusher'', JObj [(''flows'', JArr [JObj [(''dpid'', JStr ''all''), (''flows'', demo_flows)]])])]"

definition demo_pusher :: StaticFlowPusher where
  "demo_pusher = \<lparr>flows_map = [(''all'', demo_flows)], start_prio = 1, table_no = 0\<rparr>"

definition demo_sent :: "(u64 \<times> FlowMod) list" where
  "demo_sent = snd (pusher_run (\<lambda>_. (JNull, [])) demo_fluid [] [SwitchUp 1, SwitchUp 2] demo_pusher)"

lemma demo_sent_length: "length demo_sent = 2"
  by code_simp

lemma demo_pusher_automatic: "\<not> list_ex names_priority (flows_for demo_pusher k)"
  by (simp add: flows_for_def demo_pusher_def demo_flows_def array_items_def object_items_def names_priority_def config_get_int_def)

theorem static_rules_witness:
  "length demo_sent = 2 \<and> list_all (\<lambda>m. static_rule 0 (snd m) \<and> (\<exists>q. fm_priority (snd m) = Some q \<and> 0 < q)) demo_sent \<and>
   map (\<lambda>m. fm_priority (snd m)) demo_sent = [Some 1, Some 2]"
proof -
  obtain s' where run: "pusher_run (\<lambda>_. (JNull, [])) demo_fluid [] [SwitchUp 1, SwitchUp 2] demo_pusher = (s', demo_sent)"
    by (simp add: demo_sent_def prod_eq_iff)
  have init: "sfp_init demo_network new_Controller = (Inr demo_pusher, snd (sfp_init demo_network new_Controller))"
    by (simp add: sfp_init_def demo_network_def demo_pusher_def new_Controller_def registerStaticTransaction_def reserveTable_def config_cd_def object_items_def
        array_items_def config_get_string_def string_value_def at_key_def Let_def)
  note rules = static_rules [OF init run]
  have "\<forall>m\<in>set demo_sent. static_rule 0 (snd m)" using rules by (simp add: new_Controller_def)
  moreover have "\<forall>m\<in>set demo_sent. \<exists>q. fm_priority (snd m) = Some q \<and> 0 < q" using rules by (simp add: demo_sent_length)
  moreover have "map (\<lambda>m. fm_priority (snd m)) demo_sent = [Some 1, Some 2]"
    using rules demo_pusher_automatic by (simp add: demo_sent_length numeral_2_eq_2)
  ultimately show ?thesis by (simp add: list_all_iff demo_sent_length)
qed

text \<open>
  A configured text that is no address ends the handler of the switch: the flows before it are sent, those after it are not, and the error is not
  reported anywhere.
\<close>

theorem bad_flow_stops:
  assumes "\<forall>j\<in>set as. \<exists>fd. readFlowFromConfig fl (object_items j) = Inr fd" "ip_of fl ''0.0.0.0'' = Inr z"
    "readFlowFromConfig fl (object_items j) = Inl e"
  shows "\<exists>s' sent. push_flows fl d (as @ j # bs) s = (Inl e, s', sent) \<and> length sent = length as"
  using assms(1)
proof (induction as arbitrary: s)
  case (Cons a as)
  then obtain fd where fd: "readFlowFromConfig fl (object_items a) = Inr fd" by auto
  obtain fm fd' s1 where s1: "formFlowMod fl fd s = Inr (fm, fd', s1)" using assms(2) by (simp add: formFlowMod_def Let_def)
  obtain s' sent where "push_flows fl d (as @ j # bs) s1 = (Inl e, s', sent)" "length sent = length as" using Cons.IH [of s1] Cons.prems by auto
  then show ?case by (simp add: fd sendToSwitch_def s1 and_then_def)
qed (simp add: assms(3))

end
