(* ===== verification/Switch_Stats.thy ===== *)
theory Switch_Stats
  imports Static_Flows
begin

text \<open>
  Port statistics: \<open>src/Stats.cc\<close>. The application asks the switches for the counters of their ports, keeps the last answer for each port and hands it to web
  clients. The hash maps are association lists; their order is not observed by any statement. A port is filed under its number read as an \<open>int\<close>. What
  \<open>atoi\<close> gives for a number that is no \<open>int\<close>, and what libfluid constructs by default, are parameters.
\<close>

record PortStats =
  tx_dropped :: u64
  rx_packets :: u64
  rx_crc_err :: u64
  tx_bytes :: u64
  rx_dropped :: u64
  port_no :: u32
  rx_over_err :: u64
  rx_frame_err :: u64
  rx_bytes :: u64
  tx_errors :: u64
  duration_nsec :: u32
  collisions :: u64
  duration_sec :: u32
  rx_errors :: u64
  tx_packets :: u64

record SwitchPortStats =
  sps_sw :: "u64 option"
  port_stats :: "(int \<times> PortStats) list"

type_synonym SwitchStats = "(u64 \<times> SwitchPortStats) list"

definition show_counter :: "string \<Rightarrow> 'a::len word \<Rightarrow> string \<times> json" where
  "show_counter k w = (k, JStr (dec (unat w)))"

definition port_to_json :: "PortStats \<Rightarrow> json" where
  "port_to_json s =
     JObj [show_counter ''tx_dropped'' (tx_dropped s), show_counter ''rx_packets'' (rx_packets s), show_counter ''rx_crc_err'' (rx_crc_err s),
           show_counter ''tx_bytes'' (tx_bytes s), show_counter ''rx_dropped'' (rx_dropped s), show_counter ''port_no'' (port_no s),
           show_counter ''rx_over_err'' (rx_over_err s), show_counter ''rx_frame_err'' (rx_frame_err s), show_counter ''rx_bytes'' (rx_bytes s),
           show_counter ''tx_errors'' (tx_errors s), show_counter ''duration_nsec'' (duration_nsec s), show_counter ''collisions'' (collisions s),
           show_counter ''duration_sec'' (duration_sec s), show_counter ''rx_errors'' (rx_errors s), show_counter ''tx_packets'' (tx_packets s)]"

definition port_stats_id :: "PortStats \<Rightarrow> u64" where
  "port_stats_id s = ucast (port_no s)"

definition to_vector :: "SwitchPortStats \<Rightarrow> PortStats list" where
  "to_vector sps = map snd (port_stats sps)"

definition insertElem :: "int \<times> PortStats \<Rightarrow> SwitchPortStats \<Rightarrow> SwitchPortStats" where
  "insertElem kv sps = (if map_of (port_stats sps) (fst kv) = None then sps\<lparr>port_stats := kv # port_stats sps\<rparr> else sps)"

definition getElem :: "int \<Rightarrow> SwitchPortStats \<Rightarrow> PortStats res" where
  "getElem k sps = (case map_of (port_stats sps) k of None \<Rightarrow> Inl (Thrown ''std::out_of_range'') | Some s \<Rightarrow> Inr s)"

definition setElem :: "int \<Rightarrow> PortStats \<Rightarrow> SwitchPortStats \<Rightarrow> SwitchPortStats" where
  "setElem k s sps = sps\<lparr>port_stats := AList.update k s (port_stats sps)\<rparr>"

subsection \<open>The handlers\<close>

definition newSwitch :: "u64 \<Rightarrow> SwitchStats \<Rightarrow> SwitchStats" where
  "newSwitch d m = (if map_of m d = None then (d, \<lparr>sps_sw = Some d, port_stats = []\<rparr>) # m else m)"

definition store_port :: "PortStats \<Rightarrow> SwitchPortStats \<Rightarrow> SwitchPortStats" where
  "store_port s sps =
     (let k = sint (port_no s) in case getElem k sps of Inr _ \<Rightarrow> setElem k s sps | Inl _ \<Rightarrow> insertElem (k, s) sps)"

fun store_ports :: "u64 \<Rightarrow> PortStats list \<Rightarrow> SwitchStats \<Rightarrow> SwitchStats res" where
  "store_ports d [] m = Inr m"
| "store_ports d (s # ss) m =
     (case map_of m d of
        None \<Rightarrow> Inl (Thrown ''std::out_of_range'')
      | Some sps \<Rightarrow> store_ports d ss (AList.update d (store_port s sps) m))"

definition portStatsArrived :: "u64 \<Rightarrow> bool \<Rightarrow> PortStats list \<Rightarrow> SwitchStats \<Rightarrow> SwitchStats res" where
  "portStatsArrived d multipart ss m = (if \<not> multipart then Inr m else store_ports d ss m)"

record PortStatsRequest =
  psr_flags :: u16
  psr_port_no :: u32

definition pollTimeout :: "(nat \<Rightarrow> bool) \<Rightarrow> SwitchManager \<Rightarrow> SwitchStats \<Rightarrow> (u64 \<times> PortStatsRequest) list" where
  "pollTimeout alive sm m = map (\<lambda>d. (d, \<lparr>psr_flags = 0, psr_port_no = OFPP_ANY\<rparr>)) (filter (\<lambda>d. map_of m d \<noteq> None) (alive_switches alive sm))"

text \<open>Reading a hash map by \<open>operator[]\<close> inserts what is not there.\<close>

definition switch_entry :: "u64 \<Rightarrow> SwitchStats \<Rightarrow> SwitchPortStats \<times> SwitchStats" where
  "switch_entry d m =
     (case map_of m d of Some sps \<Rightarrow> (sps, m) | None \<Rightarrow> (let sps = \<lparr>sps_sw = None, port_stats = []\<rparr> in (sps, (d, sps) # m)))"

definition atoi :: "(string \<Rightarrow> int) \<Rightarrow> string \<Rightarrow> int" where
  "atoi overflow t = (let n = dec_value 0 (takeWhile is_digit t) in if n < 2 ^ 31 then int n else overflow t)"

definition stats_handleGET :: "(string \<Rightarrow> int) \<Rightarrow> PortStats \<Rightarrow> u64 \<Rightarrow> string \<Rightarrow> SwitchStats \<Rightarrow> json \<times> SwitchStats" where
  "stats_handleGET overflow blank d which m =
     (case switch_entry d m of (sps, m1) \<Rightarrow>
        if which = ''all'' then (JObj [(dec (unat d), JArr (map port_to_json (to_vector sps)))], m1)
        else
          (let k = atoi overflow which;
               s = (case getElem k sps of Inr s \<Rightarrow> s | Inl _ \<Rightarrow> blank)
           in (JObj [(dec (unat d), JArr [port_to_json s])], AList.update d (insertElem (k, s) sps) m1)))"

definition stats_GET :: "(string \<Rightarrow> int) \<Rightarrow> PortStats \<Rightarrow> string list \<Rightarrow> SwitchStats \<Rightarrow> (json \<times> SwitchStats) req" where
  "stats_GET overflow blank params m =
     (if length params < 3 then Inl OtherExn
      else res_bind (stoull (params ! 1)) (\<lambda>d. Inr (stats_handleGET overflow blank d (params ! 2) m)))"

subsection \<open>The last report of every port\<close>

datatype stats_event = Discovered u64 | Report u64 bool "PortStats list" | Asked u64 string

fun stats_run :: "(string \<Rightarrow> int) \<Rightarrow> PortStats \<Rightarrow> stats_event list \<Rightarrow> SwitchStats \<Rightarrow> SwitchStats res" where
  "stats_run overflow blank [] m = Inr m"
| "stats_run overflow blank (Discovered d # es) m = stats_run overflow blank es (newSwitch d m)"
| "stats_run overflow blank (Report d multipart ss # es) m = res_bind (portStatsArrived d multipart ss m) (stats_run overflow blank es)"
| "stats_run overflow blank (Asked d which # es) m = stats_run overflow blank es (snd (stats_handleGET overflow blank d which m))"

text \<open>The specification: a port has the counters of its last report; one that was only asked for has the default ones.\<close>

type_synonym stats_view = "u64 \<Rightarrow> int \<Rightarrow> PortStats option"

definition view_report :: "u64 \<Rightarrow> PortStats list \<Rightarrow> stats_view \<Rightarrow> stats_view" where
  "view_report d ss v = v(d := v d ++ map_of (rev (map (\<lambda>s. (sint (port_no s), s)) ss)))"

fun stats_spec :: "(string \<Rightarrow> int) \<Rightarrow> PortStats \<Rightarrow> stats_event list \<Rightarrow> stats_view \<Rightarrow> stats_view" where
  "stats_spec overflow blank [] v = v"
| "stats_spec overflow blank (Discovered d # es) v = stats_spec overflow blank es v"
| "stats_spec overflow blank (Report d multipart ss # es) v = stats_spec overflow blank es (if multipart then view_report d ss v else v)"
| "stats_spec overflow blank (Asked d which # es) v =
     stats_spec overflow blank es
       (if which = ''all'' \<or> v d (atoi overflow which) \<noteq> None then v else v(d := (v d)(atoi overflow which \<mapsto> blank)))"

text \<open>A switch reports only after it was discovered: requests go to the switches of the table.\<close>

fun reports_ok :: "u64 set \<Rightarrow> stats_event list \<Rightarrow> bool" where
  "reports_ok D [] \<longleftrightarrow> True"
| "reports_ok D (Discovered d # es) \<longleftrightarrow> reports_ok (insert d D) es"
| "reports_ok D (Report d multipart ss # es) \<longleftrightarrow> d \<in> D \<and> reports_ok D es"
| "reports_ok D (Asked d which # es) \<longleftrightarrow> reports_ok D es"

definition stats_view :: "SwitchStats \<Rightarrow> stats_view" where
  "stats_view m d = (case map_of m d of None \<Rightarrow> Map.empty | Some sps \<Rightarrow> map_of (port_stats sps))"

definition known_switches :: "SwitchStats \<Rightarrow> u64 set" where
  "known_switches m = fst ` set m"

definition ports_ok :: "SwitchStats \<Rightarrow> bool" where
  "ports_ok m \<longleftrightarrow> (\<forall>d sps. map_of m d = Some sps \<longrightarrow> distinct (map fst (port_stats sps)))"

lemma known_iff: "d \<in> known_switches m \<longleftrightarrow> map_of m d \<noteq> None"
  by (simp add: known_switches_def map_of_eq_None_iff)

lemma stats_view_update: "stats_view (AList.update d sps m) = (stats_view m)(d := map_of (port_stats sps))"
  by (rule ext) (simp add: stats_view_def update_conv')

lemma known_update: "known_switches (AList.update d sps m) = insert d (known_switches m)"
  by (simp add: known_switches_def dom_update)

lemma ports_ok_update: "ports_ok m \<Longrightarrow> distinct (map fst (port_stats sps)) \<Longrightarrow> ports_ok (AList.update d sps m)"
  by (simp add: ports_ok_def update_conv')

lemma insertElem_ok:
  "map_of (port_stats (insertElem (k, s) sps)) = (if map_of (port_stats sps) k = None then (map_of (port_stats sps))(k \<mapsto> s) else map_of (port_stats sps))"
  "distinct (map fst (port_stats sps)) \<Longrightarrow> distinct (map fst (port_stats (insertElem (k, s) sps)))"
  by (simp_all add: insertElem_def map_of_eq_None_iff)

lemma store_port_ok:
  "map_of (port_stats (store_port s sps)) = (map_of (port_stats sps))(sint (port_no s) \<mapsto> s)"
  "distinct (map fst (port_stats sps)) \<Longrightarrow> distinct (map fst (port_stats (store_port s sps)))"
  by (auto simp: store_port_def Let_def getElem_def setElem_def insertElem_ok update_conv' distinct_update split: option.splits)

lemma store_ports_ok:
  assumes "d \<in> known_switches m" "ports_ok m"
  shows "\<exists>m'. store_ports d ss m = Inr m' \<and> stats_view m' = view_report d ss (stats_view m) \<and> known_switches m' = known_switches m \<and> ports_ok m'"
  using assms
proof (induction ss arbitrary: m)
  case (Cons s ss)
  obtain sps where sps: "map_of m d = Some sps" using Cons.prems by (auto simp: known_iff)
  let ?m = "AList.update d (store_port s sps) m"
  have k: "known_switches ?m = known_switches m" using Cons.prems by (auto simp: known_update)
  have "ports_ok ?m" using Cons.prems(2) sps by (intro ports_ok_update store_port_ok) (auto simp: ports_ok_def)
  then obtain m' where m': "store_ports d ss ?m = Inr m'" "stats_view m' = view_report d ss (stats_view ?m)" "known_switches m' = known_switches ?m" "ports_ok m'"
    using Cons.IH [of ?m] Cons.prems k by auto
  have "stats_view ?m = (stats_view m)(d := (stats_view m d)(sint (port_no s) \<mapsto> s))"
    by (simp add: stats_view_update store_port_ok) (simp add: stats_view_def sps)
  then have "view_report d ss (stats_view ?m) = view_report d (s # ss) (stats_view m)"
    by (auto simp: view_report_def map_of_append fun_eq_iff map_add_def split: option.splits)
  then show ?case using m' by (simp add: sps k)
qed (simp add: view_report_def)

lemma newSwitch_ok:
  "stats_view (newSwitch d m) = stats_view m" "known_switches (newSwitch d m) = insert d (known_switches m)" "ports_ok m \<Longrightarrow> ports_ok (newSwitch d m)"
proof -
  show "stats_view (newSwitch d m) = stats_view m"
    by (rule ext) (simp add: newSwitch_def stats_view_def)
  show "known_switches (newSwitch d m) = insert d (known_switches m)"
    using known_iff [of d m] by (auto simp: newSwitch_def known_switches_def)
  show "ports_ok m \<Longrightarrow> ports_ok (newSwitch d m)"
    by (auto simp: newSwitch_def ports_ok_def)
qed

lemma switch_entry_ok:
  assumes "switch_entry d m = (sps, m1)"
  shows "stats_view m1 = stats_view m" "map_of (port_stats sps) = stats_view m d" "known_switches m1 = insert d (known_switches m)"
    "ports_ok m \<Longrightarrow> ports_ok m1" "ports_ok m \<Longrightarrow> distinct (map fst (port_stats sps))"
proof -
  have "stats_view m1 x = stats_view m x" for x
    using assms by (cases "map_of m d") (auto simp: switch_entry_def Let_def stats_view_def)
  then show "stats_view m1 = stats_view m" by blast
  show "map_of (port_stats sps) = stats_view m d" "ports_ok m \<Longrightarrow> ports_ok m1" "ports_ok m \<Longrightarrow> distinct (map fst (port_stats sps))"
    using assms by (auto simp: switch_entry_def Let_def stats_view_def ports_ok_def split: option.splits if_splits)
  show "known_switches m1 = insert d (known_switches m)"
    using assms known_iff [of d m] by (cases "map_of m d") (auto simp: switch_entry_def Let_def known_switches_def)
qed

lemma handleGET_ok:
  assumes "stats_handleGET overflow blank d which m = (reply, m')" "ports_ok m"
  shows "stats_view m' =
      (if which = ''all'' \<or> stats_view m d (atoi overflow which) \<noteq> None then stats_view m
       else (stats_view m)(d := (stats_view m d)(atoi overflow which \<mapsto> blank)))"
    "known_switches m' = insert d (known_switches m)" "ports_ok m'"
proof -
  obtain sps m1 where e: "switch_entry d m = (sps, m1)" by (cases "switch_entry d m")
  note ok = switch_entry_ok [OF e]
  have m': "m' = m1 \<or> (\<exists>k s. m' = AList.update d (insertElem (k, s) sps) m1)"
    using assms(1) by (auto simp: stats_handleGET_def e Let_def split: if_splits)
  then show "known_switches m' = insert d (known_switches m)" by (elim disjE exE) (simp_all add: known_update ok(3))
  show "ports_ok m'" using m' ok(4,5) [OF assms(2)] by (auto intro: ports_ok_update insertElem_ok(2))
  show "stats_view m' =
      (if which = ''all'' \<or> stats_view m d (atoi overflow which) \<noteq> None then stats_view m
       else (stats_view m)(d := (stats_view m d)(atoi overflow which \<mapsto> blank)))"
  proof (cases "which = ''all''")
    case True
    then show ?thesis using assms(1) ok(1) by (simp add: stats_handleGET_def e)
  next
    case False
    let ?k = "atoi overflow which"
    have "m' = AList.update d (insertElem (?k, case getElem ?k sps of Inr s \<Rightarrow> s | Inl _ \<Rightarrow> blank) sps) m1"
      using assms(1) False by (simp add: stats_handleGET_def e Let_def)
    then have "stats_view m' = (stats_view m)(d := (if stats_view m d ?k = None
        then (stats_view m d)(?k \<mapsto> case getElem ?k sps of Inr s \<Rightarrow> s | Inl _ \<Rightarrow> blank) else stats_view m d))"
      by (simp only: stats_view_update insertElem_ok ok)
    moreover have "stats_view m d ?k = None \<Longrightarrow> (case getElem ?k sps of Inr s \<Rightarrow> s | Inl _ \<Rightarrow> blank) = blank"
      by (simp add: getElem_def ok)
    ultimately show ?thesis using False by simp
  qed
qed

lemma stats_run_ok:
  assumes "reports_ok D es" "D \<subseteq> known_switches m" "ports_ok m"
  shows "\<exists>m'. stats_run overflow blank es m = Inr m' \<and> stats_view m' = stats_spec overflow blank es (stats_view m) \<and> ports_ok m'"
  using assms
proof (induction overflow blank es m arbitrary: D rule: stats_run.induct)
  case (2 overflow blank d es m)
  then show ?case using "2.IH" [of "insert d D"] newSwitch_ok [where d = d and m = m] by auto
next
  case (3 overflow blank d multipart ss es m)
  then have "d \<in> known_switches m" by auto
  then obtain m1 where m1: "portStatsArrived d multipart ss m = Inr m1" "stats_view m1 = (if multipart then view_report d ss (stats_view m) else stats_view m)"
      "known_switches m1 = known_switches m" "ports_ok m1"
    using store_ports_ok [of d m ss] "3.prems" by (cases multipart) (auto simp: portStatsArrived_def)
  then show ?case using "3.IH" [of m1 D] "3.prems" by auto
next
  case (4 overflow blank d which es m)
  obtain reply m1 where g: "stats_handleGET overflow blank d which m = (reply, m1)" by (cases "stats_handleGET overflow blank d which m")
  note ok = handleGET_ok [OF g "4.prems"(3)]
  have "D \<subseteq> known_switches m1" using "4.prems"(2) ok(2) by auto
  then show ?case using "4.IH" [of D] "4.prems"(1) ok by (simp add: g)
qed simp

lemma atoi_dec: "n < 2 ^ 31 \<Longrightarrow> atoi overflow (dec n) = int n"
proof -
  have t: "takeWhile is_digit (dec n) = dec n" using dec_digits [of _ n] by (simp add: takeWhile_eq_all_conv)
  show "n < 2 ^ 31 \<Longrightarrow> atoi overflow (dec n) = int n" unfolding atoi_def t dec_value_dec by (simp add: Let_def)
qed

lemma dec_not_all: "dec n \<noteq> ''all''"
  using dec_digits [of "CHR ''a''" n] by (auto simp: is_digit_def)

lemma handleGET_answer:
  assumes "ports_ok m"
  shows "n < 2 ^ 31 \<Longrightarrow> fst (stats_handleGET overflow blank d (dec n) m) =
      JObj [(dec (unat d), JArr [port_to_json (case stats_view m d (int n) of None \<Rightarrow> blank | Some s \<Rightarrow> s)])]"
    "\<exists>ss. fst (stats_handleGET overflow blank d ''all'' m) = JObj [(dec (unat d), JArr (map port_to_json ss))] \<and> set ss = ran (stats_view m d)"
proof -
  obtain sps m1 where e: "switch_entry d m = (sps, m1)" by (cases "switch_entry d m")
  note ok = switch_entry_ok [OF e]
  show "n < 2 ^ 31 \<Longrightarrow> fst (stats_handleGET overflow blank d (dec n) m) =
      JObj [(dec (unat d), JArr [port_to_json (case stats_view m d (int n) of None \<Rightarrow> blank | Some s \<Rightarrow> s)])]"
    by (simp add: stats_handleGET_def e dec_not_all atoi_dec Let_def getElem_def ok split: option.splits)
  have "set (to_vector sps) = ran (stats_view m d)"
    using ok(5) [OF assms] by (simp add: to_vector_def ok(2) [symmetric] ran_distinct)
  then show "\<exists>ss. fst (stats_handleGET overflow blank d ''all'' m) = JObj [(dec (unat d), JArr (map port_to_json ss))] \<and> set ss = ran (stats_view m d)"
    by (intro exI [of _ "to_vector sps"]) (simp add: stats_handleGET_def e)
qed

text \<open>
  C25: Web clients see the last report of every port. For every sequence of switches discovered, reports of discovered switches and
  requests, no handler throws. A request for all ports of a switch is then answered with the last report of each port that ever reported, and a request for a port, by
  its number, with the last report of this port. A request for a port that never reported is answered with default counters, and leaves a port with these behind that
  every later request for all ports lists.
\<close>

theorem stats_follow_reports:
  assumes "reports_ok {} es"
  shows "\<exists>m. stats_run overflow blank es [] = Inr m \<and>
    (\<forall>d n. n < 2 ^ 31 \<longrightarrow> fst (stats_handleGET overflow blank d (dec n) m) =
       JObj [(dec (unat d), JArr [port_to_json (case stats_spec overflow blank es (\<lambda>_. Map.empty) d (int n) of None \<Rightarrow> blank | Some s \<Rightarrow> s)])]) \<and>
    (\<forall>d. \<exists>ss. fst (stats_handleGET overflow blank d ''all'' m) = JObj [(dec (unat d), JArr (map port_to_json ss))] \<and>
       set ss = ran (stats_spec overflow blank es (\<lambda>_. Map.empty) d))"
proof -
  have "stats_view [] = (\<lambda>_. Map.empty)" "ports_ok []" by (simp_all add: stats_view_def ports_ok_def fun_eq_iff)
  then obtain m where m: "stats_run overflow blank es [] = Inr m" "stats_view m = stats_spec overflow blank es (\<lambda>_. Map.empty)" "ports_ok m"
    using stats_run_ok [OF assms, of "[]" overflow blank] by auto
  then show ?thesis using handleGET_answer [OF m(3)] by (auto simp: m(2))
qed

definition counters :: "u32 \<Rightarrow> u64 \<Rightarrow> PortStats" where
  "counters p n =
     \<lparr>tx_dropped = 0, rx_packets = n, rx_crc_err = 0, tx_bytes = 0, rx_dropped = 0, port_no = p, rx_over_err = 0, rx_frame_err = 0, rx_bytes = 64 * n,
      tx_errors = 0, duration_nsec = 0, collisions = 0, duration_sec = 1, rx_errors = 0, tx_packets = 0\<rparr>"

theorem stats_follow_reports_witness:
  "\<exists>m. stats_run (\<lambda>_. - 1) (counters 0 0) [Discovered 5, Report 5 True [counters 2 10, counters 3 1], Report 5 True [counters 2 11]] [] = Inr m \<and>
     fst (stats_handleGET (\<lambda>_. - 1) (counters 0 0) 5 (dec 2) m) = JObj [(dec 5, JArr [port_to_json (counters 2 11)])] \<and>
     fst (stats_handleGET (\<lambda>_. - 1) (counters 0 0) 5 (dec 9) m) = JObj [(dec 5, JArr [port_to_json (counters 0 0)])]"
proof -
  let ?es = "[Discovered 5, Report 5 True [counters 2 10, counters 3 1], Report 5 True [counters 2 11]]"
  have spec: "stats_spec (\<lambda>_. - 1) (counters 0 0) ?es (\<lambda>_. Map.empty) 5 (int 2) = Some (counters 2 11)"
      "stats_spec (\<lambda>_. - 1) (counters 0 0) ?es (\<lambda>_. Map.empty) 5 (int 9) = None"
    by (simp_all add: view_report_def counters_def)
  have "reports_ok {} ?es" by simp
  from stats_follow_reports [OF this, of "\<lambda>_. - 1" "counters 0 0"] obtain m where "stats_run (\<lambda>_. - 1) (counters 0 0) ?es [] = Inr m"
    and get: "\<And>d n. n < 2 ^ 31 \<Longrightarrow> fst (stats_handleGET (\<lambda>_. - 1) (counters 0 0) d (dec n) m) =
       JObj [(dec (unat d), JArr [port_to_json (case stats_spec (\<lambda>_. - 1) (counters 0 0) ?es (\<lambda>_. Map.empty) d (int n) of None \<Rightarrow> counters 0 0 | Some s \<Rightarrow> s)])]"
    by blast
  moreover have "unat (5 :: u64) = 5" by simp
  ultimately show ?thesis using get [of 2 5] get [of 9 5] unfolding spec by (simp del: stats_run.simps stats_spec.simps of_nat_numeral)
qed

end
