(* ===== verification/Consistent_Topology.thy ===== *)
theory Consistent_Topology
  imports Raft_Server Topology Host_Manager Rest_Text
begin

text \<open>
  The replicated topology: \<open>src/Messaging.cc\<close>. The application turns the links and hosts this controller discovers into client requests of
  the Raft server, polls the storage of the server for committed entries and applies these to a topology that all controllers are to share.

  Three threads share the state; an iteration of each loop is one step (\<open>queue_step\<close>, \<open>checker_step\<close>), the handlers of the signals are steps too. Times are
  arguments. The backup file holds what the Boost archive wrote and gives the same back. What the code reads at the front of an empty queue
  (undefined in C++) is the parameter \<open>stale\<close>: a fault or some request. The hosts are a vector of objects that share their data by
  pointer, so addresses and a heap are modelled; its capacity grows as that of the GNU library. Counters of type \<open>int\<close> are 32-bit words read with
  their sign, except the number of requests made, which is taken to stay below 2 to the power 31.
\<close>

section \<open>State\<close>

record HostVector =
  hv_hosts :: "nat list"
  hv_capacity :: nat
  hv_heap :: "nat \<rightharpoonup> Host"
  hv_next :: nat

definition no_hosts :: HostVector where
  "no_hosts = \<lparr>hv_hosts = [], hv_capacity = 0, hv_heap = Map.empty, hv_next = 1\<rparr>"

record ConsistentTopologyImpl =
  ct_hosts :: HostVector
  ct_impl :: TopologyImpl

definition empty_impl :: TopologyImpl where
  "empty_impl = \<lparr>graph = \<lparr>verts = [], edges = []\<rparr>, vertex_map = Map.empty\<rparr>"

record Messaging =
  client_name :: string
  request_count :: nat
  request_queue :: "ClientRequest list"
  request_times :: "string \<times> string \<rightharpoonup> int"
  local_commited_idx :: u32
  ready_to_on :: bool
  recovery :: bool
  backup_file :: "TopologyImpl option"
  out_times :: "int list"
  replica :: ConsistentTopologyImpl

definition new_Messaging :: "string \<Rightarrow> bool \<Rightarrow> bool \<Rightarrow> Messaging" where
  "new_Messaging name rec ready =
     \<lparr>client_name = name, request_count = 0, request_queue = [], request_times = Map.empty, local_commited_idx = 0, ready_to_on = ready, recovery = rec,
      backup_file = None, out_times = [], replica = \<lparr>ct_hosts = no_hosts, ct_impl = empty_impl\<rparr>\<rparr>"

record MessagingConfig =
  cfg_myidx :: int
  cfg_heartbeat :: int
  cfg_follower_timeout :: int
  cfg_candidate_timeout :: int
  cfg_poll_interval :: int
  cfg_recovery :: bool
  cfg_peers :: "(string \<times> ip_port_t) list"

definition config_get_bool :: "(string \<times> json) list \<Rightarrow> string \<Rightarrow> bool \<Rightarrow> bool" where
  "config_get_bool c k d = (case map_of c k of None \<Rightarrow> d | Some j \<Rightarrow> (case j of JBool b \<Rightarrow> b | _ \<Rightarrow> False))"

definition read_peer :: "json \<Rightarrow> string \<times> ip_port_t" where
  "read_peer j =
     (let cc = object_items j
      in (config_get_string cc ''name'' [],
          \<lparr>ip = config_get_string cc ''ip'' [], port = config_get_int cc ''port'' 0, client_port = config_get_int cc ''cport'' 0\<rparr>))"

definition read_config :: "(string \<times> json) list \<Rightarrow> MessagingConfig res" where
  "read_config config =
     (let app_config = config_cd config ''messaging''
      in case map_of app_config ''peers'' of
           None \<Rightarrow> Inl (Thrown ''std::out_of_range'')
         | Some jpeers \<Rightarrow>
             Inr \<lparr>cfg_myidx = config_get_int app_config ''myidx'' 0, cfg_heartbeat = config_get_int app_config ''heartbeat'' 200,
                  cfg_follower_timeout = config_get_int app_config ''follower_timeout'' 1000,
                  cfg_candidate_timeout = config_get_int app_config ''candidate_timeout'' 500,
                  cfg_poll_interval = config_get_int app_config ''storage_checker_poll_interval'' 10,
                  cfg_recovery = config_get_bool app_config ''recovery_from_file'' False, cfg_peers = map read_peer (array_items jpeers)\<rparr>)"

definition messaging_init :: "bool \<Rightarrow> (string \<times> json) list \<Rightarrow> Messaging res" where
  "messaging_init ready config =
     res_bind (read_config config) (\<lambda>c.
       if 0 \<le> cfg_myidx c \<and> nat (cfg_myidx c) < length (cfg_peers c)
       then Inr (new_Messaging (fst (cfg_peers c ! nat (cfg_myidx c))) (cfg_recovery c) ready) else Inl OutOfRange)"

section \<open>Requests\<close>

fun comma_join :: "string list \<Rightarrow> string" where
  "comma_join [] = []"
| "comma_join [t] = t"
| "comma_join (t # ts) = t @ '','' @ comma_join ts"

text \<open>The next request of this controller and its place in the queue.\<close>

definition push_request :: "int \<Rightarrow> string list \<Rightarrow> Messaging \<Rightarrow> Messaging" where
  "push_request now args m =
     (let n = request_count m + 1; c = client_name m; i = dec n
      in m\<lparr>request_count := n, request_times := (request_times m)((c, i) \<mapsto> now),
           request_queue := request_queue m @ [\<lparr>cr_client_id = c, cr_message_id = i, cr_data = comma_join (c # i # args)\<rparr>]\<rparr>)"

definition link_fields :: "string \<Rightarrow> switch_and_port \<Rightarrow> switch_and_port \<Rightarrow> string list" where
  "link_fields what from to =
     [what, dec (unat (dpid from)), dec (unat (switch_and_port.port from)), dec (unat (dpid to)), dec (unat (switch_and_port.port to))]"

definition msg_onLinkDiscovered :: "int \<Rightarrow> switch_and_port \<Rightarrow> switch_and_port \<Rightarrow> Messaging \<Rightarrow> Messaging" where
  "msg_onLinkDiscovered now from to = push_request now (link_fields ''linkDiscovered'' from to)"

definition msg_onLinkBroken :: "int \<Rightarrow> switch_and_port \<Rightarrow> switch_and_port \<Rightarrow> Messaging \<Rightarrow> Messaging" where
  "msg_onLinkBroken now from to = push_request now (link_fields ''linkBroken'' from to)"

definition msg_onHostDiscovered :: "int \<Rightarrow> Host \<Rightarrow> Messaging \<Rightarrow> Messaging" where
  "msg_onHostDiscovered now dev m =
     (if print_ipv4 (host_ip dev) = ''0.0.0.0'' then m
      else push_request now
        [''hostDiscovered'', dec (host_id dev), host_mac dev, dec (unat (switchID dev)), dec (unat (switchPort dev)), print_ipv4 (host_ip dev)] m)"

text \<open>An iteration of \<open>RequestQueueProcessorThread\<close>.\<close>

definition queue_step :: "Server \<Rightarrow> Messaging \<Rightarrow> (Server \<times> callback list \<times> Messaging) res" where
  "queue_step srv m =
     (case request_queue m of
        [] \<Rightarrow> Inr (srv, [], m)
      | r # _ \<Rightarrow>
          if find_peer (state srv) (leader_id (state srv)) = None then Inr (srv, [], m)
          else res_bind (on_ClientRequest srv r) (\<lambda>(srv', cs). Inr (srv', cs, m\<lparr>ready_to_on := False\<rparr>)))"

section \<open>Committed entries\<close>

fun split_commas :: "string \<Rightarrow> string list" where
  "split_commas [] = [[]]"
| "split_commas (c # cs) =
     (if c = CHR '','' then [] # split_commas cs
      else case split_commas cs of t # ts \<Rightarrow> (c # t) # ts | [] \<Rightarrow> [[c]])"

definition stoull_token :: "string list \<Rightarrow> nat \<Rightarrow> u64 res" where
  "stoull_token tokens i =
     (if length tokens \<le> i then Inl OutOfRange
      else case stoull_value (tokens ! i) of None \<Rightarrow> Inl (Thrown ''std::stoull'') | Some n \<Rightarrow> Inr n)"

definition token_end :: "string list \<Rightarrow> nat \<Rightarrow> switch_and_port res" where
  "token_end tokens i =
     res_bind (stoull_token tokens i) (\<lambda>d. res_bind (stoull_token tokens (i + 1)) (\<lambda>p. Inr \<lparr>dpid = d, port = ucast p\<rparr>))"

definition ct_vertex :: "u64 \<Rightarrow> TopologyImpl \<Rightarrow> (nat \<times> TopologyImpl) res" where
  "ct_vertex d m =
     (case vertex_map m d of
        Some v \<Rightarrow> if verts (graph m) ! v = d then Inr (v, m) else Inl AssertionFailed
      | None \<Rightarrow>
          let v = length (verts (graph m))
          in Inr (v, m\<lparr>graph := (graph m)\<lparr>verts := verts (graph m) @ [d]\<rparr>, vertex_map := (vertex_map m)(d \<mapsto> v)\<rparr>))"

definition link_up :: "switch_and_port \<Rightarrow> switch_and_port \<Rightarrow> TopologyImpl \<Rightarrow> TopologyImpl res" where
  "link_up from to m =
     (if dpid from = dpid to then Inr m
      else
        res_bind (ct_vertex (dpid from) m) (\<lambda>(u, m1).
        res_bind (ct_vertex (dpid to) m1) (\<lambda>(v, m2).
          let added = m2\<lparr>graph := add_edge u v \<lparr>lp_source = from, lp_target = to, lp_weight = 1\<rparr> (graph m2)\<rparr>
          in case edge u v (graph m2) of
               None \<Rightarrow> Inr added
             | Some lp \<Rightarrow>
                 if \<not> (switch_and_port.port from = switch_and_port.port (lp_source lp) \<or> switch_and_port.port to = switch_and_port.port (lp_target lp))
                 then Inr added else Inr m2)))"

definition process_link_discovered :: "string list \<Rightarrow> TopologyImpl \<Rightarrow> TopologyImpl res" where
  "process_link_discovered tokens m = res_bind (token_end tokens 3) (\<lambda>from. res_bind (token_end tokens 5) (\<lambda>to. link_up from to m))"

definition link_down :: "switch_and_port \<Rightarrow> switch_and_port \<Rightarrow> TopologyImpl \<Rightarrow> TopologyImpl res" where
  "link_down from to m =
     res_bind (ct_vertex (dpid from) m) (\<lambda>(u, m1).
     res_bind (ct_vertex (dpid to) m1) (\<lambda>(v, m2). Inr (m2\<lparr>graph := remove_edge u v (graph m2)\<rparr>)))"

definition process_link_broken :: "string list \<Rightarrow> TopologyImpl \<Rightarrow> TopologyImpl res" where
  "process_link_broken tokens m = res_bind (token_end tokens 3) (\<lambda>from. res_bind (token_end tokens 5) (\<lambda>to. link_down from to m))"

text \<open>
  The destructor of a host frees its data, and a copy shares them. Appending to a full vector copies the hosts and destroys the old copies; the
  host that was appended is destroyed at the end of the function.
\<close>

definition free_host :: "nat \<Rightarrow> (nat \<rightharpoonup> Host) \<Rightarrow> (nat \<rightharpoonup> Host) res" where
  "free_host a heap = (if heap a = None then Inl (Thrown ''double free'') else Inr (heap(a := None)))"

fun free_hosts :: "nat list \<Rightarrow> (nat \<rightharpoonup> Host) \<Rightarrow> (nat \<rightharpoonup> Host) res" where
  "free_hosts [] heap = Inr heap"
| "free_hosts (a # as) heap = res_bind (free_host a heap) (free_hosts as)"

definition push_back :: "nat \<Rightarrow> HostVector \<Rightarrow> HostVector res" where
  "push_back a hv =
     (if length (hv_hosts hv) < hv_capacity hv then Inr (hv\<lparr>hv_hosts := hv_hosts hv @ [a]\<rparr>)
      else res_bind (free_hosts (hv_hosts hv) (hv_heap hv)) (\<lambda>heap.
        Inr (hv\<lparr>hv_hosts := hv_hosts hv @ [a], hv_capacity := max 1 (2 * hv_capacity hv), hv_heap := heap\<rparr>)))"

definition process_host_discovered :: "nat \<Rightarrow> string list \<Rightarrow> HostVector \<Rightarrow> HostVector res" where
  "process_host_discovered rnd tokens hv =
     (if length tokens < 8 then Inl OutOfRange
      else
        res_bind (ipv4_of_string (tokens ! 7)) (\<lambda>addr.
        res_bind (stoull_token tokens 5) (\<lambda>sw.
        res_bind (stoull_token tokens 6) (\<lambda>p.
          let a = hv_next hv;
              h = \<lparr>host_id = rnd mod 1000 + 1000, host_mac = tokens ! 4, host_ip = addr, switchID = sw, switchPort = ucast p, host_addr = a\<rparr>
          in res_bind (push_back a (hv\<lparr>hv_heap := (hv_heap hv)(a \<mapsto> h), hv_next := a + 1\<rparr>)) (\<lambda>hv1.
             res_bind (free_host a (hv_heap hv1)) (\<lambda>heap. Inr (hv1\<lparr>hv_heap := heap\<rparr>)))))))"

definition dispatch_entry :: "nat \<Rightarrow> string list \<Rightarrow> ConsistentTopologyImpl \<Rightarrow> ConsistentTopologyImpl res" where
  "dispatch_entry rnd tokens ct =
     (if length tokens \<le> 2 then Inl OutOfRange
      else if tokens ! 2 = ''hostDiscovered'' then
        res_bind (process_host_discovered rnd tokens (ct_hosts ct)) (\<lambda>hv. Inr (ct\<lparr>ct_hosts := hv\<rparr>))
      else if tokens ! 2 = ''linkDiscovered'' then res_bind (process_link_discovered tokens (ct_impl ct)) (\<lambda>m. Inr (ct\<lparr>ct_impl := m\<rparr>))
      else if tokens ! 2 = ''linkBroken'' then res_bind (process_link_broken tokens (ct_impl ct)) (\<lambda>m. Inr (ct\<lparr>ct_impl := m\<rparr>))
      else Inr ct)"

definition dump_topo_to_file :: "Messaging \<Rightarrow> Messaging" where
  "dump_topo_to_file m = (if \<not> recovery m then m else m\<lparr>backup_file := Some (ct_impl (replica m))\<rparr>)"

definition backup_topo_from_file :: "Messaging \<Rightarrow> Messaging" where
  "backup_topo_from_file m =
     (if \<not> recovery m then m
      else case backup_file m of None \<Rightarrow> m | Some t \<Rightarrow> m\<lparr>replica := (replica m)\<lparr>ct_impl := t\<rparr>\<rparr>)"

text \<open>The request of this controller at the front of the queue is removed when its entry is met.\<close>

definition acknowledge :: "int \<Rightarrow> ClientRequest res \<Rightarrow> string list \<Rightarrow> Messaging \<Rightarrow> Messaging res" where
  "acknowledge now stale tokens m =
     res_bind (case request_queue m of [] \<Rightarrow> stale | r # _ \<Rightarrow> Inr r) (\<lambda>front.
       if tokens ! 0 = cr_client_id front \<and> tokens ! 1 = cr_message_id front then
         (let key = (tokens ! 0, tokens ! 1);
              start = (case request_times m key of None \<Rightarrow> 0 | Some t \<Rightarrow> t);
              m1 = dump_topo_to_file (m\<lparr>request_times := (request_times m)(key \<mapsto> start), out_times := out_times m @ [now - start]\<rparr>)
          in case request_queue m of [] \<Rightarrow> Inl OutOfRange | r # rs \<Rightarrow> Inr (m1\<lparr>request_queue := rs, ready_to_on := True\<rparr>))
       else Inr m)"

definition process_entry :: "nat \<Rightarrow> int \<Rightarrow> ClientRequest res \<Rightarrow> Entry \<Rightarrow> Messaging \<Rightarrow> Messaging res" where
  "process_entry rnd now stale e m =
     (let tokens = split_commas (Entry.data e)
      in res_bind (dispatch_entry rnd tokens (replica m)) (\<lambda>ct. acknowledge now stale tokens (m\<lparr>replica := ct\<rparr>)))"

fun process_entries :: "nat \<Rightarrow> int \<Rightarrow> ClientRequest res \<Rightarrow> Entry list \<Rightarrow> Messaging \<Rightarrow> Messaging res" where
  "process_entries rnd now stale [] m = Inr m"
| "process_entries rnd now stale (e # es) m = res_bind (process_entry rnd now stale e m) (process_entries rnd now stale es)"

text \<open>An iteration of \<open>StorageCheckerThread\<close>. The index is narrowed to an \<open>int\<close>, compared with its sign and widened again.\<close>

definition checker_step :: "nat \<Rightarrow> int \<Rightarrow> ClientRequest res \<Rightarrow> MemStorage \<Rightarrow> Messaging \<Rightarrow> Messaging res" where
  "checker_step rnd now stale st m =
     (let raft_log_commited_idx = ucast (ei_index (ls_commit (get_log_state st))) :: u32
      in if sint (local_commited_idx m) < sint raft_log_commited_idx then
           res_bind (entries_since st (word_of_int (sint (local_commited_idx m)))) (\<lambda>es.
           res_bind (process_entries rnd now stale es m) (\<lambda>m1. Inr (m1\<lparr>local_commited_idx := raft_log_commited_idx\<rparr>)))
         else Inr m)"

fun checker_run :: "nat \<Rightarrow> int \<Rightarrow> ClientRequest res \<Rightarrow> MemStorage list \<Rightarrow> Messaging \<Rightarrow> Messaging res" where
  "checker_run rnd now stale [] m = Inr m"
| "checker_run rnd now stale (st # sts) m = res_bind (checker_step rnd now stale st m) (checker_run rnd now stale sts)"

section \<open>The wire form of an event\<close>

datatype link_event = LinkUp switch_and_port switch_and_port | LinkDown switch_and_port switch_and_port

fun apply_link :: "link_event \<Rightarrow> TopologyImpl \<Rightarrow> TopologyImpl res" where
  "apply_link (LinkUp a b) t = link_up a b t"
| "apply_link (LinkDown a b) t = link_down a b t"

fun apply_links :: "link_event list \<Rightarrow> TopologyImpl \<Rightarrow> TopologyImpl res" where
  "apply_links [] t = Inr t"
| "apply_links (ev # evs) t = res_bind (apply_link ev t) (apply_links evs)"

fun event_fields :: "link_event \<Rightarrow> string list" where
  "event_fields (LinkUp a b) = link_fields ''linkDiscovered'' a b"
| "event_fields (LinkDown a b) = link_fields ''linkBroken'' a b"

definition no_comma :: "string \<Rightarrow> bool" where
  "no_comma t \<longleftrightarrow> CHR '','' \<notin> set t"

definition encodes :: "string \<Rightarrow> link_event \<Rightarrow> bool" where
  "encodes d ev \<longleftrightarrow> (\<exists>c i. no_comma c \<and> no_comma i \<and> d = comma_join (c # i # event_fields ev))"

lemma split_commas_plain: "no_comma t \<Longrightarrow> split_commas t = [t]"
  by (induction t) (auto simp: no_comma_def)

lemma split_commas_append: "no_comma t \<Longrightarrow> split_commas (t @ '','' @ s) = t # split_commas s"
  by (induction t) (auto simp: no_comma_def)

lemma split_join: "ts \<noteq> [] \<Longrightarrow> list_all no_comma ts \<Longrightarrow> split_commas (comma_join ts) = ts"
proof (induction ts rule: comma_join.induct)
  case (3 t u ts)
  then show ?case using split_commas_append [of t "comma_join (u # ts)"] by simp
qed (simp_all add: split_commas_plain)

lemma dec_no_comma [simp]: "no_comma (dec n)"
  using dec_digits [of "CHR '',''" n] by (auto simp: no_comma_def is_digit_def)

lemma fields_no_comma: "list_all no_comma (event_fields ev)"
  by (cases ev) (simp_all add: link_fields_def, simp_all add: no_comma_def)

lemma split_encoded: "no_comma c \<Longrightarrow> no_comma i \<Longrightarrow> split_commas (comma_join (c # i # event_fields ev)) = c # i # event_fields ev"
  using fields_no_comma [of ev] by (intro split_join) simp_all

lemma narrow_port: "(ucast (ucast (p :: u32) :: u64) :: u32) = p"
  by (rule bit_word_eqI) (auto simp: bit_simps)

lemma token_end_dec:
  assumes "Suc i < length ts" "ts ! i = dec (unat (dpid a))" "ts ! Suc i = dec (unat (switch_and_port.port a))"
  shows "token_end ts i = Inr a"
proof -
  have "unat (dpid a) < 2 ^ 64" "unat (switch_and_port.port a) < 2 ^ 64"
    by (rule less_le_trans [OF unsigned_less]; simp)+
  from this [THEN stoull_dec] show ?thesis using assms by (cases a) (simp add: token_end_def stoull_token_def narrow_port)
qed

lemma dispatch_encoded:
  assumes "no_comma c" "no_comma i"
  shows "dispatch_entry rnd (c # i # event_fields ev) ct = res_bind (apply_link ev (ct_impl ct)) (\<lambda>t. Inr (ct\<lparr>ct_impl := t\<rparr>))"
proof (cases ev)
  case (LinkUp a b)
  have "token_end (c # i # event_fields ev) 3 = Inr a" "token_end (c # i # event_fields ev) 5 = Inr b"
    by (rule token_end_dec; simp add: LinkUp link_fields_def)+
  then show ?thesis by (simp add: dispatch_entry_def process_link_discovered_def LinkUp link_fields_def)
next
  case (LinkDown a b)
  have "token_end (c # i # event_fields ev) 3 = Inr a" "token_end (c # i # event_fields ev) 5 = Inr b"
    by (rule token_end_dec; simp add: LinkDown link_fields_def)+
  then show ?thesis by (simp add: dispatch_entry_def process_link_broken_def LinkDown link_fields_def)
qed

section \<open>What the replica stands for\<close>

type_synonym link_list = "(switch_and_port \<times> switch_and_port) list"

definition same_ends :: "switch_and_port \<Rightarrow> switch_and_port \<Rightarrow> switch_and_port \<times> switch_and_port \<Rightarrow> bool" where
  "same_ends a b l = (dpid (fst l) = dpid a \<and> dpid (snd l) = dpid b \<or> dpid (fst l) = dpid b \<and> dpid (snd l) = dpid a)"

text \<open>The specification: the links in the order they came up. A link is ignored if the first link between its switches has one of its ports.\<close>

fun spec_link :: "link_event \<Rightarrow> link_list \<Rightarrow> link_list" where
  "spec_link (LinkUp a b) L =
     (if dpid a = dpid b then L
      else case find (same_ends a b) L of
             None \<Rightarrow> L @ [(a, b)]
           | Some l \<Rightarrow> if switch_and_port.port a = switch_and_port.port (fst l) \<or> switch_and_port.port b = switch_and_port.port (snd l) then L else L @ [(a, b)])"
| "spec_link (LinkDown a b) L = filter (\<lambda>l. \<not> same_ends a b l) L"

definition link_ends :: "nat \<times> nat \<times> link_property \<Rightarrow> switch_and_port \<times> switch_and_port" where
  "link_ends e = (case e of (x, y, l) \<Rightarrow> (lp_source l, lp_target l))"

definition abs_links :: "TopologyImpl \<Rightarrow> link_list" where
  "abs_links t = map link_ends (edges (graph t))"

lemma ct_vertex_eq: "ct_vertex = vertex"
  by (intro ext) (simp add: ct_vertex_def vertex_def)

lemma find_ends: "find P (map f xs) = map_option f (find (\<lambda>x. P (f x)) xs)"
  by (induction xs) auto

lemma find_same: "(\<And>x. x \<in> set xs \<Longrightarrow> P x = Q x) \<Longrightarrow> find P xs = find Q xs"
  by (induction xs) auto

lemma joins_same_ends:
  assumes "impl_ok m" "vertex_map m (dpid a) = Some u" "vertex_map m (dpid b) = Some v" "e \<in> set (edges (graph m))"
  shows "joins u v e = same_ends a b (link_ends e)"
proof -
  obtain x y l where e: "e = (x, y, l)" by (cases e)
  have "vertex_map m (dpid (lp_source l)) = Some x" "vertex_map m (dpid (lp_target l)) = Some y"
    using impl_ok_edge [OF assms(1)] assms(4) by (auto simp: e)
  then show ?thesis using assms(2,3) vertex_map_inj [OF assms(1)] by (auto simp: e joins_def same_ends_def link_ends_def)
qed

lemma apply_link_ok:
  assumes "impl_ok t"
  shows "\<exists>t'. apply_link ev t = Inr t' \<and> impl_ok t' \<and> abs_links t' = spec_link ev (abs_links t)"
proof -
  obtain a b where ab: "ev = LinkUp a b \<or> ev = LinkDown a b" by (cases ev) auto
  obtain u v m1 m where m: "vertex (dpid a) t = Inr (u, m1)" "vertex (dpid b) m1 = Inr (v, m)" "impl_ok m"
      "edges (graph m) = edges (graph t)" "vertex_map m (dpid a) = Some u" "vertex_map m (dpid b) = Some v"
    using two_vertices [OF assms] by blast
  note j = joins_same_ends [OF m(3,5,6)]
  have abs: "abs_links m = abs_links t" by (simp add: abs_links_def m(4))
  from ab show ?thesis
  proof
    assume ev: "ev = LinkUp a b"
    let ?add = "m\<lparr>graph := add_edge u v \<lparr>lp_source = a, lp_target = b, lp_weight = 1\<rparr> (graph m)\<rparr>"
    have add: "impl_ok ?add" "abs_links ?add = abs_links t @ [(a, b)]"
      using m(3,5,6) abs by (auto simp: impl_ok_def add_edge_def abs_links_def link_ends_def)
    have "find (joins u v) (edges (graph m)) = find (\<lambda>e. same_ends a b (link_ends e)) (edges (graph m))"
      by (rule find_same) (rule j)
    then have f: "find (same_ends a b) (abs_links t) = map_option link_ends (find (joins u v) (edges (graph m)))"
      by (simp add: abs_links_def find_ends m(4))
    show ?thesis
    proof (cases "dpid a = dpid b")
      case True
      then show ?thesis using assms by (simp add: ev link_up_def)
    next
      case False
      then show ?thesis using m(1,2,3) add f abs
        by (cases "find (joins u v) (edges (graph m))")
           (auto simp: ev link_up_def ct_vertex_eq edge_def Let_def link_ends_def)
    qed
  next
    assume ev: "ev = LinkDown a b"
    have "impl_ok (m\<lparr>graph := remove_edge u v (graph m)\<rparr>)" using m(3) by (auto simp: impl_ok_def remove_edge_def)
    moreover have "filter (\<lambda>e. \<not> joins u v e) (edges (graph m)) = filter (\<lambda>e. \<not> same_ends a b (link_ends e)) (edges (graph m))"
      by (rule filter_cong) (simp_all add: j)
    ultimately show ?thesis using m(1,2) abs
      by (simp add: ev link_down_def ct_vertex_eq abs_links_def remove_edge_def filter_map comp_def m(4))
  qed
qed

lemma apply_links_ok:
  assumes "impl_ok t"
  shows "\<exists>t'. apply_links evs t = Inr t' \<and> impl_ok t' \<and> abs_links t' = fold spec_link evs (abs_links t)"
  using assms
proof (induction evs arbitrary: t)
  case (Cons ev evs)
  obtain t1 where t1: "apply_link ev t = Inr t1" "impl_ok t1" "abs_links t1 = spec_link ev (abs_links t)" using apply_link_ok [OF Cons.prems] by blast
  then show ?case using Cons.IH [OF t1(2)] by simp
qed simp

lemma apply_links_append: "apply_links (xs @ ys) t = res_bind (apply_links xs t) (apply_links ys)"
  by (induction xs arbitrary: t) (auto simp: res_bind_def split: sum.splits)

lemma empty_impl_ok: "impl_ok empty_impl" "abs_links empty_impl = []"
  by (simp_all add: impl_ok_def empty_impl_def abs_links_def)

section \<open>The checker\<close>

definition stale_ok :: "ClientRequest res \<Rightarrow> Entry list \<Rightarrow> bool" where
  "stale_ok stale es \<longleftrightarrow> (\<exists>r. stale = Inr r \<and> (\<forall>e\<in>set es. hd (split_commas (Entry.data e)) \<noteq> cr_client_id r))"

definition link_log :: "Entry list \<Rightarrow> link_event list \<Rightarrow> bool" where
  "link_log es evs = list_all2 (\<lambda>e ev. encodes (Entry.data e) ev) es evs"

lemma acknowledge_ok:
  assumes "stale = Inr r" "tokens ! 0 \<noteq> cr_client_id r"
  shows "\<exists>m'. acknowledge now stale tokens m = Inr m' \<and> replica m' = replica m \<and> local_commited_idx m' = local_commited_idx m"
  using assms by (cases "request_queue m") (auto simp: acknowledge_def dump_topo_to_file_def Let_def)

lemma process_entries_ok:
  assumes "link_log es evs" "stale_ok stale es" "impl_ok (ct_impl (replica m))"
  shows "\<exists>m'. process_entries rnd now stale es m = Inr m' \<and> apply_links evs (ct_impl (replica m)) = Inr (ct_impl (replica m')) \<and>
    local_commited_idx m' = local_commited_idx m"
  using assms
proof (induction es arbitrary: evs m)
  case (Cons e es)
  then obtain ev evs' where evs: "evs = ev # evs'" "encodes (Entry.data e) ev" "link_log es evs'"
    by (auto simp: link_log_def list_all2_Cons1)
  obtain c i where c: "no_comma c" "no_comma i" "Entry.data e = comma_join (c # i # event_fields ev)" using evs(2) by (auto simp: encodes_def)
  have tokens: "split_commas (Entry.data e) = c # i # event_fields ev" using c by (simp only: split_encoded)
  obtain t where t: "apply_link ev (ct_impl (replica m)) = Inr t" "impl_ok t" using apply_link_ok [OF Cons.prems(3)] by blast
  let ?m = "m\<lparr>replica := (replica m)\<lparr>ct_impl := t\<rparr>\<rparr>"
  obtain r where r: "stale = Inr r" "(c # i # event_fields ev) ! 0 \<noteq> cr_client_id r"
    using Cons.prems(2) tokens by (auto simp: stale_ok_def)
  from acknowledge_ok [OF this, of now ?m] obtain m1 where m1: "acknowledge now stale (c # i # event_fields ev) ?m = Inr m1" "replica m1 = replica ?m"
      "local_commited_idx m1 = local_commited_idx m"
    by auto
  have "process_entry rnd now stale e m = Inr m1"
    by (simp add: process_entry_def tokens dispatch_encoded [OF c(1,2)] t(1) m1(1))
  moreover have "stale_ok stale es" using Cons.prems(2) by (auto simp: stale_ok_def)
  ultimately show ?case using Cons.IH [OF evs(3), of m1] t m1 by (simp add: evs(1))
qed (simp add: link_log_def)

text \<open>The storages the polls see: all entries committed, and each log a prefix of the next.\<close>

definition polls_ok :: "MemStorage list \<Rightarrow> bool" where
  "polls_ok sts \<longleftrightarrow> (\<forall>st\<in>set sts. storage_ok st \<and> st_committed st = length (st_entries st)) \<and>
     sorted_wrt (\<lambda>s t. take (length (st_entries s)) (st_entries t) = st_entries s \<and> length (st_entries s) \<le> length (st_entries t)) sts"

lemma sint_count: "n < 2 ^ 31 \<Longrightarrow> sint (of_nat n :: u32) = int n"
  by (simp add: signed_of_nat signed_take_bit_int_eq_self)

lemma index_narrow:
  assumes "unat (i :: u64) < 2 ^ 31"
  shows "sint (ucast i :: u32) = int (unat i)" "(ucast i :: u32) = of_nat (unat i)"
proof -
  show n: "(ucast i :: u32) = of_nat (unat i)" by simp
  show "sint (ucast i :: u32) = int (unat i)" unfolding n by (rule sint_count [OF assms])
qed

text \<open>What is known between two polls: the events of the first entries of the log were applied.\<close>

definition applied :: "Messaging \<Rightarrow> link_event list \<Rightarrow> bool" where
  "applied m evs \<longleftrightarrow> length evs < 2 ^ 31 \<and> local_commited_idx m = of_nat (length evs) \<and> apply_links evs empty_impl = Inr (ct_impl (replica m))"

lemma applied_impl_ok: "applied m evs \<Longrightarrow> impl_ok (ct_impl (replica m))"
  using apply_links_ok [OF empty_impl_ok(1), of evs] by (auto simp: applied_def)

lemma checker_step_ok:
  assumes "storage_ok st" "st_committed st = length (st_entries st)" "length (st_entries st) < 2 ^ 31"
    "link_log (st_entries st) evs" "stale_ok stale (st_entries st)" "applied m (take n evs)" "n \<le> length evs"
  shows "\<exists>m'. checker_step rnd now stale st m = Inr m' \<and> applied m' evs"
proof -
  have len: "length evs = length (st_entries st)" using assms(4) by (simp add: link_log_def list_all2_lengthD)
  define c where "c = (ucast (ei_index (ls_commit (get_log_state st))) :: u32)"
  have c: "sint c = int (length evs)" "c = of_nat (length evs)"
    using index_narrow [of "ei_index (st_commit st)"] assms(3)
    unfolding c_def get_log_state_def LogState.simps len assms(2) [symmetric] st_committed_def by blast+
  have l: "sint (local_commited_idx m) = int n" using assms(3,6,7) len by (simp add: applied_def sint_count)
  show ?thesis
  proof (cases "n = length evs")
    case True
    then show ?thesis using assms(6) c l by (simp add: checker_step_def c_def [symmetric])
  next
    case False
    have es: "entries_since st (word_of_int (int n)) = Inr (drop n (st_entries st))"
      using mem.since_law [OF assms(1), of "word_of_int (int n)"] assms(3,7) len by (simp add: unat_of_nat)
    have "link_log (drop n (st_entries st)) (drop n evs)" using assms(4) by (simp add: link_log_def list_all2_dropI)
    moreover have "stale_ok stale (drop n (st_entries st))" using assms(5) by (auto simp: stale_ok_def dest: in_set_dropD)
    ultimately obtain m1 where m1: "process_entries rnd now stale (drop n (st_entries st)) m = Inr m1"
        "apply_links (drop n evs) (ct_impl (replica m)) = Inr (ct_impl (replica m1))"
      using process_entries_ok [OF _ _ applied_impl_ok [OF assms(6)]] by blast
    have "apply_links evs empty_impl = Inr (ct_impl (replica m1))"
      using apply_links_append [of "take n evs" "drop n evs" empty_impl] assms(6) m1(2) by (simp add: applied_def)
    then show ?thesis using False assms(3,7) len m1(1) es c l
      by (simp add: checker_step_def c_def [symmetric] applied_def)
  qed
qed

lemma checker_run_ok:
  assumes "polls_ok sts" "link_log (st_entries (last sts)) evs" "stale_ok stale (st_entries (last sts))" "length evs < 2 ^ 31" "sts \<noteq> []"
    "applied m (take n evs)" "n \<le> length (st_entries (hd sts))"
  shows "\<exists>m'. checker_run rnd now stale sts m = Inr m' \<and> applied m' evs"
  using assms
proof (induction sts arbitrary: m n)
  case (Cons st sts)
  have len: "length evs = length (st_entries (last (st # sts)))" using Cons.prems(2) by (simp add: link_log_def list_all2_lengthD)
  let ?k = "length (st_entries st)"
  have pre: "st_entries st = take ?k (st_entries (last (st # sts)))" "?k \<le> length evs"
    using Cons.prems(1) by (auto simp: polls_ok_def len)
  have log: "link_log (st_entries st) (take ?k evs)"
    using Cons.prems(2) pre by (metis link_log_def list_all2_takeI)
  have stale: "stale_ok stale (st_entries st)" using Cons.prems(3) pre(1) by (auto simp: stale_ok_def) (metis in_set_takeD)
  have "take n (take ?k evs) = take n evs" using Cons.prems(7) by (simp add: min_absorb1)
  then obtain m1 where m1: "checker_step rnd now stale st m = Inr m1" "applied m1 (take ?k evs)"
    using checker_step_ok [OF _ _ _ log stale, of m n rnd now] Cons.prems pre(2) by (auto simp: polls_ok_def)
  show ?case
  proof (cases "sts = []")
    case True
    then show ?thesis using m1 pre(2) len by simp
  next
    case False
    have "polls_ok sts" "?k \<le> length (st_entries (hd sts))" using Cons.prems(1) False by (auto simp: polls_ok_def)
    then show ?thesis using Cons.IH [OF _ _ _ _ False m1(2)] Cons.prems(2-4) False m1(1) by simp
  qed
qed simp

section \<open>Properties\<close>


definition demo_link :: "u64 \<Rightarrow> u64 \<Rightarrow> link_event" where
  "demo_link x y = LinkUp \<lparr>dpid = x, port = 1\<rparr> \<lparr>dpid = y, port = 2\<rparr>"

definition demo_link_entry :: "u64 \<Rightarrow> link_event \<Rightarrow> Entry" where
  "demo_link_entry k ev = \<lparr>info = \<lparr>ei_index = k, ei_term = 1\<rparr>, data = comma_join (''First'' # dec (unat k) # event_fields ev)\<rparr>"

definition demo_store :: "Entry list \<Rightarrow> u64 \<Rightarrow> MemStorage" where
  "demo_store es c =
     \<lparr>st_entries = es, st_log_file = [], st_voted_for = [], st_uncommit = info (last es), st_commit = info (es ! (unat c - 1)), st_current_term = 1\<rparr>"

definition nobody :: ClientRequest where
  "nobody = \<lparr>cr_client_id = [], cr_message_id = [], cr_data = []\<rparr>"

lemma demo_info [simp]: "ei_index (info (demo_link_entry k ev)) = k"
  by (simp add: demo_link_entry_def)

lemma demo_encodes: "encodes (Entry.data (demo_link_entry k ev)) ev"
  unfolding encodes_def demo_link_entry_def by (intro exI [of _ "''First''"] exI [of _ "dec (unat k)"]) (simp add: no_comma_def [of "''First''"])

lemma demo_client: "hd (split_commas (Entry.data (demo_link_entry k ev))) = ''First''"
  using split_encoded [of "''First''" "dec (unat k)" ev] by (simp add: demo_link_entry_def no_comma_def [of "''First''"])

definition demo_log :: "Entry list" where
  "demo_log = [demo_link_entry 1 (demo_link 1 2), demo_link_entry 2 (demo_link 2 3)]"

lemma demo_store_ok: "numbered es \<Longrightarrow> es \<noteq> [] \<Longrightarrow> 0 < unat c \<Longrightarrow> unat c \<le> length es \<Longrightarrow> storage_ok (demo_store es c)"
  unfolding storage_ok_def by (auto simp: demo_store_def info_at_def last_conv_nth intro!: exI [of _ "unat c"])

lemma demo_numbered: "numbered [demo_link_entry 1 x]" "numbered [demo_link_entry 1 x, demo_link_entry 2 y]"
  by (simp_all add: numbered_def less_Suc_eq)

lemma demo_log_ok:
  "polls_ok [demo_store [demo_link_entry 1 (demo_link 1 2)] 1, demo_store demo_log 2]" "polls_ok [demo_store demo_log 2]"
  "link_log demo_log [demo_link 1 2, demo_link 2 3]" "stale_ok (Inr nobody) demo_log"
proof -
  have "storage_ok (demo_store [demo_link_entry 1 (demo_link 1 2)] 1)" "storage_ok (demo_store demo_log 2)"
    using demo_numbered by (auto simp: demo_log_def intro!: demo_store_ok)
  then show "polls_ok [demo_store [demo_link_entry 1 (demo_link 1 2)] 1, demo_store demo_log 2]" "polls_ok [demo_store demo_log 2]"
    by (simp_all add: polls_ok_def st_committed_def demo_store_def demo_log_def)
  show "link_log demo_log [demo_link 1 2, demo_link 2 3]" "stale_ok (Inr nobody) demo_log"
    by (simp_all add: link_log_def demo_log_def demo_encodes stale_ok_def demo_client nobody_def)
qed



fun send_event :: "int \<Rightarrow> link_event \<Rightarrow> Messaging \<Rightarrow> Messaging" where
  "send_event now (LinkUp a b) m = msg_onLinkDiscovered now a b m"
| "send_event now (LinkDown a b) m = msg_onLinkBroken now a b m"

lemma send_event_eq: "send_event now ev m = push_request now (event_fields ev) m"
  by (cases ev) (simp_all add: msg_onLinkDiscovered_def msg_onLinkBroken_def)



text \<open>
  The queue thread sends the request at the front again every second until its entry is met, so a request may be in the log more than once. A repeated link
  changes nothing exactly if no other link between the switches came first.
\<close>

theorem repeated_link_ignored:
  "spec_link (LinkUp a b) (spec_link (LinkUp a b) L) = spec_link (LinkUp a b) L \<longleftrightarrow>
     dpid a = dpid b \<or>
     (case find (same_ends a b) L of None \<Rightarrow> True
      | Some l \<Rightarrow> switch_and_port.port a = switch_and_port.port (fst l) \<or> switch_and_port.port b = switch_and_port.port (snd l))"
  by (cases "find (same_ends a b) L") (auto simp: find_append same_ends_def)

text \<open>An entry meets an empty queue on every controller that waits for nothing; the front of the queue is read all the same.\<close>

theorem empty_queue_read:
  assumes "request_queue m = []" "encodes (Entry.data e) ev" "impl_ok (ct_impl (replica m))"
  shows "process_entry rnd now (Inl fault) e m = Inl fault"
proof -
  obtain c i where c: "no_comma c" "no_comma i" "Entry.data e = comma_join (c # i # event_fields ev)" using assms(2) by (auto simp: encodes_def)
  have tokens: "split_commas (Entry.data e) = c # i # event_fields ev" using c by (simp only: split_encoded)
  obtain t where "apply_link ev (ct_impl (replica m)) = Inr t" using apply_link_ok [OF assms(3)] by blast
  then show ?thesis using assms(1) by (simp add: process_entry_def tokens dispatch_encoded [OF c(1,2)] acknowledge_def)
qed

text \<open>
  The vector of hosts keeps a pointer to data that were freed. The second host makes the vector grow, which frees these data again, and the
  process ends.
\<close>

theorem second_host_double_free:
  assumes "process_host_discovered rnd1 tokens1 no_hosts = Inr hv" "process_host_discovered rnd2 tokens2 no_hosts = Inr hv'"
  shows "hv_hosts hv = [1] \<and> hv_heap hv 1 = None \<and> process_host_discovered rnd2 tokens2 hv = Inl (Thrown ''double free'')"
proof -
  have "hv_hosts hv = [1] \<and> hv_heap hv = Map.empty \<and> hv_capacity hv = 1 \<and> hv_next hv = 2"
    using assms(1) by (auto simp: process_host_discovered_def no_hosts_def push_back_def free_host_def res_bind_eq_Inr Let_def split: if_splits)
  then show ?thesis using assms(2)
    by (auto simp: process_host_discovered_def push_back_def free_host_def res_bind_eq_Inr Let_def split: if_splits)
qed

end
