(* ===== verification/Spec2Isabelle.thy ===== *)
theory Spec2Isabelle
  imports Raft_Safety Raft_Net STP Learning_Switch Controller_Core Arp_Handler App_Loader Flow_Manager Switch_Stats Consistent_Topology
begin

text \<open>
  \<^bold>\<open>The program.\<close> The repository is a version of the RuNOS OpenFlow controller with a Raft server added. Switches
  connect to the controller; packets no rule handles run through a pipeline of handlers, each of which may change a forwarding decision; the
  Maple runtime records which fields a handler looked at and turns the record into rules for the switch. Around the pipeline are
  applications that follow the network by signals: the switch manager, link discovery, the topology with its routes, the spanning
  tree, the hosts, and an event log that web clients poll. Other applications let web clients read statistics and rules and add or delete rules. The Raft
  server replicates a log between controllers over TCP; the messaging application writes the links each controller discovers to this log and builds a
  topology from it that all controllers are to share. The loader starts the applications in the order of their dependencies.

  \<^bold>\<open>The theories.\<close> Every theory models files of \<open>src\<close>, with the names of the code; the state of an object is a
  record, an operation is a function that returns the new state, the messages or signals it sends, and an exception, failed assertion, exit or
  undefined access is a value of the type \<open>fault\<close> of \<open>Prelude\<close>.

  \<^item> \<open>Raft_Types\<close>, \<open>Raft_Storage\<close>, \<open>Raft_Server\<close>: \<open>raft/raft_entry.hpp\<close>, \<open>raft_rpc.hpp\<close>, \<open>raft_state.hpp\<close>, \<open>mem_storage.cpp\<close>,
    \<open>raft_server.ipp\<close>. The whole node: timeouts, votes, appending, commits, client requests. \<open>Raft_Storage\<close> shows that the
    storage refines a log with a commit index, and how a follower takes over the log of a leader.
  \<^item> \<open>Raft_Cluster\<close>, \<open>Raft_Safety\<close>: runs of any number of nodes as a step relation over messages in flight. One leader per term
    (while votes are delivered in their term), committed entries of a node never change, the majority index is a quorum index; and two
    runs of the code that break what Raft promises when a vote arrives late or the term of the previous entry differs.
  \<^item> \<open>Raft_Serialize\<close>, \<open>Raft_Session\<close>, \<open>Raft_Net\<close>: \<open>simple_serialize\<close>, \<open>asio_tcp_session.cpp\<close>, \<open>asio_tcp_server.cpp\<close>,
    \<open>simple_message_processor\<close>. The wire format with its round trip through sessions that cut the stream anywhere, the queue of writes, and
    who is told about commits.
  \<^item> \<open>Net_Addr\<close>, \<open>Decisions\<close>, \<open>Oxm\<close>: \<open>types/ethaddr.cc\<close>, \<open>IPv4Addr.cc\<close>, \<open>IPv6Addr.cc\<close>, \<open>Decision.cc\<close>, \<open>oxm/field.hh\<close>,
    \<open>field_set.hh\<close>. Addresses with their texts, decisions with their timeouts, masked fields and sets of fields.
  \<^item> \<open>Maple\<close>, \<open>Maple_Sound\<close>, \<open>Maple_Compile\<close>: \<open>maple/\<close>. The trace tree, the tracing packet, the runtime and the compiler. For every
    policy a packet that is looked up gets the decision of the policy; the compiled rules agree with the tree.
  \<^item> \<open>Packet_Parser\<close>: \<open>PacketParser.cc\<close>, \<open>types/bits.hh\<close>. Parsing of frames over their bytes; the locale \<open>packet_impl\<close> states what a
    policy needs of a packet, and is interpreted by header fields and by parsed frames, so that results about policies hold for both.
  \<^item> \<open>Link_Discovery\<close>, \<open>Topology\<close>, \<open>STP\<close>, \<open>Learning_Switch\<close>: \<open>LinkDiscovery.cc\<close>, \<open>Topology.cc\<close>, \<open>STP.cc\<close>, \<open>LearningSwitch.cc\<close>,
    \<open>SimpleLearningSwitch.cc\<close>. They are composed by their signals: the topology lists the links link discovery knows, routes are shortest over
    them, flooding is open exactly along the spanning tree, and a packet to a known host is carried to it.
  \<^item> \<open>Event_Log\<close>, \<open>Rest_Listener\<close>, \<open>Switch_Manager\<close>, \<open>Host_Manager\<close>: \<open>Event.cc\<close>, \<open>RestListener.cc\<close>, \<open>Rest.hh\<close>, \<open>Switch.cc\<close>,
    \<open>HostManager.cc\<close>. A polling client knows the objects that exist; the masks of handlers; served files stay below their
    directory; signals follow the port tables, links go before their switch, and the host table refines a map.
  \<^item> \<open>Flow_State\<close>, \<open>Switch_Scope\<close>, \<open>Scope_Sound\<close>, \<open>Scope_Packets\<close>, \<open>Controller_Core\<close>: \<open>Flow.cc\<close>, \<open>Controller.cc\<close>, \<open>OFMsgUnion.cc\<close>,
    \<open>SwitchConnection.cc\<close>. The life of a flow, the scope of a switch with its pipeline, tables and flows on top of the Maple runtime, and
    the controller with its registrations, connections and transactions. A packet of a new class is served as the pipeline
    decides; the handler never throws on a decided packet; the state of a flow follows the rule on the switch; replies
    reach the transaction that asked; unmatched packets reach the controller through all tables.
  \<^item> \<open>Arp_Handler\<close>: \<open>ArpHandler.cc\<close>. Requests for known hosts are answered by frames the packet parser reads as the right reply.
  \<^item> \<open>Consistent_Topology\<close>: \<open>Messaging.cc\<close>. Requests, the polls of the storage of the Raft server (through the interface \<open>raft_log\<close>), and the shared
    graph. Controllers that see the same committed log hold the same graph however their polls divide it; a link event survives the trip
    through the log.
  \<^item> \<open>App_Loader\<close>: \<open>Loader.cc\<close>. Start-up ends, and initialises what is needed once, after its dependencies.
  \<^item> \<open>Rest_Text\<close>, \<open>Rest_Match\<close>, \<open>Rest_Flow\<close>: \<open>RestStringProcessing\<close>, \<open>Config.hh\<close>, \<open>RestFlowMod.cc\<close>. Numbers, addresses, matches and actions as JSON in both
    directions, and the requests that add, delete and clear rules. What is printed is read back, except for the listed actions; the match of a
    request is well typed; rules are added only below the table of the pipeline.
  \<^item> \<open>Flow_Manager\<close>, \<open>Static_Flows\<close>, \<open>Switch_Stats\<close>: \<open>FlowManager.cc\<close>, \<open>StaticFlowPusher.cc\<close>, \<open>Stats.cc\<close>. The rules of a switch follow its reports (over
    the interface \<open>object_log\<close> of the event log); the rules sent from the configuration have their own table, well-typed matches and positive
    priorities; the counters of a port are those of its last report.

  \<^bold>\<open>Machine integers, loops, parameters.\<close> Integers of the code are words of their width wherever a bound matters (terms and indices of Raft, ports, switch
  numbers, masks, priorities); the event counter is a number reduced modulo \<open>2^32\<close>. Loops are structural recursion, functions with
  a termination proof, or, for the loop over predecessors in \<open>computeRoute\<close>, a partial function with a proof that it returns. \<open>carry\<close>, which
  follows a packet through the network, takes the number of switches to ask; half the length of any route, plus one, is enough. Code
  outside the repository is a parameter: the parser of json11, the texts of addresses and the default values of libfluid, what a read of an
  uninitialised variable or of the front of an empty queue gives, the shortest-path and spanning-tree searches of Boost (with their documented results as hypotheses,
  which \<open>bfs\<close> is proved to meet), random numbers, clocks, and whether assertions are compiled in.

  \<^bold>\<open>What goes wrong.\<close> Some theorems are about runs in which the code does not do what it means to: late votes and diverging logs in Raft,
  announcements of commits that skip the newest entry, dangling iterators in link discovery, null pointers after a link of a
  switch to itself or a switch that leaves before its links, parallel links that are lost together, ports that stay closed, switch addresses that are
  never forgotten, barriers that are never installed, a packet no handler decides that takes all rules of its switch down, a switch that is silenced by
  the end of its old connection, log entries that are applied before they are committed, hosts whose data are freed twice, tables read from uninitialised
  memory, priorities that wrap around. The properties of these components say under which conditions on the environment they cannot happen.

  \<^bold>\<open>Not modelled.\<close> \<open>RestMultipart.cc\<close>, which waits in a nested event loop for the reply of a switch and prints it with the functions of
  \<open>Rest_Match\<close>; \<open>FluidOXMAdapter.cc\<close>, which copies fields into the classes of libfluid; \<open>WebUIManager.cc\<close> and \<open>CBench.cc\<close>, which have no logic of
  their own; the entry point \<open>Main.cc\<close>; vendored JSON code and the OpenFlow headers. Logging and locks are left out throughout: operations are
  atomic, as they run in one event loop, and the loops of the threads of \<open>Messaging.cc\<close> are taken one iteration at a time. Messages to switches hold the fields
  the code sets; their encoding is libfluid's.
\<close>

end
